(* ===== verification/Prelude.thy ===== *)
theory Prelude
  imports Main "HOL-Library.Word"
begin

text \<open>
  Shared vocabulary of the development: the C integer types as fixed-width words, the NULL
  pointer, the page constants of \<open>include/kernel/memory.h\<close>, the processor faults that end a
  kernel operation, and the generic facts on words and lists the components share.
\<close>

unbundle bit_operations_syntax

named_theorems irq_simps \<open>operations that save, clear and restore the interrupt flag\<close>
named_theorems list_links \<open>linked lists under updates of the link function\<close>

type_synonym u8 = "8 word"
type_synonym u16 = "16 word"
type_synonym u32 = "32 word"
type_synonym u64 = "64 word"
type_synonym ptr = "64 word"

abbreviation (input) NULL :: ptr where "NULL \<equiv> 0"

text \<open>A processor exception that the kernel has no way to continue from.\<close>

datatype fault = Divide_Error

subsection \<open>Words\<close>

lemma unat_Suc_below:
  fixes a b :: "'a::len word"
  assumes "a < b"
  shows "unat (a + 1) = unat a + 1"
proof -
  have "a + 1 \<noteq> 0"
  proof
    assume "a + 1 = 0"
    then have "a = -1" by (simp add: add_eq_0_iff2)
    then have "b \<le> a" by simp
    with assms show False by simp
  qed
  then show ?thesis
    by (metis add.commute unatSuc Suc_eq_plus1)
qed

lemma unat_less_iff: "(a::'a::len word) < b \<longleftrightarrow> unat a < unat b"
  by (rule word_less_nat_alt)

lemma unat_le_iff: "(a::'a::len word) \<le> b \<longleftrightarrow> unat a \<le> unat b"
  by (rule word_le_nat_alt)

lemma unat64_less: "unat (x::u64) < 18446744073709551616"
  using unsigned_less [of x] by simp

lemma unat_ucast_32_64 [simp]: "unat (ucast (x::u32) :: u64) = unat x"
proof -
  have "unat x < 2 ^ LENGTH(32)" by (rule unsigned_less)
  then show ?thesis by (simp add: unsigned_ucast_eq take_bit_nat_eq_self)
qed

subsection \<open>Pages\<close>

text \<open>
  Rounding to page boundaries, as the code writes it with the mask \<open>~(PAGE_SIZE - 1)\<close>, and its
  arithmetic meaning.
\<close>

abbreviation (input) PAGE_SIZE :: u64 where "PAGE_SIZE \<equiv> 4096"

definition page_down :: "u64 \<Rightarrow> u64" where
  "page_down x = x AND NOT (PAGE_SIZE - 1)"

definition page_up :: "u64 \<Rightarrow> u64" where
  "page_up x = page_down (x + PAGE_SIZE - 1)"

definition page_aligned :: "u64 \<Rightarrow> bool" where
  "page_aligned x \<longleftrightarrow> 4096 dvd unat x"

lemma page_down_minus: "page_down x = x - take_bit 12 x"
proof -
  have "page_down x = x AND NOT (mask 12)"
    by (simp add: page_down_def mask_eq_exp_minus_1)
  also have "\<dots> = x AND NOT (take_bit 12 x)"
    by (rule bit_word_eqI) (auto simp: bit_simps)
  also have "\<dots> = x - take_bit 12 x"
    by (rule disjunctive_diff [symmetric]) (auto simp: bit_simps)
  finally show ?thesis .
qed

lemma unat_take_bit_mod: "unat (take_bit n (x::'a::len word)) = unat x mod 2 ^ n"
  unfolding unsigned_take_bit_eq by (rule take_bit_eq_mod)

lemma unat_page_down: "unat (page_down x) = unat x div 4096 * 4096"
proof -
  have t: "unat (take_bit 12 x) = unat x mod 4096"
    by (simp add: unat_take_bit_mod)
  then have "take_bit 12 x \<le> x"
    by (simp add: unat_le_iff)
  then have "unat (page_down x) = unat x - unat x mod 4096"
    by (simp add: page_down_minus unat_sub t)
  then show ?thesis
    by (simp add: minus_mod_eq_div_mult)
qed

lemma page_aligned_page_down [simp]: "page_aligned (page_down x)"
  by (simp add: page_aligned_def unat_page_down)

lemma page_down_le: "unat (page_down x) \<le> unat x"
  by (simp add: unat_page_down)

lemma unat_page_up:
  assumes "unat x + 4095 < 2 ^ 64"
  shows "unat (page_up x) = (unat x + 4095) div 4096 * 4096"
proof -
  have "x + PAGE_SIZE - 1 = x + 4095" by simp
  moreover have "unat (x + 4095) = unat x + 4095"
    using assms by (simp add: unat_word_ariths)
  ultimately show ?thesis unfolding page_up_def unat_page_down by metis
qed

lemma int_unat_uint: "int (unat (w::'a::len word)) = uint w"
  by (rule uint_nat [symmetric])

lemma sint_small: "unat w < 2 ^ 31 \<Longrightarrow> sint (w::u32) = int (unat w)"
proof -
  assume "unat w < 2 ^ 31"
  then have "int (unat w) < int (2 ^ 31)" by (simp only: of_nat_less_iff)
  then have "uint w < 2 ^ 31" by (simp add: int_unat_uint)
  moreover have "- (2 ^ 31) \<le> uint w" by (rule order_trans [OF _ uint_ge_0]) simp
  ultimately have "signed_take_bit 31 (uint w) = uint w" by (rule signed_take_bit_int_eq_self [rotated])
  then show ?thesis by (simp add: sint_uint int_unat_uint)
qed

lemma sint_ucast_small: "unat (x::u64) < 2 ^ 31 \<Longrightarrow> sint (ucast x :: u32) = int (unat x)"
  using sint_small [of "ucast x"] by (simp add: unsigned_ucast_eq take_bit_nat_eq_self)

subsection \<open>Lists\<close>

text \<open>The index of the first element with a property: a \<open>for\<close> loop that breaks at it.\<close>

primrec first_index :: "('a \<Rightarrow> bool) \<Rightarrow> 'a list \<Rightarrow> nat option" where
  "first_index P [] = None"
| "first_index P (x # xs) = (if P x then Some 0 else map_option Suc (first_index P xs))"

lemma first_index_None: "first_index P xs = None \<longleftrightarrow> (\<forall>x \<in> set xs. \<not> P x)"
  by (induction xs) auto

lemma first_index_Some:
  "first_index P xs = Some i \<Longrightarrow> i < length xs \<and> P (xs ! i) \<and> (\<forall>j < i. \<not> P (xs ! j))"
proof (induction xs arbitrary: i)
  case Nil
  then show ?case by simp
next
  case (Cons x xs)
  show ?case
  proof (cases "P x")
    case True
    with Cons.prems show ?thesis by auto
  next
    case False
    with Cons.prems obtain k where "i = Suc k" "first_index P xs = Some k" by auto
    with Cons.IH [of k] False show ?thesis by (auto simp: nth_Cons less_Suc_eq_0_disj)
  qed
qed

lemma upt_map_snoc: "map f [0..<Suc n] = map f [0..<n] @ [f n]"
  by simp

lemma upt_map_shift: "0 < n \<Longrightarrow> map f [0..<n] = f 0 # map (\<lambda>i. f (Suc i)) [0..<n - 1]"
  by (cases n) (simp_all add: upt_conv_Cons map_Suc_upt [symmetric] del: upt_Suc)

end
