(* ===== verification/Machine.thy ===== *)
theory Machine
  imports Prelude
begin

text \<open>
  The part of the processor the kernel code observes: the interrupt flag that
  \<open>CLI\<close> and \<open>STI\<close> of \<open>src/x86_64/interrupts/interrupts.c\<close> clear and set, and whether the
  kernel has executed \<open>hlt\<close> on a path it never leaves. Components work on \<open>cpu_scheme\<close>,
  so the record can be extended with their own state.
\<close>

record cpu =
  IF_flag :: bool
  halted :: bool

definition CLI :: "'c cpu_scheme \<Rightarrow> 'c cpu_scheme" where
  "CLI c = c\<lparr>IF_flag := False\<rparr>"

definition STI :: "'c cpu_scheme \<Rightarrow> 'c cpu_scheme" where
  "STI c = c\<lparr>IF_flag := True\<rparr>"

definition are_interrupts_enabled :: "'c cpu_scheme \<Rightarrow> bool" where
  "are_interrupts_enabled c = IF_flag c"

definition HLT :: "'c cpu_scheme \<Rightarrow> 'c cpu_scheme" where
  "HLT c = c\<lparr>halted := True\<rparr>"

text \<open>After \<open>hlt\<close> with interrupts off no further code of the path runs.\<close>

definition alive :: "('c cpu_scheme \<Rightarrow> 'c cpu_scheme) \<Rightarrow> 'c cpu_scheme \<Rightarrow> 'c cpu_scheme" where
  "alive f c = (if halted c then c else f c)"

text \<open>
  The two idioms around critical sections. Some functions clear the flag only when it was set
  (\<open>if (ints_enabled) CLI();\<close>), others always; all restore with \<open>if (ints_enabled) STI();\<close>.
\<close>

definition irq_restore :: "bool \<Rightarrow> 'c cpu_scheme \<Rightarrow> 'c cpu_scheme" where
  "irq_restore ints_enabled c = (if ints_enabled then STI c else c)"

lemma irq_restore_CLI [irq_simps]: "irq_restore (are_interrupts_enabled c) (CLI c) = c"
  by (cases c) (simp add: irq_restore_def CLI_def STI_def are_interrupts_enabled_def)

lemma irq_restore_cond_CLI [irq_simps]:
  "irq_restore (are_interrupts_enabled c) (if are_interrupts_enabled c then CLI c else c) = c"
  by (cases c) (simp add: irq_restore_def CLI_def STI_def are_interrupts_enabled_def)

end
