(* ===== verification/Pic.thy ===== *)
theory Pic
  imports Machine
begin

text \<open>
  The driver of the two cascaded 8259 interrupt controllers, \<open>src/x86_64/interrupts/pic.c\<close>. The
  chips themselves are hardware: \<open>pic8259\<close> keeps what the driver can observe of one (where it is
  in its initialisation sequence, its vector base, its mask register and the number of
  end-of-interrupt commands it got), and \<open>chip_command\<close>, \<open>chip_data\<close> are its reaction to a byte
  on the command and on the data port as the data sheet gives it. \<open>inb\<close> and \<open>outb\<close> route the four
  ports of the driver to the chips; the delay port 0x80 does nothing.
\<close>

section \<open>Model\<close>

record pic8259 =
  icw :: nat
  vec_base :: u8
  imr :: u8
  eois :: nat

record pic_st = cpu +
  pic1 :: pic8259
  pic2 :: pic8259

definition chip_command :: "u8 \<Rightarrow> pic8259 \<Rightarrow> pic8259" where
  "chip_command v p =
     (if bit v 4 then p\<lparr>icw := 2, imr := 0\<rparr>
      else if v = 0x20 then p\<lparr>eois := Suc (eois p)\<rparr>
      else p)"

definition chip_data :: "u8 \<Rightarrow> pic8259 \<Rightarrow> pic8259" where
  "chip_data v p =
     (if icw p = 2 then p\<lparr>vec_base := v, icw := 3\<rparr>
      else if icw p = 3 then p\<lparr>icw := 4\<rparr>
      else if icw p = 4 then p\<lparr>icw := 0\<rparr>
      else p\<lparr>imr := v\<rparr>)"

definition PIC1_COMMAND :: u16 where "PIC1_COMMAND = 0x20"
definition PIC1_DATA :: u16 where "PIC1_DATA = 0x21"
definition PIC2_COMMAND :: u16 where "PIC2_COMMAND = 0xA0"
definition PIC2_DATA :: u16 where "PIC2_DATA = 0xA1"

definition PIC1_VECTOR :: int where "PIC1_VECTOR = 0x20"
definition PIC2_VECTOR :: int where "PIC2_VECTOR = 0x28"
definition PIC_EOI :: u8 where "PIC_EOI = 0x20"
definition ICW1_ICW4 :: u8 where "ICW1_ICW4 = 0x01"
definition ICW1_INIT :: u8 where "ICW1_INIT = 0x10"
definition ICW4_8086 :: u8 where "ICW4_8086 = 0x01"

definition outb :: "u16 \<Rightarrow> u8 \<Rightarrow> 'a pic_st_scheme \<Rightarrow> 'a pic_st_scheme" where
  "outb port v s =
     (if port = PIC1_COMMAND then s\<lparr>pic1 := chip_command v (pic1 s)\<rparr>
      else if port = PIC1_DATA then s\<lparr>pic1 := chip_data v (pic1 s)\<rparr>
      else if port = PIC2_COMMAND then s\<lparr>pic2 := chip_command v (pic2 s)\<rparr>
      else if port = PIC2_DATA then s\<lparr>pic2 := chip_data v (pic2 s)\<rparr>
      else s)"

definition inb :: "u16 \<Rightarrow> 'a pic_st_scheme \<Rightarrow> u8" where
  "inb port s = (if port = PIC1_DATA then imr (pic1 s) else if port = PIC2_DATA then imr (pic2 s) else 0)"

definition io_wait :: "'a pic_st_scheme \<Rightarrow> 'a pic_st_scheme" where
  "io_wait s = outb 0x80 0 s"

definition PIC_remap :: "int \<Rightarrow> int \<Rightarrow> 'a pic_st_scheme \<Rightarrow> 'a pic_st_scheme" where
  "PIC_remap offset1 offset2 s =
    (let s = io_wait (outb PIC1_COMMAND (ICW1_INIT OR ICW1_ICW4) s);
         s = io_wait (outb PIC2_COMMAND (ICW1_INIT OR ICW1_ICW4) s);
         s = io_wait (outb PIC1_DATA (of_int offset1) s);
         s = io_wait (outb PIC2_DATA (of_int offset2) s);
         s = io_wait (outb PIC1_DATA 4 s);
         s = io_wait (outb PIC2_DATA 2 s);
         s = io_wait (outb PIC1_DATA ICW4_8086 s);
         s = io_wait (outb PIC2_DATA ICW4_8086 s);
         s = outb PIC1_DATA 0 s
     in outb PIC2_DATA 0 s)"

text \<open>The port and the bit of an interrupt line, as the three mask functions compute them.\<close>

definition irq_port :: "u8 \<Rightarrow> u16" where
  "irq_port irq_line = (if irq_line < 8 then PIC1_DATA else PIC2_DATA)"

definition irq_bit :: "u8 \<Rightarrow> u8" where
  "irq_bit irq_line = (if irq_line < 8 then irq_line else irq_line - 8)"

definition IRQ_set_mask :: "u8 \<Rightarrow> 'a pic_st_scheme \<Rightarrow> 'a pic_st_scheme" where
  "IRQ_set_mask irq_line s =
     (let port = irq_port irq_line;
          v = inb port s OR ucast (push_bit (unat (irq_bit irq_line)) (1 :: u32))
      in outb port v s)"

definition IRQ_clear_mask :: "u8 \<Rightarrow> 'a pic_st_scheme \<Rightarrow> 'a pic_st_scheme" where
  "IRQ_clear_mask irq_line s =
     (let port = irq_port irq_line;
          v = inb port s AND ucast (NOT (push_bit (unat (irq_bit irq_line)) (1 :: u32)))
      in outb port v s)"

definition IRQ_get_mask :: "int \<Rightarrow> 'a pic_st_scheme \<Rightarrow> int" where
  "IRQ_get_mask irq_line s =
     (if irq_line < 8 then (drop_bit (nat irq_line) (uint (inb PIC1_DATA s))) mod 2
      else (drop_bit (nat (irq_line - 8)) (uint (inb PIC2_DATA s))) mod 2)"

definition PIC_init :: "'a pic_st_scheme \<Rightarrow> 'a pic_st_scheme" where
  "PIC_init s =
     fold (\<lambda>i s. if i \<noteq> 2 then IRQ_set_mask (of_nat i) s else s) [0..<15]
       (PIC_remap PIC1_VECTOR PIC2_VECTOR s)"

definition IRQ_end_of_interrupt :: "u8 \<Rightarrow> 'a pic_st_scheme \<Rightarrow> 'a pic_st_scheme" where
  "IRQ_end_of_interrupt vector s =
     (let s = (if PIC2_VECTOR \<le> uint vector \<and> uint vector < PIC2_VECTOR + 8
               then outb PIC2_COMMAND PIC_EOI s else s)
      in if PIC1_VECTOR \<le> uint vector \<and> uint vector < PIC1_VECTOR + 16
         then outb PIC1_COMMAND PIC_EOI s else s)"

section \<open>Lines and masks\<close>

lemmas port_defs = PIC1_COMMAND_def PIC1_DATA_def PIC2_COMMAND_def PIC2_DATA_def

text \<open>Whether a line is masked, and that both chips take mask writes.\<close>

definition line_masked :: "'a pic_st_scheme \<Rightarrow> nat \<Rightarrow> bool" where
  "line_masked s i = (if i < 8 then bit (imr (pic1 s)) i else bit (imr (pic2 s)) (i - 8))"

definition pic_ready :: "'a pic_st_scheme \<Rightarrow> bool" where
  "pic_ready s \<longleftrightarrow> icw (pic1 s) = 0 \<and> icw (pic2 s) = 0"

lemma io_wait_id [simp]: "io_wait s = s"
  by (simp add: io_wait_def outb_def port_defs)

lemma unat_of_nat8: "i < 256 \<Longrightarrow> unat (of_nat i :: u8) = i"
  by (simp add: unsigned_of_nat take_bit_nat_eq_self)

lemma of_nat8_less: "i < 256 \<Longrightarrow> (of_nat i :: u8) < 8 \<longleftrightarrow> i < 8"
  by (simp add: unat_less_iff unat_of_nat8)

lemma unat_irq_bit: "i < 16 \<Longrightarrow> unat (irq_bit (of_nat i)) = (if i < 8 then i else i - 8)"
  by (auto simp: irq_bit_def of_nat8_less unat_of_nat8 unat_sub unat_le_iff)

lemma irq_port_of_nat: "i < 16 \<Longrightarrow> irq_port (of_nat i) = (if i < 8 then PIC1_DATA else PIC2_DATA)"
  by (simp add: irq_port_def of_nat8_less)

text \<open>Writing a mask changes the mask of exactly one line.\<close>

lemma IRQ_set_mask_line:
  assumes "pic_ready s" "i < 16"
  shows "pic_ready (IRQ_set_mask (of_nat i) s) \<and>
    (\<forall>j < 16. line_masked (IRQ_set_mask (of_nat i) s) j \<longleftrightarrow> j = i \<or> line_masked s j)"
  using assms
  by (cases "i < 8")
    (auto simp: IRQ_set_mask_def Let_def irq_port_of_nat unat_irq_bit inb_def outb_def port_defs
      pic_ready_def chip_data_def line_masked_def bit_simps)

lemma IRQ_clear_mask_line:
  assumes "pic_ready s" "i < 16"
  shows "pic_ready (IRQ_clear_mask (of_nat i) s) \<and>
    (\<forall>j < 16. line_masked (IRQ_clear_mask (of_nat i) s) j \<longleftrightarrow> j \<noteq> i \<and> line_masked s j)"
  using assms
  by (cases "i < 8")
    (auto simp: IRQ_clear_mask_def Let_def irq_port_of_nat unat_irq_bit inb_def outb_def port_defs
      pic_ready_def chip_data_def line_masked_def bit_simps)

lemma IRQ_get_mask_line:
  assumes "i < 16"
  shows "IRQ_get_mask (int i) s = of_bool (line_masked s i)"
proof -
  have "odd (drop_bit n (uint w)) \<longleftrightarrow> bit w n" for n and w :: u8
    by (metis bit_iff_odd_drop_bit bit_uint_iff bit_imp_le_length)
  then have "drop_bit n (uint w) mod 2 = of_bool (bit w n)" for n and w :: u8
    by (simp add: mod_2_eq_odd)
  then show ?thesis
    by (simp add: IRQ_get_mask_def line_masked_def inb_def port_defs nat_diff_distrib')
qed


lemma outb_ports:
  "outb PIC1_COMMAND v s = s\<lparr>pic1 := chip_command v (pic1 s)\<rparr>"
  "outb PIC1_DATA v s = s\<lparr>pic1 := chip_data v (pic1 s)\<rparr>"
  "outb PIC2_COMMAND v s = s\<lparr>pic2 := chip_command v (pic2 s)\<rparr>"
  "outb PIC2_DATA v s = s\<lparr>pic2 := chip_data v (pic2 s)\<rparr>"
  by (simp_all add: outb_def port_defs)

lemma chip_init:
  "chip_command (ICW1_INIT OR ICW1_ICW4) p = p\<lparr>icw := 2, imr := 0\<rparr>"
  "icw p = 2 \<Longrightarrow> chip_data v p = p\<lparr>vec_base := v, icw := 3\<rparr>"
  "icw p = 3 \<Longrightarrow> chip_data v p = p\<lparr>icw := 4\<rparr>"
  "icw p = 4 \<Longrightarrow> chip_data v p = p\<lparr>icw := 0\<rparr>"
  "icw p = 0 \<Longrightarrow> chip_data v p = p\<lparr>imr := v\<rparr>"
  by (simp_all add: chip_command_def chip_data_def ICW1_INIT_def ICW1_ICW4_def)

lemma PIC_remap_eq:
  "PIC_remap a b s = s\<lparr>pic1 := (pic1 s)\<lparr>icw := 0, vec_base := of_int a, imr := 0\<rparr>,
     pic2 := (pic2 s)\<lparr>icw := 0, vec_base := of_int b, imr := 0\<rparr>\<rparr>"
  unfolding PIC_remap_def by (simp add: outb_ports chip_init)

text \<open>After the remapping both chips accept masks again, all lines are open and the bases are set.\<close>

lemma PIC_remap_ready:
  "pic_ready (PIC_remap a b s)" "i < 16 \<Longrightarrow> \<not> line_masked (PIC_remap a b s) i"
  "vec_base (pic1 (PIC_remap a b s)) = of_int a" "vec_base (pic2 (PIC_remap a b s)) = of_int b"
  by (simp_all add: PIC_remap_eq pic_ready_def line_masked_def)

lemma set_mask_vec_base:
  "pic_ready s \<Longrightarrow> vec_base (pic1 (IRQ_set_mask i s)) = vec_base (pic1 s)"
  "pic_ready s \<Longrightarrow> vec_base (pic2 (IRQ_set_mask i s)) = vec_base (pic2 s)"
  by (simp_all add: IRQ_set_mask_def Let_def outb_def port_defs chip_data_def pic_ready_def irq_port_def)

definition mask_line :: "nat \<Rightarrow> 'a pic_st_scheme \<Rightarrow> 'a pic_st_scheme" where
  "mask_line i s = (if i \<noteq> 2 then IRQ_set_mask (of_nat i) s else s)"

lemma PIC_init_fold:
  assumes "pic_ready s" "n \<le> 16"
  shows "pic_ready (fold mask_line [0..<n] s) \<and>
    vec_base (pic1 (fold mask_line [0..<n] s)) = vec_base (pic1 s) \<and>
    vec_base (pic2 (fold mask_line [0..<n] s)) = vec_base (pic2 s) \<and>
    (\<forall>j < 16. line_masked (fold mask_line [0..<n] s) j \<longleftrightarrow> j < n \<and> j \<noteq> 2 \<or> line_masked s j)"
  using assms(2)
proof (induction n)
  case 0
  then show ?case using assms(1) by simp
next
  case (Suc n)
  let ?t = "fold mask_line [0..<n] s"
  have e: "fold mask_line [0..<Suc n] s = mask_line n ?t" by simp
  have IH: "pic_ready ?t" "vec_base (pic1 ?t) = vec_base (pic1 s)" "vec_base (pic2 ?t) = vec_base (pic2 s)"
    "\<forall>j < 16. line_masked ?t j \<longleftrightarrow> j < n \<and> j \<noteq> 2 \<or> line_masked s j" using Suc by auto
  have "n < 16" using Suc.prems by simp
  note m = IRQ_set_mask_line [OF IH(1) this] set_mask_vec_base [OF IH(1), of "of_nat n"]
  show ?case unfolding e using IH m by (auto simp: less_Suc_eq mask_line_def [of n ?t])
qed

section \<open>Properties\<close>

text \<open>
  Initialising the controllers: whatever state they were in, afterwards they accept mask
  writes, deliver their lines at vectors 0x20 and 0x28, and a line is masked exactly when it is
  neither the cascade line 2 nor line 15. (The comment asks for every line but the cascade; the
  loop bound 15 leaves line 15, the secondary disk channel, open.)
\<close>

theorem PIC_init_masks:
  "pic_ready (PIC_init s) \<and> vec_base (pic1 (PIC_init s)) = 0x20 \<and> vec_base (pic2 (PIC_init s)) = 0x28 \<and>
   (\<forall>i < 16. IRQ_get_mask (int i) (PIC_init s) = of_bool (i \<noteq> 2 \<and> i \<noteq> 15))"
proof -
  let ?s = "PIC_remap PIC1_VECTOR PIC2_VECTOR s"
  have i: "PIC_init s = fold mask_line [0..<15] ?s" by (simp add: PIC_init_def mask_line_def [abs_def])
  have m: "\<not> line_masked ?s i" if "i < 16" for i using that by (rule PIC_remap_ready(2))
  have "pic_ready (PIC_init s) \<and> vec_base (pic1 (PIC_init s)) = vec_base (pic1 ?s) \<and>
    vec_base (pic2 (PIC_init s)) = vec_base (pic2 ?s) \<and>
    (\<forall>j < 16. line_masked (PIC_init s) j \<longleftrightarrow> j < 15 \<and> j \<noteq> 2)"
    using PIC_init_fold [OF PIC_remap_ready(1) [of PIC1_VECTOR PIC2_VECTOR s], of 15] m
    unfolding i by auto
  then show ?thesis
    by (auto simp: PIC_remap_ready IRQ_get_mask_line PIC1_VECTOR_def PIC2_VECTOR_def)
qed

definition pic_example :: pic_st where
  "pic_example = \<lparr>IF_flag = False, halted = False,
     pic1 = \<lparr>icw = 0, vec_base = 8, imr = 0xFF, eois = 0\<rparr>,
     pic2 = \<lparr>icw = 0, vec_base = 0x70, imr = 0xFF, eois = 0\<rparr>\<rparr>"

theorem PIC_init_masks_witness:
  "IRQ_get_mask 15 (PIC_init pic_example) = 0 \<and> IRQ_get_mask 14 (PIC_init pic_example) = 1"
proof -
  have "\<forall>i < 16. IRQ_get_mask (int i) (PIC_init pic_example) = of_bool (i \<noteq> 2 \<and> i \<noteq> 15)"
    using PIC_init_masks by blast
  from spec [OF this, of 15] spec [OF this, of 14] show ?thesis by simp
qed

end
