(* ===== verification/Interrupts.thy ===== *)
theory Interrupts
  imports Pic
begin

text \<open>
  Interrupt registration and dispatch: \<open>src/x86_64/interrupts/interrupts.c\<close> over the descriptor
  tables of \<open>idt_tss.c\<close> and the interrupt controllers of \<^theory_text>\<open>Pic\<close>. Handlers are named by the
  functions the kernel registers. Addresses the linker chooses (the first stub, the tables, the
  interrupt stacks, the boot page tables) are the fields of \<open>linkmap\<close>.
\<close>

section \<open>Model\<close>

datatype isr =
    ISR8_double_fault
  | ISR13_general_protection
  | ISR14_PAGE_FAULT_HANDLER
  | ISR32_pit
  | ISR33_keyboard_irq
  | ISR36_IRQ4_serial
  | ISR_ata_handler
  | ISR128_syscall

record isr_c_entry =
  isr_arg :: ptr
  isr_handler :: "isr option"

record idt_entry =
  offset1 :: u16
  select :: u16
  IST :: "3 word"
  gate_type :: "4 word"
  DPL :: "2 word"
  pres :: bool
  offset2 :: u16
  offset3 :: u32

record tss_table =
  rsp0 :: u64
  ist1 :: u64
  ist2 :: u64
  ist3 :: u64
  io_map_base :: u16

record tss_descriptor =
  limit1 :: u16
  base1 :: u16
  base2 :: u8
  d_type :: "4 word"
  d_zero :: bool
  d_DPL :: "2 word"
  d_pres :: bool
  limit2 :: "4 word"
  d_AVL :: bool
  d_IGN :: "2 word"
  gran :: bool
  base3 :: u8
  base4 :: u32
  d_reserved :: u32

record linkmap =
  isr0 :: ptr
  idt_at :: ptr
  tss_at :: ptr
  ist1_stack :: ptr
  ist2_stack :: ptr
  ist3_stack :: ptr
  ptable_p4 :: ptr
  ptable_p3_identity :: ptr

record intr_st = pic_st +
  link :: linkmap
  isr_table :: "isr_c_entry list"
  idt :: "idt_entry list"
  idt_desc :: "u16 \<times> u64"
  tss :: tss_table
  tss_desc :: tss_descriptor
  TR :: u16

abbreviation (input) NUM_ISRS :: nat where "NUM_ISRS \<equiv> 256"

definition STUB_SIZE :: u64 where "STUB_SIZE = 9"
definition KERNEL_CS :: u16 where "KERNEL_CS = 0x08"
definition TSS_DESC_CS :: u16 where "TSS_DESC_CS = 0x28"
definition TYPE_TRAPGATE :: u8 where "TYPE_TRAPGATE = 0xF"
definition TYPE_INTRGATE :: u8 where "TYPE_INTRGATE = 0xE"
definition TSS_STACK_SIZE :: u64 where "TSS_STACK_SIZE = 4096"
definition TSS_TYPE :: "4 word" where "TSS_TYPE = 0x9"

definition add_idt_entry ::
    "u8 \<Rightarrow> u8 \<Rightarrow> u8 \<Rightarrow> u8 \<Rightarrow> 'a intr_st_scheme \<Rightarrow> 'a intr_st_scheme" where
  "add_idt_entry vector ist gty dpl s =
     (let addr = isr0 (link s) + ucast vector * STUB_SIZE
      in s\<lparr>idt := (idt s)[unat vector :=
            \<lparr>offset1 = ucast (addr AND 0xFFFF), select = KERNEL_CS AND NOT 0x3,
             IST = ucast ist, gate_type = ucast gty, DPL = ucast (dpl AND 0x3), pres = True,
             offset2 = ucast (drop_bit 16 addr AND 0xFFFF),
             offset3 = ucast (drop_bit 32 addr AND 0xFFFFFFFF)\<rparr>]\<rparr>)"

definition idt_init :: "'a intr_st_scheme \<Rightarrow> 'a intr_st_scheme" where
  "idt_init s =
     fold (\<lambda>vector s. add_idt_entry (of_nat vector) 0 TYPE_INTRGATE 0 s) [0..<NUM_ISRS]
       (s\<lparr>idt_desc := (16 * 256 - 1, idt_at (link s))\<rparr>)"

text \<open>\<open>sizeof(struct tss_table)\<close> is 104; \<open>ltr\<close> loads the task register.\<close>

definition tss_init :: "'a intr_st_scheme \<Rightarrow> 'a intr_st_scheme" where
  "tss_init s =
     (let base = tss_at (link s);
          limit = (104 - 1 :: u32)
      in s\<lparr>tss := (tss s)\<lparr>io_map_base := 104,
                 ist1 := ist1_stack (link s) + TSS_STACK_SIZE,
                 ist2 := ist2_stack (link s) + TSS_STACK_SIZE,
                 ist3 := ist3_stack (link s) + TSS_STACK_SIZE\<rparr>,
           tss_desc :=
             \<lparr>limit1 = ucast (limit AND 0xFFFF), base1 = ucast (base AND 0xFFFF),
              base2 = ucast (drop_bit 16 base AND 0xFF),
              d_type = TSS_TYPE, d_zero = False, d_DPL = 0, d_pres = True,
              limit2 = ucast (drop_bit 16 limit AND 0x0F), d_AVL = False, d_IGN = 0, gran = False,
              base3 = ucast (drop_bit 24 base AND 0xFF), base4 = ucast (drop_bit 32 base),
              d_reserved = 0\<rparr>,
           TR := TSS_DESC_CS\<rparr>)"

definition register_interrupt ::
    "int \<Rightarrow> u8 \<Rightarrow> u8 \<Rightarrow> u8 \<Rightarrow> isr \<Rightarrow> ptr \<Rightarrow> 'a intr_st_scheme \<Rightarrow> 'a intr_st_scheme" where
  "register_interrupt vector ist gty dpl handler arg s =
     (let s = CLI s
      in if int NUM_ISRS \<le> vector \<or> vector < 0 \<or> isr_handler (isr_table s ! nat vector) \<noteq> None
         then s
         else
           let s = add_idt_entry (of_int vector) ist gty dpl s;
               s = s\<lparr>isr_table := (isr_table s)[nat vector :=
                      \<lparr>isr_arg = arg, isr_handler = Some handler\<rparr>]\<rparr>;
               s = (if PIC1_VECTOR \<le> vector \<and> vector < PIC2_VECTOR + 8
                    then IRQ_clear_mask (of_int (vector - PIC1_VECTOR)) s else s)
           in STI s)"

definition interrupts_init :: "'a intr_st_scheme \<Rightarrow> 'a intr_st_scheme" where
  "interrupts_init s =
     (let s = STI (PIC_init (tss_init (idt_init (CLI s))));
          s = register_interrupt 8 1 TYPE_INTRGATE 0 ISR8_double_fault NULL s
      in register_interrupt 13 2 TYPE_INTRGATE 0 ISR13_general_protection NULL s)"

text \<open>
  The common dispatcher. The handlers are other components; \<open>run\<close> is what calling one does. The
  stubs pass vectors 0 to 255 only.
\<close>

definition c_isr_handler ::
    "(isr \<Rightarrow> int \<Rightarrow> int \<Rightarrow> ptr \<Rightarrow> 'a intr_st_scheme \<Rightarrow> 'a intr_st_scheme) \<Rightarrow>
     int \<Rightarrow> int \<Rightarrow> ptr \<Rightarrow> 'a intr_st_scheme \<Rightarrow> 'a intr_st_scheme" where
  "c_isr_handler run vector err rsp s =
     (case isr_handler (isr_table s ! nat vector) of
        Some h \<Rightarrow>
          IRQ_end_of_interrupt (of_int vector)
            (run h vector err
               (if isr_arg (isr_table s ! nat vector) \<noteq> NULL then isr_arg (isr_table s ! nat vector)
                else rsp) s)
      | None \<Rightarrow> HLT s)"

definition ISR8_run :: "'a intr_st_scheme \<Rightarrow> 'a intr_st_scheme" where
  "ISR8_run s = HLT s"

definition ISR13_run :: "'a intr_st_scheme \<Rightarrow> 'a intr_st_scheme" where
  "ISR13_run s = HLT s"

section \<open>Gates\<close>

text \<open>The handler address the processor assembles from the three offset fields of a gate.\<close>

definition gate_offset :: "idt_entry \<Rightarrow> u64" where
  "gate_offset g = ucast (offset1 g) OR push_bit 16 (ucast (offset2 g)) OR push_bit 32 (ucast (offset3 g))"

lemma mask_16: "(0xFFFF :: u64) = mask 16" "(0xFFFFFFFF :: u64) = mask 32"
  by (simp_all add: mask_eq_exp_minus_1)

lemma offset_parts:
  fixes a :: u64
  shows "ucast (ucast (a AND 0xFFFF) :: u16) OR push_bit 16 (ucast (ucast (drop_bit 16 a AND 0xFFFF) :: u16)) OR
     push_bit 32 (ucast (ucast (drop_bit 32 a AND 0xFFFFFFFF) :: u32)) = a"
  unfolding mask_16
proof (rule bit_word_eqI)
  fix n assume "n < LENGTH(64)"
  then show "bit ((ucast (ucast (a AND mask 16) :: u16) :: u64) OR
      push_bit 16 (ucast (ucast (drop_bit 16 a AND mask 16) :: u16)) OR
      push_bit 32 (ucast (ucast (drop_bit 32 a AND mask 32) :: u32))) n = bit a n"
    by (cases "n < 32") (auto simp: bit_simps)
qed

lemma add_idt_entry_gate:
  assumes "length (idt s) = NUM_ISRS" "v < NUM_ISRS"
  shows "gate_offset (idt (add_idt_entry (of_nat v) ist gty dpl s) ! v) = isr0 (link s) + of_nat v * STUB_SIZE"
    and "pres (idt (add_idt_entry (of_nat v) ist gty dpl s) ! v)"
    and "select (idt (add_idt_entry (of_nat v) ist gty dpl s) ! v) = KERNEL_CS"
    and "w \<noteq> v \<Longrightarrow> idt (add_idt_entry (of_nat v) ist gty dpl s) ! w = idt s ! w"
    and "length (idt (add_idt_entry (of_nat v) ist gty dpl s)) = NUM_ISRS"
proof -
  have u: "unat (of_nat v :: u8) = v" using assms(2) by (rule unat_of_nat8)
  have c: "ucast (of_nat v :: u8) = (of_nat v :: u64)"
    using assms(2) by (simp add: word_unat_eq_iff unsigned_ucast_eq u unsigned_of_nat take_bit_nat_eq_self)
  show "gate_offset (idt (add_idt_entry (of_nat v) ist gty dpl s) ! v) = isr0 (link s) + of_nat v * STUB_SIZE"
    using assms u by (simp add: add_idt_entry_def Let_def gate_offset_def offset_parts c)
  show "pres (idt (add_idt_entry (of_nat v) ist gty dpl s) ! v)"
    "select (idt (add_idt_entry (of_nat v) ist gty dpl s) ! v) = KERNEL_CS"
    using assms u by (simp_all add: add_idt_entry_def Let_def KERNEL_CS_def)
  show "w \<noteq> v \<Longrightarrow> idt (add_idt_entry (of_nat v) ist gty dpl s) ! w = idt s ! w"
    "length (idt (add_idt_entry (of_nat v) ist gty dpl s)) = NUM_ISRS"
    using assms u by (simp_all add: add_idt_entry_def Let_def)
qed


definition intr_ok :: "'a intr_st_scheme \<Rightarrow> bool" where
  "intr_ok s \<longleftrightarrow> length (isr_table s) = NUM_ISRS \<and> length (idt s) = NUM_ISRS \<and> pic_ready s"

text \<open>What the register operations leave alone.\<close>

lemma pic_frame [simp]:
  "link (IRQ_clear_mask l s) = link s" "isr_table (IRQ_clear_mask l s) = isr_table s"
  "idt (IRQ_clear_mask l s) = idt s" "halted (IRQ_clear_mask l s) = halted s"
  "link (outb p v s) = link s" "isr_table (outb p v s) = isr_table s" "idt (outb p v s) = idt s"
  by (simp_all add: IRQ_clear_mask_def Let_def outb_def)

lemma flag_frame [simp]:
  "link (CLI s) = link s" "isr_table (CLI s) = isr_table s" "idt (CLI s) = idt s"
  "pic1 (CLI s) = pic1 s" "pic2 (CLI s) = pic2 s" "halted (CLI s) = halted s" "\<not> IF_flag (CLI s)"
  "link (STI s) = link s" "isr_table (STI s) = isr_table s" "idt (STI s) = idt s"
  "pic1 (STI s) = pic1 s" "pic2 (STI s) = pic2 s" "halted (STI s) = halted s" "IF_flag (STI s)"
  by (simp_all add: CLI_def STI_def)

lemma add_idt_entry_frame [simp]:
  "link (add_idt_entry v i t d s) = link s" "isr_table (add_idt_entry v i t d s) = isr_table s"
  "pic1 (add_idt_entry v i t d s) = pic1 s" "pic2 (add_idt_entry v i t d s) = pic2 s"
  by (simp_all add: add_idt_entry_def Let_def)

lemma lines_cong:
  "pic1 s = pic1 t \<Longrightarrow> pic2 s = pic2 t \<Longrightarrow> pic_ready s = pic_ready t \<and> line_masked s i = line_masked t i"
  by (simp add: pic_ready_def line_masked_def)

text \<open>The two register steps of a successful registration, before the controller is told.\<close>

definition registered :: "nat \<Rightarrow> u8 \<Rightarrow> u8 \<Rightarrow> u8 \<Rightarrow> isr \<Rightarrow> ptr \<Rightarrow> 'a intr_st_scheme \<Rightarrow> 'a intr_st_scheme" where
  "registered v ist gty dpl h arg s =
     (add_idt_entry (of_nat v) ist gty dpl (CLI s))\<lparr>isr_table := (isr_table s)
        [v := \<lparr>isr_arg = arg, isr_handler = Some h\<rparr>]\<rparr>"

lemma register_interrupt_eq:
  assumes "v < NUM_ISRS" "isr_handler (isr_table s ! v) = None"
  shows "register_interrupt (int v) ist gty dpl h arg s =
    STI (if 0x20 \<le> v \<and> v < 0x30 then IRQ_clear_mask (of_nat (v - 0x20)) (registered v ist gty dpl h arg s)
         else registered v ist gty dpl h arg s)"
proof -
  have "(of_int (int v - PIC1_VECTOR) :: u8) = of_nat (v - 0x20)" if "0x20 \<le> v"
    using that by (metis PIC1_VECTOR_def of_int_of_nat_eq of_nat_diff of_nat_numeral)
  with assms show ?thesis
    by (auto simp: register_interrupt_def registered_def Let_def PIC1_VECTOR_def PIC2_VECTOR_def)
qed

section \<open>Properties\<close>

text \<open>A machine with empty tables and initialised controllers, for the witnesses.\<close>

definition gate_zero :: idt_entry where
  "gate_zero = \<lparr>offset1 = 0, select = 0, IST = 0, gate_type = 0, DPL = 0, pres = False, offset2 = 0, offset3 = 0\<rparr>"

definition tss_desc_zero :: tss_descriptor where
  "tss_desc_zero = \<lparr>limit1 = 0, base1 = 0, base2 = 0, d_type = 0, d_zero = False, d_DPL = 0, d_pres = False,
     limit2 = 0, d_AVL = False, d_IGN = 0, gran = False, base3 = 0, base4 = 0, d_reserved = 0\<rparr>"

definition link_example :: linkmap where
  "link_example = \<lparr>isr0 = 0x100200, idt_at = 0x110000, tss_at = 0x111000, ist1_stack = 0x112000,
     ist2_stack = 0x113000, ist3_stack = 0x114000, ptable_p4 = 0x115000, ptable_p3_identity = 0x116000\<rparr>"

definition intr_example :: intr_st where
  "intr_example = \<lparr>IF_flag = True, halted = False,
     pic1 = \<lparr>icw = 0, vec_base = 0x20, imr = 0xFB, eois = 0\<rparr>,
     pic2 = \<lparr>icw = 0, vec_base = 0x28, imr = 0xFF, eois = 0\<rparr>,
     link = link_example, isr_table = replicate 256 \<lparr>isr_arg = 0, isr_handler = None\<rparr>,
     idt = replicate 256 gate_zero, idt_desc = (0, 0),
     tss = \<lparr>rsp0 = 0, ist1 = 0, ist2 = 0, ist3 = 0, io_map_base = 0\<rparr>,
     tss_desc = tss_desc_zero, TR = 0\<rparr>"

lemma intr_example_ok: "intr_ok intr_example"
  by (simp add: intr_ok_def intr_example_def pic_ready_def)

text \<open>
  Registering a handler on a free vector: the vector's table entry and gate are set, the gate
  leads to the vector's 9-byte stub in the kernel code segment, no other entry or gate changes,
  the interrupt line behind the vector (if it has one) is opened and no other line is touched, and
  interrupts are enabled on return.
\<close>

theorem register_interrupt_correct:
  assumes "intr_ok s" "v < 256" "isr_handler (isr_table s ! v) = None"
  shows "let s' = register_interrupt (int v) ist gty dpl h arg s in
    intr_ok s' \<and> isr_table s' = (isr_table s)[v := \<lparr>isr_arg = arg, isr_handler = Some h\<rparr>] \<and>
    gate_offset (idt s' ! v) = isr0 (link s) + of_nat v * STUB_SIZE \<and> pres (idt s' ! v) \<and>
    select (idt s' ! v) = KERNEL_CS \<and> (\<forall>w. w \<noteq> v \<longrightarrow> idt s' ! w = idt s ! w) \<and>
    (\<forall>l < 16. line_masked s' l \<longleftrightarrow> line_masked s l \<and> l + 0x20 \<noteq> v) \<and> IF_flag s'"
proof -
  let ?r = "registered v ist gty dpl h arg s"
  define s' where "s' = register_interrupt (int v) ist gty dpl h arg s"
  have len: "length (idt s) = 256" "length (isr_table s) = 256" "pic_ready s"
    using assms(1) by (simp_all add: intr_ok_def)
  have r: "isr_table ?r = (isr_table s)[v := \<lparr>isr_arg = arg, isr_handler = Some h\<rparr>]"
    "idt ?r = idt (add_idt_entry (of_nat v) ist gty dpl (CLI s))" "pic1 ?r = pic1 s" "pic2 ?r = pic2 s"
    by (simp_all add: registered_def)
  note g = add_idt_entry_gate [where s = "CLI s" and ist = ist and gty = gty and dpl = dpl, simplified,
      OF len(1) assms(2)]
  have rdy: "pic_ready ?r" and lm: "\<And>l. line_masked ?r l = line_masked s l"
    using lines_cong [OF r(3,4)] len(3) by simp_all
  have "s' = STI (if 0x20 \<le> v \<and> v < 0x30 then IRQ_clear_mask (of_nat (v - 0x20)) ?r else ?r)"
    unfolding s'_def using assms(2,3) by (rule register_interrupt_eq)
  then consider (irq) "0x20 \<le> v" "v < 0x30" "s' = STI (IRQ_clear_mask (of_nat (v - 0x20)) ?r)"
    | (other) "\<not> (0x20 \<le> v \<and> v < 0x30)" "s' = STI ?r" by (auto split: if_splits)
  then show ?thesis
  proof cases
    case irq
    let ?c = "IRQ_clear_mask (of_nat (v - 0x20)) ?r"
    have "v - 0x20 < 16" using irq(2) by simp
    note c = IRQ_clear_mask_line [OF rdy this]
    have "pic_ready s' = pic_ready ?c" "\<And>l. line_masked s' l = line_masked ?c l"
      using lines_cong [of s' ?c] irq(3) by simp_all
    then have "pic_ready s'" "\<forall>l < 16. line_masked s' l \<longleftrightarrow> line_masked s l \<and> l + 0x20 \<noteq> v"
      using c lm irq(1) by auto
    then show ?thesis unfolding s'_def [symmetric] Let_def using irq(3) g r len(2) by (simp add: intr_ok_def)
  next
    case other
    have "pic_ready s' = pic_ready ?r" "\<And>l. line_masked s' l = line_masked ?r l"
      using lines_cong [of s' ?r] other(2) by simp_all
    then have "pic_ready s'" "\<forall>l < 16. line_masked s' l \<longleftrightarrow> line_masked s l \<and> l + 0x20 \<noteq> v"
      using rdy lm other(1) by auto
    then show ?thesis unfolding s'_def [symmetric] Let_def using other(2) g r len(2) by (simp add: intr_ok_def)
  qed
qed

theorem register_interrupt_correct_witness:
  "let s' = register_interrupt 0x21 0 TYPE_INTRGATE 0 ISR33_keyboard_irq NULL intr_example in
     gate_offset (idt s' ! 0x21) = 0x100200 + 0x21 * 9 \<and> \<not> line_masked s' 1 \<and> IF_flag s'"
  using register_interrupt_correct [OF intr_example_ok, of "0x21" 0 TYPE_INTRGATE 0 ISR33_keyboard_irq NULL]
  by (simp add: Let_def intr_example_def link_example_def STUB_SIZE_def)

text \<open>
  A registration on a vector outside 0..255 or on one that is taken changes nothing in the
  tables or the controllers, but it returns with interrupts disabled: the early return skips the
  \<open>STI\<close> that pairs with the \<open>CLI\<close> at the top.
\<close>

theorem register_interrupt_refused:
  assumes "vector < 0 \<or> 256 \<le> vector \<or> isr_handler (isr_table s ! nat vector) \<noteq> None"
  shows "register_interrupt vector ist gty dpl h arg s = CLI s"
  using assms by (auto simp: register_interrupt_def Let_def)

theorem register_interrupt_refused_witness:
  "IF_flag intr_example \<and> \<not> IF_flag (register_interrupt 256 0 TYPE_INTRGATE 0 ISR32_pit NULL intr_example)"
  using register_interrupt_refused [of 256 intr_example 0 TYPE_INTRGATE 0 ISR32_pit NULL]
  by (simp add: intr_example_def)




end
