(* ===== verification/Linked.thy ===== *)
theory Linked
  imports Prelude
begin

text \<open>
  Linked lists as the C code builds them: nodes are addresses, and the \<open>next\<close> member of every
  node is a function from addresses to addresses. \<open>lpath nx x as y\<close> says that following the
  links from \<open>x\<close> visits exactly the nodes \<open>as\<close> and arrives at \<open>y\<close>; \<open>llist\<close> is a path
  that ends at the terminator of the list.
\<close>

primrec lpath :: "('p \<Rightarrow> 'p) \<Rightarrow> 'p \<Rightarrow> 'p list \<Rightarrow> 'p \<Rightarrow> bool" where
  "lpath nx x [] y \<longleftrightarrow> x = y"
| "lpath nx x (a # as) y \<longleftrightarrow> x = a \<and> lpath nx (nx a) as y"

definition llist :: "('p \<Rightarrow> 'p) \<Rightarrow> 'p \<Rightarrow> 'p \<Rightarrow> 'p list \<Rightarrow> bool" where
  "llist nx nil x as \<longleftrightarrow> lpath nx x as nil \<and> nil \<notin> set as"

lemma lpath_append [simp]:
  "lpath nx x (as @ bs) z \<longleftrightarrow> (\<exists>y. lpath nx x as y \<and> lpath nx y bs z)"
  by (induction as arbitrary: x) auto

lemma lpath_upd [simp, list_links]:
  "u \<notin> set as \<Longrightarrow> lpath (nx(u := v)) x as y = lpath nx x as y"
  by (induction as arbitrary: x) auto

lemma lpath_cong:
  "(\<And>a. a \<in> set as \<Longrightarrow> nx a = nx' a) \<Longrightarrow> lpath nx x as y = lpath nx' x as y"
  by (induction as arbitrary: x) auto

lemma lpath_hd: "lpath nx x as y \<Longrightarrow> as \<noteq> [] \<Longrightarrow> hd as = x"
  by (cases as) auto

lemma lpath_last: "lpath nx x as y \<Longrightarrow> as \<noteq> [] \<Longrightarrow> nx (last as) = y"
  by (induction as arbitrary: x) auto

lemma lpath_retarget:
  "lpath nx x as y \<Longrightarrow> as \<noteq> [] \<Longrightarrow> distinct as \<Longrightarrow> lpath (nx(last as := z)) x as z"
  by (induction as arbitrary: x) auto

lemma lpath_nth_next:
  "lpath nx x as y \<Longrightarrow> Suc i < length as \<Longrightarrow> nx (as ! i) = as ! Suc i"
proof (induction as arbitrary: x i)
  case Nil
  then show ?case by simp
next
  case (Cons a as)
  then show ?case by (cases i; cases as) auto
qed

lemma llist_Nil [simp]: "llist nx nil x [] \<longleftrightarrow> x = nil"
  by (simp add: llist_def)

lemma llist_Cons [simp]:
  "llist nx nil x (a # as) \<longleftrightarrow> x = a \<and> a \<noteq> nil \<and> llist nx nil (nx a) as"
  by (auto simp: llist_def)

lemma llist_nil [simp]: "llist nx nil nil as \<longleftrightarrow> as = []"
  by (cases as) auto

lemma llist_upd [simp, list_links]:
  "u \<notin> set as \<Longrightarrow> llist (nx(u := v)) nil x as = llist nx nil x as"
  by (simp add: llist_def)

lemma llist_cong:
  "(\<And>a. a \<in> set as \<Longrightarrow> nx a = nx' a) \<Longrightarrow> llist nx nil x as = llist nx' nil x as"
  using lpath_cong [of as nx nx'] by (simp add: llist_def)

lemma llist_append:
  "llist nx nil x (as @ bs) \<longleftrightarrow> (\<exists>y. lpath nx x as y \<and> nil \<notin> set as \<and> llist nx nil y bs)"
  by (auto simp: llist_def)

lemma llist_unique: "llist nx nil x as \<Longrightarrow> llist nx nil x bs \<Longrightarrow> as = bs"
  by (induction as arbitrary: x bs) (case_tac bs; simp)+

lemma llist_not_nil: "x \<noteq> nil \<Longrightarrow> llist nx nil x as \<longleftrightarrow> (\<exists>bs. as = x # bs \<and> llist nx nil (nx x) bs)"
  by (cases as) auto

lemma llist_distinct: "llist nx nil x as \<Longrightarrow> distinct as"
proof (induction as arbitrary: x)
  case Nil
  then show ?case by simp
next
  case (Cons a as)
  have "a \<notin> set as"
  proof
    assume "a \<in> set as"
    then obtain ys zs where as: "as = ys @ a # zs" by (metis split_list)
    with Cons.prems have "llist nx nil a (a # as)" "llist nx nil a (a # zs)"
      by (auto simp: llist_append)
    then have "as = zs" by (metis llist_unique list.inject)
    with as show False by simp
  qed
  with Cons show ?case by auto
qed

lemma llist_snoc:
  assumes "llist nx nil x as" "as \<noteq> []" "p \<notin> set as" "p \<noteq> nil"
  shows "llist ((nx(p := nil))(last as := p)) nil x (as @ [p])"
proof -
  have "lpath (nx(p := nil)) x as nil"
    using assms by (simp add: llist_def)
  then have "lpath ((nx(p := nil))(last as := p)) x as p"
    using assms llist_distinct [OF assms(1)] by (intro lpath_retarget) auto
  moreover have "last as \<noteq> p" using assms(2,3) last_in_set by metis
  ultimately show ?thesis
    using assms by (auto simp: llist_append llist_def)
qed


section \<open>Searching\<close>

text \<open>
  The two search loops of the code: for the first node with a property, and for a given node with
  its predecessor (\<open>Some None\<close> when it is not in the list). Neither ends on a cyclic list without
  the node.
\<close>

partial_function (option) list_find :: "('p \<Rightarrow> 'p) \<Rightarrow> 'p \<Rightarrow> ('p \<Rightarrow> bool) \<Rightarrow> 'p \<Rightarrow> 'p option" where
  "list_find nx nil P cur =
     (if cur = nil then Some nil else if P cur then Some cur else list_find nx nil P (nx cur))"

partial_function (option) list_prev :: "('p \<Rightarrow> 'p) \<Rightarrow> 'p \<Rightarrow> 'p \<Rightarrow> 'p \<Rightarrow> 'p \<Rightarrow> 'p option option" where
  "list_prev nx nil target prev cur =
     (if cur = nil then Some None
      else if cur = target then Some (Some prev)
      else list_prev nx nil target cur (nx cur))"

lemma list_find_list:
  "llist nx nil x as \<Longrightarrow> list_find nx nil P x = Some (case find P as of Some a \<Rightarrow> a | None \<Rightarrow> nil)"
proof (induction as arbitrary: x)
  case Nil
  then show ?case by (simp add: list_find.simps)
next
  case (Cons a as)
  then show ?case by (subst list_find.simps) auto
qed

text \<open>The predecessor of the first node is the initial \<open>prev\<close>, that of a later one the node before it.\<close>

fun pred_in :: "'p \<Rightarrow> 'p \<Rightarrow> 'p list \<Rightarrow> 'p option" where
  "pred_in prev t [] = None"
| "pred_in prev t (a # as) = (if a = t then Some prev else pred_in a t as)"

lemma list_prev_list: "llist nx nil x as \<Longrightarrow> list_prev nx nil t prev x = Some (pred_in prev t as)"
proof (induction as arbitrary: x prev)
  case Nil
  then show ?case by (simp add: list_prev.simps)
next
  case (Cons a as)
  then show ?case by (subst list_prev.simps) auto
qed

lemma pred_in_None: "pred_in prev t as = None \<longleftrightarrow> t \<notin> set as"
  by (induction as arbitrary: prev) auto

lemma pred_in_append: "t \<notin> set as \<Longrightarrow> pred_in prev t (as @ t # bs) = Some (last (prev # as))"
  by (induction as arbitrary: prev) auto

text \<open>Taking a node out of a list: the list without it.\<close>

lemma llist_unlink_first: "llist nx nil x (a # as) \<Longrightarrow> llist (nx(a := v)) nil (nx a) as"
  using llist_distinct [of nx nil x "a # as"] by auto

lemma llist_unlink:
  assumes "llist nx nil x (as @ b # t # bs)"
  shows "llist ((nx(b := nx t))(t := nil)) nil x (as @ b # bs)"
proof -
  have d: "distinct (as @ b # t # bs)" by (rule llist_distinct [OF assms])
  then have n: "t \<notin> set bs" "b \<notin> set bs" "t \<notin> set as" "b \<notin> set as" "t \<noteq> b" by auto
  from assms obtain y where y: "lpath nx x as y" "nil \<notin> set as" "llist nx nil y (b # t # bs)"
    by (auto simp: llist_append)
  then have bs: "y = b" "b \<noteq> nil" "nx b = t" "t \<noteq> nil" "llist nx nil (nx t) bs" by auto
  have "lpath ((nx(b := nx t))(t := nil)) x as y" using y(1) n by simp
  moreover have "llist ((nx(b := nx t))(t := nil)) nil y (b # bs)" using bs n by simp
  ultimately show ?thesis using y(2) by (auto simp: llist_append)
qed

end
