(* ===== verification/Frames.thy ===== *)
theory Frames
  imports Interrupts Linked
begin

text \<open>
  The physical frame allocator of \<open>src/x86_64/memory/frames.c\<close>: the table of usable regions
  built from the multiboot memory map, the list of freed frames threaded through the first
  quadword of each freed frame, and the allocator over both. Physical memory is the function
  \<open>mem\<close> from the address of a quadword to its content.
\<close>

section \<open>Model\<close>

record mem_region =
  r_addr :: u64
  r_size :: u64
  r_valid :: bool

record frames_st = intr_st +
  usable_regions :: "mem_region list"
  free_frames :: ptr
  mem :: "u64 \<Rightarrow> u64"

abbreviation (input) MAX_REGIONS :: nat where "MAX_REGIONS \<equiv> 64"

definition INVALID_FRAME_ADDR :: ptr where
  "INVALID_FRAME_ADDR = 0xDEADBEEF"

definition add_usable_region ::
    "u64 \<Rightarrow> u64 \<Rightarrow> nat \<Rightarrow> mem_region list \<Rightarrow> mem_region list" where
  "add_usable_region addr sz entry regs =
     (let start = page_up addr;
          e = page_down (addr + sz)
      in if e \<le> start then regs
         else if MAX_REGIONS \<le> entry then regs
         else regs[entry := \<lparr>r_addr = start, r_size = e - start, r_valid = True\<rparr>])"

text \<open>One iteration of the loop of \<open>remove_region\<close>, on rounded bounds.\<close>

definition remove_from ::
    "u64 \<Rightarrow> u64 \<Rightarrow> nat \<Rightarrow> mem_region list \<Rightarrow> mem_region list" where
  "remove_from start e i regs =
     (let r = regs ! i; reg_start = r_addr r; reg_end = reg_start + r_size r
      in if \<not> r_valid r then regs
         else if e \<le> reg_start \<or> reg_end \<le> start then regs
         else if start \<le> reg_start \<and> reg_end \<le> e then regs[i := r\<lparr>r_valid := False\<rparr>]
         else if start \<le> reg_start \<and> e < reg_end
         then regs[i := r\<lparr>r_addr := e, r_size := reg_end - e\<rparr>]
         else if reg_start < start \<and> reg_end \<le> e
         then regs[i := r\<lparr>r_size := start - reg_start\<rparr>]
         else
           let regs1 = regs[i := r\<lparr>r_addr := reg_start, r_size := start - reg_start\<rparr>]
           in case first_index (\<lambda>r. \<not> r_valid r) regs1 of
                None \<Rightarrow> regs1
              | Some j \<Rightarrow> add_usable_region e (reg_end - e) j regs1)"

definition remove_region :: "u64 \<Rightarrow> u64 \<Rightarrow> mem_region list \<Rightarrow> mem_region list" where
  "remove_region start e regs =
     fold (remove_from (page_down start) (page_up e)) [0..<MAX_REGIONS] regs"

text \<open>
  Reads of the multiboot information. Quadwords of physical memory hold two little-endian
  doublewords; the section headers behind the ELF tag are only 4-aligned.
\<close>

definition read32 :: "(u64 \<Rightarrow> u64) \<Rightarrow> u64 \<Rightarrow> u32" where
  "read32 m a = (let q = m (a AND NOT 7) in if bit a 2 then ucast (drop_bit 32 q) else ucast q)"

definition read64 :: "(u64 \<Rightarrow> u64) \<Rightarrow> u64 \<Rightarrow> u64" where
  "read64 m a = ucast (read32 m a) OR push_bit 32 (ucast (read32 m (a + 4)))"

definition REGION_OS_USE :: u32 where "REGION_OS_USE = 1"
definition TAG_TYPE_MMAP :: u32 where "TAG_TYPE_MMAP = 6"
definition TAG_TYPE_ELF :: u32 where "TAG_TYPE_ELF = 9"

definition mmap_num :: "(u64 \<Rightarrow> u64) \<Rightarrow> ptr \<Rightarrow> int" where
  "mmap_num m tag =
     sint (ucast ((ucast (read32 m (tag + 4)) - 16 :: u64) div ucast (read32 m (tag + 8))) :: u32)"

definition mmap_addr :: "(u64 \<Rightarrow> u64) \<Rightarrow> ptr \<Rightarrow> nat \<Rightarrow> u64" where
  "mmap_addr m tag i = read64 m (tag + 16 + 24 * of_nat i)"

definition mmap_size :: "(u64 \<Rightarrow> u64) \<Rightarrow> ptr \<Rightarrow> nat \<Rightarrow> u64" where
  "mmap_size m tag i = read64 m (tag + 16 + 24 * of_nat i + 8)"

definition mmap_type :: "(u64 \<Rightarrow> u64) \<Rightarrow> ptr \<Rightarrow> nat \<Rightarrow> u32" where
  "mmap_type m tag i = read32 m (tag + 16 + 24 * of_nat i + 16)"

definition parse_mmap_tag ::
    "(u64 \<Rightarrow> u64) \<Rightarrow> ptr \<Rightarrow> mem_region list \<Rightarrow> fault + mem_region list" where
  "parse_mmap_tag m tag regs =
     (if read32 m (tag + 8) = 0 then Inl Divide_Error
      else Inr (fold (\<lambda>i regs.
             if mmap_type m tag i = REGION_OS_USE
             then add_usable_region (mmap_addr m tag i) (mmap_size m tag i) i regs
             else regs) [0..<nat (mmap_num m tag)] regs))"

definition parse_elf_tag :: "(u64 \<Rightarrow> u64) \<Rightarrow> ptr \<Rightarrow> mem_region list \<Rightarrow> mem_region list" where
  "parse_elf_tag m tag regs =
     (let headers = tag + 20
      in fold (\<lambda>i regs.
           let start = read64 m (headers + 64 * of_nat i + 16);
               sz = read64 m (headers + 64 * of_nat i + 32)
           in remove_region start (start + sz) regs)
         [0..<unat (read32 m (tag + 8))] regs)"

definition parse_tag ::
    "(u64 \<Rightarrow> u64) \<Rightarrow> ptr \<Rightarrow> mem_region list \<Rightarrow> fault + mem_region list" where
  "parse_tag m tag regs =
     (if read32 m tag = TAG_TYPE_MMAP then parse_mmap_tag m tag regs
      else if read32 m tag = TAG_TYPE_ELF then Inr (parse_elf_tag m tag regs)
      else Inr regs)"

text \<open>The walk over the tags; a tag of size 0 would be visited forever (\<open>None\<close>).\<close>

definition next_tag :: "(u64 \<Rightarrow> u64) \<Rightarrow> ptr \<Rightarrow> ptr" where
  "next_tag m tag_addr = tag_addr + ucast ((read32 m (tag_addr + 4) + 7) AND NOT 7)"

partial_function (option) walk_tags ::
    "(u64 \<Rightarrow> u64) \<Rightarrow> ptr \<Rightarrow> ptr \<Rightarrow> mem_region list \<Rightarrow> (fault + mem_region list) option" where
  "walk_tags m tag_addr end_addr regs =
     (if tag_addr < end_addr
      then case parse_tag m tag_addr regs of
             Inl e \<Rightarrow> Some (Inl e)
           | Inr regs' \<Rightarrow>
               walk_tags m (next_tag m tag_addr) end_addr regs'
      else Some (Inr regs))"

definition parse_mboot_tags ::
    "ptr \<Rightarrow> 'a frames_st_scheme \<Rightarrow> (fault + 'a frames_st_scheme) option" where
  "parse_mboot_tags mboot_header s =
     (let total_size = read32 (mem s) mboot_header
      in map_option (map_sum id (\<lambda>regs. s\<lparr>usable_regions := regs\<rparr>))
           (walk_tags (mem s) (mboot_header + 8) (mboot_header + ucast total_size)
             (usable_regions s)))"

definition MMU_pf_alloc :: "'a frames_st_scheme \<Rightarrow> ptr \<times> 'a frames_st_scheme" where
  "MMU_pf_alloc s =
     (if free_frames s \<noteq> INVALID_FRAME_ADDR
      then (free_frames s, s\<lparr>free_frames := mem s (free_frames s)\<rparr>)
      else case first_index r_valid (usable_regions s) of
        None \<Rightarrow> (INVALID_FRAME_ADDR, s)
      | Some i \<Rightarrow>
          (let r = usable_regions s ! i
           in if r_size r = PAGE_SIZE
              then (r_addr r, s\<lparr>usable_regions := (usable_regions s)[i := r\<lparr>r_valid := False\<rparr>]\<rparr>)
              else (r_addr r,
                    s\<lparr>usable_regions := (usable_regions s)
                        [i := r\<lparr>r_addr := r_addr r + PAGE_SIZE, r_size := r_size r - PAGE_SIZE\<rparr>]\<rparr>)))"

definition MMU_pf_free :: "ptr \<Rightarrow> 'a frames_st_scheme \<Rightarrow> 'a frames_st_scheme" where
  "MMU_pf_free pf s =
     (if pf = INVALID_FRAME_ADDR then s
      else s\<lparr>mem := (mem s)(pf := free_frames s), free_frames := pf\<rparr>)"

text \<open>The two loops of \<open>MMU_pf_free_count\<close>; the second follows the free list.\<close>

definition count_regions :: "mem_region list \<Rightarrow> u64" where
  "count_regions regs =
     fold (\<lambda>i count. if r_valid (regs ! i) then count + r_size (regs ! i) div PAGE_SIZE else count)
       [0..<MAX_REGIONS] 0"

partial_function (option) count_list_from ::
    "(u64 \<Rightarrow> u64) \<Rightarrow> ptr \<Rightarrow> u64 \<Rightarrow> u64 option" where
  "count_list_from m node count =
     (if node \<noteq> INVALID_FRAME_ADDR then count_list_from m (m node) (count + 1) else Some count)"

definition MMU_pf_free_count :: "'a frames_st_scheme \<Rightarrow> u64 option" where
  "MMU_pf_free_count s =
     count_list_from (mem s) (free_frames s) (count_regions (usable_regions s))"

section \<open>The set of free frames\<close>

text \<open>
  \<open>frames_between a b\<close> are the page frames of the byte range from \<open>a\<close> to \<open>b\<close>;
  a valid region stands for the frames it spans. A region never reaches the top of the
  address space, so its end does not wrap.
\<close>

definition frames_between :: "nat \<Rightarrow> nat \<Rightarrow> u64 set" where
  "frames_between a b = {x. page_aligned x \<and> a \<le> unat x \<and> unat x < b}"

definition reg_frames :: "mem_region \<Rightarrow> u64 set" where
  "reg_frames r =
     (if r_valid r then frames_between (unat (r_addr r)) (unat (r_addr r) + unat (r_size r)) else {})"

definition region_ok :: "mem_region \<Rightarrow> bool" where
  "region_ok r \<longleftrightarrow> (r_valid r \<longrightarrow>
     page_aligned (r_addr r) \<and> page_aligned (r_size r) \<and> r_size r \<noteq> 0 \<and>
     unat (r_addr r) + unat (r_size r) < 2 ^ 64)"

definition table_frames :: "mem_region list \<Rightarrow> u64 set" where
  "table_frames regs = (\<Union>i \<in> {..<length regs}. reg_frames (regs ! i))"

definition other_frames :: "nat \<Rightarrow> mem_region list \<Rightarrow> u64 set" where
  "other_frames i regs = (\<Union>j \<in> {..<length regs} - {i}. reg_frames (regs ! j))"

definition table_ok :: "mem_region list \<Rightarrow> bool" where
  "table_ok regs \<longleftrightarrow> length regs = MAX_REGIONS \<and> (\<forall>r \<in> set regs. region_ok r) \<and>
     (\<forall>i < length regs. reg_frames (regs ! i) \<inter> other_frames i regs = {})"

definition pf_inv :: "'a frames_st_scheme \<Rightarrow> ptr list \<Rightarrow> bool" where
  "pf_inv s fl \<longleftrightarrow> table_ok (usable_regions s) \<and>
     llist (mem s) INVALID_FRAME_ADDR (free_frames s) fl \<and>
     (\<forall>a \<in> set fl. page_aligned a) \<and> set fl \<inter> table_frames (usable_regions s) = {}"

definition avail :: "'a frames_st_scheme \<Rightarrow> u64 set \<Rightarrow> bool" where
  "avail s F \<longleftrightarrow> (\<exists>fl. pf_inv s fl \<and> F = table_frames (usable_regions s) \<union> set fl)"

lemma frames_between_empty: "b \<le> a \<Longrightarrow> frames_between a b = {}"
  by (auto simp: frames_between_def)

lemma INVALID_not_aligned: "\<not> page_aligned INVALID_FRAME_ADDR"
  by (simp add: page_aligned_def INVALID_FRAME_ADDR_def)

lemma reg_frames_invalid [simp]: "\<not> r_valid r \<Longrightarrow> reg_frames r = {}"
  by (simp add: reg_frames_def)

lemma region_ok_invalid [simp]: "\<not> r_valid r \<Longrightarrow> region_ok r"
  by (simp add: region_ok_def)

lemma reg_frames_aligned: "a \<in> reg_frames r \<Longrightarrow> page_aligned a"
  by (simp add: reg_frames_def frames_between_def split: if_splits)

lemma table_frames_aligned: "a \<in> table_frames regs \<Longrightarrow> page_aligned a"
  by (auto simp: table_frames_def dest: reg_frames_aligned)

lemma table_frames_split:
  "i < length regs \<Longrightarrow> table_frames regs = reg_frames (regs ! i) \<union> other_frames i regs"
  by (auto simp: table_frames_def other_frames_def)

lemma other_frames_upd [simp]: "other_frames i (regs[i := r]) = other_frames i regs"
  by (auto simp: other_frames_def)

lemma table_frames_upd:
  "i < length regs \<Longrightarrow> table_frames (regs[i := r]) = reg_frames r \<union> other_frames i regs"
  by (simp add: table_frames_split [of i])

lemma table_ok_nth: "table_ok regs \<Longrightarrow> i < MAX_REGIONS \<Longrightarrow> region_ok (regs ! i)"
  by (simp add: table_ok_def)

lemma table_ok_length: "table_ok regs \<Longrightarrow> length regs = MAX_REGIONS"
  by (simp add: table_ok_def)

lemma table_ok_disjoint:
  "table_ok regs \<Longrightarrow> i < MAX_REGIONS \<Longrightarrow> reg_frames (regs ! i) \<inter> other_frames i regs = {}"
  by (simp add: table_ok_def)

text \<open>Replacing one region by another that stays clear of the rest.\<close>

lemma table_ok_upd:
  assumes "table_ok regs" "i < MAX_REGIONS" "region_ok r" "reg_frames r \<inter> other_frames i regs = {}"
  shows "table_ok (regs[i := r])"
proof -
  have len: "length regs = MAX_REGIONS" using assms(1) by (rule table_ok_length)
  have "reg_frames (regs[i := r] ! k) \<inter> other_frames k (regs[i := r]) = {}" if "k < MAX_REGIONS" for k
  proof (cases "k = i")
    case True
    with assms len that show ?thesis by simp
  next
    case False
    have "reg_frames (regs ! k) \<inter> reg_frames (regs ! j) = {}" if "j \<noteq> k" "j < MAX_REGIONS" for j
      using table_ok_disjoint [OF assms(1) \<open>k < MAX_REGIONS\<close>] that len
      by (auto simp: other_frames_def)
    moreover have "reg_frames (regs ! k) \<inter> reg_frames r = {}"
      using assms(4) False that len by (auto simp: other_frames_def)
    ultimately show ?thesis
      using False that len assms(2)
      by (fastforce simp: other_frames_def nth_list_update split: if_splits)
  qed
  moreover have "\<forall>x \<in> set (regs[i := r]). region_ok x"
    using assms(1,3) by (auto simp: table_ok_def dest!: set_update_subset_insert [THEN subsetD])
  ultimately show ?thesis using len by (simp add: table_ok_def)
qed

lemma table_ok_shrink:
  assumes "table_ok regs" "i < MAX_REGIONS" "region_ok r" "reg_frames r \<subseteq> reg_frames (regs ! i)"
  shows "table_ok (regs[i := r])"
  using assms table_ok_disjoint [OF assms(1,2)] by (intro table_ok_upd) auto


subsection \<open>Allocating and freeing a frame\<close>

lemma aligned_next:
  assumes "4096 dvd a" "4096 dvd (x::nat)" "a \<le> x" "x \<noteq> a"
  shows "a + 4096 \<le> x"
proof -
  obtain j k where "a = 4096 * j" "x = 4096 * k" using assms(1,2) by (elim dvdE)
  with assms(3,4) show ?thesis by simp
qed

lemma frames_between_first:
  assumes "page_aligned a" "unat a + 4096 \<le> b"
  shows "frames_between (unat a) b = insert a (frames_between (unat a + 4096) b)"
proof -
  have "x = a \<or> unat a + 4096 \<le> unat x" if "page_aligned x" "unat a \<le> unat x" for x
    using aligned_next [of "unat a" "unat x"] that assms(1)
    by (auto simp: page_aligned_def word_unat_eq_iff)
  with assms show ?thesis by (auto simp: frames_between_def)
qed

lemma region_ok_size:
  assumes "region_ok r" "r_valid r"
  shows "4096 \<le> unat (r_size r)"
proof -
  have "4096 dvd unat (r_size r)" "unat (r_size r) \<noteq> 0"
    using assms by (simp_all add: region_ok_def page_aligned_def unat_eq_0)
  then show ?thesis by (simp add: dvd_imp_le)
qed

text \<open>Taking the first frame of a region.\<close>

lemma take_frame_last:
  assumes "region_ok r" "r_valid r" "r_size r = PAGE_SIZE"
  shows "reg_frames r = {r_addr r}"
  using assms frames_between_first [of "r_addr r" "unat (r_addr r) + 4096"]
  by (simp add: reg_frames_def region_ok_def frames_between_empty)

lemma take_frame_first:
  assumes "region_ok r" "r_valid r" "r_size r \<noteq> PAGE_SIZE"
  defines "r' \<equiv> r\<lparr>r_addr := r_addr r + PAGE_SIZE, r_size := r_size r - PAGE_SIZE\<rparr>"
  shows "region_ok r'" "reg_frames r = insert (r_addr r) (reg_frames r')" "r_addr r \<notin> reg_frames r'"
proof -
  have ok: "page_aligned (r_addr r)" "page_aligned (r_size r)"
    "unat (r_addr r) + unat (r_size r) < 2 ^ 64"
    using assms(1,2) by (simp_all add: region_ok_def)
  have sz: "4096 \<le> unat (r_size r)" by (rule region_ok_size [OF assms(1,2)])
  have a: "unat (r_addr r + PAGE_SIZE) = unat (r_addr r) + 4096"
    using ok(3) sz by (simp add: unat_word_ariths)
  have s: "unat (r_size r - PAGE_SIZE) = unat (r_size r) - 4096"
    using sz by (simp add: unat_sub unat_le_iff)
  have "unat (r_size r) \<noteq> 4096"
    using assms(3) word_unat_eq_iff [of "r_size r" PAGE_SIZE] by simp
  then show "region_ok r'"
    using ok sz assms(2,3) unfolding r'_def region_ok_def page_aligned_def
    by (simp add: a s)
  show "reg_frames r = insert (r_addr r) (reg_frames r')"
    using frames_between_first [OF ok(1), of "unat (r_addr r) + unat (r_size r)"] sz assms(2)
    by (simp add: reg_frames_def r'_def a s)
  show "r_addr r \<notin> reg_frames r'"
    using assms(2) by (simp add: reg_frames_def r'_def a frames_between_def)
qed


lemma pf_alloc_empty:
  assumes "avail s {}"
  shows "MMU_pf_alloc s = (INVALID_FRAME_ADDR, s)"
proof -
  from assms obtain fl where inv: "pf_inv s fl" and e: "table_frames (usable_regions s) = {}" "fl = []"
    by (auto simp: avail_def)
  have "\<not> r_valid r" if "r \<in> set (usable_regions s)" for r
  proof
    assume v: "r_valid r"
    have "region_ok r" using inv that by (simp add: pf_inv_def table_ok_def)
    then have "r_addr r \<in> reg_frames r"
      using v region_ok_size [of r] by (simp add: reg_frames_def region_ok_def frames_between_def)
    then show False using e(1) that by (auto simp: table_frames_def in_set_conv_nth)
  qed
  then have "first_index r_valid (usable_regions s) = None" by (simp add: first_index_None)
  then show ?thesis using inv e(2) by (simp add: MMU_pf_alloc_def pf_inv_def)
qed

lemma pf_alloc_from_list:
  assumes "pf_inv s (a # fl)"
  shows "MMU_pf_alloc s = (a, s\<lparr>free_frames := mem s a\<rparr>)"
    and "pf_inv (s\<lparr>free_frames := mem s a\<rparr>) fl"
    and "a \<notin> table_frames (usable_regions s)" "a \<notin> set fl"
  using assms llist_distinct [of "mem s" INVALID_FRAME_ADDR "free_frames s" "a # fl"]
  by (auto simp: pf_inv_def MMU_pf_alloc_def)

lemma pf_alloc_from_region:
  assumes "pf_inv s []" "table_frames (usable_regions s) \<noteq> {}"
  shows "\<exists>p regs. MMU_pf_alloc s = (p, s\<lparr>usable_regions := regs\<rparr>) \<and> table_ok regs \<and>
           table_frames (usable_regions s) = insert p (table_frames regs) \<and> p \<notin> table_frames regs"
proof -
  let ?R = "usable_regions s"
  have ok: "table_ok ?R" and ff: "free_frames s = INVALID_FRAME_ADDR"
    using assms(1) by (simp_all add: pf_inv_def)
  have "\<exists>r \<in> set ?R. r_valid r"
    using assms(2) by (force simp: table_frames_def reg_frames_def split: if_splits)
  then obtain i where i: "first_index r_valid ?R = Some i"
    by (cases "first_index r_valid ?R") (auto simp: first_index_None)
  then have il: "i < MAX_REGIONS" and v: "r_valid (?R ! i)"
    using first_index_Some [OF i] table_ok_length [OF ok] by auto
  have rok: "region_ok (?R ! i)" by (rule table_ok_nth [OF ok il])
  have len: "i < length ?R" using il table_ok_length [OF ok] by simp
  have dj: "reg_frames (?R ! i) \<inter> other_frames i ?R = {}" by (rule table_ok_disjoint [OF ok il])
  show ?thesis
  proof (cases "r_size (?R ! i) = PAGE_SIZE")
    case True
    let ?r = "(?R ! i)\<lparr>r_valid := False\<rparr>"
    have "table_ok (?R[i := ?r])" by (rule table_ok_shrink [OF ok il]) simp_all
    moreover have "MMU_pf_alloc s = (r_addr (?R ! i), s\<lparr>usable_regions := ?R[i := ?r]\<rparr>)"
      using ff i True by (simp add: MMU_pf_alloc_def Let_def)
    moreover have "table_frames ?R = insert (r_addr (?R ! i)) (table_frames (?R[i := ?r]))"
      "r_addr (?R ! i) \<notin> table_frames (?R[i := ?r])"
      using take_frame_last [OF rok v True] dj
      by (simp_all add: table_frames_upd [OF len] table_frames_split [OF len])
    ultimately show ?thesis by blast
  next
    case False
    let ?r = "(?R ! i)\<lparr>r_addr := r_addr (?R ! i) + PAGE_SIZE, r_size := r_size (?R ! i) - PAGE_SIZE\<rparr>"
    note t = take_frame_first [OF rok v False]
    have "table_ok (?R[i := ?r])"
      by (rule table_ok_shrink [OF ok il]) (use t in auto)
    moreover have "MMU_pf_alloc s = (r_addr (?R ! i), s\<lparr>usable_regions := ?R[i := ?r]\<rparr>)"
      using ff i False by (simp add: MMU_pf_alloc_def Let_def)
    moreover have "table_frames ?R = insert (r_addr (?R ! i)) (table_frames (?R[i := ?r]))"
      "r_addr (?R ! i) \<notin> table_frames (?R[i := ?r])"
      using t(2,3) dj by (auto simp: table_frames_upd [OF len] table_frames_split [OF len])
    ultimately show ?thesis by blast
  qed
qed

lemma pf_alloc_avail:
  assumes "avail s F" "F \<noteq> {}"
  shows "fst (MMU_pf_alloc s) \<in> F" "avail (snd (MMU_pf_alloc s)) (F - {fst (MMU_pf_alloc s)})"
proof -
  from assms(1) obtain fl where inv: "pf_inv s fl" and F: "F = table_frames (usable_regions s) \<union> set fl"
    by (auto simp: avail_def)
  have "fst (MMU_pf_alloc s) \<in> F \<and> avail (snd (MMU_pf_alloc s)) (F - {fst (MMU_pf_alloc s)})"
  proof (cases fl)
    case Nil
    with pf_alloc_from_region [of s] inv F assms(2) obtain p regs where
      "MMU_pf_alloc s = (p, s\<lparr>usable_regions := regs\<rparr>)" "table_ok regs"
      "table_frames (usable_regions s) = insert p (table_frames regs)" "p \<notin> table_frames regs"
      by auto
    with inv F Nil show ?thesis by (auto simp: avail_def pf_inv_def)
  next
    case (Cons a fl')
    with pf_alloc_from_list [of s a fl'] inv
    have "MMU_pf_alloc s = (a, s\<lparr>free_frames := mem s a\<rparr>)"
      "pf_inv (s\<lparr>free_frames := mem s a\<rparr>) fl'" "a \<notin> table_frames (usable_regions s)" "a \<notin> set fl'"
      by auto
    with F Cons show ?thesis by (auto simp: avail_def intro!: exI [of _ fl'])
  qed
  then show "fst (MMU_pf_alloc s) \<in> F" "avail (snd (MMU_pf_alloc s)) (F - {fst (MMU_pf_alloc s)})"
    by blast+
qed

lemma pf_free_avail:
  assumes "avail s F" "page_aligned p" "p \<notin> F"
  shows "avail (MMU_pf_free p s) (insert p F)"
proof -
  from assms(1) obtain fl where inv: "pf_inv s fl" and F: "F = table_frames (usable_regions s) \<union> set fl"
    by (auto simp: avail_def)
  have "p \<noteq> INVALID_FRAME_ADDR" using assms(2) INVALID_not_aligned by auto
  then have "pf_inv (MMU_pf_free p s) (p # fl)" "usable_regions (MMU_pf_free p s) = usable_regions s"
    using inv assms(2,3) F by (auto simp: pf_inv_def MMU_pf_free_def)
  with F show ?thesis by (auto simp: avail_def)
qed

text \<open>Changes of memory outside the free frames keep the allocator's state.\<close>

lemma avail_mem:
  assumes "avail s F" "\<And>a. page_down a \<in> F \<Longrightarrow> m a = mem s a"
  shows "avail (s\<lparr>mem := m\<rparr>) F"
proof -
  from assms(1) obtain fl where inv: "pf_inv s fl" and F: "F = table_frames (usable_regions s) \<union> set fl"
    by (auto simp: avail_def)
  have "m a = mem s a" if "a \<in> set fl" for a
  proof -
    have "page_aligned a" using inv that by (simp add: pf_inv_def)
    then have "page_down a = a" by (simp add: word_unat_eq_iff unat_page_down page_aligned_def)
    with assms(2) F that show ?thesis by simp
  qed
  then have "llist m INVALID_FRAME_ADDR (free_frames s) fl"
    using inv llist_cong [of fl m "mem s"] by (simp add: pf_inv_def)
  with inv F show ?thesis by (auto simp: avail_def pf_inv_def intro!: exI [of _ fl])
qed

lemma avail_store:
  assumes "avail s F" "page_down a \<notin> F"
  shows "avail (s\<lparr>mem := (mem s)(a := v)\<rparr>) F"
  using assms by (intro avail_mem) auto

subsection \<open>Counting free frames\<close>

lemma card_frames_between:
  assumes "page_aligned a" "unat a + n * 4096 < 2 ^ 64"
  shows "finite (frames_between (unat a) (unat a + n * 4096)) \<and>
         card (frames_between (unat a) (unat a + n * 4096)) = n"
  using assms
proof (induction n arbitrary: a)
  case 0
  then show ?case by (simp add: frames_between_empty)
next
  case (Suc n)
  let ?b = "a + PAGE_SIZE"
  have b: "unat ?b = unat a + 4096" using Suc.prems(2) by (simp add: unat_word_ariths)
  have "finite (frames_between (unat ?b) (unat ?b + n * 4096)) \<and>
        card (frames_between (unat ?b) (unat ?b + n * 4096)) = n"
    using Suc.prems by (intro Suc.IH) (simp_all add: b page_aligned_def)
  moreover have "a \<notin> frames_between (unat ?b) (unat ?b + n * 4096)"
    by (simp add: b frames_between_def)
  moreover have "frames_between (unat a) (unat a + Suc n * 4096) =
      insert a (frames_between (unat ?b) (unat ?b + n * 4096))"
    using frames_between_first [OF Suc.prems(1), of "unat a + Suc n * 4096"]
    by (simp add: b algebra_simps)
  ultimately show ?case by simp
qed

definition region_count :: "mem_region \<Rightarrow> nat" where
  "region_count r = (if r_valid r then unat (r_size r) div 4096 else 0)"

lemma card_reg_frames:
  assumes "region_ok r"
  shows "finite (reg_frames r)" "card (reg_frames r) = region_count r"
proof -
  have "finite (reg_frames r) \<and> card (reg_frames r) = region_count r"
  proof (cases "r_valid r")
    case True
    with assms have "unat (r_size r) = region_count r * 4096"
      by (simp add: region_ok_def page_aligned_def region_count_def)
    with True assms card_frames_between [of "r_addr r" "region_count r"] show ?thesis
      by (simp add: reg_frames_def region_ok_def)
  qed (simp add: region_count_def)
  then show "finite (reg_frames r)" "card (reg_frames r) = region_count r" by blast+
qed

lemma card_table_frames:
  assumes "table_ok regs"
  shows "finite (table_frames regs)" "card (table_frames regs) = (\<Sum>i < MAX_REGIONS. region_count (regs ! i))"
proof -
  have len: "length regs = MAX_REGIONS" by (rule table_ok_length [OF assms])
  have fin: "finite (reg_frames (regs ! i))" if "i < MAX_REGIONS" for i
    using card_reg_frames(1) table_ok_nth [OF assms that] by blast
  then show "finite (table_frames regs)" by (simp add: table_frames_def len)
  have "reg_frames (regs ! i) \<inter> reg_frames (regs ! j) = {}"
    if "i < MAX_REGIONS" "j < MAX_REGIONS" "i \<noteq> j" for i j
    using table_ok_disjoint [OF assms that(1)] that len by (auto simp: other_frames_def)
  then have "card (table_frames regs) = (\<Sum>i < MAX_REGIONS. card (reg_frames (regs ! i)))"
    unfolding table_frames_def len using fin by (intro card_UN_disjoint) auto
  also have "\<dots> = (\<Sum>i < MAX_REGIONS. region_count (regs ! i))"
    using card_reg_frames(2) table_ok_nth [OF assms] by (intro sum.cong) auto
  finally show "card (table_frames regs) = (\<Sum>i < MAX_REGIONS. region_count (regs ! i))" .
qed

lemma count_regions_sum: "count_regions regs = of_nat (\<Sum>i < MAX_REGIONS. region_count (regs ! i))"
proof -
  have "fold (\<lambda>i count. if r_valid (regs ! i) then count + r_size (regs ! i) div PAGE_SIZE else count)
      [0..<n] 0 = of_nat (\<Sum>i < n. region_count (regs ! i))" for n
  proof (induction n)
    case (Suc n)
    have "r_size (regs ! n) div PAGE_SIZE = of_nat (unat (r_size (regs ! n)) div 4096)"
      by (simp add: word_arith_nat_div)
    then show ?case using Suc by (simp add: region_count_def)
  qed simp
  then show ?thesis by (simp add: count_regions_def)
qed

lemma count_list_from_list:
  "llist m INVALID_FRAME_ADDR node fl \<Longrightarrow> count_list_from m node c = Some (c + of_nat (length fl))"
proof (induction fl arbitrary: node c)
  case Nil
  then show ?case by (subst count_list_from.simps) simp
next
  case (Cons a fl)
  then show ?case by (subst count_list_from.simps) (simp add: Cons.IH [of _ "c + 1"])
qed

lemma pf_free_count_avail:
  assumes "avail s F"
  shows "finite F" "MMU_pf_free_count s = Some (of_nat (card F))"
proof -
  from assms obtain fl where inv: "pf_inv s fl" and F: "F = table_frames (usable_regions s) \<union> set fl"
    by (auto simp: avail_def)
  have ok: "table_ok (usable_regions s)" and l: "llist (mem s) INVALID_FRAME_ADDR (free_frames s) fl"
    and dj: "table_frames (usable_regions s) \<inter> set fl = {}" using inv by (auto simp: pf_inv_def)
  show "finite F" using F card_table_frames(1) [OF ok] by simp
  have "card F = (\<Sum>i < MAX_REGIONS. region_count (usable_regions s ! i)) + length fl"
    using F card_table_frames [OF ok] dj llist_distinct [OF l]
    by (simp add: card_Un_disjoint distinct_card)
  then show "MMU_pf_free_count s = Some (of_nat (card F))"
    by (simp add: MMU_pf_free_count_def count_list_from_list [OF l] count_regions_sum)
qed


subsection \<open>Removing a range from the table\<close>

text \<open>
  The range cuts a region in two. This needs a free slot of the table for the part behind the
  range; without one the code gives that part up.
\<close>

definition splits :: "u64 \<Rightarrow> u64 \<Rightarrow> mem_region \<Rightarrow> bool" where
  "splits start e r \<longleftrightarrow> r_valid r \<and> r_addr r < start \<and> e < r_addr r + r_size r"

lemma aligned_add: "page_aligned a \<Longrightarrow> unat (a + b) = unat a + unat b \<Longrightarrow> page_aligned b \<Longrightarrow> page_aligned (a + b)"
  by (simp add: page_aligned_def)

lemma aligned_diff: "page_aligned a \<Longrightarrow> page_aligned b \<Longrightarrow> b \<le> a \<Longrightarrow> page_aligned (a - b)"
  by (simp add: page_aligned_def unat_sub dvd_diff_nat)

lemma page_down_aligned: "page_aligned a \<Longrightarrow> page_down a = a"
  by (simp add: word_unat_eq_iff unat_page_down page_aligned_def)

lemma page_up_aligned:
  assumes "page_aligned a" "unat a + 4095 < 2 ^ 64"
  shows "page_up a = a"
proof -
  obtain k where "unat a = 4096 * k" using assms(1) by (auto simp: page_aligned_def elim: dvdE)
  then show ?thesis by (simp add: word_unat_eq_iff unat_page_up [OF assms(2)])
qed

lemma region_end:
  assumes "region_ok r" "r_valid r"
  shows "unat (r_addr r + r_size r) = unat (r_addr r) + unat (r_size r)"
    "page_aligned (r_addr r + r_size r)"
proof -
  show u: "unat (r_addr r + r_size r) = unat (r_addr r) + unat (r_size r)"
    using assms by (simp add: region_ok_def unat_word_ariths)
  show "page_aligned (r_addr r + r_size r)"
    using assms u by (simp add: region_ok_def aligned_add)
qed

text \<open>The four ways a range meets a region.\<close>

lemma cut_front:
  assumes r: "region_ok r" "r_valid r" and e: "page_aligned e"
    and c: "start \<le> r_addr r" "r_addr r < e" "e < r_addr r + r_size r"
  defines "r' \<equiv> r\<lparr>r_addr := e, r_size := r_addr r + r_size r - e\<rparr>"
  shows "region_ok r'" "reg_frames r' = reg_frames r - frames_between (unat start) (unat e)"
proof -
  let ?e = "r_addr r + r_size r"
  note re = region_end [OF r]
  have n: "unat start \<le> unat (r_addr r)" "unat (r_addr r) < unat e" "unat e < unat ?e"
    using c unat_le_iff unat_less_iff by blast+
  have u: "unat (?e - e) = unat ?e - unat e" using c(3) by (simp add: unat_sub)
  have "page_aligned (?e - e)" using re(2) e c(3) by (simp add: aligned_diff)
  then show "region_ok r'"
    using e n u unat64_less [of ?e] unfolding r'_def region_ok_def by auto
  show "reg_frames r' = reg_frames r - frames_between (unat start) (unat e)"
    using n u re(1) r by (auto simp: r'_def reg_frames_def frames_between_def)
qed

lemma cut_back:
  assumes r: "region_ok r" "r_valid r" and s: "page_aligned start"
    and c: "r_addr r < start" "start < r_addr r + r_size r"
  defines "r' \<equiv> r\<lparr>r_size := start - r_addr r\<rparr>"
  shows "region_ok r'" "reg_frames r' = frames_between (unat (r_addr r)) (unat start)"
proof -
  note re = region_end [OF r]
  have n: "unat (r_addr r) < unat start" using c(1) unat_less_iff by blast
  have u: "unat (start - r_addr r) = unat start - unat (r_addr r)"
    using c(1) by (simp add: unat_sub)
  have "page_aligned (start - r_addr r)" using s c(1) r by (simp add: aligned_diff region_ok_def)
  then show "region_ok r'"
    using n u r unat64_less [of start] unfolding r'_def region_ok_def by auto
  show "reg_frames r' = frames_between (unat (r_addr r)) (unat start)"
    using n u r by (simp add: r'_def reg_frames_def)
qed

lemma cut_right:
  assumes r: "region_ok r" "r_valid r" and e: "page_aligned e"
    and c: "e < r_addr r + r_size r" and j: "j < MAX_REGIONS"
  defines "r' \<equiv> \<lparr>r_addr = e, r_size = r_addr r + r_size r - e, r_valid = True\<rparr>"
  shows "region_ok r'" "reg_frames r' = frames_between (unat e) (unat (r_addr r + r_size r))"
    "add_usable_region e (r_addr r + r_size r - e) j regs = regs[j := r']"
proof -
  let ?e = "r_addr r + r_size r"
  note re = region_end [OF r]
  have n: "unat e < unat ?e" using c unat_less_iff by blast
  have u: "unat (?e - e) = unat ?e - unat e" using c by (simp add: unat_sub)
  have "page_aligned (?e - e)" using re(2) e c by (simp add: aligned_diff)
  then show "region_ok r'"
    using e n u unat64_less [of ?e] unfolding r'_def region_ok_def by auto
  show "reg_frames r' = frames_between (unat e) (unat ?e)"
    using n u by (simp add: r'_def reg_frames_def)
  have "unat e + 4096 \<le> unat ?e"
    using aligned_next [of "unat e" "unat ?e"] e re(2) n by (simp add: page_aligned_def)
  then have "unat e + 4095 < 2 ^ 64" using unat64_less [of ?e] by simp
  then have "page_up e = e" by (rule page_up_aligned [OF e])
  moreover have "page_down ?e = ?e" by (rule page_down_aligned [OF re(2)])
  moreover have "\<not> ?e \<le> e" using c by simp
  ultimately show "add_usable_region e (?e - e) j regs = regs[j := r']"
    using j by (simp add: add_usable_region_def r'_def Let_def)
qed


lemma remove_from_cases:
  assumes ok: "table_ok regs" and i: "i < MAX_REGIONS"
    and al: "page_aligned start" "page_aligned e" and le: "start \<le> e"
  obtains
    (keep) r' where "remove_from start e i regs = regs[i := r']" "region_ok r'"
      "reg_frames r' = reg_frames (regs ! i) - frames_between (unat start) (unat e)"
      "\<not> splits start e r'" "\<not> splits start e (regs ! i)" "r_valid r' \<longrightarrow> r_valid (regs ! i)"
  | (split) l r' where "splits start e (regs ! i)" "region_ok l" "region_ok r'" "r_valid l" "r_valid r'"
      "\<not> splits start e l" "\<not> splits start e r'"
      "reg_frames l = frames_between (unat (r_addr (regs ! i))) (unat start)"
      "reg_frames r' = frames_between (unat e) (unat (r_addr (regs ! i) + r_size (regs ! i)))"
      "remove_from start e i regs =
         (case first_index (\<lambda>r. \<not> r_valid r) (regs[i := l]) of
            None \<Rightarrow> regs[i := l] | Some j \<Rightarrow> regs[i := l, j := r'])"
proof -
  let ?r = "regs ! i" and ?e = "r_addr (regs ! i) + r_size (regs ! i)"
  let ?R = "frames_between (unat start) (unat e)"
  have rok: "region_ok ?r" by (rule table_ok_nth [OF ok i])
  consider (invalid) "\<not> r_valid ?r"
    | (apart) "r_valid ?r" "e \<le> r_addr ?r \<or> ?e \<le> start"
    | (full) "r_valid ?r" "r_addr ?r < e" "start < ?e" "start \<le> r_addr ?r" "?e \<le> e"
    | (front) "r_valid ?r" "start \<le> r_addr ?r" "r_addr ?r < e" "e < ?e"
    | (rear) "r_valid ?r" "r_addr ?r < start" "start < ?e" "?e \<le> e"
    | (inner) "r_valid ?r" "r_addr ?r < start" "e < ?e"
    using le by fastforce
  then show ?thesis
  proof cases
    case invalid
    show ?thesis by (rule keep [of ?r]) (use invalid in \<open>auto simp: remove_from_def splits_def\<close>)
  next
    case apart
    have "reg_frames ?r - ?R = reg_frames ?r"
      using apart region_end [OF rok apart(1)]
      by (auto simp: reg_frames_def frames_between_def unat_le_iff)
    moreover have "\<not> splits start e ?r" using apart le by (auto simp: splits_def)
    ultimately show ?thesis
      by (intro keep [of ?r]) (use apart rok in \<open>auto simp: remove_from_def Let_def\<close>)
  next
    case full
    have "reg_frames ?r - ?R = {}"
      using full region_end [OF rok full(1)]
      by (auto simp: reg_frames_def frames_between_def unat_le_iff)
    then show ?thesis
      by (intro keep [of "?r\<lparr>r_valid := False\<rparr>"])
         (use full in \<open>auto simp: remove_from_def Let_def splits_def\<close>)
  next
    case front
    note f = cut_front [OF rok front(1) al(2) front(2-4)]
    show ?thesis
      by (rule keep [of "?r\<lparr>r_addr := e, r_size := ?e - e\<rparr>"])
         (use front f le in \<open>auto simp: remove_from_def Let_def splits_def\<close>)
  next
    case rear
    note b = cut_back [OF rok rear(1) al(1) rear(2,3)]
    have "reg_frames ?r - ?R = frames_between (unat (r_addr ?r)) (unat start)"
      using rear region_end [OF rok rear(1)]
      by (auto simp: reg_frames_def frames_between_def unat_le_iff unat_less_iff)
    then show ?thesis
      by (intro keep [of "?r\<lparr>r_size := start - r_addr ?r\<rparr>"])
         (use rear b le in \<open>auto simp: remove_from_def Let_def splits_def\<close>)
  next
    case inner
    have "start < ?e" using inner(3) le by simp
    note b = cut_back [OF rok inner(1) al(1) inner(2) this]
    note r = cut_right [OF rok inner(1) al(2) inner(3)]
    let ?l = "?r\<lparr>r_size := start - r_addr ?r\<rparr>"
    let ?r' = "\<lparr>r_addr = e, r_size = ?e - e, r_valid = True\<rparr>"
    have "j < MAX_REGIONS" if "first_index P (regs[i := ?l]) = Some j" for P j
      using first_index_Some [OF that] table_ok_length [OF ok] by simp
    then have eq: "remove_from start e i regs =
        (case first_index (\<lambda>r. \<not> r_valid r) (regs[i := ?l]) of
           None \<Rightarrow> regs[i := ?l] | Some j \<Rightarrow> regs[i := ?l, j := ?r'])"
      using inner le r(3)
      by (auto simp: remove_from_def Let_def split: option.splits)
    show ?thesis
      by (rule split [of ?l ?r']) (use inner b r(1,2) [of 0] le eq in \<open>auto simp: splits_def\<close>)
  qed
qed


definition room :: "u64 \<Rightarrow> u64 \<Rightarrow> mem_region list \<Rightarrow> bool" where
  "room start e regs \<longleftrightarrow> (\<exists>r \<in> set regs. \<not> r_valid r) \<or> (\<forall>r \<in> set regs. \<not> splits start e r)"

text \<open>What one iteration keeps and achieves; \<open>cleared\<close> relates the table before and after.\<close>

definition cleared :: "u64 \<Rightarrow> u64 \<Rightarrow> mem_region list \<Rightarrow> mem_region list \<Rightarrow> bool" where
  "cleared start e regs regs' \<longleftrightarrow> (let R = frames_between (unat start) (unat e) in
     table_ok regs' \<and> table_frames regs' \<subseteq> table_frames regs \<and>
     (\<forall>k < MAX_REGIONS. reg_frames (regs ! k) \<inter> R = {} \<longrightarrow> reg_frames (regs' ! k) \<inter> R = {}) \<and>
     (room start e regs \<longrightarrow> room start e regs' \<and> table_frames regs' - R = table_frames regs - R))"

lemma cleared_refl: "table_ok regs \<Longrightarrow> cleared start e regs regs"
  by (simp add: cleared_def Let_def)

lemma cleared_trans: "cleared start e a b \<Longrightarrow> cleared start e b c \<Longrightarrow> cleared start e a c"
  by (auto simp: cleared_def Let_def)

lemma splits_frame:
  assumes "region_ok r" "splits start e r" "page_aligned start" "start \<le> e"
  shows "start \<in> reg_frames r"
proof -
  have v: "r_valid r" and c: "r_addr r < start" "start < r_addr r + r_size r"
    using assms(2,4) by (auto simp: splits_def)
  then show ?thesis
    using region_end(1) [OF assms(1) v] assms(3)
    by (simp add: reg_frames_def frames_between_def unat_less_iff)
qed

lemma splits_only_one:
  assumes ok: "table_ok regs" and s: "splits start e (regs ! i)" "splits start e (regs ! k)"
    and b: "i < MAX_REGIONS" "k < MAX_REGIONS" and al: "page_aligned start" "start \<le> e"
  shows "i = k"
proof (rule ccontr)
  assume "i \<noteq> k"
  then have "reg_frames (regs ! i) \<inter> reg_frames (regs ! k) = {}"
    using table_ok_disjoint [OF ok b(1)] b table_ok_length [OF ok] by (auto simp: other_frames_def)
  then show False
    using splits_frame [OF table_ok_nth [OF ok b(1)] s(1) al]
      splits_frame [OF table_ok_nth [OF ok b(2)] s(2) al] by blast
qed

lemma room_keep:
  assumes "room start e regs" "\<not> splits start e r'" "r_valid r' \<longrightarrow> r_valid (regs ! i)"
  shows "room start e (regs[i := r'])"
proof (cases "i < length regs")
  case True
  then show ?thesis using assms unfolding room_def
    by (auto simp: all_set_conv_all_nth nth_list_update in_set_conv_nth split: if_splits)
qed (use assms in \<open>simp add: list_update_beyond\<close>)


lemma cleared_keep:
  assumes ok: "table_ok regs" and i: "i < MAX_REGIONS" and r: "region_ok r'"
    and f: "reg_frames r' = reg_frames (regs ! i) - frames_between (unat start) (unat e)"
    and s: "\<not> splits start e r'" "r_valid r' \<longrightarrow> r_valid (regs ! i)"
  shows "cleared start e regs (regs[i := r'])"
proof -
  have len: "i < length regs" using i table_ok_length [OF ok] by simp
  have "table_ok (regs[i := r'])" using ok i r f by (intro table_ok_shrink) auto
  moreover have "reg_frames (regs[i := r'] ! k) \<inter> R = {}"
    if "reg_frames (regs ! k) \<inter> R = {}" "R = frames_between (unat start) (unat e)" for k R
    using that f len by (cases "k = i") auto
  ultimately show ?thesis
    using room_keep [OF _ s] f
    by (auto simp: cleared_def Let_def table_frames_upd [OF len] table_frames_split [OF len])
qed

lemma room_split:
  assumes ok: "table_ok regs" and i: "i < MAX_REGIONS" and al: "page_aligned start" "start \<le> e"
    and s: "splits start e (regs ! i)" "\<not> splits start e l" "\<not> splits start e r'" and j: "j < MAX_REGIONS"
  shows "room start e (regs[i := l, j := r'])"
proof -
  have "\<not> splits start e (regs[i := l, j := r'] ! k)" if "k < MAX_REGIONS" for k
    using splits_only_one [OF ok s(1) _ i that al] s(2,3) i j that table_ok_length [OF ok]
    by (auto simp: nth_list_update)
  then show ?thesis using table_ok_length [OF ok] by (auto simp: room_def in_set_conv_nth)
qed

lemma cleared_split:
  assumes ok: "table_ok regs" and i: "i < MAX_REGIONS" and al: "page_aligned start" "page_aligned e" "start \<le> e"
    and s: "splits start e (regs ! i)" "region_ok l" "region_ok r'" "r_valid l" "\<not> splits start e l"
      "\<not> splits start e r'" and fl: "reg_frames l = frames_between (unat (r_addr (regs ! i))) (unat start)"
    and fr: "reg_frames r' = frames_between (unat e) (unat (r_addr (regs ! i) + r_size (regs ! i)))"
    and j: "first_index (\<lambda>r. \<not> r_valid r) (regs[i := l]) = Some j"
  shows "cleared start e regs (regs[i := l, j := r'])"
proof -
  let ?R = "frames_between (unat start) (unat e)"
  have len: "length regs = MAX_REGIONS" by (rule table_ok_length [OF ok])
  have v: "r_valid (regs ! i)" and c: "r_addr (regs ! i) < start" "e < r_addr (regs ! i) + r_size (regs ! i)"
    using s(1) by (simp_all add: splits_def)
  have n: "unat (r_addr (regs ! i)) < unat start" "unat start \<le> unat e"
    "unat e < unat (r_addr (regs ! i)) + unat (r_size (regs ! i))"
    using c al(3) region_end(1) [OF table_ok_nth [OF ok i] v] unat_less_iff unat_le_iff by metis+
  have jl: "j < MAX_REGIONS" "j \<noteq> i" "\<not> r_valid (regs ! j)"
    using first_index_Some [OF j] len i s(4) by (auto simp: nth_list_update split: if_splits)
  have all: "reg_frames (regs ! i) =
      frames_between (unat (r_addr (regs ! i))) (unat (r_addr (regs ! i)) + unat (r_size (regs ! i)))"
    using v by (simp add: reg_frames_def)
  have part: "reg_frames l \<union> reg_frames r' = reg_frames (regs ! i) - ?R" "reg_frames l \<inter> reg_frames r' = {}"
    using n unfolding fl fr all region_end(1) [OF table_ok_nth [OF ok i] v]
    by (auto simp: frames_between_def)
  have okl: "table_ok (regs[i := l])" using ok i s(2) part(1) by (intro table_ok_shrink) auto
  have oth: "other_frames j (regs[i := l]) = reg_frames l \<union> other_frames i regs"
    using table_frames_split [of j "regs[i := l]"] table_frames_upd [of i regs l] jl len i by simp
  have dj: "reg_frames (regs ! i) \<inter> other_frames i regs = {}" by (rule table_ok_disjoint [OF ok i])
  have ok2: "table_ok (regs[i := l, j := r'])"
    using part dj by (intro table_ok_upd [OF okl jl(1) s(3)]) (auto simp: oth)
  have fr2: "table_frames (regs[i := l, j := r']) = (reg_frames (regs ! i) - ?R) \<union> other_frames i regs"
    using table_frames_upd [of j "regs[i := l]" r'] jl(1) len oth part(1) by auto
  have "reg_frames (regs[i := l, j := r'] ! k) \<inter> ?R = {}" if "reg_frames (regs ! k) \<inter> ?R = {}" for k
    using that part(1) len i jl by (auto simp: nth_list_update)
  then show ?thesis
    using ok2 fr2 room_split [OF ok i al(1,3) s(1,5,6) jl(1)] i len
    by (auto simp: cleared_def Let_def table_frames_split [of i regs])
qed


lemma cleared_drop:
  assumes ok: "table_ok regs" and i: "i < MAX_REGIONS"
    and s: "splits start e (regs ! i)" "region_ok l" "r_valid l" and le: "start \<le> e"
    and fl: "reg_frames l = frames_between (unat (r_addr (regs ! i))) (unat start)"
    and j: "first_index (\<lambda>r. \<not> r_valid r) (regs[i := l]) = None"
  shows "cleared start e regs (regs[i := l])" "\<not> room start e regs"
proof -
  have len: "i < length regs" using i table_ok_length [OF ok] by simp
  have v: "r_valid (regs ! i)" and c: "r_addr (regs ! i) < start" "e < r_addr (regs ! i) + r_size (regs ! i)"
    using s(1) by (simp_all add: splits_def)
  have n: "unat start \<le> unat e" "unat e < unat (r_addr (regs ! i)) + unat (r_size (regs ! i))"
    using c le region_end(1) [OF table_ok_nth [OF ok i] v] unat_less_iff unat_le_iff by metis+
  have sub: "reg_frames l \<subseteq> reg_frames (regs ! i) - frames_between (unat start) (unat e)"
    using n v unfolding fl by (auto simp: reg_frames_def frames_between_def)
  have "r_valid (regs[i := l] ! k)" if "k < length regs" for k
    using j that by (simp add: first_index_None all_set_conv_all_nth)
  then have "r_valid (regs ! k)" if "k < length regs" for k
    using v that by (metis nth_list_update_neq)
  then show nr: "\<not> room start e regs"
    using s(1) nth_mem [OF len] by (fastforce simp: room_def in_set_conv_nth)
  have "table_ok (regs[i := l])" using ok i s(2) sub by (intro table_ok_shrink) auto
  moreover have "reg_frames (regs[i := l] ! k) \<inter> R = {}"
    if "reg_frames (regs ! k) \<inter> R = {}" "R = frames_between (unat start) (unat e)" for k R
    using that sub len by (cases "k = i") auto
  ultimately show "cleared start e regs (regs[i := l])"
    using nr sub by (auto simp: cleared_def Let_def table_frames_upd [OF len] table_frames_split [OF len])
qed

lemma remove_from_cleared:
  assumes "table_ok regs" "i < MAX_REGIONS" "page_aligned start" "page_aligned e" "start \<le> e"
  shows "cleared start e regs (remove_from start e i regs)"
    "reg_frames (remove_from start e i regs ! i) \<inter> frames_between (unat start) (unat e) = {}"
proof -
  have len: "i < length regs" using assms(2) table_ok_length [OF assms(1)] by simp
  have "cleared start e regs (remove_from start e i regs) \<and>
    reg_frames (remove_from start e i regs ! i) \<inter> frames_between (unat start) (unat e) = {}"
    using assms
  proof (cases rule: remove_from_cases)
    case (keep r')
    then show ?thesis using cleared_keep [OF assms(1,2)] len by auto
  next
    case (split l r')
    have l: "reg_frames l \<inter> frames_between (unat start) (unat e) = {}"
      by (auto simp: split frames_between_def)
    show ?thesis
    proof (cases "first_index (\<lambda>r. \<not> r_valid r) (regs[i := l])")
      case None
      then show ?thesis
        using cleared_drop(1) [OF assms(1,2) split(1,2,4) assms(5) split(8)] split(10) l len by simp
    next
      case (Some j)
      have "j \<noteq> i" using first_index_Some [OF Some] split(4) len by (auto simp: nth_list_update)
      then show ?thesis
        using cleared_split [OF assms split(1-4,6-9) Some] split(10) l len Some by simp
    qed
  qed
  then show "cleared start e regs (remove_from start e i regs)"
    "reg_frames (remove_from start e i regs ! i) \<inter> frames_between (unat start) (unat e) = {}" by blast+
qed

lemma remove_fold:
  assumes "table_ok regs" "page_aligned start" "page_aligned e" "start \<le> e" "n \<le> MAX_REGIONS"
  shows "cleared start e regs (fold (remove_from start e) [0..<n] regs) \<and>
    (\<forall>k < n. reg_frames (fold (remove_from start e) [0..<n] regs ! k) \<inter>
       frames_between (unat start) (unat e) = {})"
  using assms(5)
proof (induction n)
  case 0
  then show ?case using assms(1) by (simp add: cleared_refl)
next
  case (Suc n)
  let ?t = "fold (remove_from start e) [0..<n] regs"
  have IH: "cleared start e regs ?t"
    "\<forall>k < n. reg_frames (?t ! k) \<inter> frames_between (unat start) (unat e) = {}"
    using Suc by simp_all
  have "table_ok ?t" using IH(1) by (simp add: cleared_def Let_def)
  note st = remove_from_cleared [OF this _ assms(2-4), of n]
  have "cleared start e ?t (remove_from start e n ?t)" using st(1) Suc.prems by simp
  moreover have "reg_frames (remove_from start e n ?t ! k) \<inter> frames_between (unat start) (unat e) = {}"
    if "k < Suc n" for k
  proof (cases "k = n")
    case False
    with that IH(2) have "reg_frames (?t ! k) \<inter> frames_between (unat start) (unat e) = {}" by simp
    with st(1) Suc.prems that show ?thesis by (simp add: cleared_def Let_def)
  qed (use st(2) Suc.prems in simp)
  ultimately show ?case using cleared_trans [OF IH(1)] by simp
qed


section \<open>The contract of the frame allocator\<close>

text \<open>
  What the page-table code relies on. \<open>av s F\<close> says that \<open>F\<close> is the set of free frames;
  \<open>store\<close> is a store to physical memory.
\<close>

locale frame_allocator =
  fixes alloc :: "'s \<Rightarrow> ptr \<times> 's" and release :: "ptr \<Rightarrow> 's \<Rightarrow> 's"
    and store :: "u64 \<Rightarrow> u64 \<Rightarrow> 's \<Rightarrow> 's" and load :: "'s \<Rightarrow> u64 \<Rightarrow> u64"
    and av :: "'s \<Rightarrow> u64 set \<Rightarrow> bool" and none :: ptr
  assumes none_odd: "\<not> page_aligned none"
    and av_aligned: "av s F \<Longrightarrow> p \<in> F \<Longrightarrow> page_aligned p"
    and alloc_none: "av s {} \<Longrightarrow> alloc s = (none, s)"
    and alloc_some: "av s F \<Longrightarrow> F \<noteq> {} \<Longrightarrow> fst (alloc s) \<in> F \<and> av (snd (alloc s)) (F - {fst (alloc s)})"
    and alloc_load: "load (snd (alloc s)) = load s"
    and release_av: "av s F \<Longrightarrow> page_aligned p \<Longrightarrow> p \<notin> F \<Longrightarrow> av (release p s) (insert p F)"
    and release_load: "a \<noteq> p \<Longrightarrow> load (release p s) a = load s a"
    and store_av: "av s F \<Longrightarrow> page_down a \<notin> F \<Longrightarrow> av (store a v s) F"
    and store_load: "load (store a v s) = (load s)(a := v)"
begin

lemma alloc_not_none: "av s F \<Longrightarrow> fst (alloc s) = none \<longleftrightarrow> F = {}"
  using alloc_some av_aligned none_odd alloc_none by (metis fst_conv)

lemma alloc_cases:
  assumes "av s F" "alloc s = (p, s')"
  obtains (none) "F = {}" "p = none" "s' = s"
  | (some) "p \<in> F" "p \<noteq> none" "page_aligned p" "av s' (F - {p})" "load s' = load s"
  using assms alloc_none alloc_some alloc_load alloc_not_none av_aligned by (metis fst_conv snd_conv)

end

primrec alloc_many :: "('s \<Rightarrow> ptr \<times> 's) \<Rightarrow> nat \<Rightarrow> 's \<Rightarrow> ptr list \<times> 's" where
  "alloc_many alloc 0 s = ([], s)"
| "alloc_many alloc (Suc n) s =
     (let (p, s1) = alloc s; (ps, s2) = alloc_many alloc n s1 in (p # ps, s2))"

context frame_allocator
begin

lemma alloc_many_distinct:
  assumes "av s F" "finite F" "n \<le> card F"
  shows "distinct (fst (alloc_many alloc n s)) \<and> length (fst (alloc_many alloc n s)) = n \<and>
    set (fst (alloc_many alloc n s)) \<subseteq> F \<and>
    av (snd (alloc_many alloc n s)) (F - set (fst (alloc_many alloc n s)))"
  using assms
proof (induction n arbitrary: s F)
  case (Suc n)
  obtain p s1 where a: "alloc s = (p, s1)" by fastforce
  obtain ps s2 where m: "alloc_many alloc n s1 = (ps, s2)" by fastforce
  have "F \<noteq> {}" using Suc.prems(3) by auto
  with Suc.prems(1) a alloc_some [of s F] have p: "p \<in> F" "av s1 (F - {p})" by auto
  have "n \<le> card (F - {p})" using Suc.prems(2,3) p(1) by simp
  from Suc.IH [OF p(2) _ this] Suc.prems(2) m
  have "distinct ps" "length ps = n" "set ps \<subseteq> F - {p}" "av s2 (F - {p} - set ps)" by auto
  with a m p(1) show ?case by (auto simp: Diff_insert2 [symmetric])
qed simp

end

lemma avail_aligned: "avail s F \<Longrightarrow> p \<in> F \<Longrightarrow> page_aligned p"
  by (auto simp: avail_def pf_inv_def dest: table_frames_aligned)

lemma pf_alloc_mem: "mem (snd (MMU_pf_alloc s)) = mem s"
  by (simp add: MMU_pf_alloc_def Let_def split: option.splits)

lemma pf_free_mem: "a \<noteq> p \<Longrightarrow> mem (MMU_pf_free p s) a = mem s a"
  by (simp add: MMU_pf_free_def)

interpretation pf: frame_allocator MMU_pf_alloc MMU_pf_free
  "\<lambda>a v s. s\<lparr>mem := (mem s)(a := v)\<rparr>" mem avail INVALID_FRAME_ADDR
  by unfold_locales
    (simp_all add: INVALID_not_aligned avail_aligned pf_alloc_empty pf_alloc_avail pf_alloc_mem
      pf_free_avail pf_free_mem avail_store)


section \<open>Building the table at boot\<close>

text \<open>The frames that lie entirely inside a usable entry of the memory map.\<close>

definition inner_frames :: "u64 \<Rightarrow> u64 \<Rightarrow> u64 set" where
  "inner_frames addr sz =
     {x. page_aligned x \<and> unat addr \<le> unat x \<and> unat x + 4096 \<le> unat addr + unat sz}"

definition entry_frames :: "(u64 \<Rightarrow> u64) \<Rightarrow> ptr \<Rightarrow> nat \<Rightarrow> u64 set" where
  "entry_frames m tag i =
     (if mmap_type m tag i = REGION_OS_USE then inner_frames (mmap_addr m tag i) (mmap_size m tag i)
      else {})"

lemma frames_between_rounded:
  "frames_between ((a + 4095) div 4096 * 4096) (b div 4096 * 4096) =
   {x. page_aligned x \<and> a \<le> unat x \<and> unat x + 4096 \<le> b}"
proof -
  have "(a + 4095) div 4096 * 4096 \<le> y \<longleftrightarrow> a \<le> y" "y < b div 4096 * 4096 \<longleftrightarrow> y + 4096 \<le> b"
    if "4096 dvd y" for y :: nat
    using that by (elim dvdE; simp; arith)+
  then show ?thesis by (auto simp: frames_between_def page_aligned_def)
qed

lemma add_usable_region_frames:
  assumes "unat addr + unat sz + 4095 < 2 ^ 64"
  shows "\<exists>r. add_usable_region addr sz i regs = (if i < MAX_REGIONS then regs[i := r] else regs) \<and>
    (r_valid r \<or> r = regs ! i) \<and>
    (reg_frames r = inner_frames addr sz \<or>
     r = regs ! i \<and> inner_frames addr sz = {}) \<and>
    (r = regs ! i \<or> region_ok r)"
proof -
  let ?s = "page_up addr" and ?e = "page_down (addr + sz)"
  let ?F = "inner_frames addr sz"
  have u: "unat ?s = (unat addr + 4095) div 4096 * 4096"
    "unat ?e = (unat addr + unat sz) div 4096 * 4096"
    using assms by (simp_all add: unat_page_up unat_page_down unat_word_ariths)
  have F: "frames_between (unat ?s) (unat ?e) = ?F" unfolding u inner_frames_def by (rule frames_between_rounded)
  show ?thesis
  proof (cases "?e \<le> ?s")
    case True
    then have "?F = {}" using F by (simp add: frames_between_empty unat_le_iff)
    then show ?thesis using True by (intro exI [of _ "regs ! i"]) (simp add: add_usable_region_def)
  next
    case False
    let ?r = "\<lparr>r_addr = ?s, r_size = ?e - ?s, r_valid = True\<rparr>"
    have n: "unat ?s < unat ?e" using False by (simp add: unat_le_iff)
    have d: "unat (?e - ?s) = unat ?e - unat ?s" using False by (simp add: unat_sub)
    have "page_aligned ?s" by (simp add: page_up_def)
    then have "region_ok ?r"
      using False d n unat64_less [of ?e] by (auto simp: region_ok_def aligned_diff)
    moreover have "reg_frames ?r = ?F" using F n d by (simp add: reg_frames_def)
    ultimately show ?thesis
      using False by (intro exI [of _ ?r]) (simp add: add_usable_region_def Let_def)
  qed
qed


definition mmap_step :: "(u64 \<Rightarrow> u64) \<Rightarrow> ptr \<Rightarrow> nat \<Rightarrow> mem_region list \<Rightarrow> mem_region list" where
  "mmap_step m tag i regs =
     (if mmap_type m tag i = REGION_OS_USE
      then add_usable_region (mmap_addr m tag i) (mmap_size m tag i) i regs else regs)"

lemma parse_mmap_tag_fold:
  "read32 m (tag + 8) \<noteq> 0 \<Longrightarrow>
   parse_mmap_tag m tag regs = Inr (fold (mmap_step m tag) [0..<nat (mmap_num m tag)] regs)"
  by (simp add: parse_mmap_tag_def mmap_step_def [abs_def])

definition mmap_ok :: "(u64 \<Rightarrow> u64) \<Rightarrow> ptr \<Rightarrow> bool" where
  "mmap_ok m tag \<longleftrightarrow>
     (\<forall>i < nat (mmap_num m tag).
        unat (mmap_addr m tag i) + unat (mmap_size m tag i) + 4095 < 2 ^ 64) \<and>
     (\<forall>i < nat (mmap_num m tag). \<forall>j < nat (mmap_num m tag).
        i \<noteq> j \<longrightarrow> entry_frames m tag i \<inter> entry_frames m tag j = {})"

lemma mmap_step_slot:
  assumes "unat (mmap_addr m tag i) + unat (mmap_size m tag i) + 4095 < 2 ^ 64"
    and ok: "table_ok regs" and v: "i < MAX_REGIONS \<longrightarrow> \<not> r_valid (regs ! i)"
    and d: "entry_frames m tag i \<inter> table_frames regs = {}"
  shows "table_ok (mmap_step m tag i regs)"
    "table_frames (mmap_step m tag i regs) =
       table_frames regs \<union> (if i < MAX_REGIONS then entry_frames m tag i else {})"
    "\<And>k. k \<noteq> i \<Longrightarrow> mmap_step m tag i regs ! k = regs ! k"
proof -
  obtain r where r: "mmap_step m tag i regs = (if i < MAX_REGIONS then regs[i := r] else regs)"
    "i < MAX_REGIONS \<longrightarrow> reg_frames r = entry_frames m tag i \<and> region_ok r"
  proof (cases "mmap_type m tag i = REGION_OS_USE")
    case True
    obtain r where a: "add_usable_region (mmap_addr m tag i) (mmap_size m tag i) i regs =
          (if i < MAX_REGIONS then regs[i := r] else regs)"
      and b: "reg_frames r = entry_frames m tag i \<or> r = regs ! i \<and> entry_frames m tag i = {}"
      and c: "r = regs ! i \<or> region_ok r"
      using add_usable_region_frames [OF assms(1), of i regs] True
      by (auto simp: entry_frames_def)
    show ?thesis
    proof (rule that [of r])
      show "mmap_step m tag i regs = (if i < MAX_REGIONS then regs[i := r] else regs)"
        using a True by (simp add: mmap_step_def)
      show "i < MAX_REGIONS \<longrightarrow> reg_frames r = entry_frames m tag i \<and> region_ok r"
        using b c v by auto
    qed
  next
    case False
    with v show ?thesis by (intro that [of "regs ! i"]) (auto simp: mmap_step_def entry_frames_def)
  qed
  have len: "length regs = MAX_REGIONS" by (rule table_ok_length [OF ok])
  have o: "table_frames regs = other_frames i regs" if "i < MAX_REGIONS"
    using v table_frames_split [of i regs] that len by simp
  show "table_ok (mmap_step m tag i regs)"
    using r d o ok by (auto intro!: table_ok_upd)
  show "table_frames (mmap_step m tag i regs) =
       table_frames regs \<union> (if i < MAX_REGIONS then entry_frames m tag i else {})"
    using r o len table_frames_upd [of i regs r] by auto
  show "\<And>k. k \<noteq> i \<Longrightarrow> mmap_step m tag i regs ! k = regs ! k" using r(1) by auto
qed

lemma mmap_fold:
  assumes "mmap_ok m tag" "length regs = MAX_REGIONS" "\<forall>r \<in> set regs. \<not> r_valid r"
    "n \<le> nat (mmap_num m tag)"
  shows "table_ok (fold (mmap_step m tag) [0..<n] regs) \<and>
    table_frames (fold (mmap_step m tag) [0..<n] regs) =
      (\<Union>i \<in> {..<min n MAX_REGIONS}. entry_frames m tag i) \<and>
    (\<forall>k. n \<le> k \<longrightarrow> k < MAX_REGIONS \<longrightarrow> \<not> r_valid (fold (mmap_step m tag) [0..<n] regs ! k))"
  using assms(4)
proof (induction n)
  case 0
  have "reg_frames (regs ! k) = {}" if "k < MAX_REGIONS" for k using assms(2,3) that by simp
  then show ?case using assms(2,3) by (auto simp: table_ok_def table_frames_def)
next
  case (Suc n)
  let ?t = "fold (mmap_step m tag) [0..<n] regs"
  have IH: "table_ok ?t" "table_frames ?t = (\<Union>i \<in> {..<min n MAX_REGIONS}. entry_frames m tag i)"
    "\<And>k. n \<le> k \<Longrightarrow> k < MAX_REGIONS \<Longrightarrow> \<not> r_valid (?t ! k)" using Suc by auto
  have ov: "unat (mmap_addr m tag n) + unat (mmap_size m tag n) + 4095 < 2 ^ 64"
    using assms(1) Suc.prems by (simp add: mmap_ok_def)
  have v: "n < MAX_REGIONS \<longrightarrow> \<not> r_valid (?t ! n)" using IH(3) by simp
  have "entry_frames m tag n \<inter> entry_frames m tag i = {}" if "i < n" for i
    using assms(1) Suc.prems that by (simp add: mmap_ok_def)
  then have "entry_frames m tag n \<inter> table_frames ?t = {}"
    unfolding IH(2) by (simp add: Int_UN_distrib)
  note st = mmap_step_slot [OF ov IH(1) v this]
  have "table_frames (mmap_step m tag n ?t) = (\<Union>i \<in> {..<min (Suc n) MAX_REGIONS}. entry_frames m tag i)"
    unfolding st(2) IH(2) by (cases "n < MAX_REGIONS") (auto simp: min_def lessThan_Suc)
  then show ?case using st(1,3) IH(3) by simp
qed

text \<open>Tags the walk visits, and that it ends when each has a plausible size.\<close>

inductive visits :: "(u64 \<Rightarrow> u64) \<Rightarrow> ptr \<Rightarrow> ptr \<Rightarrow> ptr \<Rightarrow> bool" for m first_tag end_addr where
  visits_first: "visits m first_tag end_addr first_tag"
| visits_next: "visits m first_tag end_addr a \<Longrightarrow> a < end_addr \<Longrightarrow> visits m first_tag end_addr (next_tag m a)"

definition tag_sizes_ok :: "(u64 \<Rightarrow> u64) \<Rightarrow> ptr \<Rightarrow> ptr \<Rightarrow> bool" where
  "tag_sizes_ok m first_tag end_addr \<longleftrightarrow>
     (\<forall>a. visits m first_tag end_addr a \<longrightarrow> a < end_addr \<longrightarrow>
        8 \<le> read32 m (a + 4) \<and> read32 m (a + 4) \<le> 0x7FFFFFFF)"


lemma next_tag_advances:
  assumes "8 \<le> read32 m (a + 4)" "read32 m (a + 4) \<le> 0x7FFFFFFF" "a < e" "unat e + 2 ^ 32 < 2 ^ 64"
  shows "unat a + 8 \<le> unat (next_tag m a)"
proof -
  let ?z = "read32 m (a + 4)"
  let ?w = "(?z + 7) AND NOT 7"
  have z: "8 \<le> unat ?z" "unat ?z \<le> 2147483647" using assms(1,2) by (simp_all add: unat_le_iff)
  have z7: "unat (?z + 7) = unat ?z + 7" using z by (simp add: unat_word_ariths)
  have w: "?w = ?z + 7 - take_bit 3 (?z + 7)"
  proof -
    have "(7::u32) = mask 3" by (simp add: mask_eq_exp_minus_1)
    then have "?w = (?z + 7) AND NOT (mask 3)" by (simp only:)
    also have "\<dots> = (?z + 7) AND NOT (take_bit 3 (?z + 7))"
      by (rule bit_word_eqI) (auto simp: bit_simps)
    also have "\<dots> = ?z + 7 - take_bit 3 (?z + 7)"
      by (rule disjunctive_diff [symmetric]) (auto simp: bit_simps)
    finally show ?thesis .
  qed
  have t: "unat (take_bit 3 (?z + 7)) = (unat ?z + 7) mod 8" by (simp add: unat_take_bit_mod z7)
  then have "take_bit 3 (?z + 7) \<le> ?z + 7" by (simp add: unat_le_iff z7)
  then have "unat ?w = (unat ?z + 7) - (unat ?z + 7) mod 8"
    unfolding w by (simp add: unat_sub t z7)
  then have uw: "8 \<le> unat ?w" "unat ?w < 2 ^ 32" using z unsigned_less [of ?w] by (linarith, simp)
  have "unat (ucast ?w :: u64) = unat ?w" by simp
  moreover have "unat a < unat e" using assms(3) by (simp add: unat_less_iff)
  ultimately show ?thesis
    using uw assms(4) by (simp add: next_tag_def unat_word_ariths)
qed

lemma walk_tags_returns:
  assumes "visits m first_tag e a" "tag_sizes_ok m first_tag e" "unat e + 2 ^ 32 < 2 ^ 64"
  shows "\<exists>r. walk_tags m a e regs = Some r"
  using assms(1)
proof (induction "unat e - unat a" arbitrary: a regs rule: less_induct)
  case less
  show ?case
  proof (cases "a < e")
    case False
    then show ?thesis by (subst walk_tags.simps) simp
  next
    case True
    have "8 \<le> read32 m (a + 4)" "read32 m (a + 4) \<le> 0x7FFFFFFF"
      using assms(2) less.prems True by (auto simp: tag_sizes_ok_def)
    from next_tag_advances [OF this True assms(3)] True
    have "unat e - unat (next_tag m a) < unat e - unat a" by (simp add: unat_less_iff)
    moreover have "visits m first_tag e (next_tag m a)" using less.prems True by (rule visits_next)
    ultimately have "\<exists>r. walk_tags m (next_tag m a) e regs' = Some r" for regs' by (rule less.hyps)
    then show ?thesis using True by (subst walk_tags.simps) (auto split: sum.split)
  qed
qed


section \<open>Properties\<close>

text \<open>A machine with one usable region of two frames and one freed frame, for the witnesses.\<close>

definition no_region :: mem_region where
  "no_region = \<lparr>r_addr = 0, r_size = 0, r_valid = False\<rparr>"

definition pf_example :: frames_st where
  "pf_example = \<lparr>IF_flag = True, halted = False, pic1 = pic1 intr_example, pic2 = pic2 intr_example,
     link = link_example, isr_table = isr_table intr_example, idt = idt intr_example,
     idt_desc = idt_desc intr_example, tss = tss intr_example, tss_desc = tss_desc intr_example, TR = 0,
     usable_regions = \<lparr>r_addr = 0x100000, r_size = 0x2000, r_valid = True\<rparr> # replicate 63 no_region,
     free_frames = 0x5000, mem = (\<lambda>_. INVALID_FRAME_ADDR)\<rparr>"

lemma table_one_region:
  assumes "region_ok r"
  shows "table_ok (r # replicate 63 no_region)" "table_frames (r # replicate 63 no_region) = reg_frames r"
proof -
  have n: "reg_frames ((r # replicate 63 no_region) ! i) = (if i = 0 then reg_frames r else {})"
    if "i < 64" for i
    using that by (cases i) (simp_all add: no_region_def)
  then show "table_frames (r # replicate 63 no_region) = reg_frames r"
    by (auto simp: table_frames_def split: if_splits)
  have "region_ok no_region" by (simp add: no_region_def)
  then show "table_ok (r # replicate 63 no_region)"
    using assms n by (auto simp: table_ok_def other_frames_def)
qed

lemma two_frames: "frames_between 0x100000 0x102000 = {0x100000, 0x101000}"
  using frames_between_first [of "0x100000" "0x102000"] frames_between_first [of "0x101000" "0x102000"]
  by (simp add: page_aligned_def frames_between_empty)

lemma pf_example_avail: "avail pf_example {0x5000, 0x100000, 0x101000}"
proof -
  let ?r = "\<lparr>r_addr = 0x100000, r_size = 0x2000, r_valid = True\<rparr> :: mem_region"
  have r: "region_ok ?r" "reg_frames ?r = {0x100000, 0x101000}"
    by (simp_all add: region_ok_def page_aligned_def reg_frames_def two_frames)
  have "pf_inv pf_example [0x5000]"
    unfolding pf_inv_def pf_example_def using table_one_region [OF r(1)]
    by (simp add: r(2) page_aligned_def INVALID_FRAME_ADDR_def)
  then show ?thesis
    unfolding avail_def using table_one_region(2) [OF r(1)] r(2)
    by (intro exI [of _ "[0x5000]"]) (auto simp: pf_example_def)
qed

text \<open>
  C32: Allocating a page frame when \<open>F\<close> is the set of free frames. With no free frame the result
  is the placeholder address and nothing changes; otherwise the result is a page-aligned member
  of \<open>F\<close>, exactly that frame leaves the set, and neither memory nor the processor state changes.
\<close>

theorem pf_alloc_correct:
  assumes "avail s F"
  shows "if F = {} then MMU_pf_alloc s = (INVALID_FRAME_ADDR, s)
    else (let (p, s') = MMU_pf_alloc s in
      p \<in> F \<and> page_aligned p \<and> avail s' (F - {p}) \<and> mem s' = mem s \<and>
      IF_flag s' = IF_flag s \<and> halted s' = halted s)"
proof (cases "F = {}")
  case True
  with assms pf_alloc_empty show ?thesis by simp
next
  case False
  have "IF_flag (snd (MMU_pf_alloc s)) = IF_flag s" "halted (snd (MMU_pf_alloc s)) = halted s"
    by (simp_all add: MMU_pf_alloc_def Let_def split: option.splits)
  with False pf_alloc_avail [OF assms False] avail_aligned [OF assms] pf_alloc_mem [of s]
  show ?thesis by (simp add: case_prod_beta)
qed

theorem pf_alloc_correct_witness:
  "fst (MMU_pf_alloc pf_example) \<in> {0x5000, 0x100000, 0x101000} \<and>
   avail (snd (MMU_pf_alloc pf_example)) ({0x5000, 0x100000, 0x101000} - {fst (MMU_pf_alloc pf_example)})"
  using pf_alloc_correct [OF pf_example_avail] by (simp add: case_prod_beta)

text \<open>
  Freeing a frame that was handed out puts exactly that frame back: it joins the free set,
  only its first quadword is written, and it is the frame the next allocation returns, after which
  the free set is the old one again.
\<close>

theorem pf_free_correct:
  assumes "avail s F" "page_aligned p" "p \<notin> F"
  shows "avail (MMU_pf_free p s) (insert p F) \<and>
    (\<forall>a. a \<noteq> p \<longrightarrow> mem (MMU_pf_free p s) a = mem s a) \<and>
    (\<exists>s'. MMU_pf_alloc (MMU_pf_free p s) = (p, s') \<and> avail s' F)"
proof (intro conjI)
  show a: "avail (MMU_pf_free p s) (insert p F)" using assms by (rule pf_free_avail)
  show "\<forall>a. a \<noteq> p \<longrightarrow> mem (MMU_pf_free p s) a = mem s a" by (simp add: pf_free_mem)
  have "p \<noteq> INVALID_FRAME_ADDR" using assms(2) INVALID_not_aligned by auto
  then have "fst (MMU_pf_alloc (MMU_pf_free p s)) = p" by (simp add: MMU_pf_alloc_def MMU_pf_free_def)
  with pf_alloc_avail(2) [OF a] assms(3)
  show "\<exists>s'. MMU_pf_alloc (MMU_pf_free p s) = (p, s') \<and> avail s' F"
    by (intro exI [of _ "snd (MMU_pf_alloc (MMU_pf_free p s))"]) (simp add: prod_eq_iff)
qed

theorem pf_free_correct_witness:
  "\<exists>s'. MMU_pf_alloc (MMU_pf_free 0x200000 pf_example) = (0x200000, s') \<and>
     avail s' {0x5000, 0x100000, 0x101000}"
  using pf_free_correct [OF pf_example_avail, of "0x200000"] by (simp add: page_aligned_def)

text \<open>
  \<open>MMU_pf_free_count\<close> counts exactly the frames allocation can hand out: it returns the
  number of free frames, that many allocations in a row give pairwise distinct frames that exhaust
  the free set, and the next allocation reports that no frame is left.
\<close>

theorem pf_free_count_correct:
  assumes "avail s F"
  shows "MMU_pf_free_count s = Some (of_nat (card F)) \<and>
    (let (ps, s') = alloc_many MMU_pf_alloc (card F) s in
       distinct ps \<and> set ps = F \<and> MMU_pf_alloc s' = (INVALID_FRAME_ADDR, s'))"
proof -
  have fin: "finite F" by (rule pf_free_count_avail(1) [OF assms])
  obtain ps s' where m: "alloc_many MMU_pf_alloc (card F) s = (ps, s')" by fastforce
  with pf.alloc_many_distinct [OF assms fin order_refl]
  have "distinct ps" "length ps = card F" "set ps \<subseteq> F" "avail s' (F - set ps)" by simp_all
  then have "set ps = F" using fin by (metis card_subset_eq distinct_card)
  then show ?thesis
    using \<open>distinct ps\<close> \<open>avail s' (F - set ps)\<close> m pf_alloc_empty pf_free_count_avail(2) [OF assms]
    by simp
qed

theorem pf_free_count_correct_witness: "MMU_pf_free_count pf_example = Some 3"
  using pf_free_count_correct [OF pf_example_avail] by simp

text \<open>The frames with a byte in a range, or the frame a position strictly inside it names.\<close>

definition touched :: "u64 \<Rightarrow> u64 \<Rightarrow> u64 set" where
  "touched start e = {x. page_aligned x \<and> unat start < unat x + 4096 \<and> unat x < unat e}"

text \<open>
  C34: Removing a byte range from a well-formed region table (the kernel image, at boot) keeps the
  table well formed, leaves no frame that meets the range, and adds none. When a table slot is free
  every other frame stays available.
\<close>

theorem remove_region_correct:
  assumes ok: "table_ok regs" and le: "unat start \<le> unat e" and ov: "unat e + 4095 < 2 ^ 64"
  shows "table_ok (remove_region start e regs) \<and>
    table_frames (remove_region start e regs) \<subseteq> table_frames regs - touched start e \<and>
    ((\<exists>r \<in> set regs. \<not> r_valid r) \<longrightarrow>
       table_frames (remove_region start e regs) = table_frames regs - touched start e)"
proof -
  let ?s = "page_down start" and ?e = "page_up e"
  let ?R = "frames_between (unat ?s) (unat ?e)"
  have u: "unat ?s = unat start div 4096 * 4096" "unat ?e = (unat e + 4095) div 4096 * 4096"
    by (simp_all add: unat_page_down unat_page_up [OF ov])
  have "unat ?s \<le> unat ?e" unfolding u using le by (intro mult_le_mono div_le_mono) auto
  then have sl: "?s \<le> ?e" by (simp add: unat_le_iff)
  have al: "page_aligned ?s" "page_aligned ?e" by (simp_all add: page_up_def)
  let ?t = "remove_region start e regs"
  have c: "cleared ?s ?e regs ?t" and d: "\<forall>k < 64. reg_frames (?t ! k) \<inter> ?R = {}"
    using remove_fold [OF ok al sl order_refl] by (simp_all add: remove_region_def)
  have tok: "table_ok ?t" and sub: "table_frames ?t \<subseteq> table_frames regs"
    using c by (simp_all add: cleared_def Let_def)
  have dis: "table_frames ?t \<inter> ?R = {}" using d table_ok_length [OF tok] by (auto simp: table_frames_def)
  have iff: "unat start div 4096 * 4096 \<le> y \<longleftrightarrow> unat start < y + 4096"
      "y < (unat e + 4095) div 4096 * 4096 \<longleftrightarrow> y < unat e" if "4096 dvd y" for y :: nat
    using that by (elim dvdE; simp; arith)+
  have R: "touched start e = ?R" unfolding touched_def frames_between_def u using iff by (auto simp: page_aligned_def)
  have "table_frames ?t - ?R = table_frames regs - ?R" if "\<exists>r \<in> set regs. \<not> r_valid r"
    using c that by (simp add: cleared_def Let_def room_def)
  with tok sub dis show ?thesis unfolding R by blast
qed

theorem remove_region_correct_witness:
  "table_frames (remove_region 0x100800 0x100801 (usable_regions pf_example)) =
     table_frames (usable_regions pf_example) - touched 0x100800 0x100801 \<and>
   0x100000 \<in> touched 0x100800 0x100801"
proof -
  have "table_ok (usable_regions pf_example)"
    using pf_example_avail by (auto simp: avail_def pf_inv_def)
  then have "table_frames (remove_region 0x100800 0x100801 (usable_regions pf_example)) =
      table_frames (usable_regions pf_example) - touched 0x100800 0x100801"
    using remove_region_correct [of "usable_regions pf_example" "0x100800" "0x100801"]
    by (simp add: pf_example_def no_region_def)
  then show ?thesis by (simp add: touched_def page_aligned_def)
qed

text \<open>The multiboot information of the witnesses: a memory map with two entries, then the end tag.\<close>

definition mboot_example :: "u64 \<Rightarrow> u64" where
  "mboot_example = (\<lambda>_. 0)(0xFF8 := 0x50, 0x1000 := 0x0000004000000006, 0x1008 := 24,
     0x1010 := 0x100000, 0x1018 := 0x2000, 0x1020 := 1,
     0x1028 := 0, 0x1030 := 0x1000, 0x1038 := 2, 0x1040 := 0x0000000800000000)"


lemma mboot_example_map:
  "nat (mmap_num mboot_example 0x1000) = Suc (Suc 0)" "read32 mboot_example 0x1008 = 24"
  "mmap_type mboot_example 0x1000 0 = 1" "mmap_type mboot_example 0x1000 (Suc 0) = 2"
  "mmap_addr mboot_example 0x1000 0 = 0x100000" "mmap_size mboot_example 0x1000 0 = 0x2000"
  "mmap_addr mboot_example 0x1000 (Suc 0) = 0" "mmap_size mboot_example 0x1000 (Suc 0) = 0x1000"
  by code_simp+

lemma mboot_example_entries:
  "entry_frames mboot_example 0x1000 (Suc 0) = {}"
  "entry_frames mboot_example 0x1000 0 = {0x100000, 0x101000}"
proof -
  show "entry_frames mboot_example 0x1000 (Suc 0) = {}"
    by (simp add: entry_frames_def mboot_example_map REGION_OS_USE_def)
  show "entry_frames mboot_example 0x1000 0 = {0x100000, 0x101000}"
    using frames_between_rounded [of "0x100000" "0x102000"] two_frames
    by (simp add: entry_frames_def mboot_example_map REGION_OS_USE_def inner_frames_def)
qed

lemma mboot_example_ok: "mmap_ok mboot_example 0x1000"
  unfolding mmap_ok_def mboot_example_map(1)
  by (simp add: less_Suc_eq all_conj_distrib mboot_example_map mboot_example_entries)


text \<open>
  Walking the tags of the boot information comes to an end, whatever the tags describe, as long
  as every tag the walk meets has a size of at least its header and below 2 GiB and the information
  does not end within 4 GiB of the top of the address space. (A tag of size 0 would be visited
  forever.)
\<close>

theorem parse_mboot_tags_returns:
  assumes "tag_sizes_ok (mem s) (h + 8) (h + ucast (read32 (mem s) h))"
    "unat (h + ucast (read32 (mem s) h)) + 2 ^ 32 < 2 ^ 64"
  shows "\<exists>r. parse_mboot_tags h s = Some r"
  using walk_tags_returns [OF visits_first assms] by (auto simp: parse_mboot_tags_def)

lemma mboot_example_visits:
  "visits mboot_example 0x1000 0x1048 a \<Longrightarrow> a \<in> {0x1000, 0x1040, 0x1048}"
proof (induction rule: visits.induct)
  case (visits_next a)
  have "next_tag mboot_example 0x1000 = 0x1040" "next_tag mboot_example 0x1040 = 0x1048"
    by code_simp+
  with visits_next show ?case by auto
qed simp

theorem parse_mboot_tags_returns_witness:
  "\<exists>r. parse_mboot_tags 0xFF8 (pf_example\<lparr>mem := mboot_example\<rparr>) = Some r"
proof -
  have r: "read32 mboot_example 0xFF8 = 0x50" "read32 mboot_example 0x1004 = 0x40"
    "read32 mboot_example 0x1044 = 8" by code_simp+
  have "tag_sizes_ok mboot_example 0x1000 0x1048"
    using mboot_example_visits r(2,3) by (fastforce simp: tag_sizes_ok_def)
  then show ?thesis
    using parse_mboot_tags_returns [of "pf_example\<lparr>mem := mboot_example\<rparr>" "0xFF8"] r(1) by simp
qed

end
