(* ===== verification/Physmem.thy ===== *)
theory Physmem
  imports Prelude
begin

text \<open>
  Physical memory as the kernel reaches it through the identity map: a function from the address of
  a quadword to its content. Bytes are read and written inside their little-endian quadword;
  \<open>memset\<close> and \<open>memcpy\<close> of whole frames act on quadwords, those of byte ranges on bytes.
\<close>

type_synonym phys = "u64 \<Rightarrow> u64"

definition get_byte :: "phys \<Rightarrow> u64 \<Rightarrow> u8" where
  "get_byte m a = ucast (drop_bit (8 * unat (a AND 7)) (m (a AND NOT 7)))"

definition put_byte :: "u64 \<Rightarrow> u8 \<Rightarrow> phys \<Rightarrow> phys" where
  "put_byte a b m =
     m(a AND NOT 7 := (m (a AND NOT 7) AND NOT (push_bit (8 * unat (a AND 7)) 0xFF))
                        OR push_bit (8 * unat (a AND 7)) (ucast b))"

text \<open>\<open>n\<close> bytes from \<open>a\<close> on, lowest address first.\<close>

definition put_bytes :: "u64 \<Rightarrow> nat \<Rightarrow> (nat \<Rightarrow> u8) \<Rightarrow> phys \<Rightarrow> phys" where
  "put_bytes a n f m = fold (\<lambda>i. put_byte (a + of_nat i) (f i)) [0..<n] m"

definition zero_page :: "u64 \<Rightarrow> phys \<Rightarrow> phys" where
  "zero_page f m = (\<lambda>a. if a - f < 4096 then 0 else m a)"

definition copy_page :: "u64 \<Rightarrow> u64 \<Rightarrow> phys \<Rightarrow> phys" where
  "copy_page dst src m = (\<lambda>a. if a - dst < 4096 then m (src + (a - dst)) else m a)"

section \<open>Words and their bytes\<close>

lemma seven_mask: "(7::u64) = mask 3"
  by (simp add: mask_eq_exp_minus_1)

lemma ff_mask: "(0xFF::u64) = mask 8"
  by (simp add: mask_eq_exp_minus_1)

lemma low_bits_less: "unat (a AND (7::u64)) < 8"
proof -
  have "unat (a AND 7) = unat a mod 2 ^ 3"
    unfolding seven_mask take_bit_eq_mask [symmetric] by (rule unat_take_bit_mod)
  then show ?thesis by simp
qed

lemma qword_split: "(a::u64) = (a AND NOT 7) OR (a AND 7)"
  by (rule bit_word_eqI) (auto simp: bit_simps)

lemma byte_word_bit:
  fixes w :: u64 and b :: u8
  assumes "k < 8" "j < 8" "n < 8"
  shows "bit ((w AND NOT (push_bit (8 * k) 0xFF)) OR push_bit (8 * k) (ucast b)) (8 * j + n) =
    (if j = k then bit b n else bit w (8 * j + n))"
proof (cases "j = k")
  case True
  then show ?thesis using assms unfolding ff_mask by (auto simp: bit_simps)
next
  case False
  then have "\<not> (8 * k \<le> 8 * j + n \<and> 8 * j + n - 8 * k < 8)" using assms by auto
  then show ?thesis using False assms bit_imp_le_length [of b "8 * j + n - 8 * k"]
    unfolding ff_mask by (auto simp: bit_simps)
qed

lemma get_byte_bit: "n < 8 \<Longrightarrow> bit (get_byte m a) n = bit (m (a AND NOT 7)) (8 * unat (a AND 7) + n)"
  by (simp add: get_byte_def bit_simps)

lemma get_put_byte: "get_byte (put_byte a b m) x = (if x = a then b else get_byte m x)"
proof (rule bit_word_eqI)
  fix n assume "n < LENGTH(8)"
  then have n: "n < 8" by simp
  have "unat (x AND 7) = unat (a AND 7) \<and> x AND NOT 7 = a AND NOT 7 \<longleftrightarrow> x = a"
    by (metis qword_split word_unat_eq_iff)
  then show "bit (get_byte (put_byte a b m) x) n = bit (if x = a then b else get_byte m x) n"
    using byte_word_bit [OF low_bits_less [of a] low_bits_less [of x] n, of "m (a AND NOT 7)" b]
    by (auto simp: get_byte_bit n put_byte_def)
qed

lemma get_put_bytes:
  assumes "n \<le> 2 ^ 64"
  shows "get_byte (put_bytes a n f m) x = (if unat (x - a) < n then f (unat (x - a)) else get_byte m x)"
  using assms
proof (induction n)
  case 0
  then show ?case by (simp add: put_bytes_def)
next
  case (Suc n)
  have "unat (of_nat n :: u64) = n" using Suc.prems by (simp add: unsigned_of_nat take_bit_nat_eq_self)
  then have "x = a + of_nat n \<longleftrightarrow> unat (x - a) = n"
    by (auto simp: word_unat_eq_iff [of "x - a"] diff_eq_eq add.commute [of a])
  with Suc show ?case by (auto simp: put_bytes_def get_put_byte less_Suc_eq)
qed

text \<open>Which quadwords a byte range touches.\<close>

lemma put_byte_other: "q \<noteq> a AND NOT 7 \<Longrightarrow> put_byte a b m q = m q"
  by (simp add: put_byte_def)

lemma put_bytes_other:
  "(\<And>i. i < n \<Longrightarrow> q \<noteq> (a + of_nat i) AND NOT 7) \<Longrightarrow> put_bytes a n f m q = m q"
  by (induction n) (simp_all add: put_bytes_def put_byte_other)

section \<open>Pages\<close>

lemma div_bounds: "n div 4096 * 4096 = 4096 * k \<longleftrightarrow> 4096 * k \<le> n \<and> n - 4096 * k < 4096" for n k :: nat
  by auto

lemma page_down_eq_iff:
  assumes "page_aligned f"
  shows "page_down a = f \<longleftrightarrow> a - f < 4096"
proof -
  obtain k where k: "unat f = 4096 * k" using assms by (auto simp: page_aligned_def elim: dvdE)
  have "unat (page_down a) = unat f \<longleftrightarrow> unat f \<le> unat a \<and> unat a - unat f < 4096"
    unfolding unat_page_down k by (rule div_bounds)
  moreover have "a - f < 4096 \<longleftrightarrow> unat f \<le> unat a \<and> unat a - unat f < 4096"
  proof (cases "f \<le> a")
    case True
    then show ?thesis by (simp add: unat_less_iff unat_sub unat_le_iff)
  next
    case False
    then have lt: "unat a < unat f" by (simp add: unat_le_iff)
    have "k < 4503599627370496" using k unat64_less [of f] by simp
    then have "unat f \<le> 2 ^ 64 - 4096" using k by simp
    then have "4096 \<le> unat (a - f)" using lt by (simp add: unat_sub_if')
    with lt show ?thesis by (simp add: unat_less_iff)
  qed
  ultimately show ?thesis by (simp add: word_unat_eq_iff)
qed

lemma zero_page_eq: "page_aligned f \<Longrightarrow> zero_page f m a = (if page_down a = f then 0 else m a)"
  by (simp add: zero_page_def page_down_eq_iff)

end
