(* ===== verification/Vpages.thy ===== *)
theory Vpages
  imports Frames Physmem
begin

text \<open>
  The virtual memory manager of \<open>src/x86_64/memory/vpages.c\<close>: four-level page tables in physical
  memory, demand paging, user address spaces. A table is the address of its frame; entry \<open>i\<close> of
  table \<open>t\<close> is the quadword at \<open>t + 8 * i\<close>. Through the identity map, \<open>phys_to_virt\<close> is the
  identity. The translation buffer is not modelled, so \<open>invlpg\<close> does nothing.
\<close>

section \<open>State and page-table entries\<close>

record vm_st = frames_st +
  kernel_cr3 :: u64
  kernel_va :: u64
  CR3 :: u64

definition VA_KHEAP_BASE :: u64 where "VA_KHEAP_BASE = 0x010000000000"
definition VA_USER_BASE :: u64 where "VA_USER_BASE = 0x100000000000"
definition VA_USTACK_BASE :: u64 where "VA_USTACK_BASE = 0x110000000000"

definition PAGE_MASK :: u64 where "PAGE_MASK = NOT (PAGE_SIZE - 1)"

definition PML4_INDEX :: "u64 \<Rightarrow> u64" where "PML4_INDEX va = drop_bit 39 va AND 0x1FF"
definition PDP_INDEX :: "u64 \<Rightarrow> u64" where "PDP_INDEX va = drop_bit 30 va AND 0x1FF"
definition PD_INDEX :: "u64 \<Rightarrow> u64" where "PD_INDEX va = drop_bit 21 va AND 0x1FF"
definition PT_INDEX :: "u64 \<Rightarrow> u64" where "PT_INDEX va = drop_bit 12 va AND 0x1FF"

definition phys_to_pfn :: "u64 \<Rightarrow> u64" where "phys_to_pfn phys_addr = drop_bit 12 phys_addr"
definition pfn_to_phys :: "u64 \<Rightarrow> u64" where "pfn_to_phys pfn = push_bit 12 pfn"

text \<open>
  The bit fields of \<open>struct p4_entry\<close> to \<open>struct p1_entry\<close>: bit 0 \<open>present\<close>, 1 \<open>rw\<close>,
  2 \<open>us\<close>, 7 \<open>big_page\<close>, 9 \<open>allocated\<close> (upper levels) or \<open>demand\<close> (last level), and the
  40-bit frame number from bit 12.
\<close>

definition pte_present :: "u64 \<Rightarrow> bool" where "pte_present e = bit e 0"
definition pte_big :: "u64 \<Rightarrow> bool" where "pte_big e = bit e 7"
definition pte_flag :: "u64 \<Rightarrow> bool" where "pte_flag e = bit e 9"
definition pte_addr :: "u64 \<Rightarrow> u64" where "pte_addr e = take_bit 40 (drop_bit 12 e)"

definition put_bit :: "nat \<Rightarrow> bool \<Rightarrow> u64 \<Rightarrow> u64" where
  "put_bit n b e = (if b then set_bit n e else unset_bit n e)"

definition put_addr :: "u64 \<Rightarrow> u64 \<Rightarrow> u64" where
  "put_addr pfn e = (e AND NOT (push_bit 12 (mask 40))) OR push_bit 12 (take_bit 40 pfn)"

definition entry_at :: "u64 \<Rightarrow> u64 \<Rightarrow> ptr" where
  "entry_at table i = table + 8 * i"

section \<open>Walking the tables\<close>

definition get_or_alloc_PDPT_entry :: "ptr \<Rightarrow> bool \<Rightarrow> 'a vm_st_scheme \<Rightarrow> ptr \<times> 'a vm_st_scheme" where
  "get_or_alloc_PDPT_entry e4 user s =
     (if \<not> pte_present (mem s e4)
      then let (frame, s) = MMU_pf_alloc s
           in if frame = INVALID_FRAME_ADDR then (INVALID_FRAME_ADDR, s)
              else let m = zero_page frame (mem s);
                       e = put_bit 9 True (put_bit 2 user (put_bit 1 True (put_bit 0 True
                             (put_addr (phys_to_pfn frame) (m e4)))))
                   in (pfn_to_phys (pte_addr e), s\<lparr>mem := m(e4 := e)\<rparr>)
      else (pfn_to_phys (pte_addr (mem s e4)), s))"

definition get_or_alloc_PD_entry :: "ptr \<Rightarrow> bool \<Rightarrow> 'a vm_st_scheme \<Rightarrow> ptr \<times> 'a vm_st_scheme" where
  "get_or_alloc_PD_entry e3 user s =
     (if \<not> pte_present (mem s e3)
      then let (frame, s) = MMU_pf_alloc s
           in if frame = INVALID_FRAME_ADDR then (INVALID_FRAME_ADDR, s)
              else let m = zero_page frame (mem s);
                       e = put_bit 9 True (put_bit 7 False (put_bit 2 user (put_bit 1 True (put_bit 0 True
                             (put_addr (phys_to_pfn frame) (m e3))))))
                   in (pfn_to_phys (pte_addr e), s\<lparr>mem := m(e3 := e)\<rparr>)
      else (pfn_to_phys (pte_addr (mem s e3)), s))"

definition get_or_alloc_PT_entry :: "ptr \<Rightarrow> bool \<Rightarrow> 'a vm_st_scheme \<Rightarrow> ptr \<times> 'a vm_st_scheme" where
  "get_or_alloc_PT_entry e2 user s =
     (if \<not> pte_present (mem s e2)
      then let (frame, s) = MMU_pf_alloc s
           in if frame = INVALID_FRAME_ADDR then (INVALID_FRAME_ADDR, s)
              else let m = zero_page frame (mem s);
                       e = put_bit 9 True (put_bit 7 False (put_bit 2 user (put_bit 1 True (put_bit 0 True
                             (put_addr (phys_to_pfn frame) (m e2))))))
                   in (pfn_to_phys (pte_addr e), s\<lparr>mem := m(e2 := e)\<rparr>)
      else (pfn_to_phys (pte_addr (mem s e2)), s))"

text \<open>
  The three levels of \<open>travel_pagetable_in\<close>, each ending in the entry of the next table. Table
  and entry addresses are multiples of 8, so the placeholder 0xDEADBEEF always means failure.
\<close>

definition walk_p4_p3 :: "u64 \<Rightarrow> u64 \<Rightarrow> bool \<Rightarrow> 'a vm_st_scheme \<Rightarrow> ptr \<times> 'a vm_st_scheme" where
  "walk_p4_p3 cr3 va create s =
     (let is_user = VA_USER_BASE \<le> va;
          e4 = entry_at (cr3 AND PAGE_MASK) (PML4_INDEX va)
      in if \<not> pte_present (mem s e4) \<and> \<not> create then (INVALID_FRAME_ADDR, s)
         else let (pdpt, s) = get_or_alloc_PDPT_entry e4 is_user s
              in if pdpt = INVALID_FRAME_ADDR then (INVALID_FRAME_ADDR, s)
                 else (entry_at pdpt (PDP_INDEX va), s))"

definition walk_p3_p2 :: "ptr \<Rightarrow> u64 \<Rightarrow> bool \<Rightarrow> 'a vm_st_scheme \<Rightarrow> ptr \<times> 'a vm_st_scheme" where
  "walk_p3_p2 e3 va create s =
     (let is_user = VA_USER_BASE \<le> va
      in if pte_present (mem s e3) \<and> pte_big (mem s e3) then (INVALID_FRAME_ADDR, s)
         else if \<not> pte_present (mem s e3) \<and> \<not> create then (INVALID_FRAME_ADDR, s)
         else let (pd, s) = get_or_alloc_PD_entry e3 is_user s
              in if pd = INVALID_FRAME_ADDR then (INVALID_FRAME_ADDR, s)
                 else (entry_at pd (PD_INDEX va), s))"

definition walk_p2_p1 :: "ptr \<Rightarrow> u64 \<Rightarrow> bool \<Rightarrow> 'a vm_st_scheme \<Rightarrow> ptr \<times> 'a vm_st_scheme" where
  "walk_p2_p1 e2 va create s =
     (let is_user = VA_USER_BASE \<le> va
      in if pte_present (mem s e2) \<and> pte_big (mem s e2) then (INVALID_FRAME_ADDR, s)
         else if \<not> pte_present (mem s e2) \<and> \<not> create then (INVALID_FRAME_ADDR, s)
         else let (pt, s) = get_or_alloc_PT_entry e2 is_user s
              in if pt = INVALID_FRAME_ADDR then (INVALID_FRAME_ADDR, s)
                 else (entry_at pt (PT_INDEX va), s))"

definition travel_pagetable_in :: "u64 \<Rightarrow> u64 \<Rightarrow> bool \<Rightarrow> 'a vm_st_scheme \<Rightarrow> ptr \<times> 'a vm_st_scheme" where
  "travel_pagetable_in cr3 va create s =
     (let (e3, s) = walk_p4_p3 cr3 va create s
      in if e3 = INVALID_FRAME_ADDR then (INVALID_FRAME_ADDR, s)
         else let (e2, s) = walk_p3_p2 e3 va create s
              in if e2 = INVALID_FRAME_ADDR then (INVALID_FRAME_ADDR, s)
                 else walk_p2_p1 e2 va create s)"

definition MMU_current_p4 :: "'a vm_st_scheme \<Rightarrow> u64" where
  "MMU_current_p4 s = CR3 s"

definition MMU_get_kernel_p4 :: "'a vm_st_scheme \<Rightarrow> u64" where
  "MMU_get_kernel_p4 s = kernel_cr3 s"

definition MMU_switch_p4 :: "u64 \<Rightarrow> 'a vm_st_scheme \<Rightarrow> 'a vm_st_scheme" where
  "MMU_switch_p4 cr3 s = s\<lparr>CR3 := cr3\<rparr>"

definition travel_pagetable :: "u64 \<Rightarrow> bool \<Rightarrow> 'a vm_st_scheme \<Rightarrow> ptr \<times> 'a vm_st_scheme" where
  "travel_pagetable va create s = travel_pagetable_in (MMU_current_p4 s) va create s"

definition page_table_empty :: "ptr \<Rightarrow> 'a vm_st_scheme \<Rightarrow> bool" where
  "page_table_empty table s = list_all (\<lambda>i. mem s (entry_at table (of_nat i)) = 0) [0..<512]"

text \<open>Free the frame of a table and clear the entry that pointed to it, when it is empty.\<close>

definition drop_table_if_empty :: "ptr \<Rightarrow> ptr \<Rightarrow> 'a vm_st_scheme \<Rightarrow> 'a vm_st_scheme" where
  "drop_table_if_empty table e s =
     (if page_table_empty table s
      then let s = MMU_pf_free table s in s\<lparr>mem := (mem s)(e := 0)\<rparr>
      else s)"

definition free_empty_tables :: "u64 \<Rightarrow> 'a vm_st_scheme \<Rightarrow> 'a vm_st_scheme" where
  "free_empty_tables va s =
     (let e4 = entry_at (MMU_current_p4 s AND PAGE_MASK) (PML4_INDEX va)
      in if \<not> pte_present (mem s e4) \<or> \<not> pte_flag (mem s e4) then s
         else let pdpt = pfn_to_phys (pte_addr (mem s e4)); e3 = entry_at pdpt (PDP_INDEX va)
              in if \<not> pte_present (mem s e3) \<or> pte_big (mem s e3) \<or> \<not> pte_flag (mem s e3) then s
                 else let pd = pfn_to_phys (pte_addr (mem s e3)); e2 = entry_at pd (PD_INDEX va)
                      in if \<not> pte_present (mem s e2) \<or> pte_big (mem s e2) \<or> \<not> pte_flag (mem s e2) then s
                         else let pt = pfn_to_phys (pte_addr (mem s e2));
                                  s = drop_table_if_empty pt e2 s;
                                  s = drop_table_if_empty pd e3 s
                              in drop_table_if_empty pdpt e4 s)"

section \<open>Creating address spaces\<close>

text \<open>The entry of a 1 GiB page of the identity map, from a cleared entry.\<close>

definition identity_entry :: "nat \<Rightarrow> u64" where
  "identity_entry i =
     put_bit 9 True (put_addr (phys_to_pfn (push_bit 30 (of_nat i))) (put_bit 7 True (put_bit 2 False
       (put_bit 1 True (put_bit 0 True 0)))))"

definition make_identity_map :: "'a vm_st_scheme \<Rightarrow> 'a vm_st_scheme" where
  "make_identity_map s =
     (let p4 = ptable_p4 (link s); p3 = ptable_p3_identity (link s);
          m = zero_page p3 (zero_page p4 (mem s));
          m = fold (\<lambda>i m. m(entry_at p3 (of_nat i) := identity_entry i)) [0..<512] m;
          m = m(entry_at p4 0 := put_bit 9 True (put_bit 2 False (put_bit 1 True (put_bit 0 True
                (put_addr (phys_to_pfn p3) (m (entry_at p4 0)))))))
      in s\<lparr>mem := m, kernel_cr3 := p4, CR3 := p4\<rparr>)"

definition MMU_create_user_p4 :: "'a vm_st_scheme \<Rightarrow> u64 \<times> 'a vm_st_scheme" where
  "MMU_create_user_p4 s =
     (let (p4, s) = MMU_pf_alloc s
      in if p4 = INVALID_FRAME_ADDR then (0, s)
         else let m = zero_page p4 (mem s);
                  m = fold (\<lambda>i m. m(entry_at p4 (of_nat i) := m (entry_at (ptable_p4 (link s)) (of_nat i))))
                        [0..<unat (PML4_INDEX VA_USER_BASE)] m
              in (p4, s\<lparr>mem := m\<rparr>))"

section \<open>Demand paging\<close>

definition demand_page_in :: "u64 \<Rightarrow> u64 \<Rightarrow> 'a vm_st_scheme \<Rightarrow> int \<times> 'a vm_st_scheme" where
  "demand_page_in cr3 va s =
     (let (p1, s) = travel_pagetable_in cr3 va True s
      in if p1 = INVALID_FRAME_ADDR then (-1, s)
         else if pte_flag (mem s p1) \<or> pte_present (mem s p1) then (-1, s)
         else (0, s\<lparr>mem := (mem s)(p1 := put_addr 0 (put_bit 0 False (put_bit 9 True (mem s p1))))\<rparr>))"

definition demand_page :: "u64 \<Rightarrow> 'a vm_st_scheme \<Rightarrow> int \<times> 'a vm_st_scheme" where
  "demand_page va s = demand_page_in (MMU_current_p4 s) va s"

text \<open>Reserve a list of pages, stopping at the first that fails.\<close>

fun demand_pages :: "u64 \<Rightarrow> u64 list \<Rightarrow> 'a vm_st_scheme \<Rightarrow> int \<times> 'a vm_st_scheme" where
  "demand_pages cr3 [] s = (0, s)"
| "demand_pages cr3 (va # vas) s =
     (let (r, s) = demand_page_in cr3 va s in if r < 0 then (-1, s) else demand_pages cr3 vas s)"

definition page_run :: "u64 \<Rightarrow> int \<Rightarrow> u64 list" where
  "page_run base n = map (\<lambda>i. base + of_nat i * PAGE_SIZE) [0..<nat n]"

definition reserve_pages_at :: "u64 \<Rightarrow> u64 \<Rightarrow> u64 \<Rightarrow> 'a vm_st_scheme \<Rightarrow> ptr \<times> 'a vm_st_scheme" where
  "reserve_pages_at cr3 vaddr sz s =
     (let base = vaddr AND PAGE_MASK;
          e = (vaddr + sz + PAGE_SIZE - 1) AND PAGE_MASK;
          num_pages = sint (ucast ((e - base) div PAGE_SIZE) :: u32);
          (r, s) = demand_pages cr3 (page_run base num_pages) s
      in if r < 0 then (NULL, s) else (base, s))"

definition make_page_present :: "ptr \<Rightarrow> u64 \<Rightarrow> 'a vm_st_scheme \<Rightarrow> int \<times> 'a vm_st_scheme" where
  "make_page_present p1 va s =
     (if p1 = INVALID_FRAME_ADDR then (-1, s)
      else if pte_present (mem s p1) then (0, s)
      else if \<not> pte_flag (mem s p1) then (-1, s)
      else let (frame, s) = MMU_pf_alloc s
           in if frame = INVALID_FRAME_ADDR then (-1, s)
              else let m = zero_page frame (mem s)
                   in (0, s\<lparr>mem := m(p1 := put_bit 9 False (put_bit 2 (VA_USER_BASE \<le> va) (put_bit 1 True
                        (put_bit 0 True (put_addr (phys_to_pfn frame) (m p1))))))\<rparr>))"

text \<open>
  Writing a range of another address space through the identity map. The source bytes are an
  argument: byte \<open>i\<close> of the buffer at \<open>src\<close> is \<open>bytes i\<close>. Each round handles the rest of one
  page; it always makes progress.
\<close>

definition range_chunk :: "u64 \<Rightarrow> u64 \<Rightarrow> u64" where
  "range_chunk va left =
     (let chunk = PAGE_SIZE - (va AND (PAGE_SIZE - 1)) in if left < chunk then left else chunk)"

function write_user_loop ::
    "u64 \<Rightarrow> u64 \<Rightarrow> (u64 \<Rightarrow> u8) \<Rightarrow> u64 \<Rightarrow> bool \<Rightarrow> u64 \<Rightarrow> 'a vm_st_scheme \<Rightarrow> int \<times> 'a vm_st_scheme" where
  "write_user_loop cr3 dst bytes len zero don s =
     (if don < len
      then let va = dst + don;
               chunk = range_chunk va (len - don);
               (p1, s) = travel_pagetable_in cr3 va False s;
               (r, s) = make_page_present p1 va s
           in if r < 0 then (-1, s)
              else let phys = pfn_to_phys (pte_addr (mem s p1)) + (va AND (PAGE_SIZE - 1));
                       m = put_bytes phys (unat chunk) (\<lambda>i. if zero then 0 else bytes (don + of_nat i)) (mem s)
                   in write_user_loop cr3 dst bytes len zero (don + chunk) (s\<lparr>mem := m\<rparr>)
      else (0, s))"
  by pat_completeness auto

lemma page_offset_less: "unat (va AND ((4096::u64) - 1)) < 4096"
proof -
  have "va AND (4096 - 1) = take_bit 12 va"
    by (simp add: take_bit_eq_mask mask_eq_exp_minus_1)
  then show ?thesis by (simp add: unat_take_bit_mod)
qed

lemma unat_range_chunk:
  "unat (range_chunk va left) = min (4096 - unat (va AND ((4096::u64) - 1))) (unat left)"
proof -
  have "va AND (4096 - 1) \<le> 4096" using page_offset_less [of va] by (simp only: unat_le_iff unat_numeral) simp
  then have "unat (4096 - (va AND (4096 - 1))) = 4096 - unat (va AND (4096 - 1))" by (simp add: unat_sub)
  then show ?thesis by (auto simp: range_chunk_def Let_def unat_less_iff min_def)
qed

lemma range_chunk_progress:
  assumes "don < len"
  shows "unat (don + range_chunk va (len - don)) = unat don + unat (range_chunk va (len - don))"
    "0 < unat (range_chunk va (len - don))" "unat (range_chunk va (len - don)) \<le> unat len - unat don"
proof -
  have l: "unat (len - don) = unat len - unat don" "unat don < unat len"
    using assms unat_sub [of don len] unat_less_iff by auto
  show p: "0 < unat (range_chunk va (len - don))" "unat (range_chunk va (len - don)) \<le> unat len - unat don"
    using page_offset_less [of va] l by (simp_all add: unat_range_chunk)
  then show "unat (don + range_chunk va (len - don)) = unat don + unat (range_chunk va (len - don))"
    using l(2) unat64_less [of len] by (simp add: unat_word_ariths)
qed

termination write_user_loop
  by (relation "measure (\<lambda>(cr3, dst, bytes, len, zero, don, s). unat len - unat don)")
    (simp_all add: range_chunk_progress range_chunk_progress(2) [THEN add_strict_left_mono] diff_less_mono2
      unat_less_iff)

declare write_user_loop.simps [simp del]

definition write_user_range_as ::
    "u64 \<Rightarrow> u64 \<Rightarrow> ptr \<Rightarrow> (u64 \<Rightarrow> u8) \<Rightarrow> u64 \<Rightarrow> bool \<Rightarrow> 'a vm_st_scheme \<Rightarrow> int \<times> 'a vm_st_scheme" where
  "write_user_range_as cr3 dst src bytes len zero s =
     (if \<not> zero \<and> src = NULL \<and> len \<noteq> 0 then (-1, s)
      else write_user_loop cr3 dst bytes len zero 0 s)"


section \<open>The kernel's interface\<close>

definition MMU_alloc_page :: "'a vm_st_scheme \<Rightarrow> ptr \<times> 'a vm_st_scheme" where
  "MMU_alloc_page s =
     (let ints_enabled = are_interrupts_enabled s;
          s = CLI s;
          va = kernel_va s;
          (r, s) = demand_page va s
      in if r < 0 then (NULL, irq_restore ints_enabled s)
         else (va, irq_restore ints_enabled (s\<lparr>kernel_va := kernel_va s + PAGE_SIZE\<rparr>)))"

definition MMU_alloc_pages :: "int \<Rightarrow> 'a vm_st_scheme \<Rightarrow> ptr \<times> 'a vm_st_scheme" where
  "MMU_alloc_pages num s =
     (let ints_enabled = are_interrupts_enabled s;
          s = CLI s;
          base = kernel_va s;
          (r, s) = demand_pages (MMU_current_p4 s) (page_run base num) s
      in if r < 0 then (NULL, irq_restore ints_enabled s)
         else (base, irq_restore ints_enabled (s\<lparr>kernel_va := kernel_va s + of_int num * PAGE_SIZE\<rparr>)))"

definition MMU_alloc_at_as :: "u64 \<Rightarrow> u64 \<Rightarrow> u64 \<Rightarrow> 'a vm_st_scheme \<Rightarrow> ptr \<times> 'a vm_st_scheme" where
  "MMU_alloc_at_as cr3 vaddr sz s =
     (let ints_enabled = are_interrupts_enabled s;
          (base, s) = reserve_pages_at cr3 vaddr sz (CLI s)
      in (base, irq_restore ints_enabled s))"

definition MMU_alloc_at :: "u64 \<Rightarrow> u64 \<Rightarrow> 'a vm_st_scheme \<Rightarrow> ptr \<times> 'a vm_st_scheme" where
  "MMU_alloc_at vaddr sz s =
     (let ints_enabled = are_interrupts_enabled s;
          (base, s) = reserve_pages_at (MMU_current_p4 s) vaddr sz (CLI s)
      in (base, irq_restore ints_enabled s))"

definition MMU_copy_to_user_as ::
    "u64 \<Rightarrow> u64 \<Rightarrow> ptr \<Rightarrow> (u64 \<Rightarrow> u8) \<Rightarrow> u64 \<Rightarrow> 'a vm_st_scheme \<Rightarrow> int \<times> 'a vm_st_scheme" where
  "MMU_copy_to_user_as cr3 dst src bytes len s =
     (let ints_enabled = are_interrupts_enabled s;
          (r, s) = write_user_range_as cr3 dst src bytes len False (CLI s)
      in (r, irq_restore ints_enabled s))"

definition MMU_zero_user_as :: "u64 \<Rightarrow> u64 \<Rightarrow> u64 \<Rightarrow> 'a vm_st_scheme \<Rightarrow> int \<times> 'a vm_st_scheme" where
  "MMU_zero_user_as cr3 dst len s =
     (let ints_enabled = are_interrupts_enabled s;
          (r, s) = write_user_range_as cr3 dst NULL (\<lambda>_. 0) len True (CLI s)
      in (r, irq_restore ints_enabled s))"

definition MMU_free_page :: "ptr \<Rightarrow> 'a vm_st_scheme \<Rightarrow> 'a vm_st_scheme" where
  "MMU_free_page vaddr s =
     (let va = vaddr AND PAGE_MASK;
          (p1, s) = travel_pagetable va False s
      in if p1 = INVALID_FRAME_ADDR then s
         else let s = (if pte_present (mem s p1) then MMU_pf_free (pfn_to_phys (pte_addr (mem s p1))) s else s)
              in free_empty_tables va (s\<lparr>mem := (mem s)(p1 := 0)\<rparr>))"

definition MMU_free_pages :: "ptr \<Rightarrow> int \<Rightarrow> 'a vm_st_scheme \<Rightarrow> 'a vm_st_scheme" where
  "MMU_free_pages vaddr num s = fold MMU_free_page (page_run (vaddr AND PAGE_MASK) num) s"

section \<open>Destroying and cloning address spaces\<close>

definition destroy_userspace_PT :: "ptr \<Rightarrow> 'a vm_st_scheme \<Rightarrow> 'a vm_st_scheme" where
  "destroy_userspace_PT pt s =
     fold (\<lambda>i s. let e = entry_at pt (of_nat i)
                 in if \<not> pte_present (mem s e) \<and> \<not> pte_flag (mem s e) then s
                    else let s = (if pte_present (mem s e)
                                  then MMU_pf_free (pfn_to_phys (pte_addr (mem s e))) s else s)
                         in s\<lparr>mem := (mem s)(e := 0)\<rparr>)
       [0..<512] s"

text \<open>One round of the loops over a page directory and over a page directory pointer table.\<close>

definition destroy_entry ::
    "(ptr \<Rightarrow> 'a vm_st_scheme \<Rightarrow> 'a vm_st_scheme) \<Rightarrow> ptr \<Rightarrow> 'a vm_st_scheme \<Rightarrow> 'a vm_st_scheme" where
  "destroy_entry destroy_table e s =
     (let sub = pfn_to_phys (pte_addr (mem s e));
          s = alive (MMU_pf_free sub) (destroy_table sub s)
      in alive (\<lambda>s. s\<lparr>mem := (mem s)(e := 0)\<rparr>) s)"

definition destroy_userspace_PD :: "ptr \<Rightarrow> 'a vm_st_scheme \<Rightarrow> 'a vm_st_scheme" where
  "destroy_userspace_PD pd s =
     fold (\<lambda>i. alive (\<lambda>s. let e = entry_at pd (of_nat i)
                 in if \<not> pte_present (mem s e) then s
                    else if pte_big (mem s e) then HLT (CLI s)
                    else destroy_entry destroy_userspace_PT e s))
       [0..<512] s"

definition destroy_userspace_PDPT :: "ptr \<Rightarrow> 'a vm_st_scheme \<Rightarrow> 'a vm_st_scheme" where
  "destroy_userspace_PDPT pdpt s =
     fold (\<lambda>i. alive (\<lambda>s. let e = entry_at pdpt (of_nat i)
                 in if \<not> pte_present (mem s e) then s
                    else if pte_big (mem s e) then HLT (CLI s)
                    else destroy_entry destroy_userspace_PD e s))
       [0..<512] s"

definition MMU_destroy_userspace :: "u64 \<Rightarrow> 'a vm_st_scheme \<Rightarrow> 'a vm_st_scheme" where
  "MMU_destroy_userspace cr3 s =
     (let ints_enabled = are_interrupts_enabled s;
          s = CLI s;
          p4 = cr3 AND PAGE_MASK
      in if p4 = 0 \<or> p4 = kernel_cr3 s AND PAGE_MASK \<or> p4 = CR3 s AND PAGE_MASK
         then irq_restore ints_enabled s
         else let s = fold (\<lambda>i. alive (\<lambda>s. let e = entry_at p4 (of_nat i)
                        in if \<not> pte_present (mem s e) then s
                           else destroy_entry destroy_userspace_PDPT e s))
                      [unat (PML4_INDEX VA_USER_BASE)..<512] s
              in alive (\<lambda>s. irq_restore ints_enabled (MMU_pf_free p4 s)) s)"


text \<open>A loop over table entries that stops at the first round that fails.\<close>

fun each_entry :: "(nat \<Rightarrow> 's \<Rightarrow> int \<times> 's) \<Rightarrow> nat list \<Rightarrow> 's \<Rightarrow> int \<times> 's" where
  "each_entry f [] s = (0, s)"
| "each_entry f (i # is) s = (let (r, s) = f i s in if r < 0 then (-1, s) else each_entry f is s)"

definition clone_userspace_PT :: "ptr \<Rightarrow> ptr \<Rightarrow> 'a vm_st_scheme \<Rightarrow> int \<times> 'a vm_st_scheme" where
  "clone_userspace_PT dst src s =
     each_entry (\<lambda>i s. let d = entry_at dst (of_nat i); e = entry_at src (of_nat i)
       in if \<not> pte_present (mem s e) \<and> \<not> pte_flag (mem s e) then (0, s)
          else let s = s\<lparr>mem := (mem s)(d := mem s e)\<rparr>
               in if \<not> pte_present (mem s e) then (0, s)
                  else let (frame, s) = MMU_pf_alloc s
                       in if frame = INVALID_FRAME_ADDR then (-1, s\<lparr>mem := (mem s)(d := 0)\<rparr>)
                          else let m = copy_page frame (pfn_to_phys (pte_addr (mem s e))) (mem s)
                               in (0, s\<lparr>mem := m(d := put_addr (phys_to_pfn frame) (m d))\<rparr>))
       [0..<512] s"

text \<open>One round of the loops over the upper levels: a new zeroed table, its entry, its content.\<close>

definition clone_entry ::
    "(ptr \<Rightarrow> ptr \<Rightarrow> 'a vm_st_scheme \<Rightarrow> int \<times> 'a vm_st_scheme) \<Rightarrow> ptr \<Rightarrow> ptr \<Rightarrow>
     'a vm_st_scheme \<Rightarrow> int \<times> 'a vm_st_scheme" where
  "clone_entry clone_table d e s =
     (let (frame, s) = MMU_pf_alloc s
      in if frame = INVALID_FRAME_ADDR then (-1, s)
         else let m = zero_page frame (mem s);
                  m = m(d := m e);
                  m = m(d := put_addr (phys_to_pfn frame) (m d))
              in clone_table frame (pfn_to_phys (pte_addr (m e))) (s\<lparr>mem := m\<rparr>))"

definition clone_userspace_PD :: "ptr \<Rightarrow> ptr \<Rightarrow> 'a vm_st_scheme \<Rightarrow> int \<times> 'a vm_st_scheme" where
  "clone_userspace_PD dst src s =
     each_entry (\<lambda>i s. let e = entry_at src (of_nat i)
       in if \<not> pte_present (mem s e) then (0, s)
          else if pte_big (mem s e) then (-1, s)
          else clone_entry clone_userspace_PT (entry_at dst (of_nat i)) e s)
       [0..<512] s"

definition clone_userspace_PDPT :: "ptr \<Rightarrow> ptr \<Rightarrow> 'a vm_st_scheme \<Rightarrow> int \<times> 'a vm_st_scheme" where
  "clone_userspace_PDPT dst src s =
     each_entry (\<lambda>i s. let e = entry_at src (of_nat i)
       in if \<not> pte_present (mem s e) then (0, s)
          else if pte_big (mem s e) then (-1, s)
          else clone_entry clone_userspace_PD (entry_at dst (of_nat i)) e s)
       [0..<512] s"

definition MMU_clone_userspace :: "u64 \<Rightarrow> 'a vm_st_scheme \<Rightarrow> u64 \<times> 'a vm_st_scheme" where
  "MMU_clone_userspace cr3 s =
     (let ints_enabled = are_interrupts_enabled s;
          s = CLI s;
          src_p4 = cr3 AND PAGE_MASK
      in if src_p4 = 0 \<or> src_p4 = kernel_cr3 s AND PAGE_MASK then (0, irq_restore ints_enabled s)
         else let (child_cr3, s) = MMU_create_user_p4 s
              in if child_cr3 = 0 then (0, irq_restore ints_enabled s)
                 else let (r, s) = each_entry (\<lambda>i s. let e = entry_at src_p4 (of_nat i)
                          in if \<not> pte_present (mem s e) then (0, s)
                             else clone_entry clone_userspace_PDPT
                                    (entry_at (child_cr3 AND PAGE_MASK) (of_nat i)) e s)
                          [unat (PML4_INDEX VA_USER_BASE)..<512] s
                      in if r < 0
                         then (0, alive (irq_restore ints_enabled) (MMU_destroy_userspace child_cr3 s))
                         else (child_cr3, irq_restore ints_enabled s))"

section \<open>Page faults and start-up\<close>

definition ISR14_PAGE_FAULT :: "u64 \<Rightarrow> 'a vm_st_scheme \<Rightarrow> 'a vm_st_scheme" where
  "ISR14_PAGE_FAULT fault_va s =
     (let (p1, s) = travel_pagetable fault_va False s
      in if p1 \<noteq> INVALID_FRAME_ADDR \<and> pte_flag (mem s p1) \<and> \<not> pte_present (mem s p1)
         then let (r, s) = make_page_present p1 fault_va s in if r < 0 then HLT (CLI s) else s
         else HLT (CLI s))"

definition MMU_init :: "'a vm_st_scheme \<Rightarrow> 'a vm_st_scheme" where
  "MMU_init s =
     register_interrupt 14 0 TYPE_TRAPGATE 0 ISR14_PAGE_FAULT_HANDLER NULL
       ((make_identity_map s)\<lparr>kernel_va := VA_KHEAP_BASE\<rparr>)"

end
