(* ===== verification/Address_Space.thy ===== *)
theory Address_Space
  imports Vpages
begin

text \<open>
  What the page tables mean and the invariant that keeps them sound. \<open>walk\<close> is the processor's
  walk down to the last-level entry of a 4 KiB page and \<open>translate\<close> the translation it yields. The
  ghost map \<open>lvl\<close> gives every frame that serves as a table its level (4 for the root). The
  invariant \<open>vm_inv\<close> says that tables form trees: entries lead to tables one level down, no table
  has two parents (roots may share the tables of the kernel half), mapped frames are distinct, and
  tables, mapped frames and free frames are disjoint.
\<close>

section \<open>Entries\<close>

lemma pte_put_bit [simp]:
  "pte_present (put_bit n b e) = (if n = 0 then b else pte_present e)"
  "pte_big (put_bit n b e) = (if n = 7 then b else pte_big e)"
  "pte_flag (put_bit n b e) = (if n = 9 then b else pte_flag e)"
  by (auto simp: pte_present_def pte_big_def pte_flag_def put_bit_def bit_simps)

lemma pte_addr_put_bit [simp]: "n < 12 \<Longrightarrow> pte_addr (put_bit n b e) = pte_addr e"
  by (rule bit_word_eqI) (auto simp: pte_addr_def put_bit_def bit_simps)

lemma pte_put_addr [simp]:
  "pte_present (put_addr p e) = pte_present e" "pte_big (put_addr p e) = pte_big e"
  "pte_flag (put_addr p e) = pte_flag e"
  by (auto simp: pte_present_def pte_big_def pte_flag_def put_addr_def bit_simps)

lemma pte_addr_put_addr [simp]: "pte_addr (put_addr p e) = take_bit 40 p"
  by (rule bit_word_eqI) (auto simp: pte_addr_def put_addr_def bit_simps)

lemma pte_zero [simp]: "\<not> pte_present 0" "\<not> pte_flag 0"
  by (simp_all add: pte_present_def pte_flag_def)

abbreviation pte_frame :: "u64 \<Rightarrow> u64" where
  "pte_frame e \<equiv> pfn_to_phys (pte_addr e)"

lemma bit_above: "unat x < 2 ^ k \<Longrightarrow> k \<le> n \<Longrightarrow> \<not> bit (x::u64) n"
proof -
  assume a: "unat x < 2 ^ k" "k \<le> n"
  then have "take_bit k (unat x) = unat x" by (simp add: take_bit_nat_eq_self)
  then have "take_bit k x = x" by (metis unsigned_take_bit_eq word_unat_eq_iff)
  then show "\<not> bit x n" using a(2) by (metis bit_take_bit_iff not_le)
qed

lemma frame_round_trip:
  assumes "page_aligned f" "unat f < 2 ^ 52"
  shows "pfn_to_phys (take_bit 40 (phys_to_pfn f)) = f"
proof (rule bit_word_eqI)
  fix n assume "n < LENGTH(64)"
  have "\<not> bit f n" if "n < 12"
  proof -
    have "take_bit 12 f = 0"
      using assms(1) by (simp add: word_unat_eq_iff unat_take_bit_mod page_aligned_def)
    then show ?thesis using that by (metis bit_take_bit_iff bit_0_eq bot_fun_def bot_bool_def)
  qed
  then show "bit (pfn_to_phys (take_bit 40 (phys_to_pfn f))) n = bit f n"
    using bit_above [OF assms(2), of n] \<open>n < LENGTH(64)\<close>
    by (cases "n < 12"; cases "n < 52") (auto simp: pfn_to_phys_def phys_to_pfn_def bit_simps)
qed

lemma pte_frame_aligned [simp]: "page_aligned (pfn_to_phys p)"
proof -
  have "take_bit 12 (pfn_to_phys p) = 0" by (rule bit_word_eqI) (auto simp: pfn_to_phys_def bit_simps)
  then have "unat (pfn_to_phys p) mod 2 ^ 12 = 0" by (metis unat_take_bit_mod unat_0)
  then show ?thesis by (simp add: page_aligned_def mod_eq_0_iff_dvd)
qed

lemma page_aligned_not_INVALID: "page_aligned p \<Longrightarrow> p \<noteq> INVALID_FRAME_ADDR"
  using INVALID_not_aligned by auto

text \<open>The 512 entries of a table fill its frame.\<close>

lemma unat_entry_at:
  assumes "page_aligned t" "unat i < 512"
  shows "unat (entry_at t i) = unat t + 8 * unat i"
proof -
  obtain k where k: "unat t = 4096 * k" using assms(1) by (auto simp: page_aligned_def elim: dvdE)
  then have "k < 4503599627370496" using unat64_less [of t] by simp
  then have "unat t + 8 * unat i < 18446744073709551616" using k assms(2) by simp
  then show ?thesis using assms(2) by (simp add: entry_at_def unat_word_ariths)
qed

lemma page_down_entry [simp]:
  assumes "page_aligned t" "unat i < 512"
  shows "page_down (entry_at t i) = t"
proof -
  obtain k where "unat t = 4096 * k" using assms(1) by (auto simp: page_aligned_def elim: dvdE)
  then show ?thesis
    using assms by (simp add: word_unat_eq_iff unat_page_down unat_entry_at)
qed

lemma entry_at_inj:
  assumes "page_aligned t" "page_aligned t'" "unat i < 512" "unat j < 512"
  shows "entry_at t i = entry_at t' j \<longleftrightarrow> t = t' \<and> i = j"
  using assms page_down_entry unat_entry_at by (metis add_left_cancel mult_cancel1 word_unat_eq_iff zero_neq_numeral)

lemma entry_not_INVALID:
  assumes "page_aligned t" "unat i < 512"
  shows "entry_at t i \<noteq> INVALID_FRAME_ADDR"
proof
  assume a: "entry_at t i = INVALID_FRAME_ADDR"
  obtain k where "unat t = 4096 * k" using assms(1) by (auto simp: page_aligned_def elim: dvdE)
  then have eq: "4096 * k + 8 * unat i = 0xDEADBEEF"
    using a unat_entry_at [OF assms] by (simp add: INVALID_FRAME_ADDR_def)
  have "even (4096 * k + 8 * unat i)" by simp
  then show False unfolding eq by simp
qed


section \<open>Walks\<close>

text \<open>The index of an address at a level, and the table an entry leads to.\<close>

definition va_index :: "nat \<Rightarrow> u64 \<Rightarrow> u64" where
  "va_index n va = drop_bit (12 + 9 * (n - 1)) va AND 0x1FF"

definition leads :: "nat \<Rightarrow> u64 \<Rightarrow> bool" where
  "leads n e \<longleftrightarrow> pte_present e \<and> \<not> (n < 4 \<and> pte_big e)"

primrec walk :: "phys \<Rightarrow> nat \<Rightarrow> u64 \<Rightarrow> u64 \<Rightarrow> ptr option" where
  "walk m 0 t va = Some (entry_at t (va_index 1 va))"
| "walk m (Suc n) t va =
     (let e = m (entry_at t (va_index (Suc (Suc n)) va))
      in if leads (Suc (Suc n)) e then walk m n (pte_frame e) va else None)"

definition p1_entry :: "phys \<Rightarrow> u64 \<Rightarrow> u64 \<Rightarrow> ptr option" where
  "p1_entry m cr3 va = walk m 3 (page_down cr3) va"

text \<open>The walk meets a huge page.\<close>

primrec huge_at :: "phys \<Rightarrow> nat \<Rightarrow> u64 \<Rightarrow> u64 \<Rightarrow> bool" where
  "huge_at m 0 t va = False"
| "huge_at m (Suc n) t va =
     (let e = m (entry_at t (va_index (Suc (Suc n)) va))
      in pte_present e \<and> (n < 2 \<and> pte_big e \<or> huge_at m n (pte_frame e) va))"

definition translate :: "phys \<Rightarrow> u64 \<Rightarrow> u64 \<Rightarrow> u64 option" where
  "translate m cr3 va =
     (case p1_entry m cr3 va of
        None \<Rightarrow> None
      | Some p \<Rightarrow> if pte_present (m p) then Some (pte_frame (m p) + (va AND (PAGE_SIZE - 1))) else None)"

lemma unat_va_index: "unat (va_index n va) < 512"
proof -
  have "(0x1FF::u64) = mask 9" by (simp add: mask_eq_exp_minus_1)
  then have "va_index n va = take_bit 9 (drop_bit (12 + 9 * (n - 1)) va)"
    by (simp add: va_index_def take_bit_eq_mask)
  then show ?thesis by (simp add: unat_take_bit_mod)
qed

lemma va_index_names:
  "PML4_INDEX va = va_index 4 va" "PDP_INDEX va = va_index 3 va" "PD_INDEX va = va_index 2 va"
  "PT_INDEX va = va_index (Suc 0) va"
  by (simp_all add: va_index_def PML4_INDEX_def PDP_INDEX_def PD_INDEX_def PT_INDEX_def)

lemma cr3_mask: "cr3 AND PAGE_MASK = page_down cr3"
  by (simp add: PAGE_MASK_def page_down_def)

lemma walk_not_INVALID: "walk m n t va = Some p \<Longrightarrow> page_aligned t \<Longrightarrow> p \<noteq> INVALID_FRAME_ADDR"
proof (induction n arbitrary: t)
  case 0
  then show ?case using entry_not_INVALID [OF _ unat_va_index] by auto
next
  case (Suc n)
  then show ?case by (auto simp: Let_def split: if_splits)
qed

lemma p1_entry_levels:
  "p1_entry m cr3 va =
     (let e4 = m (entry_at (page_down cr3) (va_index 4 va)) in if \<not> leads 4 e4 then None
      else let e3 = m (entry_at (pte_frame e4) (va_index 3 va)) in if \<not> leads 3 e3 then None
      else let e2 = m (entry_at (pte_frame e3) (va_index 2 va)) in if \<not> leads 2 e2 then None
      else Some (entry_at (pte_frame e2) (va_index (Suc 0) va)))"
  unfolding p1_entry_def by (simp add: eval_nat_numeral Let_def)

text \<open>Without creating tables, \<open>travel_pagetable_in\<close> is the walk and changes nothing.\<close>

lemma travel_walk_mode:
  "travel_pagetable_in cr3 va False s =
     (case p1_entry (mem s) cr3 va of None \<Rightarrow> INVALID_FRAME_ADDR | Some p \<Rightarrow> p, s)"
proof -
  have ni: "entry_at (pte_frame e) (va_index n va) \<noteq> INVALID_FRAME_ADDR" "pte_frame e \<noteq> INVALID_FRAME_ADDR"
    for e n
    using entry_not_INVALID [OF pte_frame_aligned unat_va_index] page_aligned_not_INVALID by auto
  show ?thesis
    by (auto simp: travel_pagetable_in_def walk_p4_p3_def walk_p3_p2_def walk_p2_p1_def Let_def
        get_or_alloc_PDPT_entry_def get_or_alloc_PD_entry_def get_or_alloc_PT_entry_def
        va_index_names cr3_mask p1_entry_levels leads_def ni)
qed


section \<open>The invariant\<close>

text \<open>\<open>lvl t = Some k\<close>: the frame \<open>t\<close> is a table from which \<open>k\<close> more tables are walked.\<close>

type_synonym levels = "u64 \<rightharpoonup> nat"

definition tables_ok :: "phys \<Rightarrow> levels \<Rightarrow> u64 set \<Rightarrow> bool" where
  "tables_ok m lvl F \<longleftrightarrow>
     (\<forall>t \<in> dom lvl. page_aligned t) \<and>
     (\<forall>t n i. lvl t = Some (Suc n) \<longrightarrow> unat i < 512 \<longrightarrow> leads (Suc (Suc n)) (m (entry_at t i)) \<longrightarrow>
        lvl (pte_frame (m (entry_at t i))) = Some n) \<and>
     (\<forall>t t' n i j. lvl t = Some (Suc n) \<longrightarrow> lvl t' = Some (Suc n) \<longrightarrow> unat i < 512 \<longrightarrow> unat j < 512 \<longrightarrow>
        leads (Suc (Suc n)) (m (entry_at t i)) \<longrightarrow> leads (Suc (Suc n)) (m (entry_at t' j)) \<longrightarrow>
        pte_frame (m (entry_at t i)) = pte_frame (m (entry_at t' j)) \<longrightarrow>
        i = j \<and> (n < 2 \<or> 32 \<le> unat i \<longrightarrow> t = t')) \<and>
     (\<forall>t i. lvl t = Some 0 \<longrightarrow> unat i < 512 \<longrightarrow> pte_present (m (entry_at t i)) \<longrightarrow>
        pte_frame (m (entry_at t i)) \<notin> dom lvl \<union> F) \<and>
     (\<forall>t t' i j. lvl t = Some 0 \<longrightarrow> lvl t' = Some 0 \<longrightarrow> unat i < 512 \<longrightarrow> unat j < 512 \<longrightarrow>
        pte_present (m (entry_at t i)) \<longrightarrow> pte_present (m (entry_at t' j)) \<longrightarrow>
        pte_frame (m (entry_at t i)) = pte_frame (m (entry_at t' j)) \<longrightarrow> t = t' \<and> i = j)"

definition vm_inv :: "'a vm_st_scheme \<Rightarrow> levels \<Rightarrow> u64 set \<Rightarrow> bool" where
  "vm_inv s lvl F \<longleftrightarrow> avail s F \<and> (\<forall>f \<in> F. unat f < 2 ^ 52) \<and> dom lvl \<inter> F = {} \<and> tables_ok (mem s) lvl F"

lemma vm_invD:
  assumes "vm_inv s lvl F"
  shows "avail s F" "f \<in> F \<Longrightarrow> unat f < 2 ^ 52" "dom lvl \<inter> F = {}" "tables_ok (mem s) lvl F"
  using assms by (simp_all add: vm_inv_def)

lemma tables_aligned: "tables_ok m lvl F \<Longrightarrow> lvl t = Some n \<Longrightarrow> page_aligned t"
  by (auto simp: tables_ok_def)

lemma tables_child:
  "tables_ok m lvl F \<Longrightarrow> lvl t = Some (Suc n) \<Longrightarrow> unat i < 512 \<Longrightarrow> leads (Suc (Suc n)) (m (entry_at t i)) \<Longrightarrow>
   lvl (pte_frame (m (entry_at t i))) = Some n"
  by (auto simp: tables_ok_def)

lemma tables_parent:
  "tables_ok m lvl F \<Longrightarrow> lvl t = Some (Suc n) \<Longrightarrow> lvl t' = Some (Suc n) \<Longrightarrow> unat i < 512 \<Longrightarrow> unat j < 512 \<Longrightarrow>
   leads (Suc (Suc n)) (m (entry_at t i)) \<Longrightarrow> leads (Suc (Suc n)) (m (entry_at t' j)) \<Longrightarrow>
   pte_frame (m (entry_at t i)) = pte_frame (m (entry_at t' j)) \<Longrightarrow>
   i = j \<and> (n < 2 \<or> 32 \<le> unat i \<longrightarrow> t = t')"
  unfolding tables_ok_def by blast

lemma tables_leaf:
  "tables_ok m lvl F \<Longrightarrow> lvl t = Some 0 \<Longrightarrow> unat i < 512 \<Longrightarrow> pte_present (m (entry_at t i)) \<Longrightarrow>
   pte_frame (m (entry_at t i)) \<notin> dom lvl \<union> F"
  unfolding tables_ok_def by blast

lemma tables_leaf_unique:
  "tables_ok m lvl F \<Longrightarrow> lvl t = Some 0 \<Longrightarrow> lvl t' = Some 0 \<Longrightarrow> unat i < 512 \<Longrightarrow> unat j < 512 \<Longrightarrow>
   pte_present (m (entry_at t i)) \<Longrightarrow> pte_present (m (entry_at t' j)) \<Longrightarrow>
   pte_frame (m (entry_at t i)) = pte_frame (m (entry_at t' j)) \<Longrightarrow> t = t' \<and> i = j"
  unfolding tables_ok_def by blast

lemma tables_okI:
  assumes "\<And>t n. lvl t = Some n \<Longrightarrow> page_aligned t"
    and "\<And>t n i. lvl t = Some (Suc n) \<Longrightarrow> unat i < 512 \<Longrightarrow> leads (Suc (Suc n)) (m (entry_at t i)) \<Longrightarrow>
        lvl (pte_frame (m (entry_at t i))) = Some n"
    and "\<And>t t' n i j. lvl t = Some (Suc n) \<Longrightarrow> lvl t' = Some (Suc n) \<Longrightarrow> unat i < 512 \<Longrightarrow> unat j < 512 \<Longrightarrow>
        leads (Suc (Suc n)) (m (entry_at t i)) \<Longrightarrow> leads (Suc (Suc n)) (m (entry_at t' j)) \<Longrightarrow>
        pte_frame (m (entry_at t i)) = pte_frame (m (entry_at t' j)) \<Longrightarrow>
        i = j \<and> (n < 2 \<or> 32 \<le> unat i \<longrightarrow> t = t')"
    and "\<And>t i. lvl t = Some 0 \<Longrightarrow> unat i < 512 \<Longrightarrow> pte_present (m (entry_at t i)) \<Longrightarrow>
        pte_frame (m (entry_at t i)) \<notin> dom lvl \<union> F"
    and "\<And>t t' i j. lvl t = Some 0 \<Longrightarrow> lvl t' = Some 0 \<Longrightarrow> unat i < 512 \<Longrightarrow> unat j < 512 \<Longrightarrow>
        pte_present (m (entry_at t i)) \<Longrightarrow> pte_present (m (entry_at t' j)) \<Longrightarrow>
        pte_frame (m (entry_at t i)) = pte_frame (m (entry_at t' j)) \<Longrightarrow> t = t' \<and> i = j"
  shows "tables_ok m lvl F"
  unfolding tables_ok_def using assms by (intro conjI) blast+

text \<open>A walk from a table ends in an entry of a last-level table and reads only table entries.\<close>

lemma walk_ends:
  "tables_ok m lvl F \<Longrightarrow> lvl t = Some k \<Longrightarrow> walk m k t va = Some p \<Longrightarrow>
   \<exists>t0. lvl t0 = Some 0 \<and> p = entry_at t0 (va_index 1 va)"
proof (induction k arbitrary: t)
  case (Suc k)
  from Suc.prems(3) have l: "leads (Suc (Suc k)) (m (entry_at t (va_index (Suc (Suc k)) va)))"
    and w: "walk m k (pte_frame (m (entry_at t (va_index (Suc (Suc k)) va)))) va = Some p"
    by (auto simp: Let_def split: if_splits)
  from Suc.IH [OF Suc.prems(1) tables_child [OF Suc.prems(1,2) unat_va_index l] w] show ?case .
qed auto

lemma walk_cong:
  assumes ok: "tables_ok m lvl F"
    and same: "\<And>t k i. lvl t = Some (Suc k) \<Longrightarrow> unat i < 512 \<Longrightarrow> m' (entry_at t i) = m (entry_at t i)"
  shows "lvl t = Some k \<Longrightarrow> walk m' k t va = walk m k t va"
proof (induction k arbitrary: t)
  case (Suc k)
  have e: "m' (entry_at t (va_index (Suc (Suc k)) va)) = m (entry_at t (va_index (Suc (Suc k)) va))"
    by (rule same [OF Suc.prems unat_va_index])
  show ?case
    using Suc.IH tables_child [OF ok Suc.prems unat_va_index] by (auto simp: Let_def e)
qed simp

text \<open>Two addresses with the same last-level entry from one root have the same indices.\<close>

lemma walk_inj:
  assumes ok: "tables_ok m lvl F"
  shows "k \<le> 3 \<Longrightarrow> lvl t = Some k \<Longrightarrow> walk m k t va = Some p \<Longrightarrow> lvl t' = Some k \<Longrightarrow> walk m k t' va' = Some p \<Longrightarrow>
    (\<forall>j \<in> {1..Suc k}. va_index j va = va_index j va') \<and> (k < 3 \<or> 32 \<le> unat (va_index (Suc k) va) \<longrightarrow> t = t')"
proof (induction k arbitrary: t t')
  case 0
  then have "page_aligned t" "page_aligned t'" using tables_aligned [OF ok] by auto
  with 0 show ?case
    using entry_at_inj [of t t' "va_index 1 va" "va_index 1 va'"] unat_va_index by auto
next
  case (Suc k)
  let ?i = "va_index (Suc (Suc k)) va" and ?j = "va_index (Suc (Suc k)) va'"
  from Suc.prems(3,5) have l: "leads (Suc (Suc k)) (m (entry_at t ?i))" "leads (Suc (Suc k)) (m (entry_at t' ?j))"
    and w: "walk m k (pte_frame (m (entry_at t ?i))) va = Some p"
      "walk m k (pte_frame (m (entry_at t' ?j))) va' = Some p"
    by (auto simp: Let_def split: if_splits)
  have c: "lvl (pte_frame (m (entry_at t ?i))) = Some k" "lvl (pte_frame (m (entry_at t' ?j))) = Some k"
    using tables_child [OF ok Suc.prems(2) unat_va_index l(1)]
      tables_child [OF ok Suc.prems(4) unat_va_index l(2)] by auto
  have k: "k < 3" using Suc.prems(1) by simp
  then have IH: "\<forall>j \<in> {1..Suc k}. va_index j va = va_index j va'"
    "pte_frame (m (entry_at t ?i)) = pte_frame (m (entry_at t' ?j))"
    using Suc.IH [OF _ c(1) w(1) c(2) w(2)] by auto
  from tables_parent [OF ok Suc.prems(2,4) unat_va_index unat_va_index l IH(2)]
  show ?case using IH(1) by (auto simp: atLeastAtMostSuc_conv)
qed


section \<open>Adding a table\<close>

text \<open>
  The effect of a create step on memory: a free frame is zeroed and an entry that led nowhere now
  leads to it.
\<close>

definition grown :: "phys \<Rightarrow> u64 \<Rightarrow> u64 \<Rightarrow> u64 \<Rightarrow> u64 \<Rightarrow> phys" where
  "grown m t i f e = (zero_page f m)(entry_at t i := e)"

definition can_grow :: "phys \<Rightarrow> levels \<Rightarrow> u64 set \<Rightarrow> u64 \<Rightarrow> nat \<Rightarrow> u64 \<Rightarrow> u64 \<Rightarrow> u64 \<Rightarrow> bool" where
  "can_grow m lvl F t n i f e \<longleftrightarrow> tables_ok m lvl F \<and> dom lvl \<inter> F = {} \<and> lvl t = Some (Suc n) \<and>
     unat i < 512 \<and> \<not> leads (Suc (Suc n)) (m (entry_at t i)) \<and> f \<in> F \<and> page_aligned f \<and>
     leads (Suc (Suc n)) e \<and> pte_frame e = f"

lemma grown_fresh: "can_grow m lvl F t n i f e \<Longrightarrow> lvl f = None \<and> f \<noteq> t"
  unfolding can_grow_def by auto

lemma grown_new_entries:
  assumes "can_grow m lvl F t n i f e" "unat j < 512"
  shows "grown m t i f e (entry_at f j) = 0"
proof -
  have "page_aligned t" using assms(1) tables_aligned by (auto simp: can_grow_def)
  then show ?thesis
    using assms grown_fresh [OF assms(1)]
    by (simp add: can_grow_def grown_def zero_page_eq entry_at_inj)
qed

lemma grown_old_entries:
  assumes "can_grow m lvl F t n i f e" "lvl t0 = Some k" "unat j < 512"
  shows "grown m t i f e (entry_at t0 j) = (if t0 = t \<and> j = i then e else m (entry_at t0 j))"
proof -
  have "page_aligned t" "page_aligned t0" "t0 \<noteq> f"
    using assms tables_aligned grown_fresh [OF assms(1)] by (auto simp: can_grow_def)
  then show ?thesis
    using assms by (auto simp: can_grow_def grown_def zero_page_eq entry_at_inj)
qed

text \<open>The entries of the grown tables that lead somewhere are the old ones and the new one.\<close>

lemma grown_leads:
  assumes c: "can_grow m lvl F t n i f e" and l: "(lvl(f \<mapsto> n)) t0 = Some (Suc k)" and j: "unat j < 512"
    and le: "leads (Suc (Suc k)) (grown m t i f e (entry_at t0 j))"
  obtains (new) "t0 = t" "j = i" "k = n" "grown m t i f e (entry_at t0 j) = e"
  | (old) "lvl t0 = Some (Suc k)" "leads (Suc (Suc k)) (m (entry_at t0 j))"
      "grown m t i f e (entry_at t0 j) = m (entry_at t0 j)" "lvl (pte_frame (m (entry_at t0 j))) = Some k"
proof -
  have "t0 \<noteq> f"
  proof
    assume "t0 = f"
    then show False using le grown_new_entries [OF c j] by (simp add: leads_def)
  qed
  then have l0: "lvl t0 = Some (Suc k)" using l by simp
  have ok: "tables_ok m lvl F" and t: "lvl t = Some (Suc n)" using c by (simp_all add: can_grow_def)
  note ge = grown_old_entries [OF c l0 j]
  show ?thesis
  proof (cases "t0 = t \<and> j = i")
    case True
    then show ?thesis using new ge l0 t by auto
  next
    case False
    then have eq: "grown m t i f e (entry_at t0 j) = m (entry_at t0 j)" unfolding ge by (rule if_not_P)
    with le have "leads (Suc (Suc k)) (m (entry_at t0 j))" by simp
    with old l0 eq tables_child [OF ok l0 j] show ?thesis by blast
  qed
qed

lemma grown_leaf:
  assumes c: "can_grow m lvl F t n i f e" and l: "(lvl(f \<mapsto> n)) t0 = Some 0" and j: "unat j < 512"
    and pr: "pte_present (grown m t i f e (entry_at t0 j))"
  shows "lvl t0 = Some 0 \<and> grown m t i f e (entry_at t0 j) = m (entry_at t0 j)"
proof -
  have "t0 \<noteq> f" using grown_new_entries [OF c j] pr by auto
  then have "lvl t0 = Some 0" using l by simp
  moreover from this have "t0 \<noteq> t" using c by (auto simp: can_grow_def)
  ultimately show ?thesis using grown_old_entries [OF c _ j] by simp
qed

lemma grown_tables_ok:
  assumes c: "can_grow m lvl F t n i f e"
  shows "tables_ok (grown m t i f e) (lvl(f \<mapsto> n)) (F - {f})"
proof -
  let ?m = "grown m t i f e" and ?l = "lvl(f \<mapsto> n)"
  have ok: "tables_ok m lvl F" and e: "pte_frame e = f" and f: "f \<in> F" "page_aligned f"
    using c by (simp_all add: can_grow_def)
  have fr: "lvl f = None" using grown_fresh [OF c] by simp
  show ?thesis
  proof (rule tables_okI)
    show "page_aligned t'" if "?l t' = Some k" for t' k
      using that f tables_aligned [OF ok] by (auto split: if_splits)
    show "?l (pte_frame (?m (entry_at t' j))) = Some k"
      if "?l t' = Some (Suc k)" "unat j < 512" "leads (Suc (Suc k)) (?m (entry_at t' j))" for t' k j
      using c that by (cases rule: grown_leads) (use e fr in auto)
    show "j = j' \<and> (k < 2 \<or> 32 \<le> unat j \<longrightarrow> t1 = t2)"
      if "?l t1 = Some (Suc k)" "?l t2 = Some (Suc k)" "unat j < 512" "unat j' < 512"
        "leads (Suc (Suc k)) (?m (entry_at t1 j))" "leads (Suc (Suc k)) (?m (entry_at t2 j'))"
        "pte_frame (?m (entry_at t1 j)) = pte_frame (?m (entry_at t2 j'))" for t1 t2 k j j'
      using c that(1,3,5)
    proof (cases rule: grown_leads)
      case new
      show ?thesis using c that(2,4,6)
        by (cases rule: grown_leads) (use new e fr that(7) in auto)
    next
      case old
      show ?thesis using c that(2,4,6)
      proof (cases rule: grown_leads)
        case new
        then show ?thesis using old e fr that(7) by auto
      next
        case old2: old
        then show ?thesis
          using old tables_parent [OF ok old(1) old2(1) that(3,4) old(2) old2(2)] that(7) by simp
      qed
    qed
    show "pte_frame (?m (entry_at t' j)) \<notin> dom ?l \<union> (F - {f})"
      if "?l t' = Some 0" "unat j < 512" "pte_present (?m (entry_at t' j))" for t' j
      using grown_leaf [OF c that] tables_leaf [OF ok _ that(2)] that(3) f(1) by auto
    show "t1 = t2 \<and> j = j'"
      if "?l t1 = Some 0" "?l t2 = Some 0" "unat j < 512" "unat j' < 512"
        "pte_present (?m (entry_at t1 j))" "pte_present (?m (entry_at t2 j'))"
        "pte_frame (?m (entry_at t1 j)) = pte_frame (?m (entry_at t2 j'))" for t1 t2 j j'
      using grown_leaf [OF c that(1,3,5)] grown_leaf [OF c that(2,4,6)] that tables_leaf_unique [OF ok] by metis
  qed
qed


lemma grown_walk_new:
  assumes c: "can_grow m lvl F t n i f e" and w: "walk (grown m t i f e) k f va = Some p"
  shows "grown m t i f e p = 0"
proof (cases k)
  case 0
  then show ?thesis using w grown_new_entries [OF c unat_va_index] by auto
next
  case (Suc k')
  then show ?thesis using w grown_new_entries [OF c unat_va_index] by (simp add: leads_def)
qed

lemma grown_walk:
  assumes c: "can_grow m lvl F t n i f e"
  shows "lvl t0 = Some k \<Longrightarrow>
    (case walk m k t0 va of
       Some p \<Rightarrow> walk (grown m t i f e) k t0 va = Some p \<and> grown m t i f e p = m p
     | None \<Rightarrow> (\<forall>p. walk (grown m t i f e) k t0 va = Some p \<longrightarrow> grown m t i f e p = 0))"
proof (induction k arbitrary: t0)
  case 0
  have "t0 \<noteq> t" using 0 c by (auto simp: can_grow_def)
  then show ?case using grown_old_entries [OF c 0 unat_va_index] by simp
next
  case (Suc k)
  let ?j = "va_index (Suc (Suc k)) va"
  have ok: "tables_ok m lvl F" and nl: "\<not> leads (Suc (Suc n)) (m (entry_at t i))"
    and t: "lvl t = Some (Suc n)" and e: "pte_frame e = f" using c by (simp_all add: can_grow_def)
  note ge = grown_old_entries [OF c Suc.prems unat_va_index, of "Suc (Suc k)" va]
  show ?case
  proof (cases "t0 = t \<and> ?j = i")
    case True
    then have "k = n" using t Suc.prems by simp
    then have "\<not> leads (Suc (Suc k)) (m (entry_at t0 ?j))" using True nl by simp
    then show ?thesis
      using ge True e grown_walk_new [OF c, of k va] by (simp add: Let_def)
  next
    case False
    then have g: "grown m t i f e (entry_at t0 ?j) = m (entry_at t0 ?j)" unfolding ge by (rule if_not_P)
    show ?thesis
      using Suc.IH [OF tables_child [OF ok Suc.prems unat_va_index], of "Suc (Suc k)" va]
      by (auto simp: Let_def g split: option.splits)
  qed
qed


section \<open>Steps of the virtual memory manager\<close>

text \<open>Only the allocator's tables and memory change.\<close>

definition same_rest :: "'a vm_st_scheme \<Rightarrow> 'a vm_st_scheme \<Rightarrow> bool" where
  "same_rest s s' \<longleftrightarrow> s' = s\<lparr>usable_regions := usable_regions s', free_frames := free_frames s', mem := mem s'\<rparr>"

text \<open>
  Tables have grown from one state to another: all last-level entries that existed are where they
  were and unchanged, entries that came into existence are empty, and memory outside the tables
  and the free frames is untouched.
\<close>

definition grows ::
    "'a vm_st_scheme \<Rightarrow> levels \<Rightarrow> u64 set \<Rightarrow> 'a vm_st_scheme \<Rightarrow> levels \<Rightarrow> u64 set \<Rightarrow> bool" where
  "grows s lvl F s' lvl' F' \<longleftrightarrow> vm_inv s' lvl' F' \<and> lvl \<subseteq>\<^sub>m lvl' \<and> F' \<subseteq> F \<and> dom lvl' \<subseteq> dom lvl \<union> F \<and>
     same_rest s s' \<and>
     (\<forall>t n i. lvl t = Some (Suc n) \<longrightarrow> unat i < 512 \<longrightarrow> leads (Suc (Suc n)) (mem s (entry_at t i)) \<longrightarrow>
        mem s' (entry_at t i) = mem s (entry_at t i)) \<and>
     (\<forall>cr va. lvl (page_down cr) = Some 3 \<longrightarrow>
        (case p1_entry (mem s) cr va of
           Some p \<Rightarrow> p1_entry (mem s') cr va = Some p \<and> mem s' p = mem s p
         | None \<Rightarrow> (\<forall>p. p1_entry (mem s') cr va = Some p \<longrightarrow> mem s' p = 0))) \<and>
     (\<forall>a. page_down a \<notin> dom lvl \<union> F \<longrightarrow> mem s' a = mem s a)"

lemma same_rest_refl [simp]: "same_rest s s"
  by (simp add: same_rest_def)

lemma same_rest_trans: "same_rest s t \<Longrightarrow> same_rest t u \<Longrightarrow> same_rest s u"
  by (cases s; cases t; cases u) (simp add: same_rest_def)

lemma same_rest_alloc: "same_rest s (snd (MMU_pf_alloc s))"
  by (cases s) (simp add: same_rest_def MMU_pf_alloc_def Let_def split: option.splits)

lemma same_rest_mem: "same_rest s s' \<Longrightarrow> same_rest s (s'\<lparr>mem := m\<rparr>)"
  by (cases s; cases s') (simp add: same_rest_def)

lemma map_le_Some: "lvl \<subseteq>\<^sub>m lvl' \<Longrightarrow> lvl t = Some n \<Longrightarrow> lvl' t = Some n"
  by (metis domI map_le_def)

lemma grows_refl: "vm_inv s lvl F \<Longrightarrow> grows s lvl F s lvl F"
  by (simp add: grows_def split: option.splits)


lemma grows_walk:
  assumes "grows s lvl F s' lvl' F'" "lvl (page_down cr) = Some 3"
  shows "p1_entry (mem s) cr va = Some p \<Longrightarrow> p1_entry (mem s') cr va = Some p \<and> mem s' p = mem s p"
    and "p1_entry (mem s) cr va = None \<Longrightarrow> p1_entry (mem s') cr va = Some p \<Longrightarrow> mem s' p = 0"
proof -
  have "case p1_entry (mem s) cr va of
      Some p \<Rightarrow> p1_entry (mem s') cr va = Some p \<and> mem s' p = mem s p
    | None \<Rightarrow> (\<forall>p. p1_entry (mem s') cr va = Some p \<longrightarrow> mem s' p = 0)"
    using assms by (simp add: grows_def)
  then show "p1_entry (mem s) cr va = Some p \<Longrightarrow> p1_entry (mem s') cr va = Some p \<and> mem s' p = mem s p"
    and "p1_entry (mem s) cr va = None \<Longrightarrow> p1_entry (mem s') cr va = Some p \<Longrightarrow> mem s' p = 0"
    by simp_all
qed

lemma growsD:
  assumes "grows s lvl F s' lvl' F'"
  shows "vm_inv s' lvl' F'" "lvl \<subseteq>\<^sub>m lvl'" "F' \<subseteq> F" "dom lvl' \<subseteq> dom lvl \<union> F" "same_rest s s'"
    "page_down a \<notin> dom lvl \<union> F \<Longrightarrow> mem s' a = mem s a"
  using assms by (simp_all add: grows_def)

lemma grows_leads:
  "grows s lvl F s' lvl' F' \<Longrightarrow> lvl t = Some (Suc n) \<Longrightarrow> unat i < 512 \<Longrightarrow>
   leads (Suc (Suc n)) (mem s (entry_at t i)) \<Longrightarrow> mem s' (entry_at t i) = mem s (entry_at t i)"
  by (simp add: grows_def)

lemma grows_trans:
  assumes g: "grows s lvl F t lvl' F'" and h: "grows t lvl' F' u lvl'' F''"
  shows "grows s lvl F u lvl'' F''"
proof -
  note le = growsD(2-4) [OF g]
  have w: "case p1_entry (mem s) cr va of
      Some p \<Rightarrow> p1_entry (mem u) cr va = Some p \<and> mem u p = mem s p
    | None \<Rightarrow> (\<forall>p. p1_entry (mem u) cr va = Some p \<longrightarrow> mem u p = 0)"
    if r: "lvl (page_down cr) = Some 3" for cr va
  proof -
    have r': "lvl' (page_down cr) = Some 3" by (rule map_le_Some [OF le(1) r])
    show ?thesis
    proof (cases "p1_entry (mem s) cr va")
      case (Some p)
      from grows_walk(1) [OF g r Some] grows_walk(1) [OF h r', of va p] Some show ?thesis by simp
    next
      case None
      have "mem u p = 0" if "p1_entry (mem u) cr va = Some p" for p
      proof (cases "p1_entry (mem t) cr va")
        case (Some q)
        from grows_walk(1) [OF h r' Some] that grows_walk(2) [OF g r None Some] show ?thesis by simp
      qed (rule grows_walk(2) [OF h r' _ that])
      with None show ?thesis by simp
    qed
  qed
  have "mem u a = mem s a" if "page_down a \<notin> dom lvl \<union> F" for a
  proof -
    have "page_down a \<notin> dom lvl' \<union> F'" using that le by auto
    then show ?thesis using growsD(6) [OF g that] growsD(6) [OF h] by simp
  qed
  moreover have "mem u (entry_at x i) = mem s (entry_at x i)"
    if "lvl x = Some (Suc n)" "unat i < 512" "leads (Suc (Suc n)) (mem s (entry_at x i))" for x n i
    using grows_leads [OF g that] grows_leads [OF h map_le_Some [OF le(1) that(1)] that(2)] that(3) by simp
  moreover have "lvl \<subseteq>\<^sub>m lvl''" "F'' \<subseteq> F" "dom lvl'' \<subseteq> dom lvl \<union> F" "vm_inv u lvl'' F''" "same_rest s u"
    using growsD(1) [OF h] map_le_trans [OF le(1) growsD(2) [OF h]] le(2,3) growsD(3,4) [OF h]
      same_rest_trans [OF growsD(5) [OF g] growsD(5) [OF h]] by blast+
  ultimately show ?thesis using w unfolding grows_def by blast
qed

lemma grow_step:
  assumes inv: "vm_inv s lvl F" and t: "lvl t = Some (Suc n)" and i: "unat i < 512"
    and np: "\<not> pte_present (mem s (entry_at t i))" and al: "MMU_pf_alloc s = (f, s1)" "f \<noteq> INVALID_FRAME_ADDR"
    and e: "leads (Suc (Suc n)) e" "pte_frame e = f"
  shows "grows s lvl F (s1\<lparr>mem := (zero_page f (mem s1))(entry_at t i := e)\<rparr>) (lvl(f \<mapsto> n)) (F - {f})"
proof -
  have av: "avail s F" and dj: "dom lvl \<inter> F = {}" and ok: "tables_ok (mem s) lvl F"
    using inv by (auto simp: vm_inv_def)
  from pf.alloc_cases [OF av al(1)] al(2) have f: "f \<in> F" "page_aligned f" and av1: "avail s1 (F - {f})"
    and m1: "mem s1 = mem s" by auto
  have c: "can_grow (mem s) lvl F t n i f e"
    using ok dj t i np f e by (simp add: can_grow_def leads_def)
  have g: "(zero_page f (mem s1))(entry_at t i := e) = grown (mem s) t i f e" by (simp add: grown_def m1)
  let ?s = "s1\<lparr>mem := grown (mem s) t i f e\<rparr>"
  have ta: "page_aligned t" by (rule tables_aligned [OF ok t])
  have out: "grown (mem s) t i f e a = mem s a" if "page_down a \<noteq> f" "page_down a \<noteq> t" for a
    using that f ta i by (auto simp: grown_def zero_page_eq)
  have "avail ?s (F - {f})"
    using av1 out dj t m1 by (intro avail_mem) auto
  moreover have "dom (lvl(f \<mapsto> n)) \<inter> (F - {f}) = {}" using dj by auto
  ultimately have "vm_inv ?s (lvl(f \<mapsto> n)) (F - {f})"
    using inv grown_tables_ok [OF c] by (simp add: vm_inv_def)
  moreover have "same_rest s ?s" using same_rest_alloc [of s] al(1) by (simp add: same_rest_mem)
  moreover have "lvl \<subseteq>\<^sub>m lvl(f \<mapsto> n)" using grown_fresh [OF c] by (auto simp: map_le_def)
  moreover have ms: "mem ?s = grown (mem s) t i f e" by simp
  have "case p1_entry (mem s) cr va of
      Some p \<Rightarrow> p1_entry (mem ?s) cr va = Some p \<and> mem ?s p = mem s p
    | None \<Rightarrow> (\<forall>p. p1_entry (mem ?s) cr va = Some p \<longrightarrow> mem ?s p = 0)"
    if "lvl (page_down cr) = Some 3" for cr va
    unfolding ms p1_entry_def by (rule grown_walk [OF c that])
  moreover have "mem ?s a = mem s a" if "page_down a \<notin> dom lvl \<union> F" for a
    unfolding ms by (rule out) (use that f t in auto)
  moreover have "dom (lvl(f \<mapsto> n)) \<subseteq> dom lvl \<union> F" "F - {f} \<subseteq> F" using f by auto
  moreover have "mem ?s (entry_at x j) = mem s (entry_at x j)"
    if "lvl x = Some (Suc k)" "unat j < 512" "leads (Suc (Suc k)) (mem s (entry_at x j))" for x k j
    using grown_old_entries [OF c that(1,2)] that c by (auto simp: can_grow_def)
  ultimately show ?thesis unfolding g grows_def by blast
qed


text \<open>The three functions that follow or create an entry, in one form.\<close>

definition get_or_alloc :: "(u64 \<Rightarrow> u64 \<Rightarrow> u64) \<Rightarrow> ptr \<Rightarrow> 'a vm_st_scheme \<Rightarrow> ptr \<times> 'a vm_st_scheme" where
  "get_or_alloc fill e s =
     (if \<not> pte_present (mem s e)
      then let (frame, s) = MMU_pf_alloc s
           in if frame = INVALID_FRAME_ADDR then (INVALID_FRAME_ADDR, s)
              else let m = zero_page frame (mem s)
                   in (pte_frame (fill frame (m e)), s\<lparr>mem := m(e := fill frame (m e))\<rparr>)
      else (pte_frame (mem s e), s))"

definition fill_p4 :: "bool \<Rightarrow> u64 \<Rightarrow> u64 \<Rightarrow> u64" where
  "fill_p4 user frame x = put_bit 9 True (put_bit 2 user (put_bit 1 True (put_bit 0 True
     (put_addr (phys_to_pfn frame) x))))"

definition fill_low :: "bool \<Rightarrow> u64 \<Rightarrow> u64 \<Rightarrow> u64" where
  "fill_low user frame x = put_bit 9 True (put_bit 7 False (put_bit 2 user (put_bit 1 True (put_bit 0 True
     (put_addr (phys_to_pfn frame) x)))))"

lemma get_or_alloc_forms:
  "get_or_alloc_PDPT_entry e user s = get_or_alloc (fill_p4 user) e s"
  "get_or_alloc_PD_entry e user s = get_or_alloc (fill_low user) e s"
  "get_or_alloc_PT_entry e user s = get_or_alloc (fill_low user) e s"
  by (auto simp: get_or_alloc_PDPT_entry_def get_or_alloc_PD_entry_def get_or_alloc_PT_entry_def
      get_or_alloc_def fill_p4_def fill_low_def Let_def split: prod.split)

definition fills :: "(u64 \<Rightarrow> u64 \<Rightarrow> u64) \<Rightarrow> nat \<Rightarrow> bool" where
  "fills fill n \<longleftrightarrow> (\<forall>f x. page_aligned f \<longrightarrow> unat f < 2 ^ 52 \<longrightarrow>
     leads (Suc (Suc n)) (fill f x) \<and> pte_frame (fill f x) = f)"

lemma fills_p4: "fills (fill_p4 user) 2"
  by (auto simp: fills_def fill_p4_def leads_def frame_round_trip)

lemma fills_low: "fills (fill_low user) n"
  by (auto simp: fills_def fill_low_def leads_def frame_round_trip)

lemma get_or_alloc_correct:
  assumes inv: "vm_inv s lvl F" and t: "lvl t = Some (Suc n)" and i: "unat i < 512" and fl: "fills fill n"
    and nb: "\<not> (pte_present (mem s (entry_at t i)) \<and> Suc (Suc n) < 4 \<and> pte_big (mem s (entry_at t i)))"
    and r: "get_or_alloc fill (entry_at t i) s = (p, s')"
  obtains (fail) "p = INVALID_FRAME_ADDR" "F = {}" "s' = s"
  | (ok) lvl' F' where "grows s lvl F s' lvl' F'" "leads (Suc (Suc n)) (mem s' (entry_at t i))"
      "p = pte_frame (mem s' (entry_at t i))" "lvl' p = Some n"
proof (cases "pte_present (mem s (entry_at t i))")
  case True
  then have "s' = s" "p = pte_frame (mem s (entry_at t i))" using r by (auto simp: get_or_alloc_def)
  moreover have "leads (Suc (Suc n)) (mem s (entry_at t i))" using True nb by (simp add: leads_def)
  moreover from this have "lvl (pte_frame (mem s (entry_at t i))) = Some n"
    using inv t i tables_child by (auto simp: vm_inv_def)
  ultimately show ?thesis using ok [of lvl F] grows_refl [OF inv] by simp
next
  case False
  obtain f s1 where al: "MMU_pf_alloc s = (f, s1)" by fastforce
  have av: "avail s F" and low: "\<forall>f \<in> F. unat f < 2 ^ 52" using inv by (auto simp: vm_inv_def)
  show ?thesis
  using av al
  proof (cases rule: pf.alloc_cases)
    case none
    then show ?thesis using fail r False al by (simp add: get_or_alloc_def)
  next
    case some
    let ?x = "zero_page f (mem s1) (entry_at t i)"
    have e: "leads (Suc (Suc n)) (fill f ?x)" "pte_frame (fill f ?x) = f"
      using fl some low by (auto simp: fills_def)
    have "s' = s1\<lparr>mem := (zero_page f (mem s1))(entry_at t i := fill f ?x)\<rparr>" "p = f"
      using r False al some e(2) by (simp_all add: get_or_alloc_def Let_def)
    then show ?thesis
      using ok [of "lvl(f \<mapsto> n)" "F - {f}"] grow_step [OF inv t i False al some(2) e] e by simp
  qed
qed



text \<open>Creating the path to the last-level entry of an address.\<close>

lemma travel_create_eq:
  "travel_pagetable_in cr3 va True s =
     (let e4 = entry_at (page_down cr3) (va_index 4 va);
          (pdpt, s) = get_or_alloc (fill_p4 (VA_USER_BASE \<le> va)) e4 s
      in if pdpt = INVALID_FRAME_ADDR then (INVALID_FRAME_ADDR, s)
         else let e3 = entry_at pdpt (va_index 3 va)
              in if e3 = INVALID_FRAME_ADDR \<or> pte_present (mem s e3) \<and> pte_big (mem s e3)
                 then (INVALID_FRAME_ADDR, s)
                 else let (pd, s) = get_or_alloc (fill_low (VA_USER_BASE \<le> va)) e3 s
                      in if pd = INVALID_FRAME_ADDR then (INVALID_FRAME_ADDR, s)
                         else let e2 = entry_at pd (va_index 2 va)
                              in if e2 = INVALID_FRAME_ADDR \<or> pte_present (mem s e2) \<and> pte_big (mem s e2)
                                 then (INVALID_FRAME_ADDR, s)
                                 else let (pt, s) = get_or_alloc (fill_low (VA_USER_BASE \<le> va)) e2 s
                                      in if pt = INVALID_FRAME_ADDR then (INVALID_FRAME_ADDR, s)
                                         else (entry_at pt (va_index (Suc 0) va), s))"
  by (simp add: travel_pagetable_in_def walk_p4_p3_def walk_p3_p2_def walk_p2_p1_def Let_def
      get_or_alloc_forms va_index_names cr3_mask case_prod_beta)


inductive on_path :: "phys \<Rightarrow> u64 \<Rightarrow> u64 \<Rightarrow> nat \<Rightarrow> u64 \<Rightarrow> bool" for m root va where
  path_root: "on_path m root va 3 root"
| path_step: "on_path m root va (Suc n) t \<Longrightarrow> leads (Suc (Suc n)) (m (entry_at t (va_index (Suc (Suc n)) va))) \<Longrightarrow>
    on_path m root va n (pte_frame (m (entry_at t (va_index (Suc (Suc n)) va))))"

lemma on_path_level:
  assumes "tables_ok m lvl F" "lvl root = Some 3"
  shows "on_path m root va k t \<Longrightarrow> lvl t = Some k"
  by (induction rule: on_path.induct) (auto simp: assms(2) intro: tables_child [OF assms(1)] unat_va_index)

lemma on_path_walk: "on_path m root va k t \<Longrightarrow> walk m 3 root va = walk m k t va"
  by (induction rule: on_path.induct) (auto simp: Let_def)

lemma on_path_huge: "on_path m root va k t \<Longrightarrow> huge_at m 3 root va = huge_at m k t va"
  by (induction rule: on_path.induct) (auto simp: Let_def leads_def)

lemma on_path_grows:
  assumes g: "grows s lvl F s' lvl' F'" and inv: "vm_inv s lvl F" and r: "lvl root = Some 3"
  shows "on_path (mem s) root va k t \<Longrightarrow> on_path (mem s') root va k t"
proof (induction rule: on_path.induct)
  case path_root
  show ?case by (rule on_path.path_root)
next
  case (path_step n t)
  have "lvl t = Some (Suc n)" by (rule on_path_level [OF vm_invD(4) [OF inv] r path_step.hyps(1)])
  from grows_leads [OF g this unat_va_index path_step.hyps(2)] path_step
  show ?case using on_path.path_step [of "mem s'" root va n t] by simp
qed

lemma create_step:
  assumes inv: "vm_inv s lvl F" and r: "lvl root = Some 3" and p: "on_path (mem s) root va (Suc n) t"
    and fl: "fills fill n" and eq: "get_or_alloc fill (entry_at t (va_index (Suc (Suc n)) va)) s = (q, s')"
    and nb: "let e = mem s (entry_at t (va_index (Suc (Suc n)) va)) in
       \<not> (pte_present e \<and> Suc (Suc n) < 4 \<and> pte_big e)"
  shows "\<exists>lvl' F'. grows s lvl F s' lvl' F' \<and> lvl' root = Some 3 \<and>
    (if q = INVALID_FRAME_ADDR then walk (mem s') 3 root va = None \<and> F' = {} else on_path (mem s') root va n q)"
proof -
  have t: "lvl t = Some (Suc n)" by (rule on_path_level [OF vm_invD(4) [OF inv] r p])
  note c = get_or_alloc_correct [OF inv t unat_va_index fl nb [unfolded Let_def] eq]
  show ?thesis
  proof (rule c)
    assume f: "q = INVALID_FRAME_ADDR" "F = {}" "s' = s"
    have "\<not> pte_present (mem s (entry_at t (va_index (Suc (Suc n)) va)))"
      using eq f(1) page_aligned_not_INVALID [OF pte_frame_aligned] by (auto simp: get_or_alloc_def split: if_splits)
    then have "walk (mem s) 3 root va = None" using on_path_walk [OF p] by (simp add: leads_def)
    then show ?thesis using f grows_refl [OF inv] r by auto
  next
    fix lvl' F'
    assume g: "grows s lvl F s' lvl' F'" "leads (Suc (Suc n)) (mem s' (entry_at t (va_index (Suc (Suc n)) va)))"
      "q = pte_frame (mem s' (entry_at t (va_index (Suc (Suc n)) va)))"
    have "on_path (mem s') root va n q"
      using on_path.path_step [OF on_path_grows [OF g(1) inv r p] g(2)] g(3) by simp
    moreover have "q \<noteq> INVALID_FRAME_ADDR" using g(3) page_aligned_not_INVALID by simp
    ultimately show ?thesis using g(1) map_le_Some [OF growsD(2) [OF g(1)] r] by auto
  qed
qed

text \<open>The create mode of \<open>travel_pagetable_in\<close> as a recursion over the levels.\<close>

definition fill_at :: "nat \<Rightarrow> bool \<Rightarrow> u64 \<Rightarrow> u64 \<Rightarrow> u64" where
  "fill_at n = (if n = 2 then fill_p4 else fill_low)"

primrec create_path :: "nat \<Rightarrow> u64 \<Rightarrow> u64 \<Rightarrow> 'a vm_st_scheme \<Rightarrow> ptr \<times> 'a vm_st_scheme" where
  "create_path 0 t va s = (entry_at t (va_index 1 va), s)"
| "create_path (Suc n) t va s =
     (let e = entry_at t (va_index (Suc (Suc n)) va)
      in if n < 2 \<and> pte_present (mem s e) \<and> pte_big (mem s e) then (INVALID_FRAME_ADDR, s)
         else let (q, s) = get_or_alloc (fill_at n (VA_USER_BASE \<le> va)) e s
              in if q = INVALID_FRAME_ADDR then (INVALID_FRAME_ADDR, s) else create_path n q va s)"

lemma get_or_alloc_entry:
  assumes "get_or_alloc (fill_at n u) e s = (q, s')" "q \<noteq> INVALID_FRAME_ADDR"
  shows "entry_at q (va_index k va) \<noteq> INVALID_FRAME_ADDR"
proof -
  have "page_aligned q"
    using assms by (auto simp: get_or_alloc_def Let_def split: if_splits prod.splits)
  then show ?thesis by (rule entry_not_INVALID) (rule unat_va_index)
qed

lemma travel_create_path: "travel_pagetable_in cr3 va True s = create_path 3 (page_down cr3) va s"
proof -
  let ?u = "VA_USER_BASE \<le> va"
  have 3: "(3::nat) = Suc (Suc (Suc 0))" "(4::nat) = Suc (Suc (Suc (Suc 0)))" "(2::nat) = Suc (Suc 0)" by simp_all
  have n: "entry_at q (va_index k va) \<noteq> INVALID_FRAME_ADDR"
    if "get_or_alloc (fill_p4 ?u) e s = (q, s') \<or> get_or_alloc (fill_low ?u) e s = (q, s')" "q \<noteq> INVALID_FRAME_ADDR"
    for e s s' q k
    using that get_or_alloc_entry [of 2 ?u e s q s'] get_or_alloc_entry [of 0 ?u e s q s'] by (auto simp: fill_at_def)
  show ?thesis
    unfolding travel_create_eq 3
    by (auto simp: Let_def fill_at_def n [OF disjI1] n [OF disjI2] split: prod.split)
qed


lemma fills_at: "fills (fill_at n u) n"
  using fills_p4 fills_low by (simp add: fill_at_def)

lemma create_path_grows:
  assumes "vm_inv s lvl F" "lvl root = Some 3" "on_path (mem s) root va k t" "create_path k t va s = (p, s')"
    "page_aligned t"
  shows "\<exists>lvl' F'. grows s lvl F s' lvl' F' \<and>
    walk (mem s') 3 root va = (if p = INVALID_FRAME_ADDR then None else Some p) \<and>
    (p = INVALID_FRAME_ADDR \<longrightarrow> F' = {} \<or> huge_at (mem s') 3 root va)"
  using assms
proof (induction k arbitrary: s lvl F t)
  case 0
  then show ?case
    using on_path_walk [OF 0(3)] grows_refl [OF 0(1)] entry_not_INVALID [OF 0(5) unat_va_index] by auto
next
  case (Suc n)
  let ?e = "entry_at t (va_index (Suc (Suc n)) va)"
  show ?case
  proof (cases "n < 2 \<and> pte_present (mem s ?e) \<and> pte_big (mem s ?e)")
    case True
    then have "p = INVALID_FRAME_ADDR" "s' = s" using Suc.prems(4) by (simp_all add: Let_def)
    moreover have "walk (mem s) 3 root va = None"
      using on_path_walk [OF Suc.prems(3)] True by (simp add: leads_def)
    moreover have "huge_at (mem s) 3 root va"
      using on_path_huge [OF Suc.prems(3)] True by (simp add: Let_def)
    ultimately show ?thesis using grows_refl [OF Suc.prems(1)] by auto
  next
    case False
    obtain q s1 where a: "get_or_alloc (fill_at n (VA_USER_BASE \<le> va)) ?e s = (q, s1)" by fastforce
    have nb: "let e = mem s ?e in \<not> (pte_present e \<and> Suc (Suc n) < 4 \<and> pte_big e)"
      using False by (auto simp: Let_def)
    from create_step [OF Suc.prems(1-3) fills_at a nb]
    obtain l1 F1 where g: "grows s lvl F s1 l1 F1" and r1: "l1 root = Some 3"
      and q: "if q = INVALID_FRAME_ADDR then walk (mem s1) 3 root va = None \<and> F1 = {} else on_path (mem s1) root va n q"
      by blast
    have res: "(p, s') = (if q = INVALID_FRAME_ADDR then (q, s1) else create_path n q va s1)"
      using Suc.prems(4) False a by (simp add: Let_def split: if_splits)
    show ?thesis
    proof (cases "q = INVALID_FRAME_ADDR")
      case True
      with res q g show ?thesis by auto
    next
      case False
      then have "create_path n q va s1 = (p, s')" "on_path (mem s1) root va n q" using res q by simp_all
      moreover have "page_aligned q"
        using a False by (auto simp: get_or_alloc_def Let_def split: if_splits prod.splits)
      ultimately show ?thesis
        using Suc.IH [OF growsD(1) [OF g] r1] grows_trans [OF g] by blast
    qed
  qed
qed

lemma travel_create:
  assumes inv: "vm_inv s lvl F" and r: "lvl (page_down cr3) = Some 3"
    and tr: "travel_pagetable_in cr3 va True s = (p, s')"
  obtains lvl' F' where "grows s lvl F s' lvl' F'"
    "p1_entry (mem s') cr3 va = (if p = INVALID_FRAME_ADDR then None else Some p)"
    "p = INVALID_FRAME_ADDR \<longrightarrow> F' = {} \<or> huge_at (mem s') 3 (page_down cr3) va"
  using create_path_grows [OF inv r path_root tr [unfolded travel_create_path] page_aligned_page_down]
  unfolding p1_entry_def by blast

section \<open>Last-level entries and mapped frames\<close>

text \<open>A change of one last-level entry leaves all walks alone.\<close>

lemma walk_leaf_upd:
  assumes "tables_ok m lvl F" "lvl t0 = Some 0" "unat i < 512" "lvl t = Some k"
  shows "walk (m(entry_at t0 i := v)) k t va = walk m k t va"
proof (rule walk_cong [OF assms(1) _ assms(4)])
  fix t' k j assume "lvl t' = Some (Suc k)" "unat (j::u64) < 512"
  then show "(m(entry_at t0 i := v)) (entry_at t' j) = m (entry_at t' j)"
    using assms tables_aligned [OF assms(1)] by (auto simp: entry_at_inj)
qed

lemma tables_leaf_upd:
  assumes ok: "tables_ok m lvl F" and t: "lvl t0 = Some 0" and i: "unat i < 512"
    and v: "pte_present v \<Longrightarrow> pte_frame v \<notin> dom lvl \<union> F \<and>
      (\<forall>t j. lvl t = Some 0 \<longrightarrow> unat j < 512 \<longrightarrow> (t, j) \<noteq> (t0, i) \<longrightarrow> pte_present (m (entry_at t j)) \<longrightarrow>
         pte_frame (m (entry_at t j)) \<noteq> pte_frame v)"
  shows "tables_ok (m(entry_at t0 i := v)) lvl F"
proof -
  have al: "page_aligned t" if "lvl t = Some k" for t k using tables_aligned [OF ok that] .
  have up: "(m(entry_at t0 i := v)) (entry_at t j) = m (entry_at t j)" if "lvl t = Some (Suc k)" "unat j < 512" for t k j
    using that t i al by (auto simp: entry_at_inj)
  have lf: "(m(entry_at t0 i := v)) (entry_at t j) = (if (t, j) = (t0, i) then v else m (entry_at t j))"
    if "lvl t = Some 0" "unat j < 512" for t j
    using that t i al by (auto simp: entry_at_inj)
  show ?thesis
  proof (rule tables_okI)
    show "page_aligned t" if "lvl t = Some k" for t k by (rule al [OF that])
    show "lvl (pte_frame ((m(entry_at t0 i := v)) (entry_at t j))) = Some n"
      if "lvl t = Some (Suc n)" "unat j < 512" "leads (Suc (Suc n)) ((m(entry_at t0 i := v)) (entry_at t j))" for t n j
      using tables_child [OF ok that(1,2)] that up by simp
    show "pte_frame ((m(entry_at t0 i := v)) (entry_at t j)) \<notin> dom lvl \<union> F"
      if "lvl t = Some 0" "unat j < 512" "pte_present ((m(entry_at t0 i := v)) (entry_at t j))" for t j
      using tables_leaf [OF ok that(1,2)] that(3) v lf [OF that(1,2)] by (auto split: if_splits)
  next
    fix t t' n j j'
    assume a: "lvl t = Some (Suc n)" "lvl t' = Some (Suc n)" "unat j < 512" "unat j' < 512"
      "leads (Suc (Suc n)) ((m(entry_at t0 i := v)) (entry_at t j))"
      "leads (Suc (Suc n)) ((m(entry_at t0 i := v)) (entry_at t' j'))"
      "pte_frame ((m(entry_at t0 i := v)) (entry_at t j)) = pte_frame ((m(entry_at t0 i := v)) (entry_at t' j'))"
    show "j = j' \<and> (n < 2 \<or> 32 \<le> unat j \<longrightarrow> t = t')"
      using tables_parent [OF ok a(1-4)] a(5-7) unfolding up [OF a(1,3)] up [OF a(2,4)] by simp
  next
    fix t t' j j'
    assume a: "lvl t = Some 0" "lvl t' = Some 0" "unat j < 512" "unat j' < 512"
      "pte_present ((m(entry_at t0 i := v)) (entry_at t j))" "pte_present ((m(entry_at t0 i := v)) (entry_at t' j'))"
      "pte_frame ((m(entry_at t0 i := v)) (entry_at t j)) = pte_frame ((m(entry_at t0 i := v)) (entry_at t' j'))"
    show "t = t' \<and> j = j'"
      using tables_leaf_unique [OF ok a(1-4)] a(5-7) v a(1-4) unfolding lf [OF a(1,3)] lf [OF a(2,4)]
      by (auto split: if_splits)
  qed
qed


section \<open>Reserving and backing a page\<close>

text \<open>Where two addresses of a root with the same last-level entry can differ: only in the page offset.\<close>

lemma p1_entry_leaf:
  assumes "vm_inv s lvl F" "lvl (page_down cr3) = Some 3" "p1_entry (mem s) cr3 va = Some p"
  obtains t0 where "lvl t0 = Some 0" "p = entry_at t0 (va_index (Suc 0) va)" "page_aligned t0"
  using walk_ends [OF vm_invD(4) [OF assms(1)] assms(2) assms(3) [unfolded p1_entry_def]]
    tables_aligned [OF vm_invD(4) [OF assms(1)]] by auto

lemma p1_entry_upd:
  assumes inv: "vm_inv s lvl F" and p: "lvl (page_down cr3) = Some 3" "p1_entry (mem s) cr3 va = Some p"
    and r: "lvl (page_down cr) = Some 3"
  shows "p1_entry ((mem s)(p := v)) cr va' = p1_entry (mem s) cr va'"
proof -
  obtain t0 where "lvl t0 = Some 0" "p = entry_at t0 (va_index (Suc 0) va)" by (rule p1_entry_leaf [OF inv p])
  then show ?thesis
    using walk_leaf_upd [OF vm_invD(4) [OF inv] _ unat_va_index r] by (simp add: p1_entry_def)
qed

lemma vm_inv_leaf_upd:
  assumes inv: "vm_inv s lvl F" and p: "lvl (page_down cr3) = Some 3" "p1_entry (mem s) cr3 va = Some p"
    and v: "\<not> pte_present v"
  shows "vm_inv (s\<lparr>mem := (mem s)(p := v)\<rparr>) lvl F"
proof -
  obtain t0 where t0: "lvl t0 = Some 0" "p = entry_at t0 (va_index (Suc 0) va)" "page_aligned t0"
    by (rule p1_entry_leaf [OF inv p])
  have "page_down p \<notin> F" using t0 vm_invD(3) [OF inv] by (auto simp: unat_va_index)
  then have "avail (s\<lparr>mem := (mem s)(p := v)\<rparr>) F" by (rule avail_store [OF vm_invD(1) [OF inv]])
  then show ?thesis
    using inv tables_leaf_upd [OF vm_invD(4) [OF inv] t0(1) unat_va_index, of v] v t0(2)
    by (simp add: vm_inv_def)
qed


lemma tables_cong:
  assumes ok: "tables_ok m lvl F" and F: "F' \<subseteq> F"
    and same: "\<And>t k i. lvl t = Some k \<Longrightarrow> unat i < 512 \<Longrightarrow> m' (entry_at t i) = m (entry_at t i)"
  shows "tables_ok m' lvl F'"
proof (rule tables_okI)
  show "page_aligned t" if "lvl t = Some n" for t n using tables_aligned [OF ok that] .
  show "lvl (pte_frame (m' (entry_at t i))) = Some n"
    if "lvl t = Some (Suc n)" "unat i < 512" "leads (Suc (Suc n)) (m' (entry_at t i))" for t n i
    using tables_child [OF ok that(1,2)] that(3) unfolding same [OF that(1,2)] by blast
  show "pte_frame (m' (entry_at t i)) \<notin> dom lvl \<union> F'"
    if "lvl t = Some 0" "unat i < 512" "pte_present (m' (entry_at t i))" for t i
    using tables_leaf [OF ok that(1,2)] that(3) F unfolding same [OF that(1,2)] by blast
next
  fix t t' n i j
  assume a: "lvl t = Some (Suc n)" "lvl t' = Some (Suc n)" "unat i < 512" "unat j < 512"
    "leads (Suc (Suc n)) (m' (entry_at t i))" "leads (Suc (Suc n)) (m' (entry_at t' j))"
    "pte_frame (m' (entry_at t i)) = pte_frame (m' (entry_at t' j))"
  show "i = j \<and> (n < 2 \<or> 32 \<le> unat i \<longrightarrow> t = t')"
    using tables_parent [OF ok a(1-4)] a(5-7) unfolding same [OF a(1,3)] same [OF a(2,4)] by blast
next
  fix t t' i j
  assume a: "lvl t = Some 0" "lvl t' = Some 0" "unat i < 512" "unat j < 512"
    "pte_present (m' (entry_at t i))" "pte_present (m' (entry_at t' j))"
    "pte_frame (m' (entry_at t i)) = pte_frame (m' (entry_at t' j))"
  show "t = t' \<and> i = j"
    using tables_leaf_unique [OF ok a(1-4)] a(5-7) unfolding same [OF a(1,3)] same [OF a(2,4)] by blast
qed

text \<open>Memory outside tables and free frames may change freely.\<close>

lemma vm_inv_data:
  assumes inv: "vm_inv s lvl F" and same: "\<And>a. page_down a \<in> dom lvl \<union> F \<Longrightarrow> m a = mem s a"
  shows "vm_inv (s\<lparr>mem := m\<rparr>) lvl F"
    and "lvl (page_down cr) = Some 3 \<Longrightarrow> p1_entry m cr va = p1_entry (mem s) cr va"
proof -
  have e: "m (entry_at t i) = mem s (entry_at t i)" if "lvl t = Some k" "unat i < 512" for t k i
    by (rule same) (use that tables_aligned [OF vm_invD(4) [OF inv]] in auto)
  have "avail (s\<lparr>mem := m\<rparr>) F" using vm_invD(1) [OF inv] same by (intro avail_mem) auto
  moreover have "tables_ok m lvl F" by (rule tables_cong [OF vm_invD(4) [OF inv] order_refl e])
  ultimately show "vm_inv (s\<lparr>mem := m\<rparr>) lvl F" using inv by (simp add: vm_inv_def)
  show "p1_entry m cr va = p1_entry (mem s) cr va" if "lvl (page_down cr) = Some 3"
    unfolding p1_entry_def by (rule walk_cong [OF vm_invD(4) [OF inv] e that])
qed

lemma zeroed_frame:
  assumes inv: "vm_inv s lvl F" and al: "MMU_pf_alloc s = (f, s1)" "f \<noteq> INVALID_FRAME_ADDR"
  shows "f \<in> F" "page_aligned f" "unat f < 2 ^ 52" "vm_inv (s1\<lparr>mem := zero_page f (mem s1)\<rparr>) lvl (F - {f})"
    "same_rest s s1" "mem s1 = mem s"
    "lvl (page_down cr) = Some 3 \<Longrightarrow> p1_entry (zero_page f (mem s)) cr va = p1_entry (mem s) cr va"
proof -
  show f: "f \<in> F" and fa: "page_aligned f" and m: "mem s1 = mem s" and low: "unat f < 2 ^ 52" and "same_rest s s1"
    using pf.alloc_cases [OF vm_invD(1) [OF inv] al(1)] al(2) vm_invD(2) [OF inv] same_rest_alloc [of s] al(1)
    by auto
  have av: "avail s1 (F - {f})" using pf.alloc_cases [OF vm_invD(1) [OF inv] al(1)] al(2) by auto
  have z: "zero_page f (mem s) a = mem s a" if "page_down a \<in> dom lvl \<union> (F - {f})" for a
    using that f fa vm_invD(3) [OF inv] by (auto simp: zero_page_eq)
  have e: "zero_page f (mem s) (entry_at t i) = mem s (entry_at t i)" if "lvl t = Some k" "unat i < 512" for t k i
    by (rule z) (use that tables_aligned [OF vm_invD(4) [OF inv]] in auto)
  have "avail (s1\<lparr>mem := zero_page f (mem s1)\<rparr>) (F - {f})" using av z m by (intro avail_mem) auto
  moreover have "tables_ok (zero_page f (mem s)) lvl (F - {f})"
    by (rule tables_cong [OF vm_invD(4) [OF inv] _ e]) auto
  ultimately show "vm_inv (s1\<lparr>mem := zero_page f (mem s1)\<rparr>) lvl (F - {f})"
    using inv m by (auto simp: vm_inv_def)
  show "p1_entry (zero_page f (mem s)) cr va = p1_entry (mem s) cr va" if "lvl (page_down cr) = Some 3"
    unfolding p1_entry_def by (rule walk_cong [OF vm_invD(4) [OF inv] e that])
qed


text \<open>The entry \<open>p\<close> was backed by the zeroed frame \<open>f\<close>, and nothing else changed.\<close>

definition backed :: "levels \<Rightarrow> ptr \<Rightarrow> u64 \<Rightarrow> 'a vm_st_scheme \<Rightarrow> 'a vm_st_scheme \<Rightarrow> bool" where
  "backed lvl p f s s' \<longleftrightarrow> same_rest s s' \<and> page_aligned f \<and>
     pte_present (mem s' p) \<and> pte_frame (mem s' p) = f \<and> \<not> pte_flag (mem s' p) \<and>
     (\<forall>a. page_down a = f \<longrightarrow> mem s' a = 0) \<and> (\<forall>a. page_down a \<noteq> f \<longrightarrow> a \<noteq> p \<longrightarrow> mem s' a = mem s a) \<and>
     (\<forall>cr va. lvl (page_down cr) = Some 3 \<longrightarrow> p1_entry (mem s') cr va = p1_entry (mem s) cr va)"

lemma backedD:
  assumes "backed lvl p f s s'"
  shows "same_rest s s'" "page_aligned f" "pte_present (mem s' p)" "pte_frame (mem s' p) = f" "\<not> pte_flag (mem s' p)"
    "page_down a = f \<Longrightarrow> mem s' a = 0" "page_down a \<noteq> f \<Longrightarrow> a \<noteq> p \<Longrightarrow> mem s' a = mem s a"
    "lvl (page_down cr) = Some 3 \<Longrightarrow> p1_entry (mem s') cr va = p1_entry (mem s) cr va"
  using assms by (simp_all add: backed_def)

lemma make_present_new:
  assumes inv: "vm_inv s lvl F" and r: "lvl (page_down cr3) = Some 3" and p: "p1_entry (mem s) cr3 va = Some p"
    and e: "\<not> pte_present (mem s p)" "pte_flag (mem s p)" and F: "F \<noteq> {}"
  obtains f s' where "make_page_present p va' s = (0, s')" "f \<in> F" "vm_inv s' lvl (F - {f})" "backed lvl p f s s'"
proof -
  obtain f s1 where al: "MMU_pf_alloc s = (f, s1)" by fastforce
  have nI: "f \<noteq> INVALID_FRAME_ADDR" using pf.alloc_not_none [OF vm_invD(1) [OF inv]] F al by auto
  note z = zeroed_frame [OF inv al nI]
  obtain t0 where t0: "lvl t0 = Some 0" "p = entry_at t0 (va_index (Suc 0) va)" "page_aligned t0"
    by (rule p1_entry_leaf [OF inv r p])
  have pf: "page_down p \<noteq> f" "page_down p \<notin> F"
    using t0 z(1) vm_invD(3) [OF inv] unat_va_index by auto
  let ?m = "zero_page f (mem s)"
  have mp: "?m p = mem s p" using pf(1) z(2) by (simp add: zero_page_eq)
  define v where "v = put_bit 9 False (put_bit 2 (VA_USER_BASE \<le> va') (put_bit 1 True
      (put_bit 0 True (put_addr (phys_to_pfn f) (?m p)))))"
  have v: "pte_present v" "\<not> pte_flag v" "pte_frame v = f"
    using z(2,3) by (simp_all add: v_def frame_round_trip)
  let ?s = "s1\<lparr>mem := ?m(p := v)\<rparr>"
  have "p \<noteq> INVALID_FRAME_ADDR" using walk_not_INVALID p by (auto simp: p1_entry_def)
  then have eq: "make_page_present p va' s = (0, ?s)"
    using e al nI z(6) by (simp add: make_page_present_def Let_def v_def)
  have iz: "vm_inv (s1\<lparr>mem := ?m\<rparr>) lvl (F - {f})" using z(4,6) by simp
  have leaf: "pte_frame (?m (entry_at t j)) \<noteq> f"
    if "lvl t = Some 0" "unat j < 512" "pte_present (?m (entry_at t j))" for t j
    using tables_leaf [OF vm_invD(4) [OF inv] that(1,2)] that z(1,2) tables_aligned [OF vm_invD(4) [OF inv] that(1)]
      vm_invD(3) [OF inv] by (auto simp: zero_page_eq)
  have "tables_ok (?m(p := v)) lvl (F - {f})"
    unfolding t0(2)
    by (rule tables_leaf_upd [OF vm_invD(4) [OF iz, simplified] t0(1) unat_va_index])
      (use v(3) leaf z(1) vm_invD(3) [OF inv] in auto)
  moreover have "avail ?s (F - {f})"
    using avail_store [OF vm_invD(1) [OF iz], of p v] pf(2) by simp
  ultimately have "vm_inv ?s lvl (F - {f})" using iz by (simp add: vm_inv_def)
  moreover have "p1_entry (?m(p := v)) cr va2 = p1_entry (mem s) cr va2" if "lvl (page_down cr) = Some 3" for cr va2
    using p1_entry_upd [OF iz r _ that, of va p v va2] z(7) [OF r, of va] z(7) [OF that, of va2] p by simp
  then have "backed lvl p f s ?s"
    using v z(2,5) same_rest_mem pf(1) by (auto simp: backed_def zero_page_eq)
  ultimately show ?thesis using that eq z(1) by blast
qed

lemma make_present_same:
  assumes "vm_inv s lvl F" "lvl (page_down cr3) = Some 3" "p1_entry (mem s) cr3 va = Some p"
  shows "pte_present (mem s p) \<Longrightarrow> make_page_present p va' s = (0, s)"
    "\<not> pte_present (mem s p) \<Longrightarrow> \<not> pte_flag (mem s p) \<or> F = {} \<Longrightarrow> make_page_present p va' s = (-1, s)"
proof -
  have "p \<noteq> INVALID_FRAME_ADDR" using walk_not_INVALID assms(3) by (auto simp: p1_entry_def)
  moreover have "MMU_pf_alloc s = (INVALID_FRAME_ADDR, s)" if "F = {}"
    using pf_alloc_empty vm_invD(1) [OF assms(1)] that by simp
  ultimately show "pte_present (mem s p) \<Longrightarrow> make_page_present p va' s = (0, s)"
    "\<not> pte_present (mem s p) \<Longrightarrow> \<not> pte_flag (mem s p) \<or> F = {} \<Longrightarrow> make_page_present p va' s = (-1, s)"
    by (auto simp: make_page_present_def)
qed


section \<open>What an address space reserves and translates\<close>

text \<open>A page is reserved when its last-level entry is marked for demand paging and not yet backed.\<close>

definition reserved :: "phys \<Rightarrow> u64 \<Rightarrow> u64 \<Rightarrow> bool" where
  "reserved m cr3 va = (case p1_entry m cr3 va of None \<Rightarrow> False | Some p \<Rightarrow> pte_flag (m p) \<and> \<not> pte_present (m p))"

text \<open>
  The pages a change of the last-level entry of \<open>va\<close> under \<open>cr3\<close> can concern: the same page, in the
  same address space when the page is in the user half, in any when it is in the shared kernel half.
\<close>

definition same_page :: "u64 \<Rightarrow> u64 \<Rightarrow> bool" where
  "same_page va va' \<longleftrightarrow> (\<forall>n \<in> {1..4}. va_index n va = va_index n va')"

definition concerns :: "u64 \<Rightarrow> u64 \<Rightarrow> u64 \<Rightarrow> u64 \<Rightarrow> bool" where
  "concerns cr3 va cr va' \<longleftrightarrow>
     same_page va va' \<and> (32 \<le> unat (PML4_INDEX va) \<longrightarrow> page_down cr = page_down cr3)"

lemma p1_entry_inj:
  assumes inv: "vm_inv s lvl F" and r: "lvl (page_down cr3) = Some 3" "lvl (page_down cr) = Some 3"
    and p: "p1_entry (mem s) cr3 va = Some p" "p1_entry (mem s) cr va' = Some p"
  shows "concerns cr3 va cr va'"
  using walk_inj [OF vm_invD(4) [OF inv] _ r(1) p(1) [unfolded p1_entry_def] r(2) p(2) [unfolded p1_entry_def]]
  by (auto simp: concerns_def same_page_def va_index_names)

lemma grows_translate:
  assumes "grows s lvl F s' lvl' F'" "lvl (page_down cr) = Some 3"
  shows "translate (mem s') cr va = translate (mem s) cr va" "reserved (mem s') cr va = reserved (mem s) cr va"
proof -
  show "translate (mem s') cr va = translate (mem s) cr va"
    using grows_walk [OF assms, of va] by (auto simp: translate_def split: option.splits)
  show "reserved (mem s') cr va = reserved (mem s) cr va"
    using grows_walk [OF assms, of va] by (auto simp: reserved_def split: option.splits)
qed

lemma leaf_upd_others:
  assumes inv: "vm_inv s lvl F" and r: "lvl (page_down cr3) = Some 3" "lvl (page_down cr) = Some 3"
    and p: "p1_entry (mem s) cr3 va = Some p" and n: "\<not> concerns cr3 va cr va'"
  shows "translate ((mem s)(p := v)) cr va' = translate (mem s) cr va'"
    "reserved ((mem s)(p := v)) cr va' = reserved (mem s) cr va'"
proof -
  have e: "p1_entry ((mem s)(p := v)) cr va' = p1_entry (mem s) cr va'" by (rule p1_entry_upd [OF inv r(1) p r(2)])
  have "p1_entry (mem s) cr va' \<noteq> Some p" using p1_entry_inj [OF inv r p] n by blast
  then show "translate ((mem s)(p := v)) cr va' = translate (mem s) cr va'"
    "reserved ((mem s)(p := v)) cr va' = reserved (mem s) cr va'"
    by (auto simp: translate_def reserved_def e split: option.splits)
qed

lemma demand_page_in_cases:
  assumes inv: "vm_inv s lvl F" and r: "lvl (page_down cr3) = Some 3" and d: "demand_page_in cr3 va s = (r, s')"
  obtains lvl' F' s1 where "grows s lvl F s1 lvl' F'" "lvl' (page_down cr3) = Some 3"
    "r = -1" "s' = s1" "reserved (mem s) cr3 va \<or> translate (mem s) cr3 va \<noteq> None \<or> F' = {} \<or>
       huge_at (mem s1) 3 (page_down cr3) va"
  | lvl' F' s1 p where "grows s lvl F s1 lvl' F'" "lvl' (page_down cr3) = Some 3"
    "r = 0" "p1_entry (mem s1) cr3 va = Some p" "\<not> pte_present (mem s1 p)" "\<not> pte_flag (mem s1 p)"
    "s' = s1\<lparr>mem := (mem s1)(p := put_addr 0 (put_bit 0 False (put_bit 9 True (mem s1 p))))\<rparr>"
proof -
  obtain p s1 where tr: "travel_pagetable_in cr3 va True s = (p, s1)" by fastforce
  obtain lvl' F' where g: "grows s lvl F s1 lvl' F'"
    and p: "p1_entry (mem s1) cr3 va = (if p = INVALID_FRAME_ADDR then None else Some p)"
    and fl: "p = INVALID_FRAME_ADDR \<longrightarrow> F' = {} \<or> huge_at (mem s1) 3 (page_down cr3) va"
    by (rule travel_create [OF inv r tr])
  have r': "lvl' (page_down cr3) = Some 3" by (rule map_le_Some [OF growsD(2) [OF g] r])
  have tr0: "translate (mem s) cr3 va = translate (mem s1) cr3 va" "reserved (mem s) cr3 va = reserved (mem s1) cr3 va"
    using grows_translate [OF g r] by simp_all
  show ?thesis
  proof (cases "p = INVALID_FRAME_ADDR \<or> pte_flag (mem s1 p) \<or> pte_present (mem s1 p)")
    case True
    then have "r = -1" "s' = s1" using d tr by (auto simp: demand_page_in_def split: if_splits)
    moreover have "reserved (mem s) cr3 va \<or> translate (mem s) cr3 va \<noteq> None \<or> F' = {} \<or>
       huge_at (mem s1) 3 (page_down cr3) va"
      using True p fl unfolding tr0 by (auto simp: reserved_def translate_def)
    ultimately show ?thesis using that(1) [OF g r'] by blast
  next
    case False
    then show ?thesis using that(2) [OF g r', of p] p d tr by (simp add: demand_page_in_def)
  qed
qed


text \<open>
  A machine whose loaded address space has one reserved page, at \<open>0x100000000000\<close>, reached through
  tables at \<open>0x115000\<close> to \<open>0x118000\<close>; the free frames are \<open>0x5000\<close> and sixteen frames from
  \<open>0x100000\<close> on.
\<close>

definition vm_example_mem :: phys where
  "vm_example_mem =
     (zero_page 0x115000 (zero_page 0x116000 (zero_page 0x117000 (zero_page 0x118000 (\<lambda>_. INVALID_FRAME_ADDR)))))
       (entry_at 0x115000 32 := fill_p4 True 0x116000 0, entry_at 0x116000 0 := fill_low True 0x117000 0,
        entry_at 0x117000 0 := fill_low True 0x118000 0, entry_at 0x118000 0 := put_bit 9 True 0)"

definition vm_example_region :: mem_region where
  "vm_example_region = \<lparr>r_addr = 0x100000, r_size = 0x10000, r_valid = True\<rparr>"

definition vm_example :: vm_st where
  "vm_example = frames_st.extend
     (pf_example\<lparr>mem := vm_example_mem, usable_regions := vm_example_region # replicate 63 no_region\<rparr>)
     (vm_st.fields 0x110000 VA_KHEAP_BASE 0x115000)"

definition vm_example_levels :: levels where
  "vm_example_levels = [0x115000 \<mapsto> 3, 0x116000 \<mapsto> 2, 0x117000 \<mapsto> 1, 0x118000 \<mapsto> 0]"

definition vm_example_free :: "u64 set" where
  "vm_example_free = insert 0x5000 (reg_frames vm_example_region)"

lemma vm_example_fields [simp]:
  "mem vm_example = vm_example_mem" "CR3 vm_example = 0x115000" "free_frames vm_example = 0x5000"
  "usable_regions vm_example = vm_example_region # replicate 63 no_region" "kernel_cr3 vm_example = 0x110000"
  "IF_flag vm_example" "\<not> halted vm_example" "kernel_va vm_example = VA_KHEAP_BASE"
  by (simp_all add: vm_example_def frames_st.defs vm_st.defs pf_example_def)

lemma vm_example_aligned:
  "page_aligned (0x115000::u64)" "page_aligned (0x116000::u64)" "page_aligned (0x117000::u64)"
  "page_aligned (0x118000::u64)" "page_aligned (0x5000::u64)"
  by (simp_all add: page_aligned_def)

lemma vm_example_entries:
  assumes "unat i < 512"
  shows "vm_example_mem (entry_at 0x115000 i) = (if i = 32 then fill_p4 True 0x116000 0 else 0)"
    "vm_example_mem (entry_at 0x116000 i) = (if i = 0 then fill_low True 0x117000 0 else 0)"
    "vm_example_mem (entry_at 0x117000 i) = (if i = 0 then fill_low True 0x118000 0 else 0)"
    "vm_example_mem (entry_at 0x118000 i) = (if i = 0 then put_bit 9 True 0 else 0)"
  using assms vm_example_aligned by (simp_all add: vm_example_mem_def entry_at_inj zero_page_eq page_down_entry)

lemma vm_example_level_cases:
  assumes "vm_example_levels t = Some n"
  obtains "t = 0x115000" "n = 3" | "t = 0x116000" "n = 2" | "t = 0x117000" "n = 1" | "t = 0x118000" "n = 0"
  using assms by (auto simp: vm_example_levels_def split: if_splits)

lemma vm_example_fills [simp]:
  "leads n (fill_p4 True 0x116000 0)" "leads n (fill_low True 0x117000 0)" "leads n (fill_low True 0x118000 0)"
  "pte_frame (fill_p4 True 0x116000 0) = 0x116000" "pte_frame (fill_low True 0x117000 0) = 0x117000"
  "pte_frame (fill_low True 0x118000 0) = 0x118000" "\<not> leads n 0" "\<not> pte_present 0" "\<not> pte_flag 0"
proof -
  show z: "\<not> pte_present 0" "\<not> leads n 0" "\<not> pte_flag 0"
    by (simp_all add: pte_present_def leads_def pte_flag_def)
  have "\<not> pte_big 0" by (simp add: pte_big_def)
  then show "leads n (fill_p4 True 0x116000 0)" "leads n (fill_low True 0x117000 0)"
    "leads n (fill_low True 0x118000 0)"
    by (simp_all add: leads_def fill_p4_def fill_low_def)
  show "pte_frame (fill_p4 True 0x116000 0) = 0x116000" "pte_frame (fill_low True 0x117000 0) = 0x117000"
    "pte_frame (fill_low True 0x118000 0) = 0x118000"
    using frame_round_trip vm_example_aligned by (simp_all add: fill_p4_def fill_low_def)
qed

lemma vm_example_tables: "tables_ok vm_example_mem vm_example_levels G"
proof (rule tables_okI)
  show "page_aligned t" if "vm_example_levels t = Some n" for t n
    using that vm_example_aligned by (elim vm_example_level_cases) simp_all
  show "vm_example_levels (pte_frame (vm_example_mem (entry_at t i))) = Some n"
    if "vm_example_levels t = Some (Suc n)" "unat i < 512" "leads (Suc (Suc n)) (vm_example_mem (entry_at t i))" for t n i
    using that(1,3)
    by (elim vm_example_level_cases)
      (auto simp: vm_example_entries [OF that(2)] vm_example_levels_def split: if_splits)
  show "pte_frame (vm_example_mem (entry_at t i)) \<notin> dom vm_example_levels \<union> G"
    if "vm_example_levels t = Some 0" "unat i < 512" "pte_present (vm_example_mem (entry_at t i))" for t i
    using that(1,3) by (elim vm_example_level_cases) (auto simp: vm_example_entries [OF that(2)] split: if_splits)
next
  fix t t' n i j
  assume a: "vm_example_levels t = Some (Suc n)" "vm_example_levels t' = Some (Suc n)" "unat i < 512" "unat j < 512"
    "leads (Suc (Suc n)) (vm_example_mem (entry_at t i))" "leads (Suc (Suc n)) (vm_example_mem (entry_at t' j))"
  from a(1,2) have "t = t'" by (elim vm_example_level_cases) auto
  with a(1,5,6) show "i = j \<and> (n < 2 \<or> 32 \<le> unat i \<longrightarrow> t = t')"
    by (elim vm_example_level_cases)
      (auto simp: vm_example_entries [OF a(3)] vm_example_entries [OF a(4)] split: if_splits)
next
  fix t t' i j
  assume a: "vm_example_levels t = Some 0" "unat i < 512" "pte_present (vm_example_mem (entry_at t i))"
  from a(1,3) have False
    by (elim vm_example_level_cases) (auto simp: vm_example_entries [OF a(2)] split: if_splits)
  then show "t = t' \<and> i = j" ..
qed

lemma vm_example_frames:
  "region_ok vm_example_region" "f \<in> vm_example_free \<Longrightarrow> unat f < 0x110000" "0x118000 \<notin> vm_example_free"
  "0x5000 \<notin> reg_frames vm_example_region" "0x100000 \<in> vm_example_free"
  by (auto simp: region_ok_def vm_example_region_def page_aligned_def vm_example_free_def reg_frames_def
      frames_between_def)

lemma vm_example_inv:
  "vm_inv vm_example vm_example_levels vm_example_free" "vm_example_levels (page_down 0x115000) = Some 3"
  "vm_example_levels (page_down (CR3 vm_example)) = Some 3"
proof -
  note one = table_one_region [OF vm_example_frames(1)]
  have "mem vm_example 0x5000 = INVALID_FRAME_ADDR"
    by (simp add: vm_example_mem_def zero_page_eq vm_example_aligned entry_at_def page_down_aligned)
  then have "pf_inv vm_example [0x5000]"
    unfolding pf_inv_def using one vm_example_frames(4) vm_example_aligned
    by (simp add: INVALID_FRAME_ADDR_def)
  then have "avail vm_example vm_example_free"
    unfolding avail_def by (intro exI [of _ "[0x5000]"]) (simp add: one vm_example_free_def)
  moreover have "dom vm_example_levels \<inter> vm_example_free = {}"
    using vm_example_frames(2) by (fastforce simp: vm_example_levels_def split: if_splits)
  ultimately show "vm_inv vm_example vm_example_levels vm_example_free"
    using vm_example_tables vm_example_frames(2) by (fastforce simp: vm_inv_def)
  show "vm_example_levels (page_down 0x115000) = Some 3" "vm_example_levels (page_down (CR3 vm_example)) = Some 3"
    using vm_example_aligned by (simp_all add: vm_example_levels_def page_down_aligned)
qed

lemma vm_example_index:
  "va_index 4 0x100000000000 = 32" "va_index 3 0x100000000000 = 0" "va_index 2 0x100000000000 = 0"
  "va_index (Suc 0) 0x100000000000 = 0"
  by (simp_all add: va_index_def)

lemma vm_example_page:
  "p1_entry vm_example_mem 0x115000 0x100000000000 = Some (entry_at 0x118000 0)"
  "reserved vm_example_mem 0x115000 0x100000000000"
proof -
  show p: "p1_entry vm_example_mem 0x115000 0x100000000000 = Some (entry_at 0x118000 0)"
    using vm_example_aligned
    by (simp add: p1_entry_levels vm_example_index Let_def vm_example_entries page_down_aligned)
  show "reserved vm_example_mem 0x115000 0x100000000000"
    using p vm_example_entries(4) [of 0] by (simp add: reserved_def)
qed

lemma demand_page_in_holds:
  assumes "vm_inv s lvl F" "lvl (page_down cr3) = Some 3"
  shows "let (r, s') = demand_page_in cr3 va s in
    \<exists>lvl' F'. vm_inv s' lvl' F' \<and> lvl \<subseteq>\<^sub>m lvl' \<and> F' \<subseteq> F \<and> same_rest s s' \<and>
      (\<forall>a. page_down a \<notin> dom lvl \<union> F \<longrightarrow> mem s' a = mem s a) \<and>
      (\<forall>cr v. lvl (page_down cr) = Some 3 \<longrightarrow> translate (mem s') cr v = translate (mem s) cr v) \<and>
      (\<forall>cr v. lvl (page_down cr) = Some 3 \<longrightarrow> (r = -1 \<or> \<not> concerns cr3 va cr v) \<longrightarrow>
         reserved (mem s') cr v = reserved (mem s) cr v) \<and>
      (if r = 0 then \<not> reserved (mem s) cr3 va \<and> translate (mem s) cr3 va = None \<and> reserved (mem s') cr3 va
       else r = -1 \<and> (reserved (mem s) cr3 va \<or> translate (mem s) cr3 va \<noteq> None \<or> F' = {} \<or>
         huge_at (mem s') 3 (page_down cr3) va))"
proof -
  obtain r s' where d: "demand_page_in cr3 va s = (r, s')" by fastforce
  from assms d show ?thesis
  proof (cases rule: demand_page_in_cases)
    case (1 lvl' F' s1)
    show ?thesis
      unfolding d Let_def prod.case 1(3,4)
      by (intro exI [of _ lvl'] exI [of _ F'])
        (use growsD [OF 1(1)] grows_translate [OF 1(1)] 1(5) in simp)
  next
    case (2 lvl' F' s1 p)
    let ?v = "put_addr 0 (put_bit 0 False (put_bit 9 True (mem s1 p)))"
    note inv1 = growsD(1) [OF 2(1)]
    have root: "lvl' (page_down cr) = Some 3" if "lvl (page_down cr) = Some 3" for cr
      by (rule map_le_Some [OF growsD(2) [OF 2(1)] that])
    have e: "p1_entry ((mem s1)(p := ?v)) cr v = p1_entry (mem s1) cr v" if "lvl (page_down cr) = Some 3" for cr v
      by (rule p1_entry_upd [OF inv1 2(2,4) root [OF that]])
    have t: "translate ((mem s1)(p := ?v)) cr v = translate (mem s1) cr v" if "lvl (page_down cr) = Some 3" for cr v
      using 2(5) by (auto simp: translate_def e [OF that] split: option.splits)
    obtain t0 where t0: "lvl' t0 = Some 0" "p = entry_at t0 (va_index (Suc 0) va)" "page_aligned t0"
      by (rule p1_entry_leaf [OF inv1 2(2,4)])
    have "page_down p \<in> dom lvl \<union> F" using t0 unat_va_index growsD(4) [OF 2(1)] by auto
    then have m: "mem s' a = mem s a" if "page_down a \<notin> dom lvl \<union> F" for a
      using that growsD(6) [OF 2(1) that] 2(7) by auto
    have old: "\<not> reserved (mem s1) cr3 va" "translate (mem s1) cr3 va = None" "reserved (mem s') cr3 va"
      using 2(4-7) e [OF assms(2)] by (simp_all add: reserved_def translate_def)
    have "vm_inv s' lvl' F'" unfolding 2(7) by (rule vm_inv_leaf_upd [OF inv1 2(2,4)]) simp
    then show ?thesis
      unfolding d Let_def prod.case 2(3)
      by (intro exI [of _ lvl'] exI [of _ F'])
        (use growsD(2,3,5) [OF 2(1)] grows_translate [OF 2(1)] m old leaf_upd_others(2) [OF inv1 2(2) root 2(4)] t
          same_rest_mem assms(2) 2(7) in simp)
  qed
qed

text \<open>
  C8: Reserving a page. Whatever the outcome, the page tables stay well formed, no translation of
  any address space changes and no frame outside tables and free frames is written. Success (0)
  means that the page was neither mapped nor reserved and is reserved now; every page the entry does
  not concern keeps its reservation. Failure (-1) reserves nothing and happens only when the page was
  reserved or mapped, the frames for tables ran out, or a huge page covers the address.
\<close>

theorem demand_page_in_correct:
  assumes "vm_inv s lvl F" "lvl (page_down cr3) = Some 3"
  shows "let (r, s') = demand_page_in cr3 va s in
    \<exists>lvl' F'. vm_inv s' lvl' F' \<and> lvl \<subseteq>\<^sub>m lvl' \<and> F' \<subseteq> F \<and> same_rest s s' \<and>
      (\<forall>a. page_down a \<notin> dom lvl \<union> F \<longrightarrow> mem s' a = mem s a) \<and>
      (\<forall>cr v. lvl (page_down cr) = Some 3 \<longrightarrow> translate (mem s') cr v = translate (mem s) cr v) \<and>
      (\<forall>cr v. lvl (page_down cr) = Some 3 \<longrightarrow> (r = -1 \<or> \<not> concerns cr3 va cr v) \<longrightarrow>
         reserved (mem s') cr v = reserved (mem s) cr v) \<and>
      (if r = 0 then \<not> reserved (mem s) cr3 va \<and> translate (mem s) cr3 va = None \<and> reserved (mem s') cr3 va
       else r = -1 \<and> (reserved (mem s) cr3 va \<or> translate (mem s) cr3 va \<noteq> None \<or> F' = {} \<or>
         huge_at (mem s') 3 (page_down cr3) va))"
  by (rule demand_page_in_holds [OF assms])

theorem demand_page_in_correct_witness:
  "translate (mem (snd (demand_page_in 0x115000 0x100000001000 vm_example))) 0x115000 0x100000001000 =
     translate vm_example_mem 0x115000 0x100000001000 \<and>
   fst (demand_page_in 0x115000 0x100000000000 vm_example) = -1"
  using demand_page_in_correct [OF vm_example_inv(1,2), of "0x100000001000"]
    demand_page_in_correct [OF vm_example_inv(1,2), of "0x100000000000"] vm_example_inv(2) vm_example_page(2)
  by (fastforce simp: Let_def split: if_splits)

text \<open>
  C9: A page fault. When the faulting page is reserved and a frame is free, the handler takes one
  frame off the free set, and the faulting address then translates into that frame, which holds
  only zeroes; pages the entry does not concern keep their translation and reservation, and memory
  outside tables and free frames is not written. In every other case the processor is stopped.
\<close>

theorem page_fault_correct:
  assumes "vm_inv s lvl F" "lvl (page_down (CR3 s)) = Some 3"
  shows "let s' = ISR14_PAGE_FAULT va s in
    if reserved (mem s) (CR3 s) va \<and> F \<noteq> {}
    then \<exists>f \<in> F. vm_inv s' lvl (F - {f}) \<and> same_rest s s' \<and>
      translate (mem s') (CR3 s) va = Some (f + (va AND (PAGE_SIZE - 1))) \<and>
      (\<forall>a. page_down a = f \<longrightarrow> mem s' a = 0) \<and>
      (\<forall>a. page_down a \<notin> dom lvl \<union> F \<longrightarrow> mem s' a = mem s a) \<and>
      (\<forall>cr v. lvl (page_down cr) = Some 3 \<longrightarrow> \<not> concerns (CR3 s) va cr v \<longrightarrow>
         translate (mem s') cr v = translate (mem s) cr v \<and> reserved (mem s') cr v = reserved (mem s) cr v)
    else s' = HLT (CLI s)"
proof (cases "p1_entry (mem s) (CR3 s) va")
  case None
  then show ?thesis
    by (simp add: ISR14_PAGE_FAULT_def travel_pagetable_def MMU_current_p4_def travel_walk_mode reserved_def)
next
  case (Some p)
  note same = make_present_same [OF assms Some]
  have pI: "p \<noteq> INVALID_FRAME_ADDR" using walk_not_INVALID Some by (auto simp: p1_entry_def)
  have isr: "ISR14_PAGE_FAULT va s =
      (if pte_flag (mem s p) \<and> \<not> pte_present (mem s p)
       then (case make_page_present p va s of (r, s) \<Rightarrow> if r < 0 then HLT (CLI s) else s) else HLT (CLI s))"
    using Some pI
    by (simp add: ISR14_PAGE_FAULT_def travel_pagetable_def MMU_current_p4_def travel_walk_mode Let_def)
  show ?thesis
  proof (cases "reserved (mem s) (CR3 s) va \<and> F \<noteq> {}")
    case False
    then show ?thesis using isr same Some by (auto simp: reserved_def)
  next
    case True
    then have e: "\<not> pte_present (mem s p)" "pte_flag (mem s p)" "F \<noteq> {}" using Some by (auto simp: reserved_def)
    obtain f s' where mk: "make_page_present p va s = (0, s')" "f \<in> F" "vm_inv s' lvl (F - {f})" "backed lvl p f s s'"
      by (rule make_present_new [OF assms Some e])
    have w: "p1_entry (mem s') cr v = p1_entry (mem s) cr v" if "lvl (page_down cr) = Some 3" for cr v
      by (rule backedD(8) [OF mk(4) that])
    obtain t0 where t0: "lvl t0 = Some 0" "p = entry_at t0 (va_index (Suc 0) va)" "page_aligned t0"
      by (rule p1_entry_leaf [OF assms Some])
    have pd: "page_down p \<in> dom lvl" using t0 unat_va_index by auto
    have m: "mem s' a = mem s a" if "page_down a \<notin> F" "a \<noteq> p" for a
      by (rule backedD(7) [OF mk(4)]) (use that mk(2) in auto)
    have q: "mem s' q = mem s q"
      if r: "lvl (page_down cr) = Some 3" and nc: "\<not> concerns (CR3 s) va cr v" and q: "p1_entry (mem s) cr v = Some q"
      for cr v q
    proof (rule m)
      show "q \<noteq> p" using p1_entry_inj [OF assms r Some] nc q by blast
      obtain t where "lvl t = Some 0" "q = entry_at t (va_index (Suc 0) v)" "page_aligned t"
        by (rule p1_entry_leaf [OF assms(1) r q])
      then show "page_down q \<notin> F" using vm_invD(3) [OF assms(1)] unat_va_index by auto
    qed
    have "translate (mem s') cr v = translate (mem s) cr v \<and> reserved (mem s') cr v = reserved (mem s) cr v"
      if "lvl (page_down cr) = Some 3" "\<not> concerns (CR3 s) va cr v" for cr v
      using q [OF that] w [OF that(1)] by (auto simp: translate_def reserved_def split: option.splits)
    moreover have "translate (mem s') (CR3 s) va = Some (f + (va AND (PAGE_SIZE - 1)))"
      using backedD(3,4) [OF mk(4)] w [OF assms(2)] Some by (simp add: translate_def)
    moreover have "ISR14_PAGE_FAULT va s = s'" using isr e mk(1) by simp
    moreover have "same_rest s s'" "\<forall>a. page_down a = f \<longrightarrow> mem s' a = 0" using backedD [OF mk(4)] by simp_all
    moreover have "\<forall>a. page_down a \<notin> dom lvl \<union> F \<longrightarrow> mem s' a = mem s a" using m pd by blast
    ultimately show ?thesis
      using mk(2,3) unfolding Let_def if_P [OF True] by (intro bexI [of _ f] conjI) simp_all
  qed
qed

theorem page_fault_correct_witness:
  "\<exists>f \<in> vm_example_free. translate (mem (ISR14_PAGE_FAULT 0x100000000010 vm_example)) 0x115000 0x100000000010 =
     Some (f + 0x10)"
proof -
  have i: "va_index 4 0x100000000010 = va_index 4 0x100000000000" "va_index 3 0x100000000010 = va_index 3 0x100000000000"
    "va_index 2 0x100000000010 = va_index 2 0x100000000000"
    "va_index (Suc 0) 0x100000000010 = va_index (Suc 0) 0x100000000000"
    by (simp_all add: va_index_def)
  have "reserved vm_example_mem 0x115000 0x100000000010"
    using vm_example_page(2) by (simp only: reserved_def p1_entry_levels i)
  moreover have "vm_example_free \<noteq> {}" using vm_example_frames(5) by blast
  ultimately show ?thesis
    using page_fault_correct [OF vm_example_inv(1,3), of "0x100000000010"] by (auto simp: Let_def)
qed

end
