(* ===== verification/User_Memory.thy ===== *)
theory User_Memory
  imports Address_Space
begin

text \<open>
  What programs see of an address space: each address has a content, the byte its frame holds, or
  zero when its page is reserved and not yet backed. Backing a page on demand is invisible in this
  view, and \<open>write_user_range_as\<close> is an update of it.
\<close>

section \<open>The content of an address\<close>

definition content :: "phys \<Rightarrow> u64 \<Rightarrow> u64 \<Rightarrow> u8 option" where
  "content m cr3 va =
     (case translate m cr3 va of
        Some pa \<Rightarrow> Some (get_byte m pa)
      | None \<Rightarrow> if reserved m cr3 va then Some 0 else None)"

definition same_loc :: "u64 \<Rightarrow> u64 \<Rightarrow> u64 \<Rightarrow> u64 \<Rightarrow> bool" where
  "same_loc cr3 va cr va' \<longleftrightarrow>
     concerns cr3 va cr va' \<and> va AND (PAGE_SIZE - 1) = va' AND (PAGE_SIZE - 1)"

lemma content_entry:
  "p1_entry m cr3 va = Some p \<Longrightarrow>
   content m cr3 va =
     (if pte_present (m p) then Some (get_byte m (pte_frame (m p) + (va AND (PAGE_SIZE - 1))))
      else if pte_flag (m p) then Some 0 else None)"
  "p1_entry m cr3 va = None \<Longrightarrow> content m cr3 va = None"
  by (simp_all add: content_def translate_def reserved_def)

lemma p1_entry_same_page:
  assumes "same_page va v"
  shows "p1_entry m cr va = p1_entry m cr v"
proof -
  have i: "va_index 4 va = va_index 4 v" "va_index 3 va = va_index 3 v" "va_index 2 va = va_index 2 v"
    "va_index (Suc 0) va = va_index (Suc 0) v"
    using assms by (simp_all add: same_page_def)
  show ?thesis unfolding p1_entry_levels i ..
qed

section \<open>Offsets within a page\<close>

lemma offset_less: "(va AND ((4096::u64) - 1)) < 4096"
  using page_offset_less [of va] by (simp only: unat_less_iff unat_numeral) simp

lemma page_down_offset: "page_aligned f \<Longrightarrow> page_down (f + (va AND ((4096::u64) - 1))) = f"
  using offset_less [of va] by (simp add: page_down_eq_iff)

lemma page_down_qword [simp]: "page_down (a AND NOT 7) = page_down a" "page_down (a AND -8) = page_down a"
proof -
  have o: "(4096::u64) - 1 = mask 12" by (simp add: mask_eq_exp_minus_1)
  show "page_down (a AND NOT 7) = page_down a"
    unfolding page_down_def seven_mask o by (intro bit_word_eqI) (auto simp: bit_simps)
  then show "page_down (a AND -8) = page_down a" by simp
qed

lemma page_split: "unat va = 4096 * (unat va div 4096) + unat (va AND ((4096::u64) - 1))"
proof -
  have "va AND (4096 - 1) = take_bit 12 va" by (simp add: take_bit_eq_mask mask_eq_exp_minus_1)
  then show ?thesis by (simp add: unat_take_bit_mod)
qed

lemma page_plus:
  assumes k: "unat (va AND ((4096::u64) - 1)) + k < 4096"
  shows "unat (va + of_nat k) = unat va + k" "va_index n (va + of_nat k) = va_index n va"
    "unat ((va + of_nat k) AND ((4096::u64) - 1)) = unat (va AND ((4096::u64) - 1)) + k"
    "(va + of_nat k) AND ((4096::u64) - 1) = (va AND ((4096::u64) - 1)) + of_nat k"
proof -
  let ?q = "unat va div 4096"
  have q: "?q < 4503599627370496" using unat64_less [of va] by simp
  have u: "unat (of_nat k :: u64) = k" using k by (simp add: unsigned_of_nat take_bit_nat_eq_self)
  have sum: "unat va + k < 18446744073709551616" using page_split [of va] k q by linarith
  then show s: "unat (va + of_nat k) = unat va + k" by (simp add: unat_word_ariths u)
  have d: "(unat va + k) div 4096 = ?q"
  proof -
    have "unat va + k = (unat (va AND (4096 - 1)) + k) + 4096 * ?q" using page_split [of va] by linarith
    then show ?thesis using k by (simp only: div_mult_self2)
  qed
  show "unat ((va + of_nat k) AND ((4096::u64) - 1)) = unat (va AND ((4096::u64) - 1)) + k"
    using page_split [of "va + of_nat k"] page_split [of va] unfolding s d by linarith
  then show "(va + of_nat k) AND ((4096::u64) - 1) = (va AND ((4096::u64) - 1)) + of_nat k"
    using k u by (simp add: word_unat_eq_iff unat_word_ariths)
  have "drop_bit 12 (va + of_nat k) = drop_bit 12 va"
    using d s by (simp add: word_unat_eq_iff drop_bit_eq_div unat_div)
  then have "drop_bit m (drop_bit 12 (va + of_nat k)) = drop_bit m (drop_bit 12 va)" for m by simp
  then show "va_index n (va + of_nat k) = va_index n va"
    by (simp add: va_index_def add.commute [of 12])
qed


lemma nat_mod_add_cancel: "(d + a) mod n = (d + b) mod n \<Longrightarrow> a < n \<Longrightarrow> b < n \<Longrightarrow> a = b" for a b d n :: nat
proof -
  assume a: "(d + a) mod n = (d + b) mod n" and l: "a < n" "b < n"
  have "(int d + int a) mod int n = (int d + int b) mod int n" using a by (metis of_nat_add zmod_int)
  then have "int n dvd int a - int b" by (simp add: mod_eq_dvd_iff)
  then have "int a mod int n = int b mod int n" by (simp only: mod_eq_dvd_iff)
  then show ?thesis using l by simp
qed

lemma same_loc_inj:
  assumes "same_loc cr (dst + i) cr' (dst + j)" "unat i < 2 ^ 48" "unat j < 2 ^ 48"
  shows "i = j"
proof -
  have idx: "va_index n (dst + i) = va_index n (dst + j)" if "n \<in> {1..4}" for n
    using assms(1) that by (simp add: same_loc_def concerns_def same_page_def)
  have b: "bit (va_index n v) k \<longleftrightarrow> k < 9 \<and> bit v (12 + 9 * (n - 1) + k)" for n v k
  proof -
    have "(0x1FF::u64) = mask 9" by (simp add: mask_eq_exp_minus_1)
    then have "va_index n v = drop_bit (12 + 9 * (n - 1)) v AND mask 9" by (simp only: va_index_def)
    then show ?thesis by (auto simp: bit_simps)
  qed
  have o: "(4096::u64) - 1 = mask 12" by (simp add: mask_eq_exp_minus_1)
  have "bit (dst + i) k = bit (dst + j) k" if "k < 48" for k
  proof (cases "k < 12")
    case True
    have "bit ((dst + i) AND (4096 - 1)) k = bit ((dst + j) AND (4096 - 1)) k"
      using assms(1) by (simp add: same_loc_def)
    then show ?thesis using True unfolding o by (auto simp: bit_simps)
  next
    case False
    let ?n = "Suc ((k - 12) div 9)"
    have n: "?n \<in> {1..4}" and k: "k = 12 + 9 * (?n - 1) + (k - 12) mod 9" using False that by auto
    show ?thesis
      using b [of ?n "dst + i" "(k - 12) mod 9"] b [of ?n "dst + j" "(k - 12) mod 9"] idx [OF n] k by simp
  qed
  then have "take_bit 48 (dst + i) = take_bit 48 (dst + j)"
    by (intro bit_word_eqI) (auto simp: bit_simps)
  then have "unat (take_bit 48 (dst + i)) = unat (take_bit 48 (dst + j))" by simp
  then have "(unat dst + unat i) mod 2 ^ 48 = (unat dst + unat j) mod 2 ^ 48"
    by (simp add: unat_take_bit_mod unat_word_ariths mod_mod_cancel)
  then show ?thesis using assms(2,3) nat_mod_add_cancel [of "unat dst" "unat i" "2 ^ 48" "unat j"]
    by (simp add: word_unat_eq_iff)
qed

section \<open>Backing a page is invisible\<close>

lemma leaf_frame:
  assumes "vm_inv s lvl F" "lvl (page_down cr) = Some 3" "p1_entry (mem s) cr v = Some q"
  shows "page_down q \<in> dom lvl" "pte_present (mem s q) \<Longrightarrow> pte_frame (mem s q) \<notin> dom lvl \<union> F"
proof -
  obtain t where t: "lvl t = Some 0" "q = entry_at t (va_index (Suc 0) v)" "page_aligned t"
    by (rule p1_entry_leaf [OF assms])
  then show "page_down q \<in> dom lvl" using unat_va_index by auto
  show "pte_frame (mem s q) \<notin> dom lvl \<union> F" if "pte_present (mem s q)"
    using tables_leaf [OF vm_invD(4) [OF assms(1)] t(1) unat_va_index] that t(2) by simp
qed

lemma get_byte_cong: "m (a AND NOT 7) = m' (a AND NOT 7) \<Longrightarrow> get_byte m a = get_byte m' a"
  by (simp add: get_byte_def)

lemma backed_content:
  assumes inv: "vm_inv s lvl F" and r: "lvl (page_down cr3) = Some 3" and p: "p1_entry (mem s) cr3 va = Some p"
    and e: "\<not> pte_present (mem s p)" "pte_flag (mem s p)" and b: "backed lvl p f s s'" and f: "f \<in> F"
    and rc: "lvl (page_down cr) = Some 3"
  shows "content (mem s') cr v = content (mem s) cr v"
proof (cases "p1_entry (mem s) cr v")
  case None
  then show ?thesis using backedD(8) [OF b rc] by (simp add: content_entry)
next
  case (Some q)
  have w: "p1_entry (mem s') cr v = Some q" using backedD(8) [OF b rc, of v] Some by simp
  note [simp] = content_entry(1) [OF w] content_entry(1) [OF Some]
  have off: "page_down (pte_frame x + (v AND (4096 - 1))) = pte_frame x" for x by (rule page_down_offset) simp
  show ?thesis
  proof (cases "q = p")
    case True
    have "get_byte (mem s') (f + (v AND (4096 - 1))) = 0"
      using backedD(6) [OF b, of "(f + (v AND (4096 - 1))) AND NOT 7"] off [of "mem s' p"] backedD(4) [OF b]
      by (simp add: get_byte_def)
    then show ?thesis using True e backedD(3,4) [OF b] by simp
  next
    case False
    have "page_down q \<noteq> f" using leaf_frame(1) [OF inv rc Some] f vm_invD(3) [OF inv] by auto
    then have q: "mem s' q = mem s q" using backedD(7) [OF b _ False] by simp
    have "get_byte (mem s') (pte_frame (mem s q) + (v AND (4096 - 1))) =
        get_byte (mem s) (pte_frame (mem s q) + (v AND (4096 - 1)))" if "pte_present (mem s q)"
    proof (rule get_byte_cong, rule backedD(7) [OF b])
      have fr: "pte_frame (mem s q) \<notin> dom lvl \<union> F" by (rule leaf_frame(2) [OF inv rc Some that])
      then show "page_down ((pte_frame (mem s q) + (v AND (4096 - 1))) AND NOT 7) \<noteq> f" using off f by auto
      show "(pte_frame (mem s q) + (v AND (4096 - 1))) AND NOT 7 \<noteq> p"
        using off [of "mem s q"] page_down_qword leaf_frame(1) [OF inv r p] fr by (metis UnI1)
    qed
    then show ?thesis using q by simp
  qed
qed


lemma make_present_content:
  assumes inv: "vm_inv s lvl F" and r: "lvl (page_down cr3) = Some 3" and p: "p1_entry (mem s) cr3 va = Some p"
    and mk: "make_page_present p va' s = (rv, s')"
  obtains (fail) "rv = -1" "s' = s" "content (mem s) cr3 va = None \<or> F = {}"
  | (ok) F' where "rv = 0" "vm_inv s' lvl F'" "F' \<subseteq> F" "same_rest s s'"
      "p1_entry (mem s') cr3 va = Some p" "pte_present (mem s' p)"
      "\<And>cr v. lvl (page_down cr) = Some 3 \<Longrightarrow> content (mem s') cr v = content (mem s) cr v"
proof (cases "pte_present (mem s p)")
  case True
  then show ?thesis using ok [of F] make_present_same(1) [OF inv r p True, of va'] mk inv p by simp
next
  case False
  show ?thesis
  proof (cases "pte_flag (mem s p) \<and> F \<noteq> {}")
    case True
    then obtain f where f: "rv = 0" "f \<in> F" "vm_inv s' lvl (F - {f})" "backed lvl p f s s'"
      using make_present_new [OF inv r p False, of va'] mk by (metis prod.inject)
    show ?thesis
      using ok [OF f(1,3)] backedD(1,3) [OF f(4)] backedD(8) [OF f(4) r] p
        backed_content [OF inv r p False _ f(4,2)] True by auto
  next
    case nr: False
    have "content (mem s) cr3 va = None \<or> F = {}" using nr False content_entry(1) [OF p] by auto
    moreover have "rv = -1" "s' = s" using make_present_same(2) [OF inv r p False, of va'] nr mk by auto
    ultimately show ?thesis using fail by blast
  qed
qed

section \<open>Writing a range\<close>

lemma translated_page:
  assumes inv: "vm_inv s lvl F" and r: "lvl (page_down cr3) = Some 3" "lvl (page_down cr) = Some 3"
    and p: "p1_entry (mem s) cr3 va = Some p" "pte_present (mem s p)"
    and q: "p1_entry (mem s) cr v = Some q" "pte_present (mem s q)"
    and eq: "pte_frame (mem s p) = pte_frame (mem s q)"
  shows "concerns cr3 va cr v"
proof -
  obtain t where t: "lvl t = Some 0" "p = entry_at t (va_index (Suc 0) va)" by (rule p1_entry_leaf [OF inv r(1) p(1)])
  obtain u where u: "lvl u = Some 0" "q = entry_at u (va_index (Suc 0) v)" by (rule p1_entry_leaf [OF inv r(2) q(1)])
  have "p = q"
    using tables_leaf_unique [OF vm_invD(4) [OF inv] t(1) u(1) unat_va_index unat_va_index] p(2) q(2) eq t(2) u(2)
    by metis
  then show ?thesis using p1_entry_inj [OF inv r p(1)] q(1) by simp
qed

lemma page_down_plus:
  assumes "page_aligned f" "unat x + k < 4096"
  shows "page_down (f + x + of_nat k) = f"
proof -
  have "unat (x + of_nat k) = unat x + k"
    using assms(2) by (simp add: unat_word_ariths unsigned_of_nat take_bit_nat_eq_self)
  then have "x + of_nat k < 4096" using assms(2) by (simp add: unat_less_iff)
  then show ?thesis using assms(1) by (simp add: page_down_eq_iff add.assoc)
qed

lemma chunk_other:
  assumes "page_aligned f" "unat x + c \<le> 4096" "page_down a \<noteq> f"
  shows "put_bytes (f + x) c g m a = m a"
proof (rule put_bytes_other)
  fix i assume "i < c"
  then have "page_down (f + x + of_nat i) = f" using assms(1,2) by (intro page_down_plus) auto
  then show "a \<noteq> (f + x + of_nat i) AND NOT 7" using assms(3) page_down_qword(1) by metis
qed

lemma write_chunk:
  assumes inv: "vm_inv s lvl F" and r: "lvl (page_down cr3) = Some 3"
    and p: "p1_entry (mem s) cr3 va = Some p" "pte_present (mem s p)"
    and c: "unat (va AND (PAGE_SIZE - 1)) + c \<le> 4096"
    and m: "m = put_bytes (pte_frame (mem s p) + (va AND (PAGE_SIZE - 1))) c g (mem s)"
  shows "vm_inv (s\<lparr>mem := m\<rparr>) lvl F"
    "k < c \<Longrightarrow> content m cr3 (va + of_nat k) = Some (g k)"
    "lvl (page_down cr) = Some 3 \<Longrightarrow> \<forall>k < c. \<not> same_loc cr3 (va + of_nat k) cr v \<Longrightarrow> content m cr v = content (mem s) cr v"
proof -
  let ?f = "pte_frame (mem s p)" and ?x = "va AND (PAGE_SIZE - 1)"
  have f: "?f \<notin> dom lvl \<union> F" by (rule leaf_frame(2) [OF inv r p])
  have other: "m a = mem s a" if "page_down a \<noteq> ?f" for a
    unfolding m by (rule chunk_other [OF _ c that]) simp
  have tabs: "m a = mem s a" if "page_down a \<in> dom lvl \<union> F" for a using other that f by metis
  show "vm_inv (s\<lparr>mem := m\<rparr>) lvl F" by (rule vm_inv_data(1) [OF inv tabs])
  have w: "p1_entry m cr v = p1_entry (mem s) cr v" if "lvl (page_down cr) = Some 3" for cr v
    by (rule vm_inv_data(2) [OF inv tabs that])
  have mq: "m q = mem s q" if "lvl (page_down cr) = Some 3" "p1_entry (mem s) cr v = Some q" for cr v q
    using tabs leaf_frame(1) [OF inv that] by blast
  have byte: "get_byte m a = (if unat (a - (?f + ?x)) < c then g (unat (a - (?f + ?x))) else get_byte (mem s) a)" for a
    unfolding m by (rule get_put_bytes) (use c in simp)
  have u: "unat (of_nat k :: u64) = k" if "k < c" for k
    using c that by (simp add: unsigned_of_nat take_bit_nat_eq_self)
  show "content m cr3 (va + of_nat k) = Some (g k)" if k: "k < c"
  proof -
    have off: "unat ?x + k < 4096" using c k by simp
    have "p1_entry m cr3 (va + of_nat k) = Some p"
      using w [OF r, of va] p(1) page_plus(2) [OF off] p1_entry_same_page [of "va + of_nat k" va]
      by (simp add: same_page_def)
    then show ?thesis
      using content_entry(1) [of m cr3 "va + of_nat k" p] mq [OF r p(1)] p(2) page_plus(4) [OF off] byte k u [OF k]
      by (simp add: add.assoc)
  qed
  show "content m cr v = content (mem s) cr v"
    if rc: "lvl (page_down cr) = Some 3" and nl: "\<forall>k < c. \<not> same_loc cr3 (va + of_nat k) cr v"
  proof (cases "p1_entry (mem s) cr v")
    case None
    then show ?thesis using w [OF rc, of v] by (simp add: content_entry)
  next
    case (Some q)
    let ?a = "pte_frame (mem s q) + (v AND (PAGE_SIZE - 1))"
    have "get_byte m ?a = get_byte (mem s) ?a" if pq: "pte_present (mem s q)"
    proof (rule ccontr)
      assume "get_byte m ?a \<noteq> get_byte (mem s) ?a"
      then have lt: "unat (?a - (?f + ?x)) < c" using byte [of ?a] by (simp split: if_splits)
      define k where "k = unat (?a - (?f + ?x))"
      have k: "k < c" using lt by (simp only: k_def)
      have a: "?a = ?f + ?x + of_nat k" by (simp add: k_def)
      have off: "unat ?x + k < 4096" using c k by simp
      have fr: "pte_frame (mem s q) = ?f"
        using page_down_offset [of "pte_frame (mem s q)" v] page_down_plus [OF _ off, of ?f] a by simp
      then have "concerns cr3 va cr v" using translated_page [OF inv r rc p Some pq] by simp
      moreover have "v AND (PAGE_SIZE - 1) = ?x + of_nat k" using a fr by (simp add: add.assoc)
      ultimately have "same_loc cr3 (va + of_nat k) cr v"
        using page_plus(2,4) [OF off] by (simp add: same_loc_def concerns_def same_page_def va_index_names)
      then show False using nl k by blast
    qed
    then show ?thesis
      using content_entry(1) [OF Some] content_entry(1) [of m cr v q] w [OF rc, of v] Some mq [OF rc Some] by simp
  qed
qed


text \<open>One round: the page is made present and its part of the range is written.\<close>

lemma write_round:
  assumes inv: "vm_inv s lvl F" and r: "lvl (page_down cr3) = Some 3"
    and c: "unat (va AND (PAGE_SIZE - 1)) + c \<le> 4096" "0 < c"
    and tr: "travel_pagetable_in cr3 va False s = (p, s0)" and mk: "make_page_present p va s0 = (rv, s1)"
  obtains (fail) "rv = -1" "s1 = s" "content (mem s) cr3 va = None \<or> F = {}"
  | (ok) F' where "rv = 0" "F' \<subseteq> F" "same_rest s s1"
      "\<And>m. m = put_bytes (pfn_to_phys (pte_addr (mem s1 p)) + (va AND (PAGE_SIZE - 1))) c g (mem s1) \<Longrightarrow>
         vm_inv (s1\<lparr>mem := m\<rparr>) lvl F' \<and> (\<forall>k < c. content m cr3 (va + of_nat k) = Some (g k)) \<and>
         (\<forall>cr v. lvl (page_down cr) = Some 3 \<longrightarrow> (\<forall>k < c. \<not> same_loc cr3 (va + of_nat k) cr v) \<longrightarrow>
            content m cr v = content (mem s) cr v)"
proof (cases "p1_entry (mem s) cr3 va")
  case None
  then have "rv = -1" "s1 = s" using tr mk by (simp_all add: travel_walk_mode make_page_present_def)
  then show ?thesis using fail content_entry(2) [OF None] by simp
next
  case (Some q)
  then have q: "q = p" "s0 = s" using tr by (simp_all add: travel_walk_mode)
  from inv r Some mk [unfolded q(2), folded q(1)] show ?thesis
  proof (cases rule: make_present_content)
    case fail
    then show ?thesis using that(1) by blast
  next
    case (ok F')
    show ?thesis
      by (rule that(2) [OF ok(1,3,4)])
        (use write_chunk [OF ok(2) r ok(5,6) c(1)] ok(7) q(1) in auto)
  qed
qed

lemma write_user_loop_round:
  assumes lt: "don < len" and tr: "travel_pagetable_in cr3 (dst + don) False s = (p, s0)"
    and mk: "make_page_present p (dst + don) s0 = (rv, s1)" and n: "n = range_chunk (dst + don) (len - don)"
    and m: "m = put_bytes (pfn_to_phys (pte_addr (mem s1 p)) + ((dst + don) AND (PAGE_SIZE - 1))) (unat n)
      (\<lambda>k. if zero then 0 else bytes (don + of_nat k)) (mem s1)"
  shows "write_user_loop cr3 dst bytes len zero don s =
    (if rv < 0 then (-1, s1) else write_user_loop cr3 dst bytes len zero (don + n) (s1\<lparr>mem := m\<rparr>))"
  unfolding m n by (subst write_user_loop.simps) (use lt tr mk in \<open>simp add: Let_def\<close>)

lemma chunk_range:
  assumes n: "n = range_chunk va (len - don)" and lt: "don < len"
  shows "don \<le> i \<Longrightarrow> i < don + n \<Longrightarrow> \<exists>k < unat n. i = don + of_nat k"
    "unat (va AND (PAGE_SIZE - 1)) + unat n \<le> 4096" "0 < unat n" "unat (don + n) = unat don + unat n"
    "unat don + unat n \<le> unat len"
proof -
  note pr = range_chunk_progress [OF lt, of va, folded n]
  show "0 < unat n" "unat (don + n) = unat don + unat n" using pr by simp_all
  show "unat don + unat n \<le> unat len" using pr(3) lt by (simp add: unat_less_iff)
  show "unat (va AND (PAGE_SIZE - 1)) + unat n \<le> 4096"
    using page_offset_less [of va] unat_range_chunk [of va "len - don"] n by simp
  show "\<exists>k < unat n. i = don + of_nat k" if "don \<le> i" "i < don + n"
  proof (intro exI conjI)
    have "unat (i - don) = unat i - unat don" using that(1) by (simp add: unat_sub)
    then show "unat (i - don) < unat n" using that pr(1) by (simp add: unat_less_iff unat_le_iff)
    show "i = don + of_nat (unat (i - don))" by simp
  qed
qed

definition outside_kept :: "levels \<Rightarrow> u64 \<Rightarrow> u64 \<Rightarrow> u64 \<Rightarrow> u64 \<Rightarrow> phys \<Rightarrow> phys \<Rightarrow> bool" where
  "outside_kept lvl cr3 dst don len m m' \<longleftrightarrow>
     (\<forall>cr v. lvl (page_down cr) = Some 3 \<longrightarrow> (\<forall>i. don \<le> i \<longrightarrow> i < len \<longrightarrow> \<not> same_loc cr3 (dst + i) cr v) \<longrightarrow>
        content m' cr v = content m cr v)"

definition write_result ::
    "u64 \<Rightarrow> u64 \<Rightarrow> u64 \<Rightarrow> u64 \<Rightarrow> (u64 \<Rightarrow> u8) \<Rightarrow> int \<Rightarrow> u64 set \<Rightarrow> phys \<Rightarrow> phys \<Rightarrow> bool" where
  "write_result cr3 dst don len g rv F m m' \<longleftrightarrow>
     (if rv = 0 then \<forall>i. don \<le> i \<longrightarrow> i < len \<longrightarrow> content m' cr3 (dst + i) = Some (g i)
      else rv = -1 \<and> (F = {} \<or> (\<exists>i. don \<le> i \<and> i < len \<and> content m cr3 (dst + i) = None)))"

lemma ranges_join:
  assumes n: "n = range_chunk (dst + don) (len - don)" and lt: "don < len" and len: "unat len \<le> 2 ^ 48"
    and r: "lvl (page_down cr3) = Some 3"
    and new: "\<And>k. k < unat n \<Longrightarrow> content m cr3 (dst + don + of_nat k) = Some (g (don + of_nat k))"
    and old: "\<And>cr v. lvl (page_down cr) = Some 3 \<Longrightarrow> (\<forall>k < unat n. \<not> same_loc cr3 (dst + don + of_nat k) cr v) \<Longrightarrow>
      content m cr v = content m0 cr v"
    and rest: "outside_kept lvl cr3 dst (don + n) len m m'"
  shows "outside_kept lvl cr3 dst don len m0 m'"
    "\<forall>i. don + n \<le> i \<longrightarrow> i < len \<longrightarrow> content m' cr3 (dst + i) = Some (g i) \<Longrightarrow>
     don \<le> i \<Longrightarrow> i < len \<Longrightarrow> content m' cr3 (dst + i) = Some (g i)"
    "don + n \<le> i \<Longrightarrow> i < len \<Longrightarrow> content m cr3 (dst + i) = content m0 cr3 (dst + i)" "don \<le> don + n"
proof -
  note ch = chunk_range [OF n lt]
  show le: "don \<le> don + n" using ch(4) by (simp add: unat_le_iff)
  have in_range: "don \<le> don + of_nat k" "don + of_nat k < len" "don + of_nat k < don + n" if "k < unat n" for k
  proof -
    have "unat (don + of_nat k) = unat don + k"
      using that ch(5) unat64_less [of len] unat64_less [of n]
      by (simp add: unat_word_ariths unsigned_of_nat take_bit_nat_eq_self)
    then show "don \<le> don + of_nat k" "don + of_nat k < len" "don + of_nat k < don + n"
      using that ch(4,5) by (simp_all add: unat_le_iff unat_less_iff)
  qed
  have far: "\<not> same_loc cr3 (dst + i) cr3 (dst + j)" if "i < don + n" "don + n \<le> j" "j < len" for i j
  proof
    assume "same_loc cr3 (dst + i) cr3 (dst + j)"
    moreover have "unat i < 2 ^ 48" "unat j < 2 ^ 48" using that len by (simp_all add: unat_less_iff unat_le_iff)
    ultimately have "i = j" by (rule same_loc_inj)
    then show False using that by simp
  qed
  have far': "\<not> same_loc cr3 (dst + j) cr3 (dst + i)" if "i < don + n" "don + n \<le> j" "j < len" for i j
  proof
    assume "same_loc cr3 (dst + j) cr3 (dst + i)"
    moreover have "unat i < 2 ^ 48" "unat j < 2 ^ 48" using that len by (simp_all add: unat_less_iff unat_le_iff)
    ultimately have "j = i" by (intro same_loc_inj)
    then show False using that by simp
  qed
  show "outside_kept lvl cr3 dst don len m0 m'"
    unfolding outside_kept_def
  proof (intro allI impI)
    fix cr v
    assume a: "lvl (page_down cr) = Some 3" "\<forall>i. don \<le> i \<longrightarrow> i < len \<longrightarrow> \<not> same_loc cr3 (dst + i) cr v"
    have "content m' cr v = content m cr v"
      using rest a le by (auto simp: outside_kept_def)
    also have "\<dots> = content m0 cr v" by (rule old [OF a(1)]) (use a(2) in_range in \<open>auto simp: add.assoc\<close>)
    finally show "content m' cr v = content m0 cr v" .
  qed
  show "content m cr3 (dst + i) = content m0 cr3 (dst + i)" if "don + n \<le> i" "i < len"
    by (rule old [OF r]) (use far [OF _ that] in_range in \<open>auto simp: add.assoc\<close>)
  show "content m' cr3 (dst + i) = Some (g i)"
    if w: "\<forall>i. don + n \<le> i \<longrightarrow> i < len \<longrightarrow> content m' cr3 (dst + i) = Some (g i)" and i: "don \<le> i" "i < len"
  proof (cases "don + n \<le> i")
    case True
    then show ?thesis using w i by blast
  next
    case False
    then have "i < don + n" by simp
    then obtain k where k: "k < unat n" "i = don + of_nat k" using ch(1) [OF i(1)] by blast
    have "content m' cr3 (dst + i) = content m cr3 (dst + i)"
      using rest r far' False by (auto simp: outside_kept_def)
    then show ?thesis using new [OF k(1)] k(2) by (simp add: add.assoc)
  qed
qed

lemma write_user_loop_correct:
  assumes "vm_inv s lvl F" "lvl (page_down cr3) = Some 3" "unat len \<le> 2 ^ 48"
    "write_user_loop cr3 dst bytes len zero don s = (rv, s')"
  shows "\<exists>F'. vm_inv s' lvl F' \<and> F' \<subseteq> F \<and> same_rest s s' \<and> outside_kept lvl cr3 dst don len (mem s) (mem s') \<and>
    write_result cr3 dst don len (\<lambda>i. if zero then 0 else bytes i) rv F' (mem s) (mem s')"
  using assms(1,4)
proof (induction "unat len - unat don" arbitrary: don s F rule: less_induct)
  case less
  let ?va = "dst + don"
  show ?case
  proof (cases "don < len")
    case False
    then have "rv = 0" "s' = s" using less.prems(2) by (simp_all add: write_user_loop.simps)
    then show ?thesis using less.prems(1) False by (intro exI [of _ F]) (auto simp: outside_kept_def write_result_def)
  next
    case True
    obtain p s0 where tr: "travel_pagetable_in cr3 ?va False s = (p, s0)" by fastforce
    obtain r1 s1 where mk: "make_page_present p ?va s0 = (r1, s1)" by fastforce
    define n where "n = range_chunk ?va (len - don)"
    define m where "m = put_bytes (pfn_to_phys (pte_addr (mem s1 p)) + (?va AND (PAGE_SIZE - 1))) (unat n)
      (\<lambda>k. if zero then 0 else bytes (don + of_nat k)) (mem s1)"
    note eq = write_user_loop_round [OF True tr mk n_def m_def]
    note ch = chunk_range [OF n_def True]
    from less.prems(1) assms(2) ch(2,3) tr mk show ?thesis
    proof (cases rule: write_round [where g = "\<lambda>k. if zero then 0 else bytes (don + of_nat k)"])
      case fail
      then have "rv = -1" "s' = s" using eq less.prems(2) by simp_all
      then show ?thesis using fail(3) less.prems(1) True by (intro exI [of _ F]) (auto simp: outside_kept_def write_result_def)
    next
      case (ok F1)
      have k: "vm_inv (s1\<lparr>mem := m\<rparr>) lvl F1" "\<And>k. k < unat n \<Longrightarrow> content m cr3 (?va + of_nat k) = Some (if zero then 0 else bytes (don + of_nat k))"
        "\<And>cr v. lvl (page_down cr) = Some 3 \<Longrightarrow> (\<forall>k < unat n. \<not> same_loc cr3 (?va + of_nat k) cr v) \<Longrightarrow> content m cr v = content (mem s) cr v"
        using ok(4) [OF m_def] by simp_all
      have rest: "write_user_loop cr3 dst bytes len zero (don + n) (s1\<lparr>mem := m\<rparr>) = (rv, s')"
        using eq ok(1) less.prems(2) by simp
      have "unat len - unat (don + n) < unat len - unat don" using ch(3-5) by simp
      from less.hyps [OF this k(1) rest] obtain F' where ih: "vm_inv s' lvl F'" "F' \<subseteq> F1" "same_rest (s1\<lparr>mem := m\<rparr>) s'"
        "outside_kept lvl cr3 dst (don + n) len m (mem s')"
        "write_result cr3 dst (don + n) len (\<lambda>i. if zero then 0 else bytes i) rv F' m (mem s')"
        by auto
      note j = ranges_join [where g = "\<lambda>i. if zero then 0 else bytes i", OF n_def True assms(3,2) k(2,3) ih(4)]
      have "same_rest s s'" using same_rest_trans [OF same_rest_mem [OF ok(3)] ih(3)] .
      moreover have "write_result cr3 dst don len (\<lambda>i. if zero then 0 else bytes i) rv F' (mem s) (mem s')"
      proof (cases "rv = 0")
        case True
        then show ?thesis using ih(5) j(2) unfolding write_result_def if_P [OF True] by blast
      next
        case False
        then show ?thesis using ih(5) j(3,4) order_trans unfolding write_result_def by (metis (no_types))
      qed
      ultimately show ?thesis using ih(1,2) ok(2) j(1) by blast
    qed
  qed
qed


text \<open>The interrupt flag is no part of the view of memory.\<close>

lemma irq_vm [simp]:
  "vm_inv (CLI s) lvl F = vm_inv s lvl F" "vm_inv (irq_restore b s) lvl F = vm_inv s lvl F"
  "mem (CLI s) = mem s" "mem (irq_restore b s) = mem s"
  by (simp_all add: vm_inv_def avail_def pf_inv_def CLI_def irq_restore_def STI_def)

lemma same_rest_irq: "same_rest (CLI s) s' \<Longrightarrow> same_rest s (irq_restore (are_interrupts_enabled s) s')"
  by (cases s; cases s') (auto simp: same_rest_def CLI_def STI_def irq_restore_def are_interrupts_enabled_def)

lemma same_rest_halted: "same_rest s s' \<Longrightarrow> halted s' = halted s"
  by (cases s; cases s') (simp add: same_rest_def)

text \<open>
  C10: Copying into another address space. The page tables stay well formed and processor and kernel
  variables are unchanged. On success every address of the destination range has the byte of the
  source buffer as its content; in both cases every location outside the range, of this and of every
  other address space, keeps its content. Failure means that a page of the range is neither mapped
  nor reserved, or that no frame is left.
\<close>

theorem copy_to_user_correct:
  assumes "vm_inv s lvl F" "lvl (page_down cr3) = Some 3" "unat len \<le> 2 ^ 48" "src \<noteq> NULL"
  shows "let (r, s') = MMU_copy_to_user_as cr3 dst src bytes len s in
    \<exists>F'. vm_inv s' lvl F' \<and> F' \<subseteq> F \<and> same_rest s s' \<and>
      (if r = 0 then \<forall>i < len. content (mem s') cr3 (dst + i) = Some (bytes i)
       else r = -1 \<and> (F' = {} \<or> (\<exists>i < len. content (mem s) cr3 (dst + i) = None))) \<and>
      (\<forall>cr v. lvl (page_down cr) = Some 3 \<longrightarrow> (\<forall>i < len. \<not> same_loc cr3 (dst + i) cr v) \<longrightarrow>
         content (mem s') cr v = content (mem s) cr v)"
proof -
  obtain r s1 where w: "write_user_loop cr3 dst bytes len False 0 (CLI s) = (r, s1)" by fastforce
  have "vm_inv (CLI s) lvl F" using assms(1) by simp
  from write_user_loop_correct [OF this assms(2,3) w] obtain F' where
    F': "vm_inv s1 lvl F'" "F' \<subseteq> F" "same_rest (CLI s) s1" "outside_kept lvl cr3 dst 0 len (mem s) (mem s1)"
      "write_result cr3 dst 0 len bytes r F' (mem s) (mem s1)"
    by auto
  have "MMU_copy_to_user_as cr3 dst src bytes len s = (r, irq_restore (are_interrupts_enabled s) s1)"
    using w assms(4) by (simp add: MMU_copy_to_user_as_def write_user_range_as_def)
  then show ?thesis
    using F'(1,2,4,5) same_rest_irq [OF F'(3)] by (auto simp: outside_kept_def write_result_def)
qed

theorem copy_to_user_correct_witness:
  "content (mem (snd (MMU_copy_to_user_as 0x115000 0x100000000000 0x8000000000 (\<lambda>i. ucast i) 2 vm_example)))
     0x115000 0x100000000002 = Some 0 \<and>
   (\<exists>F'. vm_inv (snd (MMU_copy_to_user_as 0x115000 0x100000000000 0x8000000000 (\<lambda>i. ucast i) 2 vm_example))
     vm_example_levels F')"
proof -
  have i: "va_index 4 0x100000000002 = va_index 4 0x100000000000" "va_index 3 0x100000000002 = va_index 3 0x100000000000"
    "va_index 2 0x100000000002 = va_index 2 0x100000000000"
    "va_index (Suc 0) 0x100000000002 = va_index (Suc 0) 0x100000000000"
    by (simp_all add: va_index_def)
  have "p1_entry vm_example_mem 0x115000 0x100000000002 = Some (entry_at 0x118000 0)"
    using vm_example_page(1) by (simp only: p1_entry_levels i)
  then have c: "content vm_example_mem 0x115000 0x100000000002 = Some 0"
    using vm_example_entries(4) [of 0] by (simp add: content_entry)
  have n: "\<forall>i < 2. \<not> same_loc 0x115000 (0x100000000000 + i) 0x115000 0x100000000002"
  proof (intro allI impI notI)
    fix i :: u64
    assume "i < 2" "same_loc 0x115000 (0x100000000000 + i) 0x115000 0x100000000002"
    moreover from this have "i = 2"
      using same_loc_inj [of "0x115000" "0x100000000000" i "0x115000" 2] by (simp add: unat_less_iff)
    ultimately show False by simp
  qed
  show ?thesis
    using copy_to_user_correct [OF vm_example_inv(1,2), of 2 "0x8000000000" "0x100000000000" "\<lambda>i. ucast i"]
      n c vm_example_inv(2) by (auto simp: case_prod_beta Let_def)
qed

text \<open>
  C11: Demand paging is invisible to programs: handling a fault on a reserved page while a frame is
  free leaves the content of every address of every address space as it was.
\<close>

theorem page_fault_transparent:
  assumes "vm_inv s lvl F" "lvl (page_down (CR3 s)) = Some 3" "reserved (mem s) (CR3 s) va" "F \<noteq> {}"
    "lvl (page_down cr) = Some 3"
  shows "content (mem (ISR14_PAGE_FAULT va s)) cr v = content (mem s) cr v \<and>
    halted (ISR14_PAGE_FAULT va s) = halted s"
proof -
  obtain p where p: "p1_entry (mem s) (CR3 s) va = Some p" and e: "\<not> pte_present (mem s p)" "pte_flag (mem s p)"
    using assms(3) by (auto simp: reserved_def split: option.splits)
  obtain f s' where mk: "make_page_present p va s = (0, s')" "f \<in> F" "vm_inv s' lvl (F - {f})" "backed lvl p f s s'"
    by (rule make_present_new [OF assms(1,2) p e assms(4)])
  have "p \<noteq> INVALID_FRAME_ADDR" using walk_not_INVALID p by (auto simp: p1_entry_def)
  then have "ISR14_PAGE_FAULT va s = s'"
    using p e mk(1)
    by (simp add: ISR14_PAGE_FAULT_def travel_pagetable_def MMU_current_p4_def travel_walk_mode Let_def)
  then show ?thesis
    using backed_content [OF assms(1,2) p e mk(4,2) assms(5)] same_rest_halted [OF backedD(1) [OF mk(4)]] by simp
qed

theorem page_fault_transparent_witness:
  "content (mem (ISR14_PAGE_FAULT 0x100000000000 vm_example)) 0x115000 0x100000000000 = Some 0"
proof -
  have "content vm_example_mem 0x115000 0x100000000000 = Some 0"
    using vm_example_page(1) vm_example_entries(4) [of 0] by (simp add: content_entry)
  moreover have "vm_example_free \<noteq> {}" using vm_example_frames(5) by blast
  ultimately show ?thesis
    using page_fault_transparent [OF vm_example_inv(1,3), of "0x100000000000" "0x115000" "0x100000000000"]
      vm_example_page(2) vm_example_inv(2) by simp
qed

end
