(* ===== verification/Threads.thy ===== *)
theory Threads
  imports Machine Linked
begin

text \<open>
  The thread and process control blocks of \<open>include/kernel/multitask.h\<close>. A \<open>thread_st *\<close> is
  an address into the store \<open>thr\<close>. The store is total: the kernel maps page 0, so the code's
  reads through an unchecked NULL pointer read memory like any other.
\<close>

datatype proc_state = PROC_READY | PROC_RUNNING | PROC_BLOCKED | PROC_ZOMBIE

record rfile =
  rax :: u64
  rbx :: u64
  rcx :: u64
  rdx :: u64
  rsi :: u64
  rdi :: u64
  rbp :: u64
  rsp :: u64
  r8 :: u64
  r9 :: u64
  r10 :: u64
  r11 :: u64
  r12 :: u64
  r13 :: u64
  r14 :: u64
  r15 :: u64

record thread_st =
  tid :: u64
  kstack :: ptr
  ustack :: ptr
  stacksize :: u64
  owner :: ptr
  saved :: rfile
  run_state :: proc_state
  exit_status :: "32 word"
  next_thread :: ptr
  lib_one :: ptr
  lib_two :: ptr
  sched_one :: ptr
  sched_two :: ptr
  exited :: ptr

type_synonym thread_store = "ptr \<Rightarrow> thread_st"

text \<open>The content of a control block after \<open>memset(t, 0, sizeof(*t))\<close>.\<close>

definition rfile_zero :: rfile where
  "rfile_zero = \<lparr>rax = 0, rbx = 0, rcx = 0, rdx = 0, rsi = 0, rdi = 0, rbp = 0, rsp = 0,
     r8 = 0, r9 = 0, r10 = 0, r11 = 0, r12 = 0, r13 = 0, r14 = 0, r15 = 0\<rparr>"

definition thread_zero :: thread_st where
  "thread_zero = \<lparr>tid = 0, kstack = NULL, ustack = NULL, stacksize = 0, owner = NULL,
     saved = rfile_zero, run_state = PROC_READY, exit_status = 0, next_thread = NULL,
     lib_one = NULL, lib_two = NULL, sched_one = NULL, sched_two = NULL, exited = NULL\<rparr>"

record proc_queue =
  q_head :: ptr
  q_tail :: ptr

record process_st =
  pid :: u64
  cr3 :: u64
  parent :: ptr
  first_child :: ptr
  next_sibling :: ptr
  threads :: ptr
  live_threads :: u64
  p_exit_status :: "32 word"
  exiting :: bool
  zombie :: bool
  wait_child_exit :: proc_queue
  wait_thread_exit :: proc_queue

definition queue_zero :: proc_queue where
  "queue_zero = \<lparr>q_head = NULL, q_tail = NULL\<rparr>"

definition process_zero :: process_st where
  "process_zero = \<lparr>pid = 0, cr3 = 0, parent = NULL, first_child = NULL, next_sibling = NULL, threads = NULL,
     live_threads = 0, p_exit_status = 0, exiting = False, zombie = False,
     wait_child_exit = queue_zero, wait_thread_exit = queue_zero\<rparr>"

text \<open>
  The lists threaded through the thread control blocks: the link function of each list, and the
  assignment to the link of one thread.
\<close>

definition sched_links :: "thread_store \<Rightarrow> ptr \<Rightarrow> ptr" where
  "sched_links T = (\<lambda>p. sched_one (T p))"

definition queue_links :: "thread_store \<Rightarrow> ptr \<Rightarrow> ptr" where
  "queue_links T = (\<lambda>p. lib_one (T p))"

definition thread_links :: "thread_store \<Rightarrow> ptr \<Rightarrow> ptr" where
  "thread_links T = (\<lambda>p. next_thread (T p))"

definition set_sched_one :: "ptr \<Rightarrow> ptr \<Rightarrow> thread_store \<Rightarrow> thread_store" where
  "set_sched_one a b T = T(a := (T a)\<lparr>sched_one := b\<rparr>)"

definition set_lib_one :: "ptr \<Rightarrow> ptr \<Rightarrow> thread_store \<Rightarrow> thread_store" where
  "set_lib_one a b T = T(a := (T a)\<lparr>lib_one := b\<rparr>)"

definition set_next_thread :: "ptr \<Rightarrow> ptr \<Rightarrow> thread_store \<Rightarrow> thread_store" where
  "set_next_thread a b T = T(a := (T a)\<lparr>next_thread := b\<rparr>)"

definition set_run_state :: "ptr \<Rightarrow> proc_state \<Rightarrow> thread_store \<Rightarrow> thread_store" where
  "set_run_state a r T = T(a := (T a)\<lparr>run_state := r\<rparr>)"

lemmas set_thread_defs = set_sched_one_def set_lib_one_def set_next_thread_def set_run_state_def
lemmas links_defs = sched_links_def queue_links_def thread_links_def

lemma links_apply [simp]:
  "sched_links T p = sched_one (T p)" "queue_links T p = lib_one (T p)"
  "thread_links T p = next_thread (T p)"
  by (simp_all add: links_defs)

lemma links_upd [simp, list_links]:
  "sched_links (set_sched_one a b T) = (sched_links T)(a := b)"
  "queue_links (set_lib_one a b T) = (queue_links T)(a := b)"
  "thread_links (set_next_thread a b T) = (thread_links T)(a := b)"
  by (auto simp: links_defs set_thread_defs)

lemma links_frame [simp, list_links]:
  "sched_links (set_lib_one a b T) = sched_links T"
  "sched_links (set_next_thread a b T) = sched_links T"
  "sched_links (set_run_state a r T) = sched_links T"
  "queue_links (set_sched_one a b T) = queue_links T"
  "queue_links (set_next_thread a b T) = queue_links T"
  "queue_links (set_run_state a r T) = queue_links T"
  "thread_links (set_sched_one a b T) = thread_links T"
  "thread_links (set_lib_one a b T) = thread_links T"
  "thread_links (set_run_state a r T) = thread_links T"
  by (auto simp: links_defs set_thread_defs)

lemma set_thread_fields [simp]:
  "sched_one (set_sched_one a b T p) = (if p = a then b else sched_one (T p))"
  "lib_one (set_lib_one a b T p) = (if p = a then b else lib_one (T p))"
  "next_thread (set_next_thread a b T p) = (if p = a then b else next_thread (T p))"
  "run_state (set_run_state a r T p) = (if p = a then r else run_state (T p))"
  by (auto simp: set_thread_defs)

lemma set_thread_frame [simp]:
  "run_state (set_sched_one a b T p) = run_state (T p)"
  "run_state (set_lib_one a b T p) = run_state (T p)"
  "run_state (set_next_thread a b T p) = run_state (T p)"
  "owner (set_sched_one a b T p) = owner (T p)"
  "owner (set_lib_one a b T p) = owner (T p)"
  "owner (set_next_thread a b T p) = owner (T p)"
  "owner (set_run_state a r T p) = owner (T p)"
  "tid (set_sched_one a b T p) = tid (T p)"
  "tid (set_lib_one a b T p) = tid (T p)"
  "tid (set_next_thread a b T p) = tid (T p)"
  "tid (set_run_state a r T p) = tid (T p)"
  by (auto simp: set_thread_defs)

end
