(* ===== verification/Round_Robin.thy ===== *)
theory Round_Robin
  imports Threads
begin

text \<open>
  The scheduler of \<open>src/kernel/round_robin.c\<close>: a circular list threaded through
  \<open>sched_one\<close>, with \<open>Head\<close>, \<open>Tail\<close>, the thread to run next in \<open>Current\<close> and the
  number of nodes in \<open>Count\<close>. The operations take the processor (for the interrupt flag) and
  the scheduler state, which multitasking extends with its own fields.
\<close>

section \<open>Model\<close>

record sched_st =
  thr :: thread_store
  Head :: ptr
  Tail :: ptr
  Current :: ptr
  Count :: int

definition rr_admit ::
    "ptr \<Rightarrow> 'c cpu_scheme \<times> 's sched_st_scheme \<Rightarrow> 'c cpu_scheme \<times> 's sched_st_scheme" where
  "rr_admit new = (\<lambda>(cpu, s).
     let ints_enabled = are_interrupts_enabled cpu;
         cpu1 = (if ints_enabled then CLI cpu else cpu);
         s1 = (if Head s = NULL
               then s\<lparr>Head := new, Tail := new, Current := new,
                      thr := set_sched_one new new (thr s)\<rparr>
               else s\<lparr>thr := set_sched_one (Tail s) new (set_sched_one new (Head s) (thr s)),
                      Tail := new\<rparr>);
         s2 = s1\<lparr>Count := Count s1 + 1\<rparr>
     in (irq_restore ints_enabled cpu1, s2))"

text \<open>
  The search loop of \<open>rr_remove\<close>: \<open>Some (Some prev)\<close> when the victim is found behind
  \<open>prev\<close>, \<open>Some None\<close> when the loop leaves without it, \<open>None\<close> when it never ends.
\<close>

partial_function (option) rr_find ::
    "(ptr \<Rightarrow> ptr) \<Rightarrow> ptr \<Rightarrow> ptr \<Rightarrow> ptr \<Rightarrow> ptr \<Rightarrow> ptr option option" where
  "rr_find nx head victim prev cur =
     (if cur = NULL then Some None
      else if cur = victim then Some (Some prev)
      else if nx cur = head then Some None
      else rr_find nx head victim cur (nx cur))"

definition rr_unlink :: "ptr \<Rightarrow> ptr \<Rightarrow> 's sched_st_scheme \<Rightarrow> 's sched_st_scheme" where
  "rr_unlink prev cur s =
     (let T = set_sched_one prev (sched_one (thr s cur)) (thr s)
      in s\<lparr>thr := T,
           Current := (if cur = Current s then sched_one (T cur) else Current s),
           Head := (if cur = Head s then sched_one (T cur) else Head s),
           Tail := (if cur = Tail s then prev else Tail s),
           Count := Count s - 1\<rparr>)"

definition rr_remove ::
    "ptr \<Rightarrow> 'c cpu_scheme \<times> 's sched_st_scheme
      \<Rightarrow> ('c cpu_scheme \<times> 's sched_st_scheme) option" where
  "rr_remove victim = (\<lambda>(cpu, s).
     let ints_enabled = are_interrupts_enabled cpu;
         cpu1 = (if ints_enabled then CLI cpu else cpu)
     in if victim = NULL then Some (irq_restore ints_enabled cpu1, s)
        else if Count s = 1
        then Some (irq_restore ints_enabled cpu1,
                   s\<lparr>Head := NULL, Tail := NULL, Current := NULL, Count := 0\<rparr>)
        else if Tail s = NULL \<and> Head s \<noteq> NULL then Some (HLT cpu1, s)
        else
          case rr_find (sched_links (thr s)) (Head s) victim (Tail s) (Head s) of
            None \<Rightarrow> None
          | Some None \<Rightarrow> Some (irq_restore ints_enabled cpu1, s)
          | Some (Some prev) \<Rightarrow> Some (irq_restore ints_enabled cpu1, rr_unlink prev victim s))"

definition rr_next ::
    "'c cpu_scheme \<times> 's sched_st_scheme \<Rightarrow> ptr \<times> 'c cpu_scheme \<times> 's sched_st_scheme" where
  "rr_next = (\<lambda>(cpu, s).
     let ints_enabled = are_interrupts_enabled cpu;
         cpu1 = (if ints_enabled then CLI cpu else cpu)
     in if Head s = NULL then (NULL, irq_restore ints_enabled cpu1, s)
        else (Current s, irq_restore ints_enabled cpu1,
              s\<lparr>Current := sched_one (thr s (Current s))\<rparr>))"

definition rr_qlen :: "'s sched_st_scheme \<Rightarrow> int" where
  "rr_qlen s = Count s"

section \<open>The ring\<close>

text \<open>
  \<open>rr_ring s ds ts\<close>: from \<open>Head\<close> the ring holds \<open>ds\<close>, already served in this round, and
  then \<open>ts\<close>, starting with \<open>Current\<close> and ending with \<open>Tail\<close>.
\<close>

definition rr_ring :: "'s sched_st_scheme \<Rightarrow> ptr list \<Rightarrow> ptr list \<Rightarrow> bool" where
  "rr_ring s ds ts \<longleftrightarrow>
     (if ts = [] then ds = [] \<and> Head s = NULL \<and> Tail s = NULL \<and> Current s = NULL \<and> Count s = 0
      else distinct (ds @ ts) \<and> NULL \<notin> set (ds @ ts) \<and> Head s = hd (ds @ ts)
         \<and> Tail s = last ts \<and> Current s = hd ts \<and> Count s = int (length (ds @ ts))
         \<and> lpath (sched_links (thr s)) (Head s) (ds @ ts) (Head s))"

lemma rr_ring_empty: "rr_ring s ds [] \<longleftrightarrow>
    ds = [] \<and> Head s = NULL \<and> Tail s = NULL \<and> Current s = NULL \<and> Count s = 0"
  by (simp add: rr_ring_def)

lemma rr_ringD:
  assumes "rr_ring s ds ts" "ts \<noteq> []"
  shows "distinct (ds @ ts)" "NULL \<notin> set (ds @ ts)" "Head s = hd (ds @ ts)" "Tail s = last ts"
    "Current s = hd ts" "Count s = int (length (ds @ ts))"
    "lpath (sched_links (thr s)) (Head s) (ds @ ts) (Head s)" "Head s \<noteq> NULL" "Tail s \<noteq> NULL"
proof -
  show "Head s \<noteq> NULL" "Tail s \<noteq> NULL"
    using assms hd_in_set [of "ds @ ts"] last_in_set [of ts]
    by (metis Un_iff append_is_Nil_conv rr_ring_def set_append)+
qed (use assms in \<open>auto simp: rr_ring_def\<close>)

lemma rr_ringI:
  assumes "ts \<noteq> []" "distinct (ds @ ts)" "NULL \<notin> set (ds @ ts)" "Head s = hd (ds @ ts)"
    "Tail s = last ts" "Current s = hd ts" "Count s = int (length (ds @ ts))"
    "lpath (sched_links (thr s)) (Head s) (ds @ ts) (Head s)"
  shows "rr_ring s ds ts"
  using assms unfolding rr_ring_def by auto

lemma rr_ring_admit:
  assumes ring: "rr_ring s ds ts" and new: "new \<noteq> NULL" "new \<notin> set (ds @ ts)"
  shows "\<exists>s'. rr_admit new (cpu, s) = (cpu, s') \<and> rr_ring s' ds (ts @ [new])"
proof (cases "ts = []")
  case True
  with ring new show ?thesis
    by (simp add: rr_admit_def Let_def irq_simps rr_ring_def)
next
  case False
  note R = rr_ringD [OF ring False]
  define nx where "nx = sched_links (thr s)"
  have last: "last (ds @ ts) = last ts" using False by simp
  have "lpath (nx(new := Head s)) (Head s) (ds @ ts) (Head s)"
    using R(7) new by (simp add: nx_def)
  then have "lpath ((nx(new := Head s))(last (ds @ ts) := new)) (Head s) (ds @ ts) new"
    using R(1) False by (intro lpath_retarget) auto
  moreover have "last ts \<noteq> new" using new(2) False last_in_set by fastforce
  ultimately have "lpath ((nx(new := Head s))(last ts := new)) (Head s) (ds @ ts @ [new]) (Head s)"
    using False by (auto simp: last)
  with R new False show ?thesis
    by (auto simp: rr_admit_def Let_def irq_simps rr_ring_def nx_def hd_append)
qed

lemma rr_ring_next:
  assumes ring: "rr_ring s ds (c # ts)"
  shows "\<exists>s'. rr_next (cpu, s) = (c, cpu, s') \<and>
    (if ts = [] then rr_ring s' [] (ds @ [c]) else rr_ring s' (ds @ [c]) ts)"
proof -
  note R = rr_ringD [OF ring, simplified]
  have nxt: "sched_one (thr s c) = (if ts = [] then Head s else hd ts)"
    using R(7) by (cases ts) auto
  show ?thesis
  proof (cases "ts = []")
    case True
    with R nxt show ?thesis
      by (auto simp: rr_next_def Let_def irq_simps rr_ring_def)
  next
    case False
    with R nxt show ?thesis
      by (auto simp: rr_next_def Let_def irq_simps rr_ring_def)
  qed
qed

lemma rr_find_hit:
  assumes "lpath nx cur (as @ v # bs) head" "distinct (as @ v # bs)"
    "NULL \<notin> set (as @ v # bs)" "head \<notin> set (tl (as @ v # bs))"
  shows "rr_find nx head v prev cur = Some (Some (if as = [] then prev else last as))"
  using assms
proof (induction as arbitrary: prev cur)
  case Nil
  then show ?case by (auto simp: rr_find.simps)
next
  case (Cons a as)
  have "nx a \<noteq> head" using Cons.prems by (cases as) auto
  moreover have "head \<notin> set (tl (as @ v # bs))" using Cons.prems(4) by (cases as) auto
  ultimately show ?case
    using Cons.prems Cons.IH [of "nx a" a] by (auto simp: rr_find.simps [of nx head v prev a])
qed

lemma rr_find_miss:
  assumes "lpath nx cur (a # as) head" "NULL \<notin> set (a # as)" "v \<notin> set (a # as)"
    "head \<notin> set as"
  shows "rr_find nx head v prev cur = Some None"
  using assms
proof (induction as arbitrary: prev cur a)
  case Nil
  then show ?case by (auto simp: rr_find.simps)
next
  case (Cons b as)
  then show ?case
    by (auto simp: rr_find.simps [of nx head v prev a])
qed

lemma ring_path_remove:
  assumes path: "lpath nx (hd (as @ v # bs)) (as @ v # bs) (hd (as @ v # bs))"
    and dist: "distinct (as @ v # bs)" and ne: "as @ bs \<noteq> []"
  shows "lpath (nx(if as = [] then last bs else last as := nx v))
           (hd (as @ bs)) (as @ bs) (hd (as @ bs))"
proof (cases "as = []")
  case True
  with path ne have "lpath nx (hd bs) bs v" by (cases bs) auto
  then have "lpath (nx(last bs := hd bs)) (hd bs) bs (hd bs)"
    using True ne dist by (intro lpath_retarget) auto
  moreover have "nx v = hd bs" using path True ne by (cases bs) auto
  ultimately show ?thesis using True by simp
next
  case False
  from path have 1: "lpath nx (hd as) as v" and 2: "lpath nx (nx v) bs (hd as)"
    using False by auto
  from 1 have "lpath (nx(last as := nx v)) (hd as) as (nx v)"
    using False dist by (intro lpath_retarget) auto
  moreover have "last as \<notin> set bs" using last_in_set [OF False] dist by auto
  ultimately show ?thesis using False 2 by auto
qed

lemma rr_unlink_fields [simp]:
  assumes "prev \<noteq> v"
  shows "thr (rr_unlink prev v s) = set_sched_one prev (sched_one (thr s v)) (thr s)"
    "Head (rr_unlink prev v s) = (if v = Head s then sched_one (thr s v) else Head s)"
    "Tail (rr_unlink prev v s) = (if v = Tail s then prev else Tail s)"
    "Current (rr_unlink prev v s) = (if v = Current s then sched_one (thr s v) else Current s)"
    "Count (rr_unlink prev v s) = Count s - 1"
  using assms by (simp_all add: rr_unlink_def Let_def)

lemma rr_ring_unlink:
  assumes ring: "rr_ring s ds ts" and v: "v \<in> set (ds @ ts)" and two: "2 \<le> length (ds @ ts)"
    and prev: "ds @ ts = as @ v # bs" "prev = (if as = [] then last bs else last as)"
  shows "\<exists>ds' ts'. rr_ring (rr_unlink prev v s) ds' ts' \<and> ts' @ ds' = removeAll v (ts @ ds)"
proof -
  have ne: "ts \<noteq> []" using ring v by (auto simp: rr_ring_def)
  note R = rr_ringD [OF ring ne]
  have dist: "distinct (as @ v # bs)" and rest: "as @ bs \<noteq> []"
    using R(1) prev(1) two by auto
  have pv: "prev \<noteq> v"
    using dist rest prev(2) last_in_set [of as] last_in_set [of bs] by auto
  let ?nx = "(sched_links (thr s))(prev := sched_one (thr s v))"
  have path: "lpath ?nx (hd (as @ bs)) (as @ bs) (hd (as @ bs))"
    using ring_path_remove [of "sched_links (thr s)" as v bs] R(3,7) dist rest prev by simp
  have nxv: "sched_one (thr s v) = hd (bs @ as)"
    using R(3,7) prev(1) rest by (cases bs) auto
  have hd': "(if v = Head s then sched_one (thr s v) else Head s) = hd (as @ bs)"
    using R(3) prev(1) nxv rest dist by (cases as) auto
  have S: "rr_ring (rr_unlink prev v s) ds' ts'" if "ds' @ ts' = as @ bs" "ts' \<noteq> []"
      "last ts' = (if v = last ts then prev else last ts)"
      "hd ts' = (if v = hd ts then sched_one (thr s v) else hd ts)" for ds' ts'
  proof (rule rr_ringI)
    show "distinct (ds' @ ts')" "NULL \<notin> set (ds' @ ts')"
      using dist R(2) prev(1) unfolding that(1) by auto
    show "Count (rr_unlink prev v s) = int (length (ds' @ ts'))"
      using R(6) pv unfolding that(1) prev(1) by simp
    show "lpath (sched_links (thr (rr_unlink prev v s))) (Head (rr_unlink prev v s)) (ds' @ ts')
        (Head (rr_unlink prev v s))"
      using path by (simp only: that(1) rr_unlink_fields [OF pv] hd' links_upd)
    show "Head (rr_unlink prev v s) = hd (ds' @ ts')"
      by (simp only: that(1) rr_unlink_fields [OF pv] hd')
    show "Tail (rr_unlink prev v s) = last ts'" "Current (rr_unlink prev v s) = hd ts'"
      by (simp_all only: that(3,4) R(4,5) rr_unlink_fields [OF pv])
  qed (fact that(2))
  from prev(1) consider (D) d2 where "ds = as @ v # d2" "bs = d2 @ ts"
    | (T) t1 where "ts = t1 @ v # bs" "as = ds @ t1"
    by (auto simp: append_eq_append_conv2 append_eq_Cons_conv)
  then show ?thesis
  proof cases
    case D
    have "rr_ring (rr_unlink prev v s) (as @ d2) ts"
      using D dist ne by (intro S) auto
    moreover have "ts @ as @ d2 = removeAll v (ts @ ds)" using D dist by simp
    ultimately show ?thesis by blast
  next
    case T
    show ?thesis
    proof (cases "t1 @ bs = []")
      case True
      with T rest dist nxv prev(2) have "rr_ring (rr_unlink prev v s) [] ds"
        by (intro S) auto
      moreover have "ds @ [] = removeAll v (ts @ ds)" using T True dist by simp
      ultimately show ?thesis by blast
    next
      case False
      have "rr_ring (rr_unlink prev v s) ds (t1 @ bs)"
        using T False dist nxv prev(2) by (intro S) (auto simp: hd_append)
      moreover have "(t1 @ bs) @ ds = removeAll v (ts @ ds)" using T dist by simp
      ultimately show ?thesis by blast
    qed
  qed
qed

lemma rr_remove_member:
  assumes ring: "rr_ring s ds ts" and v: "v \<in> set (ds @ ts)"
  shows "\<exists>s' ds' ts'. rr_remove v (cpu, s) = Some (cpu, s') \<and> rr_ring s' ds' ts'
    \<and> ts' @ ds' = removeAll v (ts @ ds)"
proof -
  have ne: "ts \<noteq> []" using ring v by (auto simp: rr_ring_def)
  note R = rr_ringD [OF ring ne]
  have v0: "v \<noteq> NULL" using R(2) v by auto
  show ?thesis
  proof (cases "length (ds @ ts) = 1")
    case True
    with v ne have "ds = []" "ts = [v]" by (cases ts; cases ds; auto)+
    moreover have "Count s = 1" using R(6) True by simp
    ultimately show ?thesis using v0
      by (auto simp: rr_remove_def Let_def irq_simps rr_ring_empty)
  next
    case False
    with v have two: "2 \<le> length (ds @ ts)" by (cases "ds @ ts") (auto simp: Suc_le_eq)
    from v obtain as bs where split: "ds @ ts = as @ v # bs" by (metis split_list)
    define prev where "prev = (if as = [] then last bs else last as)"
    have head: "Head s \<notin> set (tl (as @ v # bs))"
      using R(1,3) split by (cases as) auto
    have tail: "Tail s = last (as @ v # bs)" using R(4) ne split by (metis last_append)
    have "rr_find (sched_links (thr s)) (Head s) v (Tail s) (Head s) = Some (Some prev)"
      using rr_find_hit [of "sched_links (thr s)" "Head s" as v bs "Head s" "Tail s"]
        R(1,2,7) head tail two split
      by (auto simp: prev_def)
    moreover have "Count s \<noteq> 1" using R(6) False by linarith
    ultimately have "rr_remove v (cpu, s) = Some (cpu, rr_unlink prev v s)"
      using v0 R(8,9) by (simp add: rr_remove_def Let_def irq_simps)
    with rr_ring_unlink [OF ring v two split prev_def] show ?thesis by blast
  qed
qed

lemma rr_remove_other:
  assumes ring: "rr_ring s ds ts" and v: "v \<notin> set (ds @ ts)" "v \<noteq> NULL"
    and len: "length (ds @ ts) \<noteq> 1"
  shows "rr_remove v (cpu, s) = Some (cpu, s)"
proof (cases "ts = []")
  case True
  with ring v show ?thesis
    by (simp add: rr_remove_def Let_def irq_simps rr_ring_empty rr_find.simps)
next
  case False
  note R = rr_ringD [OF ring False]
  obtain a as where xs: "ds @ ts = a # as" using False by (cases "ds @ ts") auto
  have "rr_find (sched_links (thr s)) (Head s) v (Tail s) (Head s) = Some None"
    using R(1,2,3,7) v unfolding xs by (intro rr_find_miss [of _ _ a as]) auto
  moreover have "Count s \<noteq> 1" using R(6) len by linarith
  ultimately show ?thesis
    using v R(8,9) by (simp add: rr_remove_def Let_def irq_simps)
qed

section \<open>The scheduler interface\<close>

text \<open>
  \<open>struct scheduler\<close> of \<open>include/kernel/scheduler.h\<close>: what multitasking relies on, over the
  list \<open>q\<close> of admitted threads in the order they will be served. \<open>run_next\<close> is a sequence
  of scheduling decisions.
\<close>

primrec run_next :: "('s \<Rightarrow> ptr \<times> 's) \<Rightarrow> nat \<Rightarrow> 's \<Rightarrow> ptr list \<times> 's" where
  "run_next nextp 0 s = ([], s)"
| "run_next nextp (Suc n) s =
     (let (p, s') = nextp s; (ps, s'') = run_next nextp n s' in (p # ps, s''))"

locale scheduler =
  fixes admit :: "ptr \<Rightarrow> 's \<Rightarrow> 's"
    and remove :: "ptr \<Rightarrow> 's \<Rightarrow> 's option"
    and nextp :: "'s \<Rightarrow> ptr \<times> 's"
    and qlen :: "'s \<Rightarrow> int"
    and serves :: "'s \<Rightarrow> ptr list \<Rightarrow> bool"
  assumes admit_serves: "serves s q \<Longrightarrow> p \<noteq> NULL \<Longrightarrow> p \<notin> set q \<Longrightarrow>
      \<exists>q1 q2. q = q1 @ q2 \<and> (q \<noteq> [] \<longrightarrow> q1 \<noteq> []) \<and> serves (admit p s) (q1 @ p # q2)"
    and next_empty: "serves s [] \<Longrightarrow> nextp s = (NULL, s)"
    and next_serves: "serves s (p # q) \<Longrightarrow> \<exists>s'. nextp s = (p, s') \<and> serves s' (q @ [p])"
    and remove_serves: "serves s q \<Longrightarrow> p \<in> set q \<Longrightarrow>
      \<exists>s'. remove p s = Some s' \<and> serves s' (removeAll p q)"
    and remove_absent: "serves s q \<Longrightarrow> p \<noteq> NULL \<Longrightarrow> p \<notin> set q \<Longrightarrow> length q \<noteq> 1 \<Longrightarrow>
      remove p s = Some s"
    and qlen_serves: "serves s q \<Longrightarrow> qlen s = int (length q)"
    and serves_valid: "serves s q \<Longrightarrow> distinct q \<and> NULL \<notin> set q"
begin

lemma run_next_rotates:
  assumes "serves s q" "n \<le> length q"
  shows "\<exists>s'. run_next nextp n s = (take n q, s') \<and> serves s' (drop n q @ take n q)"
  using assms
proof (induction n arbitrary: s q)
  case 0
  then show ?case by simp
next
  case (Suc n)
  then obtain p r where q: "q = p # r" by (cases q) auto
  with next_serves Suc.prems obtain s' where s': "nextp s = (p, s')" "serves s' (r @ [p])"
    by blast
  from Suc.IH [OF s'(2)] Suc.prems(2) q obtain s'' where
    "run_next nextp n s' = (take n (r @ [p]), s'')"
    "serves s'' (drop n (r @ [p]) @ take n (r @ [p]))"
    by auto
  with s'(1) q Suc.prems(2) show ?case by auto
qed

lemma full_round:
  assumes "serves s q"
  shows "\<exists>s'. run_next nextp (nat (qlen s)) s = (q, s') \<and> serves s' q"
  using run_next_rotates [OF assms, of "length q"] qlen_serves [OF assms] by simp

lemma admit_remove:
  assumes "serves s q" "p \<noteq> NULL" "p \<notin> set q"
  shows "\<exists>s'. remove p (admit p s) = Some s' \<and> serves s' q"
proof -
  obtain q1 q2 where q: "q = q1 @ q2" "serves (admit p s) (q1 @ p # q2)"
    using admit_serves [OF assms] by blast
  with remove_serves [OF q(2), of p] assms(3) show ?thesis by auto
qed

end

definition rr_serves :: "'s sched_st_scheme \<Rightarrow> ptr list \<Rightarrow> bool" where
  "rr_serves s q \<longleftrightarrow> (\<exists>ds ts. rr_ring s ds ts \<and> q = ts @ ds)"

interpretation rrs: scheduler rr_admit rr_remove rr_next "\<lambda>(cpu, s). rr_qlen s"
    "\<lambda>(cpu, s). rr_serves s"
proof (unfold_locales, goal_cases)
  case (1 s q p)
  obtain cpu t where s: "s = (cpu, t)" by (cases s)
  with 1 obtain ds ts where r: "rr_ring t ds ts" "q = ts @ ds" by (auto simp: rr_serves_def)
  from rr_ring_admit [OF r(1), of p cpu] 1 r(2) s have
    "case rr_admit p s of (cpu, s) \<Rightarrow> rr_serves s (ts @ p # ds)"
    by (auto simp: rr_serves_def) (metis append.assoc append_Cons append_Nil)
  with r show ?case
    by (intro exI [of _ ts] exI [of _ ds]) (auto simp: rr_ring_def)
next
  case (2 s)
  then show ?case by (cases s) (auto simp: rr_serves_def rr_ring_def rr_next_def Let_def irq_simps)
next
  case (3 s p q)
  obtain cpu t where s: "s = (cpu, t)" by (cases s)
  with 3 obtain ds ts where r: "rr_ring t ds ts" "p # q = ts @ ds" by (auto simp: rr_serves_def)
  then obtain ts' where ts: "ts = p # ts'" by (cases ts) (auto simp: rr_ring_def)
  from rr_ring_next [of t ds p ts' cpu] r ts s show ?case
    by (auto simp: rr_serves_def split: if_splits) (metis append.assoc append_Nil2)+
next
  case (4 s q p)
  obtain cpu t where s: "s = (cpu, t)" by (cases s)
  with 4 obtain ds ts where r: "rr_ring t ds ts" "q = ts @ ds" by (auto simp: rr_serves_def)
  with rr_remove_member [OF r(1), of p cpu] 4 s show ?case
    by (auto simp: rr_serves_def) metis+
next
  case (5 s q p)
  then show ?case by (cases s) (auto simp: rr_serves_def rr_remove_other)
next
  case (6 s q)
  then show ?case by (cases s) (auto simp: rr_serves_def rr_qlen_def rr_ring_def split: if_splits)
next
  case (7 s q)
  then show ?case by (cases s) (auto simp: rr_serves_def rr_ring_def split: if_splits)
qed

section \<open>Properties\<close>

lemma rr_serves_admit:
  assumes "rr_serves s q" "p \<noteq> NULL" "p \<notin> set q"
  shows "\<exists>s' q1 q2. rr_admit p (cpu, s) = (cpu, s') \<and> q = q1 @ q2 \<and> (q \<noteq> [] \<longrightarrow> q1 \<noteq> [])
    \<and> rr_serves s' (q1 @ p # q2)"
proof -
  obtain ds ts where r: "rr_ring s ds ts" "q = ts @ ds" using assms(1) by (auto simp: rr_serves_def)
  with rr_ring_admit [OF r(1), of p cpu] assms obtain s' where
    s': "rr_admit p (cpu, s) = (cpu, s')" "rr_ring s' ds (ts @ [p])" by auto
  then have "rr_serves s' (ts @ p # ds)" by (force simp: rr_serves_def)
  moreover have "q \<noteq> [] \<longrightarrow> ts \<noteq> []" using r by (auto simp: rr_ring_def)
  ultimately show ?thesis using r(2) s'(1) by blast
qed

lemma rr_serves_remove:
  assumes "rr_serves s q" "p \<in> set q"
  shows "\<exists>s'. rr_remove p (cpu, s) = Some (cpu, s') \<and> rr_serves s' (removeAll p q)"
proof -
  obtain ds ts where r: "rr_ring s ds ts" "q = ts @ ds" using assms(1) by (auto simp: rr_serves_def)
  with rr_remove_member [OF r(1), of p cpu] assms(2) show ?thesis
    by (force simp: rr_serves_def)
qed

lemma rr_serves_next:
  "rr_serves s (p # q) \<Longrightarrow> \<exists>s'. rr_next (cpu, s) = (p, cpu, s') \<and> rr_serves s' (q @ [p])"
  using rrs.next_serves [of "(cpu, s)" p q]
  by (auto simp: rr_next_def Let_def irq_simps split: if_splits)

text \<open>
  admitting a thread that is not in the ring places it in the service order without displacing
  the thread to run next, keeps every other thread in its relative place, and restores the
  interrupt flag.
\<close>

theorem rr_admit_correct:
  assumes "rr_serves s q" "p \<noteq> NULL" "p \<notin> set q"
  shows "\<exists>s' q1 q2. rr_admit p (cpu, s) = (cpu, s') \<and> q = q1 @ q2 \<and> (q \<noteq> [] \<longrightarrow> q1 \<noteq> [])
    \<and> rr_serves s' (q1 @ p # q2) \<and> rr_qlen s' = rr_qlen s + 1"
proof -
  obtain s' q1 q2 where S: "rr_admit p (cpu, s) = (cpu, s')" "q = q1 @ q2" "q \<noteq> [] \<longrightarrow> q1 \<noteq> []"
      "rr_serves s' (q1 @ p # q2)"
    using rr_serves_admit [OF assms] by blast
  have "rr_qlen s' = rr_qlen s + 1"
    using rrs.qlen_serves [of "(cpu, s)" q] rrs.qlen_serves [of "(cpu, s')" "q1 @ p # q2"] assms(1) S
    by simp
  with S show ?thesis by blast
qed

text \<open>
  removing a thread of the ring always terminates, takes exactly that thread out of the service
  order and leaves the others in order; the thread to run next becomes its successor when the
  removed thread was next.
\<close>

theorem rr_remove_correct:
  assumes "rr_serves s q" "p \<in> set q"
  shows "\<exists>s'. rr_remove p (cpu, s) = Some (cpu, s') \<and> rr_serves s' (removeAll p q)
    \<and> rr_qlen s' = rr_qlen s - 1"
proof -
  obtain s' where S: "rr_remove p (cpu, s) = Some (cpu, s')" "rr_serves s' (removeAll p q)"
    using rr_serves_remove [OF assms] by blast
  have "distinct q" using rrs.serves_valid [of "(cpu, s)" q] assms(1) by simp
  then have "length (removeAll p q) = length q - 1" "q \<noteq> []"
    using assms(2) by (auto simp: distinct_remove1_removeAll [symmetric] length_remove1)
  with rrs.qlen_serves [of "(cpu, s)" q] rrs.qlen_serves [of "(cpu, s')" "removeAll p q"] assms(1) S
  show ?thesis by (cases q) auto
qed

text \<open>
  C33: the scheduler is fair: in as many decisions as there are threads in the ring, every thread is
  chosen exactly once, in service order, and the ring is then back where it started.
\<close>

theorem rr_fair_round:
  assumes "rr_serves s q"
  shows "\<exists>cpu' s'. run_next rr_next (nat (rr_qlen s)) (cpu, s) = (q, cpu', s')
    \<and> distinct q \<and> rr_serves s' q"
  using rrs.full_round [of "(cpu, s)" q] rrs.serves_valid [of "(cpu, s)" q] assms by auto

text \<open>
  with one thread in the ring, removing any other thread empties the ring: the single-thread
  branch of \<open>rr_remove\<close> does not compare the victim with the thread it drops.
\<close>

theorem rr_remove_lone_thread:
  assumes "rr_serves s [t]" "v \<noteq> NULL" "v \<noteq> t"
  shows "\<exists>s'. rr_remove v (cpu, s) = Some (cpu, s') \<and> rr_serves s' []"
proof -
  from assms(1) have "Count s = 1" using rrs.qlen_serves [of "(cpu, s)" "[t]"]
    by (simp add: rr_qlen_def)
  with assms(2) show ?thesis
    by (simp add: rr_remove_def Let_def irq_simps rr_serves_def rr_ring_empty)
qed

section \<open>A concrete ring\<close>

definition rr_example :: sched_st where
  "rr_example = \<lparr>thr = set_sched_one 2 1 (set_sched_one 1 2 (\<lambda>_. thread_zero)),
     Head = 1, Tail = 2, Current = 2, Count = 2\<rparr>"

lemma rr_example_serves: "rr_serves rr_example [2, 1]"
  unfolding rr_serves_def
  by (rule exI [of _ "[1]"], rule exI [of _ "[2]"]) (simp add: rr_ring_def rr_example_def)

theorem rr_admit_correct_witness:
  "rr_serves rr_example [2, 1] \<and> (3::ptr) \<noteq> NULL \<and> 3 \<notin> set [2, 1 :: ptr] \<and>
   (\<exists>s' q1 q2. rr_admit 3 (\<lparr>IF_flag = True, halted = False\<rparr>, rr_example)
       = (\<lparr>IF_flag = True, halted = False\<rparr>, s') \<and> [2, 1] = q1 @ q2 \<and> q1 \<noteq> []
     \<and> rr_serves s' (q1 @ 3 # q2) \<and> rr_qlen s' = rr_qlen rr_example + 1)"
  using rr_admit_correct [OF rr_example_serves, of 3 "\<lparr>IF_flag = True, halted = False\<rparr>"]
    rr_example_serves
  by (auto simp: rr_example_def)

theorem rr_remove_correct_witness:
  "\<exists>s'. rr_remove 2 (\<lparr>IF_flag = False, halted = False\<rparr>, rr_example)
      = Some (\<lparr>IF_flag = False, halted = False\<rparr>, s') \<and> rr_serves s' [1] \<and> rr_qlen s' = 1"
  using rr_remove_correct [OF rr_example_serves, of 2 "\<lparr>IF_flag = False, halted = False\<rparr>"]
  by (auto simp: rr_example_def rr_qlen_def)

theorem rr_fair_round_witness:
  "\<exists>cpu' s'. run_next rr_next 2 (\<lparr>IF_flag = True, halted = False\<rparr>, rr_example) = ([2, 1], cpu', s')
     \<and> rr_serves s' [2, 1]"
  using rr_fair_round [OF rr_example_serves, of "\<lparr>IF_flag = True, halted = False\<rparr>"]
  by (simp add: rr_example_def rr_qlen_def)

theorem rr_remove_lone_thread_witness:
  "\<exists>s'. rr_remove 5 (\<lparr>IF_flag = True, halted = False\<rparr>,
       \<lparr>thr = set_sched_one 1 1 (\<lambda>_. thread_zero), Head = 1, Tail = 1, Current = 1, Count = 1\<rparr>)
     = Some (\<lparr>IF_flag = True, halted = False\<rparr>, s') \<and> rr_serves s' []"
proof -
  have "rr_serves \<lparr>thr = set_sched_one 1 1 (\<lambda>_. thread_zero), Head = 1, Tail = 1, Current = 1,
      Count = 1\<rparr> [1]"
    unfolding rr_serves_def by (rule exI [of _ "[]"], rule exI [of _ "[1]"]) (simp add: rr_ring_def)
  from rr_remove_lone_thread [OF this, of 5 "\<lparr>IF_flag = True, halted = False\<rparr>"] show ?thesis by simp
qed

end
