(* ===== verification/Vm_Frame.thy ===== *)
theory Vm_Frame
  imports User_Memory
begin

text \<open>
  What the operations of virtual memory leave alone, without any assumption on the state:
  \<open>same_rest\<close> for those that only touch memory and the frame allocator, \<open>vm_only\<close> for those
  that may also move the heap pointer, switch interrupts or stop the processor. The clients of
  virtual memory rest on these facts.
\<close>

definition vm_only :: "'a vm_st_scheme \<Rightarrow> 'a vm_st_scheme \<Rightarrow> bool" where
  "vm_only s s' \<longleftrightarrow> s' = s\<lparr>IF_flag := IF_flag s', halted := halted s', usable_regions := usable_regions s',
     free_frames := free_frames s', mem := mem s', kernel_va := kernel_va s'\<rparr>"

lemma vm_only_refl [simp]: "vm_only s s"
  by (simp add: vm_only_def)

lemma vm_only_trans: "vm_only s t \<Longrightarrow> vm_only t u \<Longrightarrow> vm_only s u"
  by (cases s; cases t; cases u) (simp add: vm_only_def)

lemma same_rest_vm_only: "same_rest s t \<Longrightarrow> vm_only s t"
  by (cases s; cases t) (simp add: vm_only_def same_rest_def)

lemma vm_only_irq [simp]:
  "vm_only s (CLI s)" "vm_only s (STI s)" "vm_only s (HLT s)" "vm_only s (irq_restore b s)"
  by (cases s; simp add: vm_only_def CLI_def STI_def HLT_def irq_restore_def)+

lemma vm_onlyD:
  assumes "vm_only s s'"
  shows "CR3 s' = CR3 s" "kernel_cr3 s' = kernel_cr3 s" "vm_st.more s' = vm_st.more s" "link s' = link s"
    "isr_table s' = isr_table s" "idt s' = idt s" "tss s' = tss s" "pic1 s' = pic1 s" "pic2 s' = pic2 s"
  using assms by (cases s; cases s'; simp add: vm_only_def)+

lemma same_restD:
  assumes "same_rest s s'"
  shows "IF_flag s' = IF_flag s" "halted s' = halted s" "kernel_va s' = kernel_va s" "CR3 s' = CR3 s"
    "kernel_cr3 s' = kernel_cr3 s" "vm_st.more s' = vm_st.more s" "link s' = link s"
  using assms by (cases s; cases s'; simp add: same_rest_def)+

section \<open>Frames and tables\<close>

lemma same_rest_free: "same_rest s (MMU_pf_free a s)"
  by (cases s) (simp add: same_rest_def MMU_pf_free_def Let_def)

lemma same_rest_upd: "same_rest s (s\<lparr>mem := m\<rparr>)"
  by (cases s) (simp add: same_rest_def)

lemma same_rest_fold: "(\<And>i s. same_rest s (f i s)) \<Longrightarrow> same_rest s (fold f is s)"
  by (induction "is" arbitrary: s) (auto intro: same_rest_trans)

lemma vm_only_fold: "(\<And>i s. vm_only s (f i s)) \<Longrightarrow> vm_only s (fold f is s)"
  by (induction "is" arbitrary: s) (auto intro: vm_only_trans)

lemma same_rest_get_or_alloc: "same_rest s (snd (get_or_alloc fill e s))"
  using same_rest_alloc [of s]
  by (auto simp: get_or_alloc_def Let_def case_prod_beta intro!: same_rest_mem)

lemma same_rest_create: "same_rest s (snd (create_path n t va s))"
proof (induction n arbitrary: t s)
  case (Suc n)
  then show ?case
    using same_rest_get_or_alloc same_rest_trans
    by (auto simp: Let_def case_prod_beta) blast+
qed simp

lemma same_rest_travel: "same_rest s (snd (travel_pagetable_in cr3 va c s))"
  using same_rest_create [of s] by (cases c) (simp_all add: travel_create_path travel_walk_mode)

lemma same_rest_demand_page_in: "same_rest s (snd (demand_page_in cr3 va s))"
  using same_rest_travel [of s cr3 va True] by (simp add: demand_page_in_def case_prod_beta Let_def same_rest_mem)

lemma same_rest_demand_pages: "same_rest s (snd (demand_pages cr3 vas s))"
proof (induction vas arbitrary: s)
  case (Cons va vas)
  then show ?case
    using same_rest_trans [OF same_rest_demand_page_in [of s cr3 va]] same_rest_demand_page_in [of s cr3 va]
    by (simp add: case_prod_beta Let_def)
qed simp

lemma same_rest_make_page_present: "same_rest s (snd (make_page_present p va s))"
  using same_rest_alloc [of s] by (simp add: make_page_present_def case_prod_beta Let_def same_rest_mem)

lemma same_rest_write_user_loop: "same_rest s (snd (write_user_loop cr3 dst bytes len zero don s))"
proof (induction "unat len - unat don" arbitrary: don s rule: less_induct)
  case less
  show ?case
  proof (cases "don < len")
    case False
    then show ?thesis by (simp add: write_user_loop.simps)
  next
    case True
    obtain p s0 where tr: "travel_pagetable_in cr3 (dst + don) False s = (p, s0)" by fastforce
    obtain r s1 where mk: "make_page_present p (dst + don) s0 = (r, s1)" by fastforce
    note eq = write_user_loop_round [OF True tr mk refl refl, of bytes zero]
    have s1: "same_rest s s1"
      using same_rest_travel [of s cr3 "dst + don" False] same_rest_make_page_present [of s0 p "dst + don"] tr mk
        same_rest_trans by auto
    have "unat len - unat (don + range_chunk (dst + don) (len - don)) < unat len - unat don"
      using chunk_range(3-5) [OF refl True, of "dst + don"] by simp
    from less [OF this] have "same_rest s (snd (write_user_loop cr3 dst bytes len zero
        (don + range_chunk (dst + don) (len - don)) (s1\<lparr>mem := m\<rparr>)))" for m
      by (rule same_rest_trans [OF same_rest_mem [OF s1]])
    then show ?thesis unfolding eq using s1 by simp
  qed
qed

section \<open>Freeing pages\<close>

lemma same_rest_drop: "same_rest s (drop_table_if_empty t e s)"
  using same_rest_free [of s t] by (simp add: drop_table_if_empty_def Let_def same_rest_mem)

lemma same_rest_free_empty_tables: "same_rest s (free_empty_tables va s)"
  using same_rest_drop same_rest_trans by (auto simp: free_empty_tables_def Let_def) blast

lemma same_rest_free_page: "same_rest s (MMU_free_page va s)"
proof -
  have "same_rest s (free_empty_tables v (s1\<lparr>mem := m\<rparr>))" if "same_rest s s1" for s1 m v
    using same_rest_trans [OF same_rest_mem [OF that] same_rest_free_empty_tables] .
  moreover have "same_rest s (MMU_pf_free a s1)" if "same_rest s s1" for s1 a
    using same_rest_trans [OF that same_rest_free] .
  ultimately show ?thesis
    by (simp add: MMU_free_page_def Let_def travel_pagetable_def travel_walk_mode split: option.splits)
qed

lemma same_rest_free_pages: "same_rest s (MMU_free_pages va n s)"
  unfolding MMU_free_pages_def by (rule same_rest_fold) (rule same_rest_free_page)


section \<open>The kernel's interface\<close>

lemmas reserve_simps = same_rest_def vm_only_def irq_restore_def are_interrupts_enabled_def CLI_def STI_def

lemma irq_cancel:
  "are_interrupts_enabled (irq_restore (are_interrupts_enabled s) s') = are_interrupts_enabled s"
  if "same_rest (CLI s) s'"
  using same_restD(1) [OF that] by (auto simp: irq_restore_def are_interrupts_enabled_def CLI_def STI_def)

lemma alloc_page_cases:
  assumes "MMU_alloc_page s = (p, s')"
  shows "vm_only s s'" "IF_flag s' = IF_flag s" "halted s' = halted s"
    "p = NULL \<and> kernel_va s' = kernel_va s \<or> p = kernel_va s \<and> kernel_va s' = kernel_va s + PAGE_SIZE"
proof -
  obtain r t where d: "demand_page_in (CR3 s) (kernel_va s) (CLI s) = (r, t)" by fastforce
  have t: "same_rest (CLI s) t" using same_rest_demand_page_in [of "CLI s"] d by (metis snd_conv)
  have eq: "(p, s') = (if r < 0 then (NULL, irq_restore (are_interrupts_enabled s) t)
      else (kernel_va s, irq_restore (are_interrupts_enabled s) (t\<lparr>kernel_va := kernel_va t + PAGE_SIZE\<rparr>)))"
    using assms d by (auto simp: MMU_alloc_page_def demand_page_def MMU_current_p4_def Let_def CLI_def split: if_splits)
  show "vm_only s s'" "IF_flag s' = IF_flag s" "halted s' = halted s"
    "p = NULL \<and> kernel_va s' = kernel_va s \<or> p = kernel_va s \<and> kernel_va s' = kernel_va s + PAGE_SIZE"
    using t eq by (cases s; cases t; auto simp: reserve_simps split: if_splits)+
qed

lemma alloc_pages_cases:
  assumes "MMU_alloc_pages n s = (p, s')"
  shows "vm_only s s'" "IF_flag s' = IF_flag s" "halted s' = halted s"
    "p = NULL \<and> kernel_va s' = kernel_va s \<or> p = kernel_va s \<and> kernel_va s' = kernel_va s + of_int n * PAGE_SIZE"
proof -
  obtain r t where d: "demand_pages (CR3 s) (page_run (kernel_va s) n) (CLI s) = (r, t)" by fastforce
  have t: "same_rest (CLI s) t" using same_rest_demand_pages [of "CLI s"] d by (metis snd_conv)
  have eq: "(p, s') = (if r < 0 then (NULL, irq_restore (are_interrupts_enabled s) t)
      else (kernel_va s, irq_restore (are_interrupts_enabled s) (t\<lparr>kernel_va := kernel_va t + of_int n * PAGE_SIZE\<rparr>)))"
    using assms d by (auto simp: MMU_alloc_pages_def MMU_current_p4_def Let_def CLI_def split: if_splits)
  show "vm_only s s'" "IF_flag s' = IF_flag s" "halted s' = halted s"
    "p = NULL \<and> kernel_va s' = kernel_va s \<or> p = kernel_va s \<and> kernel_va s' = kernel_va s + of_int n * PAGE_SIZE"
    using t eq by (cases s; cases t; auto simp: reserve_simps split: if_splits)+
qed

section \<open>Destroying and cloning\<close>

lemma vm_only_alive: "(\<And>s. vm_only s (f s)) \<Longrightarrow> vm_only s (alive f s)"
  by (simp add: alive_def)

lemma vm_only_destroy_PT: "vm_only s (destroy_userspace_PT pt s)"
  unfolding destroy_userspace_PT_def
  by (rule vm_only_fold)
    (use same_rest_free in \<open>auto simp: Let_def intro!: same_rest_vm_only same_rest_mem same_rest_upd\<close>)

lemma vm_only_destroy_entry:
  assumes "\<And>t s. vm_only s (d t s)"
  shows "vm_only s (destroy_entry d e s)"
  unfolding destroy_entry_def Let_def
  by (intro vm_only_trans [OF vm_only_trans [OF assms vm_only_alive] vm_only_alive] same_rest_vm_only
      same_rest_free same_rest_upd)

lemma vm_only_destroy_PD: "vm_only s (destroy_userspace_PD pd s)"
  unfolding destroy_userspace_PD_def
  by (intro vm_only_fold vm_only_alive)
    (auto simp: Let_def intro: vm_only_destroy_entry vm_only_destroy_PT vm_only_trans [OF vm_only_irq(1) vm_only_irq(3)])

lemma vm_only_destroy_PDPT: "vm_only s (destroy_userspace_PDPT pdpt s)"
  unfolding destroy_userspace_PDPT_def
  by (intro vm_only_fold vm_only_alive)
    (auto simp: Let_def intro: vm_only_destroy_entry vm_only_destroy_PD vm_only_trans [OF vm_only_irq(1) vm_only_irq(3)])

lemma vm_only_destroy_userspace: "vm_only s (MMU_destroy_userspace cr3 s)"
proof -
  let ?e = "\<lambda>i. entry_at (cr3 AND PAGE_MASK) (of_nat i)"
  let ?f = "\<lambda>i. alive (\<lambda>s. if \<not> pte_present (mem s (?e i)) then s else destroy_entry destroy_userspace_PDPT (?e i) s)"
  have f: "vm_only t (fold ?f is t)" for t "is"
    by (intro vm_only_fold vm_only_alive) (auto intro: vm_only_destroy_entry vm_only_destroy_PDPT)
  have h: "vm_only t (irq_restore b (MMU_pf_free a t))" for t a b
    by (rule vm_only_trans [OF same_rest_vm_only [OF same_rest_free] vm_only_irq(4)])
  have "vm_only s (alive (\<lambda>t. irq_restore b (MMU_pf_free a t)) (fold ?f is (CLI s)))" for a b "is"
    by (rule vm_only_trans [OF vm_only_irq(1) vm_only_trans [OF f vm_only_alive [OF h]]])
  moreover have "vm_only s (irq_restore b (CLI s))" for b by (rule vm_only_trans [OF vm_only_irq(1,4)])
  ultimately show ?thesis unfolding MMU_destroy_userspace_def Let_def by simp
qed

lemma vm_only_each_entry: "(\<And>i s. vm_only s (snd (f i s))) \<Longrightarrow> vm_only s (snd (each_entry f is s))"
proof (induction "is" arbitrary: s)
  case (Cons i "is")
  then show ?case using vm_only_trans [of s "snd (f i s)"] by (simp add: case_prod_beta Let_def)
qed simp


lemma vm_only_alloc_mem:
  assumes "MMU_pf_alloc s = (f, s1)"
  shows "vm_only s s1" "vm_only s (s1\<lparr>mem := m\<rparr>)"
proof -
  have s1: "same_rest s s1" using same_rest_alloc [of s] assms by simp
  then show "vm_only s s1" by (rule same_rest_vm_only)
  show "vm_only s (s1\<lparr>mem := m\<rparr>)" by (rule same_rest_vm_only [OF same_rest_mem [OF s1]])
qed

lemma vm_only_create_user_p4: "vm_only s (snd (MMU_create_user_p4 s))"
  by (cases "MMU_pf_alloc s") (auto simp: MMU_create_user_p4_def Let_def vm_only_alloc_mem)

lemma vm_only_upd: "vm_only s (s\<lparr>mem := m\<rparr>)"
  by (rule same_rest_vm_only [OF same_rest_upd])

lemma vm_only_clone_PT: "vm_only s (snd (clone_userspace_PT d e s))"
  unfolding clone_userspace_PT_def
proof (rule vm_only_each_entry, goal_cases)
  case (1 i s)
  have "vm_only s (s1\<lparr>mem := m'\<rparr>)" if "MMU_pf_alloc (s\<lparr>mem := m\<rparr>) = (f, s1)" for m m' f s1
    by (rule vm_only_trans [OF vm_only_upd vm_only_alloc_mem(2) [OF that]])
  then show ?case by (auto simp: Let_def vm_only_upd split: prod.split)
qed

lemma vm_only_clone_entry:
  assumes "\<And>a b s. vm_only s (snd (c a b s))"
  shows "vm_only s (snd (clone_entry c d e s))"
proof (cases "MMU_pf_alloc s")
  case (Pair f s1)
  have "vm_only s (snd (c a b (s1\<lparr>mem := m\<rparr>)))" for a b m
    by (rule vm_only_trans [OF vm_only_alloc_mem(2) [OF Pair] assms])
  then show ?thesis using Pair by (simp add: clone_entry_def Let_def vm_only_alloc_mem)
qed

lemma vm_only_clone_PD: "vm_only s (snd (clone_userspace_PD d e s))"
  unfolding clone_userspace_PD_def
  by (rule vm_only_each_entry) (auto simp: Let_def intro: vm_only_clone_entry vm_only_clone_PT)

lemma vm_only_clone_PDPT: "vm_only s (snd (clone_userspace_PDPT d e s))"
  unfolding clone_userspace_PDPT_def
  by (rule vm_only_each_entry) (auto simp: Let_def intro: vm_only_clone_entry vm_only_clone_PD)

lemma vm_only_clone_userspace: "vm_only s (snd (MMU_clone_userspace cr3 s))"
proof -
  let ?e = "\<lambda>a i. entry_at (a AND PAGE_MASK) (of_nat i)"
  let ?f = "\<lambda>c i s. if \<not> pte_present (mem s (?e cr3 i)) then (0, s)
    else clone_entry clone_userspace_PDPT (?e c i) (?e cr3 i) s"
  obtain c t where t: "MMU_create_user_p4 (CLI s) = (c, t)" by fastforce
  have st: "vm_only s t"
    using vm_only_trans [OF vm_only_irq(1) vm_only_create_user_p4, of s] t by simp
  obtain r u where u: "each_entry (?f c) [unat (PML4_INDEX VA_USER_BASE)..<512] t = (r, u)" by fastforce
  have "vm_only t (snd (each_entry (?f c) [unat (PML4_INDEX VA_USER_BASE)..<512] t))"
    by (rule vm_only_each_entry) (auto intro: vm_only_clone_entry vm_only_clone_PDPT)
  then have su: "vm_only s u" using vm_only_trans [OF st] u by simp
  have "vm_only u (alive (irq_restore b) (MMU_destroy_userspace c u))" for b
    by (rule vm_only_trans [OF vm_only_destroy_userspace vm_only_alive]) simp
  then have "vm_only s (alive (irq_restore b) (MMU_destroy_userspace c u))" for b by (rule vm_only_trans [OF su])
  then show ?thesis
    unfolding MMU_clone_userspace_def Let_def t u prod.case
    using vm_only_trans [OF st vm_only_irq(4)] vm_only_trans [OF su vm_only_irq(4)]
      vm_only_trans [OF vm_only_irq(1) vm_only_irq(4), of s] by simp
qed

end
