(* ===== verification/Kmalloc.thy ===== *)
theory Kmalloc
  imports Vm_Frame "HOL-Library.Disjoint_Sets"
begin

text \<open>
  The kernel heap (\<open>memory/kmalloc.c\<close>): six pools of fixed-size blocks, each with a free list
  threaded through the blocks, and whole pages for larger requests. The quadwords of the kernel heap
  are kept by virtual address; that their pages are backed on demand does not show in them. The
  pools are a static array at \<open>pools_at\<close>, whose elements of 16 bytes a block's header points to.
\<close>

text \<open>The block size of a pool is positive; it is kept at the width its uses convert it to.\<close>

record kmalloc_pool =
  max_size :: u64
  avail_blocks :: int
  pool_head :: ptr

record kmem_st = vm_st +
  pools :: "kmalloc_pool list"
  pools_at :: ptr
  kheap :: "u64 \<Rightarrow> u64"

definition NUM_POOLS :: nat where "NUM_POOLS = 6"

definition sizeof_kmalloc_extra :: u64 where "sizeof_kmalloc_extra = 16"

definition pool_sizes :: "u64 list" where
  "pool_sizes = [32, 64, 128, 512, 1024, 2048]"

definition pools_init :: "kmalloc_pool list" where
  "pools_init = map (\<lambda>n. \<lparr>max_size = n, avail_blocks = 0, pool_head = NULL\<rparr>) pool_sizes"

definition pool_ptr :: "'a kmem_st_scheme \<Rightarrow> nat \<Rightarrow> ptr" where
  "pool_ptr s i = pools_at s + 16 * of_nat i"

definition pool_index :: "'a kmem_st_scheme \<Rightarrow> ptr \<Rightarrow> nat" where
  "pool_index s p = unat ((p - pools_at s) div 16)"

text \<open>Put a block in front of the free list of pool \<open>i\<close>.\<close>

definition push_block :: "nat \<Rightarrow> ptr \<Rightarrow> 'a kmem_st_scheme \<Rightarrow> 'a kmem_st_scheme" where
  "push_block i block s =
     s\<lparr>kheap := (kheap s)(block := pool_head (pools s ! i)),
       pools := (pools s)[i := (pools s ! i)\<lparr>pool_head := block\<rparr>]\<rparr>"

definition add_avail :: "nat \<Rightarrow> int \<Rightarrow> 'a kmem_st_scheme \<Rightarrow> 'a kmem_st_scheme" where
  "add_avail i n s = s\<lparr>pools := (pools s)[i := (pools s ! i)\<lparr>avail_blocks := avail_blocks (pools s ! i) + n\<rparr>]\<rparr>"

definition expand_pool :: "nat \<Rightarrow> 'a kmem_st_scheme \<Rightarrow> 'a kmem_st_scheme" where
  "expand_pool i s =
     (let (page, s) = MMU_alloc_page s
      in if page = NULL then s
         else let num_blocks = unat (PAGE_SIZE div max_size (pools s ! i));
                  s = fold (\<lambda>j s. push_block i (page + of_nat j * max_size (pools s ! i)) s) [0..<num_blocks] s
              in add_avail i (int num_blocks) s)"

definition best_pool :: "'a kmem_st_scheme \<Rightarrow> u64 \<Rightarrow> nat option" where
  "best_pool s total_size = first_index (\<lambda>p. total_size \<le> max_size p) (pools s)"

text \<open>The part after the block is found: the header, the interrupt flag, the address behind the header.\<close>

definition kmalloc_finish :: "ptr \<Rightarrow> ptr \<Rightarrow> u64 \<Rightarrow> bool \<Rightarrow> 'a kmem_st_scheme \<Rightarrow> ptr \<times> 'a kmem_st_scheme" where
  "kmalloc_finish block pool sz ints_enabled s =
     (block + sizeof_kmalloc_extra,
      irq_restore ints_enabled (s\<lparr>kheap := (kheap s)(block := pool, block + 8 := sz)\<rparr>))"

definition kmalloc :: "u64 \<Rightarrow> 'a kmem_st_scheme \<Rightarrow> ptr \<times> 'a kmem_st_scheme" where
  "kmalloc sz s =
     (if sz = 0 then (NULL, s)
      else let ints_enabled = are_interrupts_enabled s;
               s = CLI s;
               total_size = sz + sizeof_kmalloc_extra
           in case best_pool s total_size of
                Some i \<Rightarrow>
                  let s = (if avail_blocks (pools s ! i) = 0 then expand_pool i s else s)
                  in if avail_blocks (pools s ! i) = 0 then (NULL, s)
                     else let block = pool_head (pools s ! i);
                              s = s\<lparr>pools := (pools s)[i := (pools s ! i)\<lparr>pool_head := kheap s block,
                                     avail_blocks := avail_blocks (pools s ! i) - 1\<rparr>]\<rparr>
                          in kmalloc_finish block (pool_ptr s i) sz ints_enabled s
              | None \<Rightarrow>
                  let num_pages = (total_size + PAGE_SIZE - 1) div PAGE_SIZE;
                      (block, s) = MMU_alloc_pages (sint (ucast num_pages :: u32)) s
                  in if block = NULL then (NULL, s) else kmalloc_finish block NULL sz ints_enabled s)"

definition kfree :: "ptr \<Rightarrow> 'a kmem_st_scheme \<Rightarrow> 'a kmem_st_scheme" where
  "kfree addr s =
     (if addr = NULL then s
      else let ints_enabled = are_interrupts_enabled s;
               s = CLI s;
               header = addr - sizeof_kmalloc_extra
           in irq_restore ints_enabled
                (if kheap s header \<noteq> NULL
                 then let i = pool_index s (kheap s header) in add_avail i 1 (push_block i header s)
                 else let total_size = kheap s (header + 8) + sizeof_kmalloc_extra;
                          num_pages = (total_size + PAGE_SIZE - 1) div PAGE_SIZE
                      in MMU_free_pages header (sint (ucast num_pages :: u32)) s))"


section \<open>The shape of the heap\<close>

text \<open>
  The heap as a set of disjoint regions below a bound: the free blocks of the pools, whose lists are
  \<open>Fs\<close>, and the live allocations \<open>L\<close>, each with its first address and its length.
\<close>

definition block_size :: "nat \<Rightarrow> nat" where
  "block_size i = unat (pool_sizes ! i)"

definition span :: "ptr \<times> nat \<Rightarrow> nat set" where
  "span r = {unat (fst r)..<unat (fst r) + snd r}"

definition free_regions :: "(nat \<Rightarrow> ptr list) \<Rightarrow> (ptr \<times> nat) set" where
  "free_regions Fs = {(a, block_size i) | a i. i < NUM_POOLS \<and> a \<in> set (Fs i)}"

definition header_ok :: "'a kmem_st_scheme \<Rightarrow> ptr \<times> nat \<Rightarrow> bool" where
  "header_ok s r \<longleftrightarrow>
     (\<exists>i < NUM_POOLS. snd r = block_size i \<and> kheap s (fst r) = pool_ptr s i) \<or> kheap s (fst r) = NULL"

definition heap_lists :: "'a kmem_st_scheme \<Rightarrow> (nat \<Rightarrow> ptr list) \<Rightarrow> (ptr \<times> nat) set \<Rightarrow> nat \<Rightarrow> bool" where
  "heap_lists s Fs L B \<longleftrightarrow>
     map max_size (pools s) = pool_sizes \<and>
     0 < unat (pools_at s) \<and> unat (pools_at s) + 96 < 2 ^ 64 \<and> B < 2 ^ 63 \<and>
     (\<forall>i < NUM_POOLS. llist (kheap s) NULL (pool_head (pools s ! i)) (Fs i)) \<and>
     free_regions Fs \<inter> L = {} \<and> disjoint_family_on span (free_regions Fs \<union> L) \<and>
     (\<forall>r \<in> free_regions Fs \<union> L. 0 < unat (fst r) \<and> unat (fst r) + snd r \<le> B \<and> 32 \<le> snd r) \<and>
     (\<forall>r \<in> L. header_ok s r)"

definition heap_ok :: "'a kmem_st_scheme \<Rightarrow> (nat \<Rightarrow> ptr list) \<Rightarrow> (ptr \<times> nat) set \<Rightarrow> bool" where
  "heap_ok s Fs L \<longleftrightarrow> heap_lists s Fs L (unat (kernel_va s)) \<and> 0 < unat (kernel_va s) \<and>
     (\<forall>i < NUM_POOLS. avail_blocks (pools s ! i) = int (length (Fs i)))"

lemma heap_listsD:
  assumes "heap_lists s Fs L B"
  shows "map max_size (pools s) = pool_sizes" "length (pools s) = NUM_POOLS"
    "0 < unat (pools_at s)" "unat (pools_at s) + 96 < 2 ^ 64" "B < 2 ^ 63"
    "i < NUM_POOLS \<Longrightarrow> llist (kheap s) NULL (pool_head (pools s ! i)) (Fs i)"
    "free_regions Fs \<inter> L = {}" "disjoint_family_on span (free_regions Fs \<union> L)"
    "r \<in> free_regions Fs \<union> L \<Longrightarrow> 0 < unat (fst r)" "r \<in> free_regions Fs \<union> L \<Longrightarrow> unat (fst r) + snd r \<le> B"
    "r \<in> free_regions Fs \<union> L \<Longrightarrow> 32 \<le> snd r" "r \<in> L \<Longrightarrow> header_ok s r"
proof -
  have "length (pools s) = length pool_sizes" using assms by (metis heap_lists_def length_map)
  then show "length (pools s) = NUM_POOLS" by (simp add: pool_sizes_def NUM_POOLS_def)
qed (use assms in \<open>simp_all add: heap_lists_def\<close>)

lemma heap_listsI:
  assumes "map max_size (pools s) = pool_sizes" "0 < unat (pools_at s)" "unat (pools_at s) + 96 < 2 ^ 64" "B < 2 ^ 63"
    "\<And>i. i < NUM_POOLS \<Longrightarrow> llist (kheap s) NULL (pool_head (pools s ! i)) (Fs i)"
    "free_regions Fs \<inter> L = {}" "disjoint_family_on span (free_regions Fs \<union> L)"
    "\<And>r. r \<in> free_regions Fs \<union> L \<Longrightarrow> 0 < unat (fst r) \<and> unat (fst r) + snd r \<le> B \<and> 32 \<le> snd r"
    "\<And>r. r \<in> L \<Longrightarrow> header_ok s r"
  shows "heap_lists s Fs L B"
  using assms unfolding heap_lists_def by blast

lemma pool_cases:
  assumes "i < NUM_POOLS"
  obtains "i = 0" | "i = 1" | "i = 2" | "i = 3" | "i = 4" | "i = 5"
  using assms by (auto simp: NUM_POOLS_def less_Suc_eq numeral_eq_Suc)

lemma max_size_pool: "heap_lists s Fs L B \<Longrightarrow> i < NUM_POOLS \<Longrightarrow> unat (max_size (pools s ! i)) = block_size i"
proof -
  assume h: "heap_lists s Fs L B" and i: "i < NUM_POOLS"
  have "max_size (pools s ! i) = map max_size (pools s) ! i" using heap_listsD(2) [OF h] i by simp
  then show ?thesis unfolding heap_listsD(1) [OF h] by (simp add: block_size_def)
qed

lemma block_size_bounds: "i < NUM_POOLS \<Longrightarrow> 32 \<le> block_size i \<and> block_size i \<le> 2048 \<and> block_size i dvd 4096"
  by (elim pool_cases) (simp_all add: block_size_def pool_sizes_def)

lemma pool_index_ptr:
  assumes "heap_lists s Fs L B" "i < NUM_POOLS"
  shows "pool_index s (pool_ptr s i) = i" "pool_ptr s i \<noteq> NULL"
proof -
  have i: "i < 6" using assms(2) by (simp add: NUM_POOLS_def)
  then have u: "unat (16 * of_nat i :: u64) = 16 * i" by (simp add: unat_word_ariths unsigned_of_nat take_bit_nat_eq_self)
  then show "pool_index s (pool_ptr s i) = i" by (simp add: pool_index_def pool_ptr_def unat_div)
  have "unat (pool_ptr s i) = unat (pools_at s) + 16 * i"
    using heap_listsD(4) [OF assms(1)] i u by (simp add: pool_ptr_def unat_word_ariths)
  then show "pool_ptr s i \<noteq> NULL" using heap_listsD(3) [OF assms(1)] by auto
qed

lemma block_size_inj: "i < NUM_POOLS \<Longrightarrow> j < NUM_POOLS \<Longrightarrow> block_size i = block_size j \<Longrightarrow> i = j"
  by (elim pool_cases) (simp_all add: block_size_def pool_sizes_def)

lemma free_regions_mem: "(a, n) \<in> free_regions Fs \<longleftrightarrow> (\<exists>i < NUM_POOLS. n = block_size i \<and> a \<in> set (Fs i))"
  by (auto simp: free_regions_def)

lemma free_regions_push:
  assumes "i < NUM_POOLS"
  shows "free_regions (Fs(i := a # Fs i)) = insert (a, block_size i) (free_regions Fs)"
proof (rule set_eqI)
  fix r :: "ptr \<times> nat"
  obtain b n where r: "r = (b, n)" by fastforce
  have "(\<exists>j < NUM_POOLS. n = block_size j \<and> b \<in> set ((Fs(i := a # Fs i)) j)) \<longleftrightarrow>
      b = a \<and> n = block_size i \<or> (\<exists>j < NUM_POOLS. n = block_size j \<and> b \<in> set (Fs j))"
    using assms by (metis fun_upd_apply list.set_intros(1,2) set_ConsD)
  then show "r \<in> free_regions (Fs(i := a # Fs i)) \<longleftrightarrow> r \<in> insert (a, block_size i) (free_regions Fs)"
    unfolding r by (simp add: free_regions_mem)
qed

lemma free_regions_pop:
  assumes "i < NUM_POOLS" "Fs i = a # as" "a \<notin> set as"
  shows "free_regions Fs = insert (a, block_size i) (free_regions (Fs(i := as)))"
    "(a, block_size i) \<notin> free_regions (Fs(i := as))"
proof -
  have "Fs = (Fs(i := as))(i := a # (Fs(i := as)) i)" using assms(2) by auto
  then show "free_regions Fs = insert (a, block_size i) (free_regions (Fs(i := as)))"
    using free_regions_push [OF assms(1), of "Fs(i := as)" a] by simp
  show "(a, block_size i) \<notin> free_regions (Fs(i := as))"
    using assms block_size_inj [OF assms(1)] unfolding free_regions_mem by auto
qed

definition fresh :: "(nat \<Rightarrow> ptr list) \<Rightarrow> (ptr \<times> nat) set \<Rightarrow> ptr \<times> nat \<Rightarrow> bool" where
  "fresh Fs L r \<longleftrightarrow> (\<forall>r' \<in> free_regions Fs \<union> L. span r' \<inter> span r = {})"

lemma fresh_outside:
  assumes "heap_lists s Fs L B" "fresh Fs L r" "unat x \<in> span r"
  shows "i < NUM_POOLS \<Longrightarrow> x \<notin> set (Fs i)" "r' \<in> L \<Longrightarrow> fst r' \<noteq> x"
proof -
  have st: "unat (fst r') \<in> span r'" if "r' \<in> free_regions Fs \<union> L" for r'
    using heap_listsD(11) [OF assms(1) that] by (simp add: span_def)
  show "x \<notin> set (Fs i)" if "i < NUM_POOLS"
  proof
    assume "x \<in> set (Fs i)"
    then have "(x, block_size i) \<in> free_regions Fs" using that by (auto simp: free_regions_mem)
    then show False using st assms(2,3) by (fastforce simp: fresh_def)
  qed
  show "fst r' \<noteq> x" if "r' \<in> L"
    using st [of r'] that assms(2,3) by (fastforce simp: fresh_def)
qed

lemma disjoint_insert: "disjoint_family_on span (insert r R) \<longleftrightarrow> disjoint_family_on span R \<and> (\<forall>r' \<in> R - {r}. span r' \<inter> span r = {})"
  unfolding disjoint_family_on_def by blast

lemma pool_upd_sizes: "max_size p = max_size (ps ! i) \<Longrightarrow> map max_size (ps[i := p]) = map max_size ps"
  by (metis list_update_id map_update)

lemma heap_lists_push:
  assumes h: "heap_lists s Fs L B" and i: "i < NUM_POOLS" and f: "fresh Fs L (a, block_size i)"
    and a: "0 < unat a" "unat a + block_size i \<le> B'" and B: "B \<le> B'" "B' < 2 ^ 63"
  shows "heap_lists (push_block i a s) (Fs(i := a # Fs i)) L B'"
proof -
  note bs = block_size_bounds [OF i]
  have "unat a \<in> span (a, block_size i)" using bs by (simp add: span_def)
  note out = fresh_outside [OF h f this]
  have len: "i < length (pools s)" using heap_listsD(2) [OF h] i by simp
  show ?thesis
  proof (rule heap_listsI)
    show "map max_size (pools (push_block i a s)) = pool_sizes"
      using heap_listsD(1) [OF h] by (simp add: push_block_def pool_upd_sizes)
    show "0 < unat (pools_at (push_block i a s))" "unat (pools_at (push_block i a s)) + 96 < 2 ^ 64" "B' < 2 ^ 63"
      using heap_listsD(3,4) [OF h] B by (simp_all add: push_block_def)
    show "llist (kheap (push_block i a s)) NULL (pool_head (pools (push_block i a s) ! j)) ((Fs(i := a # Fs i)) j)"
      if "j < NUM_POOLS" for j
      using heap_listsD(6) [OF h that] out(1) [OF that] out(1) [OF i] a(1) len
      by (cases "j = i") (auto simp: push_block_def nth_list_update)
    show "free_regions (Fs(i := a # Fs i)) \<inter> L = {}"
      using heap_listsD(7) [OF h] out(2) unfolding free_regions_push [OF i] by force
    show "disjoint_family_on span (free_regions (Fs(i := a # Fs i)) \<union> L)"
      using heap_listsD(8) [OF h] f unfolding free_regions_push [OF i] by (simp add: disjoint_insert fresh_def)
    show "0 < unat (fst r) \<and> unat (fst r) + snd r \<le> B' \<and> 32 \<le> snd r"
      if "r \<in> free_regions (Fs(i := a # Fs i)) \<union> L" for r
    proof (cases "r = (a, block_size i)")
      case False
      then have "r \<in> free_regions Fs \<union> L" using that unfolding free_regions_push [OF i] by simp
      from heap_listsD(9-11) [OF h this] show ?thesis using B(1) by simp
    qed (use a bs in simp)
    show "header_ok (push_block i a s) r" if "r \<in> L" for r
      using heap_listsD(12) [OF h that] out(2) [OF that] by (auto simp: header_ok_def push_block_def pool_ptr_def)
  qed
qed

lemma heap_lists_remove: "heap_lists s Fs L B \<Longrightarrow> heap_lists s Fs (L - X) B"
  unfolding heap_lists_def by (auto intro: disjoint_family_on_mono [rotated])


text \<open>Taking the first block of a free list and writing its header.\<close>

definition take_block :: "nat \<Rightarrow> ptr \<Rightarrow> u64 \<Rightarrow> 'a kmem_st_scheme \<Rightarrow> 'a kmem_st_scheme" where
  "take_block i a sz s =
     s\<lparr>pools := (pools s)[i := (pools s ! i)\<lparr>pool_head := kheap s a, avail_blocks := avail_blocks (pools s ! i) - 1\<rparr>],
       kheap := (kheap s)(a := pool_ptr s i, a + 8 := sz)\<rparr>"

lemma heap_lists_take:
  assumes h: "heap_lists s Fs L B" and i: "i < NUM_POOLS" and F: "Fs i = a # as"
  shows "heap_lists (take_block i a sz s) (Fs(i := as)) (insert (a, block_size i) L) B"
    "pool_head (pools s ! i) = a" "fresh (Fs(i := as)) L (a, block_size i)"
proof -
  have ll: "llist (kheap s) NULL (pool_head (pools s ! i)) (a # as)" using heap_listsD(6) [OF h i] F by simp
  then show hd: "pool_head (pools s ! i) = a" by simp
  have a: "a \<notin> set as" using llist_distinct [OF ll] by simp
  note pop = free_regions_pop [where Fs = Fs, OF i F a]
  note bs = block_size_bounds [OF i]
  have ain: "(a, block_size i) \<in> free_regions Fs \<union> L" using pop by blast
  note b = heap_listsD(9,10) [OF h ain]
  have aL: "(a, block_size i) \<notin> L" using heap_listsD(7) [OF h] ain by (auto simp: pop(1))
  show fr: "fresh (Fs(i := as)) L (a, block_size i)"
    unfolding fresh_def
  proof
    fix r assume r: "r \<in> free_regions (Fs(i := as)) \<union> L"
    then have "r \<noteq> (a, block_size i)" using pop(2) aL by auto
    then show "span r \<inter> span (a, block_size i) = {}"
      using heap_listsD(8) [OF h] r ain unfolding disjoint_family_on_def pop(1) by blast
  qed
  have B: "B < 2 ^ 63" by (rule heap_listsD(5) [OF h])
  have u8: "unat (a + 8) = unat a + 8" using b(2) B bs by (simp add: unat_word_ariths)
  have sub: "heap_lists (s\<lparr>pools := (pools s)[i := (pools s ! i)\<lparr>pool_head := kheap s a\<rparr>]\<rparr>) (Fs(i := as)) L B" (is "heap_lists ?s _ _ _")
  proof (rule heap_listsI)
    show "map max_size (pools ?s) = pool_sizes" using heap_listsD(1) [OF h] by (simp add: pool_upd_sizes)
    show "0 < unat (pools_at ?s)" "unat (pools_at ?s) + 96 < 2 ^ 64" "B < 2 ^ 63" using heap_listsD(3-5) [OF h] by simp_all
    show "llist (kheap ?s) NULL (pool_head (pools ?s ! j)) ((Fs(i := as)) j)" if "j < NUM_POOLS" for j
      using heap_listsD(2) [OF h] heap_listsD(6) [OF h that] ll i by (auto simp: nth_list_update)
    show "free_regions (Fs(i := as)) \<inter> L = {}" using heap_listsD(7) [OF h] by (auto simp: pop(1))
    show "disjoint_family_on span (free_regions (Fs(i := as)) \<union> L)"
      using heap_listsD(8) [OF h] by (rule disjoint_family_on_mono [rotated]) (auto simp: pop(1))
    show "0 < unat (fst r) \<and> unat (fst r) + snd r \<le> B \<and> 32 \<le> snd r" if "r \<in> free_regions (Fs(i := as)) \<union> L" for r
      using heap_listsD(9-11) [OF h, of r] that by (auto simp: pop(1))
    show "header_ok ?s r" if "r \<in> L" for r
      using heap_listsD(12) [OF h that] by (simp add: header_ok_def pool_ptr_def)
  qed
  have out: "x \<notin> set ((Fs(i := as)) j)" "r \<in> L \<Longrightarrow> fst r \<noteq> x" if "j < NUM_POOLS" "x \<in> {a, a + 8}" for x j r
  proof -
    have "unat x \<in> span (a, block_size i)" using that(2) u8 bs by (auto simp: span_def)
    then show "x \<notin> set ((Fs(i := as)) j)" "r \<in> L \<Longrightarrow> fst r \<noteq> x" using fresh_outside [OF sub fr] that(1) by auto
  qed
  show "heap_lists (take_block i a sz s) (Fs(i := as)) (insert (a, block_size i) L) B" (is "heap_lists ?t _ _ _")
  proof (rule heap_listsI)
    show "map max_size (pools ?t) = pool_sizes"
      using heap_listsD(1) [OF h] by (simp add: take_block_def pool_upd_sizes)
    show "0 < unat (pools_at ?t)" "unat (pools_at ?t) + 96 < 2 ^ 64" "B < 2 ^ 63"
      using heap_listsD(3-5) [OF h] by (simp_all add: take_block_def)
    show "llist (kheap ?t) NULL (pool_head (pools ?t ! j)) ((Fs(i := as)) j)" if "j < NUM_POOLS" for j
      using heap_listsD(2) [OF h] heap_listsD(6) [OF sub that] i out(1) [OF that]
      by (cases "j = i") (auto simp: nth_list_update take_block_def)
    show "free_regions (Fs(i := as)) \<inter> insert (a, block_size i) L = {}"
      using heap_listsD(7) [OF sub] pop(2) by auto
    show "disjoint_family_on span (free_regions (Fs(i := as)) \<union> insert (a, block_size i) L)"
      using heap_listsD(8) [OF h] unfolding pop(1) by simp
    show "0 < unat (fst r) \<and> unat (fst r) + snd r \<le> B \<and> 32 \<le> snd r"
      if "r \<in> free_regions (Fs(i := as)) \<union> insert (a, block_size i) L" for r
      using heap_listsD(9-11) [OF h, of r] that unfolding pop(1) by auto
    have "header_ok ?t (a, block_size i)" using i by (auto simp: header_ok_def take_block_def pool_ptr_def)
    moreover have "header_ok ?t r" if "r \<in> L" for r
      using heap_listsD(12) [OF h that] out(2) [OF i _ that] by (auto simp: header_ok_def take_block_def pool_ptr_def)
    ultimately show "header_ok ?t r" if "r \<in> insert (a, block_size i) L" for r using that by blast
  qed
qed

lemma heap_lists_bound: "heap_lists s Fs L B \<Longrightarrow> B \<le> B' \<Longrightarrow> B' < 2 ^ 63 \<Longrightarrow> heap_lists s Fs L B'"
  by (rule heap_listsI) (auto dest: heap_listsD intro: order_trans)


section \<open>Growing a pool\<close>

definition live_same :: "(ptr \<times> nat) set \<Rightarrow> 'a kmem_st_scheme \<Rightarrow> 'a kmem_st_scheme \<Rightarrow> bool" where
  "live_same L s s' \<longleftrightarrow> (\<forall>r \<in> L. \<forall>x. unat x \<in> span r \<longrightarrow> kheap s' x = kheap s x)"

definition kmem_only :: "'a kmem_st_scheme \<Rightarrow> 'a kmem_st_scheme \<Rightarrow> bool" where
  "kmem_only s s' \<longleftrightarrow> s' = s\<lparr>pools := pools s', kheap := kheap s'\<rparr>"

lemma kmem_only_trans: "kmem_only s t \<Longrightarrow> kmem_only t u \<Longrightarrow> kmem_only s u"
  by (cases s; cases t; cases u) (simp add: kmem_only_def)

lemma kmem_only_push: "kmem_only s (push_block i a s)"
  by (cases s) (simp add: kmem_only_def push_block_def)

lemma kmem_only_refl [simp]: "kmem_only s s"
  by (simp add: kmem_only_def)

lemma live_same_push:
  assumes "fresh Fs L (a, block_size i)" "i < NUM_POOLS"
  shows "live_same L s (push_block i a s)"
proof -
  have "unat a \<in> span (a, block_size i)" using block_size_bounds [OF assms(2)] by (simp add: span_def)
  then show ?thesis using assms(1) by (auto simp: live_same_def push_block_def fresh_def)
qed

lemma live_same_trans: "live_same L s t \<Longrightarrow> live_same L t u \<Longrightarrow> live_same L s u"
  by (simp add: live_same_def)

lemma fresh_above:
  assumes "heap_lists s Fs L B" "B \<le> unat a"
  shows "fresh Fs L (a, n)"
  using heap_listsD(10) [OF assms(1)] assms(2) by (fastforce simp: fresh_def span_def)

lemma expand_fold:
  assumes h: "heap_lists s Fs L (unat page)" and i: "i < NUM_POOLS" and p: "0 < unat page" "unat page + 4096 < 2 ^ 63"
    and k: "k * block_size i \<le> 4096"
    and t: "t = fold (\<lambda>j s. push_block i (page + of_nat j * max_size (pools s ! i)) s) [0..<k] s"
  shows "\<exists>Fs'. heap_lists t Fs' L (unat page + k * block_size i) \<and>
      (\<forall>j. length (Fs' j) = length (Fs j) + (if j = i then k else 0)) \<and> live_same L s t \<and> kmem_only s t \<and>
      (\<forall>j < NUM_POOLS. avail_blocks (pools t ! j) = avail_blocks (pools s ! j))"
  using k t
proof (induction k arbitrary: t)
  case 0
  then show ?case using h by (intro exI [of _ Fs]) (auto simp: live_same_def)
next
  case (Suc k)
  define u where "u = fold (\<lambda>j s. push_block i (page + of_nat j * max_size (pools s ! i)) s) [0..<k] s"
  define a where "a = page + of_nat k * max_size (pools u ! i)"
  have t: "t = push_block i a u" using Suc.prems(2) by (simp add: u_def a_def)
  have kb: "k * block_size i + block_size i \<le> 4096" using Suc.prems(1) by simp
  then obtain Fs' where F: "heap_lists u Fs' L (unat page + k * block_size i)" "live_same L s u" "kmem_only s u"
    "\<And>j. length (Fs' j) = length (Fs j) + (if j = i then k else 0)"
    "\<And>j. j < NUM_POOLS \<Longrightarrow> avail_blocks (pools u ! j) = avail_blocks (pools s ! j)"
    using Suc.IH [OF _ u_def] by auto
  have "k \<le> 4096" using kb block_size_bounds [OF i] by (metis add_leD1 mult_le_mono2 le_trans mult.right_neutral one_le_numeral order_trans)
  then have "unat (of_nat k :: u64) = k" by (simp add: unsigned_of_nat take_bit_nat_eq_self)
  then have ua: "unat a = unat page + k * block_size i"
    using max_size_pool [OF F(1) i] kb p(2) by (simp add: a_def unat_word_ariths)
  have fr: "fresh Fs' L (a, block_size i)" by (rule fresh_above [OF F(1)]) (simp add: ua)
  have "heap_lists t (Fs'(i := a # Fs' i)) L (unat page + Suc k * block_size i)"
    unfolding t by (rule heap_lists_push [OF F(1) i fr]) (use ua p kb in auto)
  moreover have "live_same L s t" unfolding t by (rule live_same_trans [OF F(2) live_same_push [OF fr i]])
  moreover have "kmem_only s t" unfolding t by (rule kmem_only_trans [OF F(3) kmem_only_push])
  moreover have "avail_blocks (pools t ! j) = avail_blocks (pools s ! j)" if "j < NUM_POOLS" for j
    using F(5) [OF that] heap_listsD(2) [OF F(1)] i by (simp add: t push_block_def nth_list_update)
  moreover have "length ((Fs'(i := a # Fs' i)) j) = length (Fs j) + (if j = i then Suc k else 0)" for j
    using F(4) [of j] F(4) [of i] by simp
  ultimately show ?case by blast
qed

lemma vm_only_kmem:
  assumes "vm_only s s'"
  shows "pools s' = pools s" "pools_at s' = pools_at s" "kheap s' = kheap s"
  using vm_onlyD(3) [OF assms] by (cases s; cases s'; simp)+

lemma heap_lists_vm_only: "vm_only s s' \<Longrightarrow> heap_lists s' Fs L B = heap_lists s Fs L B"
  by (simp add: heap_lists_def header_ok_def pool_ptr_def vm_only_kmem)

lemma heap_lists_add_avail:
  assumes h: "heap_lists s Fs L B" and i: "i < NUM_POOLS"
  shows "heap_lists (add_avail i n s) Fs L B"
proof (rule heap_listsI)
  have len: "i < length (pools s)" using heap_listsD(2) [OF h] i by simp
  show "map max_size (pools (add_avail i n s)) = pool_sizes"
    using heap_listsD(1) [OF h] by (simp add: add_avail_def pool_upd_sizes)
  show "llist (kheap (add_avail i n s)) NULL (pool_head (pools (add_avail i n s) ! j)) (Fs j)" if "j < NUM_POOLS" for j
    using heap_listsD(6) [OF h that] len by (auto simp: add_avail_def nth_list_update)
  show "header_ok (add_avail i n s) r" if "r \<in> L" for r
    using heap_listsD(12) [OF h that] by (simp add: header_ok_def pool_ptr_def add_avail_def)
qed (use heap_listsD [OF h] in \<open>simp_all add: add_avail_def\<close>)

lemma expand_pool_ok:
  assumes h: "heap_ok s Fs L" and i: "i < NUM_POOLS" and va: "unat (kernel_va s) + 4096 < 2 ^ 63"
  obtains Fs' where "heap_ok (expand_pool i s) Fs' L" "live_same L s (expand_pool i s)"
    "IF_flag (expand_pool i s) = IF_flag s"
    "unat (kernel_va (expand_pool i s)) \<le> unat (kernel_va s) + 4096"
    "Fs' i \<noteq> [] \<or> (fst (MMU_alloc_page s) = NULL \<and> Fs' = Fs)"
proof -
  obtain page s1 where al: "MMU_alloc_page s = (page, s1)" by fastforce
  note ac = alloc_page_cases [OF al]
  note hl = heap_lists_vm_only [OF ac(1)]
  from h have hs: "heap_lists s Fs L (unat (kernel_va s))" "0 < unat (kernel_va s)"
    "\<And>j. j < NUM_POOLS \<Longrightarrow> avail_blocks (pools s ! j) = int (length (Fs j))" by (auto simp: heap_ok_def)
  have bs: "unat (max_size (pools s1 ! i)) = block_size i" using max_size_pool [OF hs(1) i] vm_only_kmem(1) [OF ac(1)] by simp
  have ls: "live_same L s s1" using vm_only_kmem(3) [OF ac(1)] by (simp add: live_same_def)
  show ?thesis
  proof (cases "page = NULL")
    case True
    then have e: "expand_pool i s = s1" using al by (simp add: expand_pool_def)
    have kv: "kernel_va s1 = kernel_va s" using ac(4) True hs(2) by auto
    have "heap_ok s1 Fs L" using h hl kv vm_only_kmem(1) [OF ac(1)] by (simp add: heap_ok_def)
    then show ?thesis using that [of Fs] True al ac(2) ls kv unfolding e by simp
  next
    case False
    define k where "k = 4096 div block_size i"
    define t where "t = fold (\<lambda>j s. push_block i (page + of_nat j * max_size (pools s ! i)) s) [0..<k] s1"
    have p: "page = kernel_va s" "kernel_va s1 = kernel_va s + PAGE_SIZE" using ac(4) False by auto
    have k1: "k * block_size i = 4096" using block_size_bounds [OF i] by (simp add: k_def)
    then have "0 < k" by (cases k) auto
    note k = k1 this
    have e: "expand_pool i s = add_avail i (int k) t"
      using al False bs by (simp add: expand_pool_def Let_def t_def k_def unat_div)
    have h1: "heap_lists s1 Fs L (unat page)" using hs(1) hl p(1) by simp
    obtain Fs' where F: "heap_lists t Fs' L (unat page + 4096)" "live_same L s1 t" "kmem_only s1 t"
      "\<And>j. length (Fs' j) = length (Fs j) + (if j = i then k else 0)"
      "\<And>j. j < NUM_POOLS \<Longrightarrow> avail_blocks (pools t ! j) = avail_blocks (pools s1 ! j)"
      using expand_fold [OF h1 i _ _ _ t_def] hs(2) va k(1) p(1) by auto
    have ts: "kernel_va t = kernel_va s + PAGE_SIZE" "IF_flag t = IF_flag s"
      using F(3) p(2) ac(2) by (cases s1; cases t; simp add: kmem_only_def)+
    have ut: "unat (kernel_va t) = unat page + 4096" using ts(1) p(1) va by (simp add: unat_word_ariths)
    have len: "i < length (pools t)" using heap_listsD(2) [OF F(1)] i by simp
    have "heap_lists (add_avail i (int k) t) Fs' L (unat page + 4096)"
      by (rule heap_lists_add_avail [OF F(1) i])
    moreover have "avail_blocks (pools (add_avail i (int k) t) ! j) = int (length (Fs' j))" if "j < NUM_POOLS" for j
      using F(5) [OF that] F(4) [of j] hs(3) [OF that] vm_only_kmem(1) [OF ac(1)] len
      by (simp add: add_avail_def nth_list_update)
    ultimately have "heap_ok (expand_pool i s) Fs' L"
      unfolding e heap_ok_def using ut p(1) hs(2) by (simp add: add_avail_def)
    moreover have "live_same L s (expand_pool i s)"
      using live_same_trans [OF ls F(2)] unfolding e by (simp add: live_same_def add_avail_def)
    moreover have "Fs' i \<noteq> []" using F(4) [of i] k(2) by auto
    ultimately show ?thesis using that ts ut p(1) unfolding e by (simp add: add_avail_def)
  qed
qed


section \<open>Allocating and freeing\<close>

lemma take_ok:
  assumes h: "heap_ok s Fs L" and i: "i < NUM_POOLS" and av: "avail_blocks (pools s ! i) \<noteq> 0"
  obtains Fs' where "heap_ok (take_block i (pool_head (pools s ! i)) sz s) Fs' (insert (pool_head (pools s ! i), block_size i) L)"
    "live_same L s (take_block i (pool_head (pools s ! i)) sz s)" "fresh Fs' L (pool_head (pools s ! i), block_size i)"
proof -
  let ?a = "pool_head (pools s ! i)"
  from h have hs: "heap_lists s Fs L (unat (kernel_va s))"
    "\<And>j. j < NUM_POOLS \<Longrightarrow> avail_blocks (pools s ! j) = int (length (Fs j))" by (auto simp: heap_ok_def)
  then obtain a as where F: "Fs i = a # as" using av i by (cases "Fs i") auto
  note t = heap_lists_take(1) [where Fs = Fs, OF hs(1) i F, of sz] heap_lists_take(2,3) [where Fs = Fs, OF hs(1) i F]
  have len: "i < length (pools s)" using heap_listsD(2) [OF hs(1)] i by simp
  have "avail_blocks (pools (take_block i a sz s) ! j) = int (length ((Fs(i := as)) j))" if "j < NUM_POOLS" for j
    using hs(2) [OF that] F len by (auto simp: take_block_def nth_list_update)
  then have "heap_ok (take_block i a sz s) (Fs(i := as)) (insert (a, block_size i) L)"
    using t(1) h by (simp add: heap_ok_def take_block_def)
  moreover have "live_same L s (take_block i a sz s)"
  proof -
    have "(a, block_size i) \<in> free_regions Fs" using F i by (auto simp: free_regions_mem)
    then have "unat a + block_size i < 2 ^ 63" using heap_listsD(10) [OF hs(1)] heap_listsD(5) [OF hs(1)] by fastforce
    then have "unat (a + 8) = unat a + 8" using block_size_bounds [OF i] by (simp add: unat_word_ariths)
    then have "unat a \<in> span (a, block_size i)" "unat (a + 8) \<in> span (a, block_size i)"
      using block_size_bounds [OF i] by (simp_all add: span_def)
    then show ?thesis using t(3) by (auto simp: live_same_def take_block_def fresh_def)
  qed
  ultimately show ?thesis using that t(2,3) by simp
qed

lemma heap_lists_large:
  assumes h: "heap_lists s Fs L (unat a)" and a: "0 < unat a" and n: "32 \<le> n" "unat a + n < 2 ^ 63"
  shows "heap_lists (s\<lparr>kheap := (kheap s)(a := NULL, a + 8 := sz)\<rparr>) Fs (insert (a, n) L) (unat a + n)" (is "heap_lists ?t _ _ _")
    "live_same L s (s\<lparr>kheap := (kheap s)(a := NULL, a + 8 := sz)\<rparr>)"
proof -
  have fr: "fresh Fs L (a, n)" by (rule fresh_above [OF h]) simp
  have "unat (a + 8) = unat a + 8" using n by (simp add: unat_word_ariths)
  then have sp: "unat x \<in> span (a, n)" if "x \<in> {a, a + 8}" for x using that n by (auto simp: span_def)
  note out = fresh_outside [OF h fr sp]
  show "heap_lists ?t Fs (insert (a, n) L) (unat a + n)"
  proof (rule heap_listsI)
    show "map max_size (pools ?t) = pool_sizes" "0 < unat (pools_at ?t)" "unat (pools_at ?t) + 96 < 2 ^ 64"
      using heap_listsD(1,3,4) [OF h] by simp_all
    show "unat a + n < 2 ^ 63" by (rule n(2))
    show "llist (kheap ?t) NULL (pool_head (pools ?t ! j)) (Fs j)" if "j < NUM_POOLS" for j
      using heap_listsD(6) [OF h that] out(1) [OF _ that] by simp
    have "(a, n) \<notin> free_regions Fs" using fr sp [of a] by (auto simp: fresh_def)
    then show "free_regions Fs \<inter> insert (a, n) L = {}" using heap_listsD(7) [OF h] by simp
    show "disjoint_family_on span (free_regions Fs \<union> insert (a, n) L)"
      using heap_listsD(8) [OF h] fr by (simp add: disjoint_insert fresh_def)
    show "0 < unat (fst r) \<and> unat (fst r) + snd r \<le> unat a + n \<and> 32 \<le> snd r"
      if "r \<in> free_regions Fs \<union> insert (a, n) L" for r
      using heap_listsD(9-11) [OF h, of r] that a n by (cases "r = (a, n)") auto
    show "header_ok ?t r" if "r \<in> insert (a, n) L" for r
    proof (cases "r = (a, n)")
      case True
      have "a + 8 \<noteq> a" by simp
      then show ?thesis using True by (simp add: header_ok_def)
    next
      case False
      then show ?thesis using heap_listsD(12) [OF h, of r] out(2) [of _ r] that by (auto simp: header_ok_def pool_ptr_def)
    qed
  qed
  show "live_same L s ?t" using fr sp by (auto simp: live_same_def fresh_def)
qed


definition room :: "u64 \<Rightarrow> 'a kmem_st_scheme \<Rightarrow> bool" where
  "room sz s \<longleftrightarrow> unat (kernel_va s) + unat sz + 8192 \<le> 2 ^ 42"

lemma irq_heap [simp]:
  "heap_ok (CLI s) Fs L = heap_ok s Fs L" "heap_ok (irq_restore b s) Fs L = heap_ok s Fs L"
  "live_same L s (irq_restore b t) = live_same L s t" "live_same L (CLI s) t = live_same L s t"
  by (simp_all add: heap_ok_def heap_lists_def header_ok_def pool_ptr_def CLI_def irq_restore_def STI_def live_same_def)

lemma large_pages:
  assumes "unat sz + 8192 \<le> 2 ^ 42"
  defines "num_pages \<equiv> (sz + sizeof_kmalloc_extra + PAGE_SIZE - 1) div PAGE_SIZE"
  shows "unat (sz + sizeof_kmalloc_extra) = unat sz + 16"
    "sint (ucast num_pages :: u32) = int ((unat sz + 4111) div 4096)"
proof -
  show t: "unat (sz + sizeof_kmalloc_extra) = unat sz + 16"
    using assms(1) by (simp add: sizeof_kmalloc_extra_def unat_word_ariths)
  have e: "sz + sizeof_kmalloc_extra + PAGE_SIZE - 1 = sz + 4111" by (simp add: sizeof_kmalloc_extra_def)
  have "unat (sz + 4111) = unat sz + 4111" using assms(1) by (simp add: unat_word_ariths)
  then have u: "unat num_pages = (unat sz + 4111) div 4096" unfolding num_pages_def e by (simp add: unat_div)
  have lt: "(unat sz + 4111) div 4096 < 2 ^ 31" using assms(1) by simp
  then show "sint (ucast num_pages :: u32) = int ((unat sz + 4111) div 4096)"
    using sint_ucast_small [of num_pages] u by simp
qed

lemma kmalloc_pool:
  assumes h: "heap_ok s Fs L" and r: "room sz s" and sz: "sz \<noteq> 0"
    and b: "best_pool (CLI s) (sz + sizeof_kmalloc_extra) = Some i" and k: "kmalloc sz s = (p, s')"
  shows "if p = NULL then fst (MMU_alloc_page (CLI s)) = NULL \<and> (\<exists>Fs'. heap_ok s' Fs' L) \<and> live_same L s s' \<and> \<not> IF_flag s'
    else \<exists>Fs' n. heap_ok s' Fs' (insert (p - 16, n) L) \<and> (p - 16, n) \<notin> L \<and> unat sz + 16 \<le> n \<and>
      live_same L s s' \<and> kheap s' (p - 8) = sz \<and> IF_flag s' = IF_flag s"
proof -
  have hC: "heap_ok (CLI s) Fs L" using h by simp
  then have hl: "heap_lists (CLI s) Fs L (unat (kernel_va (CLI s)))" by (simp add: heap_ok_def)
  have bi: "i < length (pools (CLI s))" "sz + sizeof_kmalloc_extra \<le> max_size (pools (CLI s) ! i)"
    using b first_index_Some unfolding best_pool_def by blast+
  then have i: "i < NUM_POOLS" using heap_listsD(2) [OF hl] by simp
  have "unat (sz + sizeof_kmalloc_extra) = unat sz + 16" by (rule large_pages(1)) (use r in \<open>simp add: room_def\<close>)
  then have big: "unat sz + 16 \<le> block_size i"
    using bi(2) max_size_pool [OF hl i] by (simp add: unat_le_iff)
  define t where "t = (if avail_blocks (pools (CLI s) ! i) = 0 then expand_pool i (CLI s) else CLI s)"
  have "\<exists>Fs1. heap_ok t Fs1 L \<and> live_same L s t \<and> \<not> IF_flag t \<and>
      (avail_blocks (pools t ! i) = 0 \<longrightarrow> fst (MMU_alloc_page (CLI s)) = NULL)"
  proof (cases "avail_blocks (pools (CLI s) ! i) = 0")
    case True
    have "unat (kernel_va (CLI s)) + 4096 < 2 ^ 63" using r by (simp add: room_def CLI_def)
    from expand_pool_ok [OF hC i this] obtain Fs1 where F: "heap_ok t Fs1 L" "live_same L (CLI s) t"
      "IF_flag t = IF_flag (CLI s)" "Fs1 i \<noteq> [] \<or> fst (MMU_alloc_page (CLI s)) = NULL"
      unfolding t_def if_P [OF True] by metis
    moreover have "avail_blocks (pools t ! i) = int (length (Fs1 i))" using F(1) i by (simp add: heap_ok_def)
    moreover have "\<not> IF_flag (CLI s)" by (simp add: CLI_def)
    ultimately show ?thesis by (intro exI [of _ Fs1]) auto
  next
    case False
    then show ?thesis using hC by (intro exI [of _ Fs]) (auto simp: t_def live_same_def CLI_def)
  qed
  then obtain Fs1 where F: "heap_ok t Fs1 L" "live_same L s t" "\<not> IF_flag t"
    "avail_blocks (pools t ! i) = 0 \<Longrightarrow> fst (MMU_alloc_page (CLI s)) = NULL" by blast
  let ?a = "pool_head (pools t ! i)"
  have kt: "kmalloc sz s = (if avail_blocks (pools t ! i) = 0 then (NULL, t)
      else (?a + 16, irq_restore (are_interrupts_enabled s) (take_block i ?a sz t)))"
    using sz b by (simp add: kmalloc_def Let_def t_def [symmetric] kmalloc_finish_def take_block_def pool_ptr_def
        sizeof_kmalloc_extra_def)
  show ?thesis
  proof (cases "avail_blocks (pools t ! i) = 0")
    case True
    then show ?thesis using kt k F by auto
  next
    case False
    from take_ok [OF F(1) i False] obtain Fs2 where
      T: "heap_ok (take_block i ?a sz t) Fs2 (insert (?a, block_size i) L)" "live_same L t (take_block i ?a sz t)"
        "fresh Fs2 L (?a, block_size i)" by metis
    have ps: "p = ?a + 16" "s' = irq_restore (are_interrupts_enabled s) (take_block i ?a sz t)" using kt k False by simp_all
    have hT: "heap_lists (take_block i ?a sz t) Fs2 (insert (?a, block_size i) L) (unat (kernel_va t))"
      using T(1) by (simp add: heap_ok_def take_block_def)
    have "unat ?a + block_size i < 2 ^ 63"
      using heap_listsD(10) [OF hT, of "(?a, block_size i)"] heap_listsD(5) [OF hT] by simp
    then have "unat (?a + 16) = unat ?a + 16" using block_size_bounds [OF i] by (simp add: unat_word_ariths)
    then have p0: "p \<noteq> NULL" using ps(1) by auto
    have "span (?a, block_size i) \<noteq> {}" using block_size_bounds [OF i] by (simp add: span_def)
    then have "(?a, block_size i) \<notin> L" using T(3) unfolding fresh_def by blast
    moreover have "IF_flag s' = IF_flag s"
      using F(3) ps(2) by (auto simp: irq_restore_def are_interrupts_enabled_def STI_def take_block_def)
    moreover have "kheap s' (p - 8) = sz"
      unfolding ps by (simp add: take_block_def irq_restore_def STI_def)
    ultimately show ?thesis
      using T(1) live_same_trans [OF F(2) T(2)] big p0 ps by auto
  qed
qed


lemma kmalloc_large:
  assumes h: "heap_ok s Fs L" and r: "room sz s" and sz: "sz \<noteq> 0"
    and b: "best_pool (CLI s) (sz + sizeof_kmalloc_extra) = None" and k: "kmalloc sz s = (p, s')"
  shows "if p = NULL then (\<exists>n. fst (MMU_alloc_pages n (CLI s)) = NULL) \<and> heap_ok s' Fs L \<and> live_same L s s' \<and> \<not> IF_flag s'
    else \<exists>n. heap_ok s' Fs (insert (p - 16, n) L) \<and> (p - 16, n) \<notin> L \<and> unat sz + 16 \<le> n \<and>
      live_same L s s' \<and> kheap s' (p - 8) = sz \<and> IF_flag s' = IF_flag s"
proof -
  define n where "n = (unat sz + 4111) div 4096"
  have pg: "sint (ucast ((sz + sizeof_kmalloc_extra + PAGE_SIZE - 1) div PAGE_SIZE) :: u32) = int n"
    unfolding n_def by (rule large_pages(2)) (use r in \<open>simp add: room_def\<close>)
  obtain a t where al: "MMU_alloc_pages (int n) (CLI s) = (a, t)" by fastforce
  note ac = alloc_pages_cases [OF al]
  have hC: "heap_lists (CLI s) Fs L (unat (kernel_va s))" "0 < unat (kernel_va s)"
    using h by (simp_all add: heap_ok_def heap_lists_vm_only [OF vm_only_irq(1)])
  have ht: "heap_lists t Fs L (unat (kernel_va s))" using hC(1) by (simp add: heap_lists_vm_only [OF ac(1)])
  have ls: "live_same L s t"
    using vm_only_kmem(3) [OF vm_only_trans [OF vm_only_irq(1) [of s] ac(1)]] by (simp add: live_same_def)
  have av: "avail_blocks (pools t ! j) = int (length (Fs j))" if "j < NUM_POOLS" for j
    using h that vm_only_kmem(1) [OF vm_only_trans [OF vm_only_irq(1) [of s] ac(1)]] by (simp add: heap_ok_def)
  have nIF: "\<not> IF_flag t" using ac(2) by (simp add: CLI_def)
  have kva: "kernel_va (CLI s) = kernel_va s" by (simp add: CLI_def)
  let ?t = "t\<lparr>kheap := (kheap t)(a := NULL, a + 8 := sz)\<rparr>"
  have kt: "kmalloc sz s = (if a = NULL then (NULL, t) else (a + 16, irq_restore (are_interrupts_enabled s) ?t))"
    using sz b al pg by (simp add: kmalloc_def Let_def kmalloc_finish_def sizeof_kmalloc_extra_def)
  show ?thesis
  proof (cases "a = NULL")
    case True
    then have "heap_ok t Fs L" using ac(4) ht hC(2) av by (auto simp: heap_ok_def kva)
    moreover have "p = NULL" "s' = t" using kt k True by simp_all
    ultimately show ?thesis using ls nIF al True by (auto intro!: exI [of _ "int n"])
  next
    case False
    then have a: "a = kernel_va s" "kernel_va t = kernel_va s + of_nat n * PAGE_SIZE" using ac(4) kva by auto
    have n: "unat sz + 16 \<le> n * 4096" "n * 4096 \<le> unat sz + 4111" by (auto simp: n_def)
    have small: "unat a + n * 4096 < 2 ^ 63" "n < 2 ^ 63" using n r a(1) by (simp_all add: room_def)
    have "unat (of_nat n :: u64) = n" using small(2) by (simp add: unsigned_of_nat take_bit_nat_eq_self)
    then have ut: "unat (kernel_va t) = unat a + n * 4096" using a small(1) by (simp add: unat_word_ariths)
    have pos: "0 < unat a" using hC(2) a(1) by simp
    have n32: "32 \<le> n * 4096" using n(1) sz by (cases n) auto
    note big = heap_lists_large [OF _ pos n32 small(1), of t Fs L sz]
    have hl: "heap_lists t Fs L (unat a)" using ht a(1) by simp
    have ok: "heap_ok ?t Fs (insert (a, n * 4096) L)" using big(1) [OF hl] ut pos av by (simp add: heap_ok_def)
    have "unat (a + 16) = unat a + 16" using small(1) n32 by (simp add: unat_word_ariths)
    then have p0: "p \<noteq> NULL" and ps: "p = a + 16" "s' = irq_restore (are_interrupts_enabled s) ?t"
      using kt k False by auto
    have "(a, n * 4096) \<notin> L" using heap_listsD(10) [OF hl, of "(a, n * 4096)"] n32 by auto
    moreover have "IF_flag s' = IF_flag s"
      using nIF ps(2) by (auto simp: irq_restore_def are_interrupts_enabled_def STI_def)
    moreover have "kheap s' (p - 8) = sz" unfolding ps by (simp add: irq_restore_def STI_def)
    ultimately show ?thesis
      using ok live_same_trans [OF ls big(2) [OF hl]] n(1) p0 ps by auto
  qed
qed

lemma kfree_ok:
  assumes h: "heap_ok s Fs L" and a: "(a, n) \<in> L"
  shows "\<exists>Fs'. heap_ok (kfree (a + 16) s) Fs' (L - {(a, n)})" "live_same (L - {(a, n)}) s (kfree (a + 16) s)"
    "IF_flag (kfree (a + 16) s) = IF_flag s"
proof -
  have hC: "heap_lists (CLI s) Fs L (unat (kernel_va s))" "0 < unat (kernel_va s)"
    using h by (simp_all add: heap_ok_def heap_lists_vm_only [OF vm_only_irq(1)])
  have hR: "heap_lists (CLI s) Fs (L - {(a, n)}) (unat (kernel_va s))" by (rule heap_lists_remove [OF hC(1)])
  note b = heap_listsD(9-11) [OF hC(1), of "(a, n)"]
  have "unat a + n < 2 ^ 63" using b(2) a heap_listsD(5) [OF hC(1)] by simp
  then have "unat (a + 16) = unat a + 16" using b(3) a by (simp add: unat_word_ariths)
  then have nz: "a + 16 \<noteq> NULL" by auto
  have av: "avail_blocks (pools (CLI s) ! j) = int (length (Fs j))" if "j < NUM_POOLS" for j
    using h that by (simp add: heap_ok_def CLI_def)
  have kva: "kernel_va (CLI s) = kernel_va s" "\<not> IF_flag (CLI s)" by (simp_all add: CLI_def)
  have ls0: "live_same X s (CLI s)" for X by (simp add: live_same_def CLI_def)
  define t where "t = (if kheap (CLI s) a \<noteq> NULL
      then add_avail (pool_index (CLI s) (kheap (CLI s) a)) 1 (push_block (pool_index (CLI s) (kheap (CLI s) a)) a (CLI s))
      else MMU_free_pages a (sint (ucast ((kheap (CLI s) (a + 8) + sizeof_kmalloc_extra + PAGE_SIZE - 1) div PAGE_SIZE) :: u32)) (CLI s))"
  have kf: "kfree (a + 16) s = irq_restore (are_interrupts_enabled s) t"
    using nz by (simp add: kfree_def Let_def sizeof_kmalloc_extra_def t_def)
  have "\<exists>Fs'. heap_ok t Fs' (L - {(a, n)}) \<and> live_same (L - {(a, n)}) s t \<and> \<not> IF_flag t"
  proof (cases "kheap (CLI s) a = NULL")
    case True
    have sr: "same_rest (CLI s) t" unfolding t_def using True same_rest_free_pages by simp
    have "heap_ok t Fs (L - {(a, n)})"
      using hR hC(2) av same_restD(3) [OF sr] kva(1) heap_lists_vm_only [OF same_rest_vm_only [OF sr]]
        vm_only_kmem(1) [OF same_rest_vm_only [OF sr]] by (simp add: heap_ok_def)
    moreover have "live_same (L - {(a, n)}) s t"
      using ls0 vm_only_kmem(3) [OF same_rest_vm_only [OF sr]] by (simp add: live_same_def)
    ultimately show ?thesis using same_restD(1) [OF sr] kva(2) by auto
  next
    case False
    then obtain i where i: "i < NUM_POOLS" "n = block_size i" "kheap (CLI s) a = pool_ptr (CLI s) i"
      using heap_listsD(12) [OF hC(1) a] by (auto simp: header_ok_def)
    let ?u = "push_block i a (CLI s)"
    have t: "t = add_avail i 1 ?u" unfolding t_def using False i(3) pool_index_ptr(1) [OF hC(1) i(1)] by simp
    have fr: "fresh Fs (L - {(a, n)}) (a, block_size i)"
      unfolding fresh_def i(2) [symmetric]
    proof
      fix r assume r: "r \<in> free_regions Fs \<union> (L - {(a, n)})"
      then have "r \<noteq> (a, n)" using heap_listsD(7) [OF hC(1)] a by auto
      then show "span r \<inter> span (a, n) = {}"
        using disjoint_family_onD [OF heap_listsD(8) [OF hC(1)]] r a by auto
    qed
    have hu: "heap_lists ?u (Fs(i := a # Fs i)) (L - {(a, n)}) (unat (kernel_va s))"
      by (rule heap_lists_push [OF hR i(1) fr]) (use b a i(2) heap_listsD(5) [OF hC(1)] in auto)
    have lC: "i < length (pools (CLI s))" using heap_listsD(2) [OF hC(1)] i(1) by simp
    have "heap_lists t (Fs(i := a # Fs i)) (L - {(a, n)}) (unat (kernel_va s))"
      unfolding t by (rule heap_lists_add_avail [OF hu i(1)])
    moreover have "avail_blocks (pools t ! j) = int (length ((Fs(i := a # Fs i)) j))" if "j < NUM_POOLS" for j
      using av [OF that] lC by (simp add: t add_avail_def push_block_def nth_list_update)
    moreover have "kernel_va t = kernel_va s" "\<not> IF_flag t" using kva by (simp_all add: t add_avail_def push_block_def)
    moreover have "live_same (L - {(a, n)}) s t"
      using live_same_trans [OF ls0 live_same_push [OF fr i(1)]] by (simp add: t live_same_def add_avail_def)
    ultimately show ?thesis using hC(2) unfolding heap_ok_def by metis
  qed
  then obtain Fs' where F: "heap_ok t Fs' (L - {(a, n)})" "live_same (L - {(a, n)}) s t" "\<not> IF_flag t" by blast
  then show "\<exists>Fs'. heap_ok (kfree (a + 16) s) Fs' (L - {(a, n)})" "live_same (L - {(a, n)}) s (kfree (a + 16) s)"
    unfolding kf by auto
  show "IF_flag (kfree (a + 16) s) = IF_flag s"
    using F(3) unfolding kf by (simp add: irq_restore_def are_interrupts_enabled_def STI_def)
qed


section \<open>The contract of the allocator\<close>

text \<open>
  What the rest of the kernel relies on: \<open>ok s L\<close> says that \<open>L\<close> are the live allocations, each
  with the address of its header and its length. Allocating adds a region that can hold the request
  and its header, releasing takes it out, and the words of the other live regions never change.
\<close>

locale heap_allocator =
  fixes malloc :: "u64 \<Rightarrow> 's \<Rightarrow> ptr \<times> 's" and release :: "ptr \<Rightarrow> 's \<Rightarrow> 's"
    and ok :: "'s \<Rightarrow> (ptr \<times> nat) set \<Rightarrow> bool" and fits :: "u64 \<Rightarrow> 's \<Rightarrow> bool" and word :: "'s \<Rightarrow> u64 \<Rightarrow> u64"
  assumes malloc_some: "ok s L \<Longrightarrow> fits sz s \<Longrightarrow> sz \<noteq> 0 \<Longrightarrow> malloc sz s = (p, s') \<Longrightarrow> p \<noteq> NULL \<Longrightarrow>
      \<exists>n. ok s' (insert (p - 16, n) L) \<and> (p - 16, n) \<notin> L \<and> unat sz + 16 \<le> n"
    and malloc_none: "ok s L \<Longrightarrow> fits sz s \<Longrightarrow> sz \<noteq> 0 \<Longrightarrow> malloc sz s = (NULL, s') \<Longrightarrow> ok s' L"
    and malloc_word: "ok s L \<Longrightarrow> fits sz s \<Longrightarrow> sz \<noteq> 0 \<Longrightarrow> r \<in> L \<Longrightarrow> unat x \<in> span r \<Longrightarrow>
      word (snd (malloc sz s)) x = word s x"
    and release_ok: "ok s L \<Longrightarrow> (a, n) \<in> L \<Longrightarrow> ok (release (a + 16) s) (L - {(a, n)})"
    and release_word: "ok s L \<Longrightarrow> (a, n) \<in> L \<Longrightarrow> r \<in> L - {(a, n)} \<Longrightarrow> unat x \<in> span r \<Longrightarrow>
      word (release (a + 16) s) x = word s x"
    and ok_disjoint: "ok s L \<Longrightarrow> r \<in> L \<Longrightarrow> r' \<in> L \<Longrightarrow> r \<noteq> r' \<Longrightarrow> span r \<inter> span r' = {}"
begin

text \<open>Allocating and releasing at once leaves the live regions and their words as they were.\<close>

lemma malloc_release:
  assumes "ok s L" "fits sz s" "sz \<noteq> 0" "malloc sz s = (p, s')" "p \<noteq> NULL"
  shows "ok (release p s') L" "r \<in> L \<Longrightarrow> unat x \<in> span r \<Longrightarrow> word (release p s') x = word s x"
proof -
  obtain n where n: "ok s' (insert (p - 16, n) L)" "(p - 16, n) \<notin> L" using malloc_some [OF assms] by blast
  have "insert (p - 16, n) L - {(p - 16, n)} = L" using n(2) by simp
  then show "ok (release p s') L" using release_ok [OF n(1), of "p - 16" n] by simp
  show "word (release p s') x = word s x" if "r \<in> L" "unat x \<in> span r"
    using malloc_word [OF assms(1-3) that] assms(4) release_word [OF n(1), of "p - 16" n r x] that n(2) by auto
qed

text \<open>Blocks handed out one after the other do not overlap.\<close>

lemma malloc_disjoint:
  assumes "ok s L" "fits sz s" "sz \<noteq> 0" "malloc sz s = (p, s1)" "p \<noteq> NULL"
    and "fits sz' s1" "sz' \<noteq> 0" "malloc sz' s1 = (q, s2)" "q \<noteq> NULL"
  shows "span (p - 16, unat sz + 16) \<inter> span (q - 16, unat sz' + 16) = {}"
proof -
  obtain n where n: "ok s1 (insert (p - 16, n) L)" "unat sz + 16 \<le> n" using malloc_some [OF assms(1-5)] by blast
  obtain m where m: "ok s2 (insert (q - 16, m) (insert (p - 16, n) L))" "(q - 16, m) \<notin> insert (p - 16, n) L"
    "unat sz' + 16 \<le> m"
    using malloc_some [OF n(1) assms(6-9)] by blast
  have "span (p - 16, n) \<inter> span (q - 16, m) = {}" using ok_disjoint [OF m(1)] m(2) by blast
  moreover have "span (p - 16, unat sz + 16) \<subseteq> span (p - 16, n)" "span (q - 16, unat sz' + 16) \<subseteq> span (q - 16, m)"
    using n(2) m(3) by (auto simp: span_def)
  ultimately show ?thesis by blast
qed

end

definition heap_live :: "'a kmem_st_scheme \<Rightarrow> (ptr \<times> nat) set \<Rightarrow> bool" where
  "heap_live s L \<longleftrightarrow> (\<exists>Fs. heap_ok s Fs L)"

lemma kmalloc_cases:
  assumes "heap_live s L" "room sz s" "sz \<noteq> 0" "kmalloc sz s = (p, s')"
  obtains (none) "p = NULL" "heap_live s' L" "live_same L s s'" "\<not> IF_flag s'"
      "fst (MMU_alloc_page (CLI s)) = NULL \<or> (\<exists>n. fst (MMU_alloc_pages n (CLI s)) = NULL)"
  | (some) n where "p \<noteq> NULL" "heap_live s' (insert (p - 16, n) L)" "(p - 16, n) \<notin> L" "unat sz + 16 \<le> n"
      "live_same L s s'" "kheap s' (p - 8) = sz" "IF_flag s' = IF_flag s"
proof -
  obtain Fs where h: "heap_ok s Fs L" using assms(1) by (auto simp: heap_live_def)
  show ?thesis
  proof (cases "best_pool (CLI s) (sz + sizeof_kmalloc_extra)")
    case None
    then show ?thesis
      using kmalloc_large [OF h assms(2,3) None assms(4)] that unfolding heap_live_def by (cases "p = NULL") auto
  next
    case (Some i)
    then show ?thesis
      using kmalloc_pool [OF h assms(2,3) Some assms(4)] that unfolding heap_live_def by (cases "p = NULL") auto
  qed
qed

interpretation kh: heap_allocator kmalloc kfree heap_live room kheap
proof unfold_locales
  fix s :: "'a kmem_st_scheme" and L sz p s'
  assume a: "heap_live s L" "room sz s" "sz \<noteq> 0"
  show "\<exists>n. heap_live s' (insert (p - 16, n) L) \<and> (p - 16, n) \<notin> L \<and> unat sz + 16 \<le> n"
    if "kmalloc sz s = (p, s')" "p \<noteq> NULL"
    using a that(1) by (cases rule: kmalloc_cases) (use that(2) in auto)
  show "heap_live s' L" if "kmalloc sz s = (NULL, s')"
    using a that by (cases rule: kmalloc_cases) auto
  show "kheap (snd (kmalloc sz s)) x = kheap s x" if "r \<in> L" "unat x \<in> span r" for r x
  proof -
    have "live_same L s (snd (kmalloc sz s))"
      using a prod.collapse [of "kmalloc sz s", symmetric] by (cases rule: kmalloc_cases) auto
    then show ?thesis using that by (auto simp: live_same_def)
  qed
next
  fix s :: "'a kmem_st_scheme" and L a n
  assume a: "heap_live s L" "(a, n) \<in> L"
  then obtain Fs where h: "heap_ok s Fs L" by (auto simp: heap_live_def)
  show "heap_live (kfree (a + 16) s) (L - {(a, n)})" using kfree_ok(1) [OF h a(2)] by (simp add: heap_live_def)
  show "kheap (kfree (a + 16) s) x = kheap s x" if "r \<in> L - {(a, n)}" "unat x \<in> span r" for r x
    using kfree_ok(2) [OF h a(2)] that by (auto simp: live_same_def)
next
  fix s :: "'a kmem_st_scheme" and L r r'
  assume "heap_live s L" "r \<in> L" "r' \<in> L" "r \<noteq> r'"
  then show "span r \<inter> span r' = {}"
    by (auto simp: heap_live_def heap_ok_def dest!: heap_listsD(8) disjoint_family_onD [of span _ r r'])
qed


section \<open>Correctness\<close>

text \<open>A machine with the fresh pools and the heap pointer one page above the start of the heap.\<close>

definition kmem_example :: kmem_st where
  "kmem_example = vm_st.extend (vm_example\<lparr>kernel_va := VA_KHEAP_BASE + 0x1000\<rparr>)
     (kmem_st.fields pools_init 0x20000 (\<lambda>_. 0))"

lemma kmem_example_live: "heap_live kmem_example {}" "sz \<le> 0x1000 \<Longrightarrow> room sz kmem_example"
proof -
  have f: "pools kmem_example = pools_init" "pools_at kmem_example = 0x20000" "kernel_va kmem_example = 0x10000001000"
    by (simp_all add: kmem_example_def vm_st.defs kmem_st.defs VA_KHEAP_BASE_def vm_example_def frames_st.defs)
  have len: "length pool_sizes = NUM_POOLS" by (simp add: pool_sizes_def NUM_POOLS_def)
  have z: "pool_head (pools_init ! i) = NULL" "avail_blocks (pools_init ! i) = 0" if "i < NUM_POOLS" for i
    using that len by (simp_all add: pools_init_def)
  have "free_regions (\<lambda>_. []) = {}" by (simp add: free_regions_def)
  moreover have "map max_size pools_init = pool_sizes" by (simp add: pools_init_def comp_def)
  ultimately have "heap_ok kmem_example (\<lambda>_. []) {}"
    using z by (simp add: heap_ok_def heap_lists_def f disjoint_family_on_def)
  then show "heap_live kmem_example {}" by (auto simp: heap_live_def)
  show "room sz kmem_example" if "sz \<le> 0x1000"
    using that by (simp add: room_def f unat_le_iff)
qed





end
