(* ===== verification/Kernel.thy ===== *)
theory Kernel
  imports Round_Robin Kmalloc "HOL-Library.Monad_Syntax"
begin

text \<open>
  The state of the multitasking kernel and its core (\<open>multitask/multitask.c\<close>): wait queues,
  rescheduling and the switch between threads. The scheduler's state is extended with memory
  management (\<open>mm\<close>), the process and mutex control blocks by address, and the globals of
  multitasking. Control blocks are typed stores; the words of kernel stacks are words of the kernel
  heap. A call that does not return, because a loop over a cyclic list never ends or the processor
  has stopped, has the value \<open>None\<close>.
\<close>

section \<open>State\<close>

record kernel_mutex_st =
  m_id :: u64
  owner_process :: ptr
  owner_thread :: ptr
  waiters :: proc_queue
  m_next :: ptr

record kernel_st = sched_st +
  mm :: kmem_st
  prc :: "ptr \<Rightarrow> process_st"
  mtx :: "ptr \<Rightarrow> kernel_mutex_st"
  dvq :: "ptr \<Rightarrow> proc_queue"
  curr_proc :: ptr
  next_proc :: ptr
  next_pid :: u64
  next_tid :: u64
  mutex_list :: ptr
  next_mutex_id :: u64
  multitask_started :: bool
  kernel_process :: ptr
  main_thread :: ptr
  thread_start :: ptr
  proc_root :: ptr

text \<open>
  The queues a \<open>proc_queue *\<close> can point to: the two of a process, the waiters of a mutex, and those of
  the device drivers.
\<close>

datatype qref = Q_NULL | Q_child ptr | Q_thread ptr | Q_mutex ptr | Q_dev ptr

fun get_queue :: "qref \<Rightarrow> 'a kernel_st_scheme \<Rightarrow> proc_queue" where
  "get_queue Q_NULL k = queue_zero"
| "get_queue (Q_child p) k = wait_child_exit (prc k p)"
| "get_queue (Q_thread p) k = wait_thread_exit (prc k p)"
| "get_queue (Q_mutex m) k = waiters (mtx k m)"
| "get_queue (Q_dev d) k = dvq k d"

definition setp :: "ptr \<Rightarrow> (process_st \<Rightarrow> process_st) \<Rightarrow> 'a kernel_st_scheme \<Rightarrow> 'a kernel_st_scheme" where
  "setp p f k = k\<lparr>prc := (prc k)(p := f (prc k p))\<rparr>"

definition sett :: "ptr \<Rightarrow> (thread_st \<Rightarrow> thread_st) \<Rightarrow> 'a kernel_st_scheme \<Rightarrow> 'a kernel_st_scheme" where
  "sett t f k = k\<lparr>thr := (thr k)(t := f (thr k t))\<rparr>"

definition setm :: "ptr \<Rightarrow> (kernel_mutex_st \<Rightarrow> kernel_mutex_st) \<Rightarrow> 'a kernel_st_scheme \<Rightarrow> 'a kernel_st_scheme" where
  "setm m f k = k\<lparr>mtx := (mtx k)(m := f (mtx k m))\<rparr>"

definition on_mm :: "(kmem_st \<Rightarrow> kmem_st) \<Rightarrow> 'a kernel_st_scheme \<Rightarrow> 'a kernel_st_scheme" where
  "on_mm f k = k\<lparr>mm := f (mm k)\<rparr>"

definition with_mm :: "(kmem_st \<Rightarrow> 'r \<times> kmem_st) \<Rightarrow> 'a kernel_st_scheme \<Rightarrow> 'r \<times> 'a kernel_st_scheme" where
  "with_mm f k = (let (r, m) = f (mm k) in (r, k\<lparr>mm := m\<rparr>))"

fun set_queue :: "qref \<Rightarrow> proc_queue \<Rightarrow> 'a kernel_st_scheme \<Rightarrow> 'a kernel_st_scheme" where
  "set_queue Q_NULL q k = k"
| "set_queue (Q_child p) q k = setp p (\<lambda>x. x\<lparr>wait_child_exit := q\<rparr>) k"
| "set_queue (Q_thread p) q k = setp p (\<lambda>x. x\<lparr>wait_thread_exit := q\<rparr>) k"
| "set_queue (Q_mutex m) q k = setm m (\<lambda>x. x\<lparr>waiters := q\<rparr>) k"
| "set_queue (Q_dev d) q k = k\<lparr>dvq := (dvq k)(d := q)\<rparr>"

section \<open>The scheduler\<close>

definition PROC_admit :: "ptr \<Rightarrow> 'a kernel_st_scheme \<Rightarrow> 'a kernel_st_scheme" where
  "PROC_admit p k = (let (m, k') = rr_admit p (mm k, k) in k'\<lparr>mm := m\<rparr>)"

definition PROC_remove :: "ptr \<Rightarrow> 'a kernel_st_scheme \<Rightarrow> 'a kernel_st_scheme option" where
  "PROC_remove p k = do {
     (m, k') \<leftarrow> rr_remove p (mm k, k);
     if halted m then None else Some (k'\<lparr>mm := m\<rparr>)
   }"

definition sched_next :: "'a kernel_st_scheme \<Rightarrow> ptr \<times> 'a kernel_st_scheme" where
  "sched_next k = (let (p, m, k') = rr_next (mm k, k) in (p, k'\<lparr>mm := m\<rparr>))"

definition num_proc_runnable :: "'a kernel_st_scheme \<Rightarrow> int" where
  "num_proc_runnable k = rr_qlen k"

definition PROC_reschedule :: "'a kernel_st_scheme \<Rightarrow> 'a kernel_st_scheme" where
  "PROC_reschedule k =
     (let (candidate, k) = sched_next k
      in if candidate = NULL
         then k\<lparr>next_proc := (if multitask_started k then main_thread k else NULL)\<rparr>
         else let (candidate, k) = (if candidate = curr_proc k \<and> rr_qlen k > 1 then sched_next k else (candidate, k));
                  k = (if curr_proc k \<noteq> NULL \<and> run_state (thr k (curr_proc k)) = PROC_RUNNING
                       then sett (curr_proc k) (\<lambda>t. t\<lparr>run_state := PROC_READY\<rparr>) k else k);
                  k = sett candidate (\<lambda>t. t\<lparr>run_state := PROC_RUNNING\<rparr>) k
              in k\<lparr>next_proc := candidate\<rparr>)"

section \<open>Switching threads\<close>

definition DEFAULT_STACK_BYTES :: u64 where "DEFAULT_STACK_BYTES = 8 * 1024"

definition switch_mmu_and_tss :: "ptr \<Rightarrow> 'a kernel_st_scheme \<Rightarrow> 'a kernel_st_scheme" where
  "switch_mmu_and_tss nxt k =
     (if nxt = NULL then k
      else let k = (if kstack (thr k nxt) \<noteq> NULL
                    then on_mm (\<lambda>m. m\<lparr>tss := (tss m)\<lparr>rsp0 := (kstack (thr k nxt) + DEFAULT_STACK_BYTES) AND NOT 15\<rparr>\<rparr>) k
                    else k);
               own = owner (thr k nxt)
           in if own \<noteq> NULL \<and> cr3 (prc k own) \<noteq> 0
              then on_mm (MMU_switch_p4 (cr3 (prc k own))) k
              else on_mm (\<lambda>m. MMU_switch_p4 (MMU_get_kernel_p4 m) m) k)"

text \<open>
  The end of \<open>isr_handler\<close> (\<open>interrupt_asm.asm\<close>): when another thread is to run, the stack pointer
  of the interrupted one is saved, and the stack of the next is loaded. The frame an interrupt
  leaves on a kernel stack is 22 words; its saved flags decide whether interrupts are on after
  \<open>iretq\<close>.
\<close>

definition frame_flags :: "ptr \<Rightarrow> ptr" where "frame_flags sp = sp + 8 * 19"

definition context_switch :: "ptr \<Rightarrow> 'a kernel_st_scheme \<Rightarrow> 'a kernel_st_scheme" where
  "context_switch sp k =
     (let cur = curr_proc k; nxt = next_proc k
      in if nxt = NULL \<or> nxt = cur
         then on_mm (\<lambda>m. m\<lparr>IF_flag := bit (kheap m (frame_flags sp)) 9\<rparr>) k
         else let k = (if cur \<noteq> NULL then sett cur (\<lambda>t. t\<lparr>saved := (saved t)\<lparr>rsp := sp\<rparr>\<rparr>) k else k);
                  k = switch_mmu_and_tss nxt k;
                  k = k\<lparr>curr_proc := nxt, next_proc := NULL\<rparr>
              in on_mm (\<lambda>m. m\<lparr>IF_flag := bit (kheap m (frame_flags (rsp (saved (thr k nxt))))) 9\<rparr>) k)"

text \<open>
  \<open>yield\<close> raises the system call interrupt: the frame is pushed at \<open>sp\<close> with the current flags, the
  gate clears the interrupt flag, and the handler reschedules.
\<close>

definition yield :: "ptr \<Rightarrow> 'a kernel_st_scheme \<Rightarrow> 'a kernel_st_scheme" where
  "yield sp k =
     (let flags = (if IF_flag (mm k) then 0x202 else 0x002);
          k = on_mm (\<lambda>m. CLI (m\<lparr>kheap := (kheap m)(frame_flags sp := flags)\<rparr>)) k
      in context_switch sp (PROC_reschedule k))"

section \<open>Wait queues\<close>

definition PROC_init_queue :: "qref \<Rightarrow> 'a kernel_st_scheme \<Rightarrow> 'a kernel_st_scheme" where
  "PROC_init_queue q k = set_queue q \<lparr>q_head = NULL, q_tail = NULL\<rparr> k"

definition enqueue :: "qref \<Rightarrow> ptr \<Rightarrow> 'a kernel_st_scheme \<Rightarrow> 'a kernel_st_scheme" where
  "enqueue q p k =
     (let k = k\<lparr>thr := set_lib_one p NULL (thr k)\<rparr>; qu = get_queue q k
      in if q_head qu = NULL then set_queue q \<lparr>q_head = p, q_tail = p\<rparr> k
         else set_queue q (qu\<lparr>q_tail := p\<rparr>) (k\<lparr>thr := set_lib_one (q_tail qu) p (thr k)\<rparr>))"

definition dequeue :: "qref \<Rightarrow> 'a kernel_st_scheme \<Rightarrow> ptr \<times> 'a kernel_st_scheme" where
  "dequeue q k =
     (let qu = get_queue q k; temp = q_head qu
      in if temp = NULL then (NULL, k)
         else let k = set_queue q (if q_head qu = q_tail qu then \<lparr>q_head = NULL, q_tail = NULL\<rparr>
                                   else qu\<lparr>q_head := lib_one (thr k temp)\<rparr>) k
              in (temp, k\<lparr>thr := set_lib_one temp NULL (thr k)\<rparr>))"

definition PROC_block_on :: "qref \<Rightarrow> bool \<Rightarrow> ptr \<Rightarrow> 'a kernel_st_scheme \<Rightarrow> 'a kernel_st_scheme option" where
  "PROC_block_on q enable_ints sp k =
     (if q = Q_NULL then Some k
      else do {
        k \<leftarrow> PROC_remove (curr_proc k) (sett (curr_proc k) (\<lambda>t. t\<lparr>run_state := PROC_BLOCKED\<rparr>) k);
        let k = enqueue q (curr_proc k) k;
        let k = (if enable_ints then on_mm STI k else k);
        Some (yield sp k)
      })"

text \<open>A thread taken off a queue can run unless it or its process is on the way out.\<close>

definition can_wake :: "ptr \<Rightarrow> 'a kernel_st_scheme \<Rightarrow> bool" where
  "can_wake p k \<longleftrightarrow> p \<noteq> NULL \<and> run_state (thr k p) \<noteq> PROC_ZOMBIE \<and>
     (owner (thr k p) = NULL \<or> \<not> exiting (prc k (owner (thr k p))))"

definition wake :: "ptr \<Rightarrow> 'a kernel_st_scheme \<Rightarrow> 'a kernel_st_scheme" where
  "wake p k = PROC_admit p (sett p (\<lambda>t. t\<lparr>run_state := PROC_READY\<rparr>) k)"

partial_function (option) PROC_unblock_one :: "qref \<Rightarrow> 'a kernel_st_scheme \<Rightarrow> (ptr \<times> 'a kernel_st_scheme) option" where
  "PROC_unblock_one q k =
     (if q = Q_NULL \<or> q_head (get_queue q k) = NULL then Some (NULL, k)
      else let (p, k) = dequeue q k
           in if can_wake p k then Some (p, wake p k) else PROC_unblock_one q k)"

definition PROC_unblock_head :: "qref \<Rightarrow> 'a kernel_st_scheme \<Rightarrow> 'a kernel_st_scheme option" where
  "PROC_unblock_head q k = map_option snd (PROC_unblock_one q k)"

partial_function (option) PROC_unblock_all :: "qref \<Rightarrow> 'a kernel_st_scheme \<Rightarrow> 'a kernel_st_scheme option" where
  "PROC_unblock_all q k =
     (if q = Q_NULL \<or> q_head (get_queue q k) = NULL then Some k
      else Option.bind (PROC_unblock_head q k) (PROC_unblock_all q))"

end
