(* ===== verification/Wait_Queues.thy ===== *)
theory Wait_Queues
  imports Kernel
begin

text \<open>
  The wait queues of the kernel are first-in first-out lists of threads; the scheduler and the queues
  do not disturb each other. A locale states the contract of a family of queues, the kernel's
  queues are its interpretation, and waking threads rests on its laws.
\<close>

section \<open>Frames\<close>

text \<open>Changes confined to the scheduler: its globals and the \<open>sched_one\<close> links.\<close>

definition sched_only :: "'s sched_st_scheme \<Rightarrow> 's sched_st_scheme \<Rightarrow> bool" where
  "sched_only s s' \<longleftrightarrow> sched_st.more s' = sched_st.more s \<and>
     (\<forall>t. thr s' t = (thr s t)\<lparr>sched_one := sched_one (thr s' t)\<rparr>)"

lemma sched_only_refl [simp]: "sched_only s s"
  by (simp add: sched_only_def)

lemma sched_onlyD:
  assumes "sched_only s s'"
  shows "run_state (thr s' t) = run_state (thr s t)" "owner (thr s' t) = owner (thr s t)"
    "lib_one (thr s' t) = lib_one (thr s t)" "tid (thr s' t) = tid (thr s t)"
    "next_thread (thr s' t) = next_thread (thr s t)" "saved (thr s' t) = saved (thr s t)"
    "kstack (thr s' t) = kstack (thr s t)" "exit_status (thr s' t) = exit_status (thr s t)"
    "ustack (thr s' t) = ustack (thr s t)" "sched_st.more s' = sched_st.more s"
proof -
  have "thr s' t = (thr s t)\<lparr>sched_one := sched_one (thr s' t)\<rparr>" using assms by (simp add: sched_only_def)
  then obtain v where v: "thr s' t = (thr s t)\<lparr>sched_one := v\<rparr>" by blast
  show "run_state (thr s' t) = run_state (thr s t)" "owner (thr s' t) = owner (thr s t)"
    "lib_one (thr s' t) = lib_one (thr s t)" "tid (thr s' t) = tid (thr s t)"
    "next_thread (thr s' t) = next_thread (thr s t)" "saved (thr s' t) = saved (thr s t)"
    "kstack (thr s' t) = kstack (thr s t)" "exit_status (thr s' t) = exit_status (thr s t)"
    "ustack (thr s' t) = ustack (thr s t)"
    unfolding v by simp_all
qed (use assms in \<open>simp add: sched_only_def\<close>)

lemma sched_only_set: "sched_only s (s\<lparr>thr := set_sched_one a b (thr s)\<rparr>)"
  by (simp add: sched_only_def set_sched_one_def)

lemma rr_admit_frame: "rr_admit p (c, s) = (c', s') \<Longrightarrow> c' = c \<and> sched_only s s'"
  by (auto simp: rr_admit_def Let_def irq_simps sched_only_def set_sched_one_def split: if_splits)

lemma rr_next_frame: "rr_next (c, s) = (p, c', s') \<Longrightarrow> c' = c \<and> sched_only s s'"
  by (auto simp: rr_next_def Let_def irq_simps sched_only_def split: if_splits)

lemma rr_remove_frame: "rr_remove p (c, s) = Some (c', s') \<Longrightarrow> sched_only s s'"
  by (auto simp: rr_remove_def Let_def irq_simps sched_only_def rr_unlink_def set_sched_one_def
      split: if_splits option.splits)

text \<open>The same for the kernel state, where the scheduler's state is extended.\<close>

lemma kernel_more:
  assumes "sched_st.more k' = sched_st.more (k :: 'a kernel_st_scheme)"
  shows "mm k' = mm k" "prc k' = prc k" "mtx k' = mtx k" "dvq k' = dvq k" "curr_proc k' = curr_proc k"
    "next_proc k' = next_proc k" "next_pid k' = next_pid k" "next_tid k' = next_tid k"
    "mutex_list k' = mutex_list k" "next_mutex_id k' = next_mutex_id k"
    "multitask_started k' = multitask_started k" "kernel_process k' = kernel_process k"
    "main_thread k' = main_thread k" "thread_start k' = thread_start k" "proc_root k' = proc_root k"
  using assms by (cases k; cases k'; simp)+

lemma admit_frame: "sched_only k (PROC_admit p k)"
proof -
  obtain c s where r: "rr_admit p (mm k, k) = (c, s)" by fastforce
  then have "c = mm k" "sched_only k s" using rr_admit_frame by blast+
  then show ?thesis using r kernel_more(1) [of s k] by (cases k; cases s) (simp add: PROC_admit_def sched_only_def)
qed

lemma next_frame: "sched_only k (snd (sched_next k))"
proof -
  obtain p c s where r: "rr_next (mm k, k) = (p, c, s)" by (cases "rr_next (mm k, k)") auto
  then have "c = mm k" "sched_only k s" using rr_next_frame by blast+
  then show ?thesis using r kernel_more(1) [of s k] by (cases k; cases s) (simp add: sched_next_def sched_only_def)
qed


lemma admit_eq: "PROC_admit p k = snd (rr_admit p (mm k, k))"
proof -
  obtain c s where r: "rr_admit p (mm k, k) = (c, s)" by fastforce
  then have "c = mm k" "mm s = mm k" using rr_admit_frame kernel_more(1) [of s k] by (blast, auto simp: sched_only_def dest: rr_admit_frame)
  then show ?thesis using r by (simp add: PROC_admit_def)
qed

lemma next_eq: "sched_next k = (fst (rr_next (mm k, k)), snd (snd (rr_next (mm k, k))))"
proof -
  obtain p c s where r: "rr_next (mm k, k) = (p, c, s)" by (cases "rr_next (mm k, k)") auto
  then have "c = mm k" "mm s = mm k" using rr_next_frame kernel_more(1) [of s k] by (blast, auto simp: sched_only_def dest: rr_next_frame)
  then show ?thesis using r by (simp add: sched_next_def)
qed

lemma remove_eq:
  assumes "rr_remove p (mm k, k) = Some (mm k, s)" "\<not> halted (mm k)"
  shows "PROC_remove p k = Some s"
proof -
  have "mm s = mm k" using rr_remove_frame [OF assms(1)] kernel_more(1) [of s k] by (simp add: sched_only_def)
  then show ?thesis using assms by (simp add: PROC_remove_def)
qed

section \<open>The kernel's scheduler\<close>

definition k_serves :: "'a kernel_st_scheme \<Rightarrow> ptr list \<Rightarrow> bool" where
  "k_serves k q \<longleftrightarrow> rr_serves k q \<and> \<not> halted (mm k)"

lemma k_serves_admit:
  assumes "k_serves k q" "p \<noteq> NULL" "p \<notin> set q"
  shows "\<exists>q1 q2. q = q1 @ q2 \<and> (q \<noteq> [] \<longrightarrow> q1 \<noteq> []) \<and> k_serves (PROC_admit p k) (q1 @ p # q2)"
proof -
  have "rr_serves k q" using assms(1) by (simp add: k_serves_def)
  from rr_serves_admit [OF this assms(2,3), of "mm k"] obtain s q1 q2 where
    r: "rr_admit p (mm k, k) = (mm k, s)" "q = q1 @ q2" "q \<noteq> [] \<longrightarrow> q1 \<noteq> []" "rr_serves s (q1 @ p # q2)" by blast
  have "mm s = mm k" using admit_frame [of k p] kernel_more(1) [of s k] r(1) by (simp add: admit_eq sched_only_def)
  then show ?thesis using r assms(1) by (auto simp: admit_eq k_serves_def)
qed

lemma k_serves_remove:
  assumes "k_serves k q" "p \<in> set q"
  shows "\<exists>k'. PROC_remove p k = Some k' \<and> k_serves k' (removeAll p q) \<and> sched_only k k'"
proof -
  have "rr_serves k q" using assms(1) by (simp add: k_serves_def)
  from rr_serves_remove [OF this assms(2), of "mm k"] obtain s where
    r: "rr_remove p (mm k, k) = Some (mm k, s)" "rr_serves s (removeAll p q)" by blast
  then show ?thesis
    using remove_eq [OF r(1)] assms(1) rr_remove_frame [OF r(1)] kernel_more(1) [of s k]
    by (auto simp: k_serves_def sched_only_def)
qed

interpretation ks: scheduler PROC_admit PROC_remove sched_next num_proc_runnable k_serves
proof unfold_locales
  fix k :: "'a kernel_st_scheme" and q p
  assume k: "k_serves k q"
  then have rr: "rr_serves k q" "\<not> halted (mm k)" by (simp_all add: k_serves_def)
  show "\<exists>q1 q2. q = q1 @ q2 \<and> (q \<noteq> [] \<longrightarrow> q1 \<noteq> []) \<and> k_serves (PROC_admit p k) (q1 @ p # q2)"
    if "p \<noteq> NULL" "p \<notin> set q" by (rule k_serves_admit [OF k that])
  show "\<exists>k'. PROC_remove p k = Some k' \<and> k_serves k' (removeAll p q)" if "p \<in> set q"
    using k_serves_remove [OF k that] by blast
  show "PROC_remove p k = Some k" if "p \<noteq> NULL" "p \<notin> set q" "length q \<noteq> 1"
    using rrs.remove_absent [of "(mm k, k)" q p] rr that remove_eq [of p k k] by simp
  show "num_proc_runnable k = int (length q)"
    using rrs.qlen_serves [of "(mm k, k)" q] rr(1) by (simp add: num_proc_runnable_def)
  show "distinct q \<and> NULL \<notin> set q" using rrs.serves_valid [of "(mm k, k)" q] rr(1) by simp
next
  fix k :: "'a kernel_st_scheme"
  assume "k_serves k []"
  then show "sched_next k = (NULL, k)"
    using rrs.next_empty [of "(mm k, k)"] by (simp add: k_serves_def next_eq)
next
  fix k :: "'a kernel_st_scheme" and p q
  assume k: "k_serves k (p # q)"
  then obtain s where s: "rr_next (mm k, k) = (p, mm k, s)" "rr_serves s (q @ [p])"
    using rr_serves_next [of k p q "mm k"] by (auto simp: k_serves_def)
  moreover have "mm s = mm k" using next_frame [of k] kernel_more(1) [of s k] s(1) by (simp add: next_eq sched_only_def)
  ultimately show "\<exists>k'. sched_next k = (p, k') \<and> k_serves k' (q @ [p])"
    using k by (auto simp: next_eq k_serves_def)
qed

section \<open>First in, first out\<close>

locale fifo_queues =
  fixes enq :: "'q \<Rightarrow> ptr \<Rightarrow> 's \<Rightarrow> 's" and deq :: "'q \<Rightarrow> 's \<Rightarrow> ptr \<times> 's"
    and holds :: "'s \<Rightarrow> 'q \<Rightarrow> ptr list \<Rightarrow> bool" and usable :: "'q \<Rightarrow> bool"
  assumes enq_holds: "usable q \<Longrightarrow> holds s q ts \<Longrightarrow> p \<noteq> NULL \<Longrightarrow> p \<notin> set ts \<Longrightarrow> holds (enq q p s) q (ts @ [p])"
    and enq_other: "usable q \<Longrightarrow> q' \<noteq> q \<Longrightarrow> holds s q ts \<Longrightarrow> holds s q' us \<Longrightarrow> p \<notin> set us \<Longrightarrow>
      set ts \<inter> set us = {} \<Longrightarrow> holds (enq q p s) q' us"
    and deq_holds: "usable q \<Longrightarrow> holds s q (t # ts) \<Longrightarrow> \<exists>s'. deq q s = (t, s') \<and> holds s' q ts"
    and deq_empty: "usable q \<Longrightarrow> holds s q [] \<Longrightarrow> deq q s = (NULL, s)"
    and deq_other: "usable q \<Longrightarrow> q' \<noteq> q \<Longrightarrow> holds s q (t # ts) \<Longrightarrow> holds s q' us \<Longrightarrow> t \<notin> set us \<Longrightarrow>
      holds (snd (deq q s)) q' us"
    and holds_valid: "holds s q ts \<Longrightarrow> distinct ts \<and> NULL \<notin> set ts"
begin

text \<open>What went in comes out in the same order, after what was there before.\<close>

lemma enq_all:
  "usable q \<Longrightarrow> holds s q ts \<Longrightarrow> distinct (ts @ ps) \<Longrightarrow> NULL \<notin> set ps \<Longrightarrow> holds (fold (enq q) ps s) q (ts @ ps)"
proof (induction ps arbitrary: s ts)
  case (Cons p ps)
  then show ?case using Cons.IH [OF Cons.prems(1) enq_holds [OF Cons.prems(1,2), of p]] by auto
qed simp

lemma deq_all: "usable q \<Longrightarrow> holds s q ts \<Longrightarrow> \<exists>s'. run_next (deq q) (length ts) s = (ts, s') \<and> holds s' q []"
proof (induction ts arbitrary: s)
  case (Cons t ts)
  obtain s1 where s1: "deq q s = (t, s1)" "holds s1 q ts" using deq_holds [OF Cons.prems] by blast
  then show ?case using Cons.IH [OF Cons.prems(1) s1(2)] by auto
qed simp

lemma fifo:
  assumes "usable q" "holds s q []" "distinct ps" "NULL \<notin> set ps"
  shows "\<exists>s'. run_next (deq q) (length ps) (fold (enq q) ps s) = (ps, s') \<and> holds s' q []"
  using deq_all [OF assms(1) enq_all [OF assms(1,2), of ps]] assms(3,4) by simp

end

definition queue_holds :: "'a kernel_st_scheme \<Rightarrow> qref \<Rightarrow> ptr list \<Rightarrow> bool" where
  "queue_holds k q ts \<longleftrightarrow> llist (queue_links (thr k)) NULL (q_head (get_queue q k)) ts \<and>
     (ts \<noteq> [] \<longrightarrow> q_tail (get_queue q k) = last ts)"

lemma get_set_queue: "get_queue q' (set_queue q x k) = (if q' = q \<and> q \<noteq> Q_NULL then x else get_queue q' k)"
  by (cases q; cases q') (auto simp: setp_def setm_def)

lemma set_queue_frame [simp]: "thr (set_queue q x k) = thr k" "mm (set_queue q x k) = mm k"
  by (cases q; simp add: setp_def setm_def)+

lemma get_queue_thr [simp]: "get_queue q (k\<lparr>thr := T\<rparr>) = get_queue q k"
  by (cases q) simp_all

interpretation kq: fifo_queues enqueue dequeue queue_holds "\<lambda>q. q \<noteq> Q_NULL"
proof unfold_locales
  fix q ts p and k :: "'a kernel_st_scheme"
  assume a: "q \<noteq> Q_NULL" "queue_holds k q ts" "p \<noteq> NULL" "p \<notin> set ts"
  show "queue_holds (enqueue q p k) q (ts @ [p])"
  proof (cases "ts = []")
    case True
    then show ?thesis using a by (simp add: queue_holds_def enqueue_def Let_def get_set_queue)
  next
    case False
    then have h: "q_head (get_queue q k) \<noteq> NULL" "q_tail (get_queue q k) = last ts"
      using a(2) by (cases ts; auto simp: queue_holds_def)+
    show ?thesis
      using h llist_snoc [of "queue_links (thr k)" NULL _ ts p] a False
      by (simp add: queue_holds_def enqueue_def Let_def get_set_queue)
  qed
next
  fix q q' ts us p and k :: "'a kernel_st_scheme"
  assume a: "q \<noteq> Q_NULL" "q' \<noteq> q" "queue_holds k q ts" "queue_holds k q' us" "p \<notin> set us" "set ts \<inter> set us = {}"
  have "q_tail (get_queue q k) \<notin> set us" if "q_head (get_queue q k) \<noteq> NULL"
  proof -
    have "ts \<noteq> []" using a(3) that by (auto simp: queue_holds_def)
    then have "q_tail (get_queue q k) \<in> set ts" using a(3) by (simp add: queue_holds_def)
    then show ?thesis using a(6) by blast
  qed
  then show "queue_holds (enqueue q p k) q' us"
    using a(2,4,5) by (auto simp: queue_holds_def enqueue_def Let_def get_set_queue)
next
  fix q t ts and k :: "'a kernel_st_scheme"
  assume a: "q \<noteq> Q_NULL" "queue_holds k q (t # ts)"
  have "llist (queue_links (thr k)) NULL (q_head (get_queue q k)) (t # ts)" using a(2) by (simp add: queue_holds_def)
  then have d: "distinct (t # ts)" by (rule llist_distinct)
  then have e: "q_head (get_queue q k) = q_tail (get_queue q k) \<longleftrightarrow> ts = []"
    using a(2) by (auto simp: queue_holds_def)
  show "\<exists>k'. dequeue q k = (t, k') \<and> queue_holds k' q ts"
    using a d e by (cases "ts = []") (auto simp: queue_holds_def dequeue_def Let_def get_set_queue)
next
  fix q and k :: "'a kernel_st_scheme"
  assume "q \<noteq> Q_NULL" "queue_holds k q []"
  then show "dequeue q k = (NULL, k)" by (simp add: queue_holds_def dequeue_def Let_def)
next
  fix q q' t ts us and k :: "'a kernel_st_scheme"
  assume a: "q \<noteq> Q_NULL" "q' \<noteq> q" "queue_holds k q (t # ts)" "queue_holds k q' us" "t \<notin> set us"
  then show "queue_holds (snd (dequeue q k)) q' us"
    by (auto simp: queue_holds_def dequeue_def Let_def get_set_queue)
next
  fix q ts and k :: "'a kernel_st_scheme"
  assume "queue_holds k q ts"
  then have l: "llist (queue_links (thr k)) NULL (q_head (get_queue q k)) ts" by (simp add: queue_holds_def)
  show "distinct ts \<and> NULL \<notin> set ts" using llist_distinct [OF l] l by (simp add: llist_def)
qed


section \<open>Waking threads\<close>

lemma serves_cong:
  assumes "sched_links (thr s') = sched_links (thr s)" "Head s' = Head s" "Tail s' = Tail s"
    "Current s' = Current s" "Count s' = Count s"
  shows "rr_serves s' q = rr_serves s q"
  using assms by (simp add: rr_serves_def rr_ring_def)

lemma sett_serves [simp]:
  "(\<And>x. sched_one (f x) = sched_one x) \<Longrightarrow> k_serves (sett t f k) q = k_serves k q"
proof -
  assume f: "\<And>x. sched_one (f x) = sched_one x"
  have "rr_serves (sett t f k) q = rr_serves k q" by (rule serves_cong) (use f in \<open>auto simp: sett_def links_defs\<close>)
  then show ?thesis by (simp add: k_serves_def sett_def)
qed

lemma set_queue_serves [simp]: "k_serves (set_queue q x k) r = k_serves k r"
proof -
  have "rr_serves (set_queue q x k) r = rr_serves k r"
    by (rule serves_cong) (cases q; simp add: setp_def setm_def)+
  then show ?thesis by (simp add: k_serves_def)
qed

lemma lib_one_serves [simp]: "k_serves (k\<lparr>thr := set_lib_one a b (thr k)\<rparr>) r = k_serves k r"
proof -
  have "rr_serves (k\<lparr>thr := set_lib_one a b (thr k)\<rparr>) r = rr_serves k r" by (rule serves_cong) simp_all
  then show ?thesis by (simp add: k_serves_def)
qed

lemma dequeue_serves: "k_serves (snd (dequeue q k)) r = k_serves k r"
  using lib_one_serves [where k = "set_queue q x k" for x] by (simp add: dequeue_def Let_def)

lemma queue_holds_sched_only: "sched_only k k' \<Longrightarrow> queue_holds k' q ts = queue_holds k q ts"
proof -
  assume s: "sched_only k k'"
  have "queue_links (thr k') = queue_links (thr k)" using sched_onlyD(3) [OF s] by (auto simp: links_defs)
  moreover have "get_queue q k' = get_queue q k" using kernel_more [OF sched_onlyD(10) [OF s]] by (cases q) simp_all
  ultimately show ?thesis by (simp add: queue_holds_def)
qed

lemma queue_holds_sett: "(\<And>x. lib_one (f x) = lib_one x) \<Longrightarrow> queue_holds (sett t f k) q ts = queue_holds k q ts"
proof -
  assume f: "\<And>x. lib_one (f x) = lib_one x"
  have "queue_links (thr (sett t f k)) = queue_links (thr k)" using f by (auto simp: links_defs sett_def)
  moreover have "get_queue q (sett t f k) = get_queue q k" by (cases q) (simp_all add: sett_def)
  ultimately show ?thesis by (simp add: queue_holds_def)
qed

lemma wake_frame:
  "queue_holds (wake p k) q ts = queue_holds k q ts"
  "run_state (thr (wake p k) t) = (if t = p then PROC_READY else run_state (thr k t))"
  "owner (thr (wake p k) t) = owner (thr k t)" "prc (wake p k) = prc k" "mm (wake p k) = mm k"
proof -
  let ?k = "sett p (\<lambda>t. t\<lparr>run_state := PROC_READY\<rparr>) k"
  have s: "sched_only ?k (wake p k)" unfolding wake_def by (rule admit_frame)
  show "queue_holds (wake p k) q ts = queue_holds k q ts"
    by (simp add: queue_holds_sched_only [OF s] queue_holds_sett)
  show "run_state (thr (wake p k) t) = (if t = p then PROC_READY else run_state (thr k t))"
    "owner (thr (wake p k) t) = owner (thr k t)"
    by (simp_all add: sched_onlyD [OF s] sett_def)
  show "prc (wake p k) = prc k" "mm (wake p k) = mm k"
    using kernel_more(1,2) [OF sched_onlyD(10) [OF s]] by (simp_all add: sett_def)
qed

lemma wake_serves:
  assumes "k_serves k r" "p \<noteq> NULL" "p \<notin> set r"
  shows "\<exists>r1 r2. r = r1 @ r2 \<and> (r \<noteq> [] \<longrightarrow> r1 \<noteq> []) \<and> k_serves (wake p k) (r1 @ p # r2)"
  unfolding wake_def by (rule k_serves_admit) (use assms in simp_all)

lemma set_queue_exiting [simp]: "exiting (prc (set_queue q x k) p) = exiting (prc k p)"
  by (cases q) (simp_all add: setp_def setm_def)

lemma dequeue_frame:
  "run_state (thr (snd (dequeue q k)) t) = run_state (thr k t)" "owner (thr (snd (dequeue q k)) t) = owner (thr k t)"
  "exiting (prc (snd (dequeue q k)) p) = exiting (prc k p)" "mm (snd (dequeue q k)) = mm k"
  by (simp_all add: dequeue_def Let_def)

lemma dequeue_can_wake: "can_wake t (snd (dequeue q k)) = can_wake t k"
  by (simp add: can_wake_def dequeue_frame)

text \<open>
  \<open>PROC_unblock_one\<close> drops waiters that can no longer run and wakes the first that can.
\<close>

definition unblocked ::
    "qref \<Rightarrow> ptr list \<Rightarrow> ptr list \<Rightarrow> 'a kernel_st_scheme \<Rightarrow> ptr \<Rightarrow> 'a kernel_st_scheme \<Rightarrow> bool" where
  "unblocked q ts r k p k' \<longleftrightarrow>
     queue_holds k' q (tl (dropWhile (\<lambda>t. \<not> can_wake t k) ts)) \<and>
     (\<forall>q' us. q' \<noteq> q \<longrightarrow> queue_holds k q' us \<longrightarrow> set ts \<inter> set us = {} \<longrightarrow> queue_holds k' q' us) \<and>
     (\<forall>t. run_state (thr k' t) = (if t = p \<and> p \<noteq> NULL then PROC_READY else run_state (thr k t))) \<and>
     (\<forall>t. owner (thr k' t) = owner (thr k t)) \<and> (\<forall>x. exiting (prc k' x) = exiting (prc k x)) \<and> mm k' = mm k \<and>
     (case find (\<lambda>t. can_wake t k) ts of
        None \<Rightarrow> p = NULL \<and> k_serves k' r
      | Some t \<Rightarrow> p = t \<and> (\<exists>r1 r2. r = r1 @ r2 \<and> (r \<noteq> [] \<longrightarrow> r1 \<noteq> []) \<and> k_serves k' (r1 @ t # r2)))"

lemma unblock_one_list:
  assumes "q \<noteq> Q_NULL" "queue_holds k q ts" "k_serves k r" "set r \<inter> set ts = {}"
  shows "\<exists>p k'. PROC_unblock_one q k = Some (p, k') \<and> unblocked q ts r k p k'"
  using assms
proof (induction ts arbitrary: k)
  case Nil
  then have "PROC_unblock_one q k = Some (NULL, k)"
    by (subst PROC_unblock_one.simps) (simp add: queue_holds_def)
  then show ?case using Nil by (auto simp: unblocked_def)
next
  case (Cons t ts)
  obtain k1 where d: "dequeue q k = (t, k1)" "queue_holds k1 q ts" using kq.deq_holds [OF Cons.prems(1,2)] by blast
  note fr = dequeue_frame [of q k, unfolded d(1) snd_conv] and cw = dequeue_can_wake [of _ q k, unfolded d(1) snd_conv]
  have t0: "t \<noteq> NULL" "t \<notin> set ts" using kq.holds_valid [OF Cons.prems(2)] by auto
  have s1: "k_serves k1 r" using dequeue_serves [of q k r] Cons.prems(3) d(1) by simp
  have oth: "queue_holds k1 q' us" if "q' \<noteq> q" "queue_holds k q' us" "set (t # ts) \<inter> set us = {}" for q' us
    using kq.deq_other [OF Cons.prems(1) that(1) Cons.prems(2) that(2)] that(3) d(1) by simp
  have step: "PROC_unblock_one q k = (if can_wake t k then Some (t, wake t k1) else PROC_unblock_one q k1)"
    using Cons.prems(1,2) d(1) cw t0(1) by (subst PROC_unblock_one.simps) (simp add: queue_holds_def)
  show ?case
  proof (cases "can_wake t k")
    case True
    then have u: "PROC_unblock_one q k = Some (t, wake t k1)" using step by simp
    have "t \<notin> set r" using Cons.prems(4) by simp
    then have "\<exists>r1 r2. r = r1 @ r2 \<and> (r \<noteq> [] \<longrightarrow> r1 \<noteq> []) \<and> k_serves (wake t k1) (r1 @ t # r2)"
      by (rule wake_serves [OF s1 t0(1)])
    then show ?thesis
      unfolding u unblocked_def using True d(2) oth t0 fr by (simp add: wake_frame)
  next
    case False
    have "set r \<inter> set ts = {}" using Cons.prems(4) by auto
    from Cons.IH [OF Cons.prems(1) d(2) s1 this] obtain p k' where
      ih: "PROC_unblock_one q k1 = Some (p, k')" "unblocked q ts r k1 p k'" by blast
    have "unblocked q (t # ts) r k p k'"
      unfolding unblocked_def
    proof (intro conjI allI impI)
      fix q' us assume "q' \<noteq> q" "queue_holds k q' us" "set (t # ts) \<inter> set us = {}"
      then show "queue_holds k' q' us" using ih(2) oth by (simp add: unblocked_def)
    qed (use ih(2) False fr cw in \<open>simp_all add: unblocked_def\<close>)
    then show ?thesis using step False ih(1) by auto
  qed
qed

end
