(* ===== verification/Syscall_Frame.thy ===== *)
theory Syscall_Frame
  imports Kernel Address_Space
begin

text \<open>
  What the system calls share: the frame of saved registers an interrupt leaves on a kernel stack
  (\<open>struct syscall_frame\<close> of \<open>include/kernel/syscall.h\<close>), the result of a system call, calls into
  memory management, and the accesses to user memory that the handlers make through the current
  page tables.
\<close>

section \<open>Frames\<close>

datatype frame_reg = F_r15 | F_r14 | F_r13 | F_r12 | F_rbp | F_rbx | F_r11 | F_r10 | F_r9 | F_r8
  | F_rdi | F_rsi | F_rdx | F_rcx | F_rax | F_vector | F_err | F_rip | F_cs | F_rflags | F_rsp | F_ss

fun frame_slot :: "frame_reg \<Rightarrow> u64" where
  "frame_slot F_r15 = 0" | "frame_slot F_r14 = 1" | "frame_slot F_r13 = 2" | "frame_slot F_r12 = 3"
| "frame_slot F_rbp = 4" | "frame_slot F_rbx = 5" | "frame_slot F_r11 = 6" | "frame_slot F_r10 = 7"
| "frame_slot F_r9 = 8" | "frame_slot F_r8 = 9" | "frame_slot F_rdi = 10" | "frame_slot F_rsi = 11"
| "frame_slot F_rdx = 12" | "frame_slot F_rcx = 13" | "frame_slot F_rax = 14" | "frame_slot F_vector = 15"
| "frame_slot F_err = 16" | "frame_slot F_rip = 17" | "frame_slot F_cs = 18" | "frame_slot F_rflags = 19"
| "frame_slot F_rsp = 20" | "frame_slot F_ss = 21"

definition frame_addr :: "ptr \<Rightarrow> frame_reg \<Rightarrow> ptr" where
  "frame_addr frame r = frame + 8 * frame_slot r"

definition get_reg :: "ptr \<Rightarrow> frame_reg \<Rightarrow> 'a kernel_st_scheme \<Rightarrow> u64" where
  "get_reg frame r k = kheap (mm k) (frame_addr frame r)"

definition set_reg :: "ptr \<Rightarrow> frame_reg \<Rightarrow> u64 \<Rightarrow> 'a kernel_st_scheme \<Rightarrow> 'a kernel_st_scheme" where
  "set_reg frame r v = on_mm (\<lambda>m. m\<lparr>kheap := (kheap m)(frame_addr frame r := v)\<rparr>)"

section \<open>Results\<close>

text \<open>
  A system call returns a value, or blocks its thread inside the handler. The latter records where
  the thread goes on, with the local variables of the handler that are read then: \<open>parent\<close> and the
  frame in \<open>syscall_wait\<close>; \<open>owner\<close>, \<open>tid\<close> and \<open>status_ptr\<close> in \<open>syscall_thread_join\<close>; \<open>id\<close> and \<open>mutex\<close>
  in \<open>syscall_mutex_lock\<close>.
\<close>

datatype resume = In_wait ptr ptr | In_thread_join ptr u64 ptr | In_mutex_lock u64 ptr | In_getchar

datatype sys_result = Ret u64 | Blocked resume

section \<open>Memory management\<close>

text \<open>A call into memory management that stops the processor does not return.\<close>

definition run_mm :: "(kmem_st \<Rightarrow> kmem_st) \<Rightarrow> 'a kernel_st_scheme \<Rightarrow> 'a kernel_st_scheme option" where
  "run_mm f k = (let m = f (mm k) in if halted m then None else Some (k\<lparr>mm := m\<rparr>))"

definition call_mm :: "(kmem_st \<Rightarrow> 'r \<times> kmem_st) \<Rightarrow> 'a kernel_st_scheme \<Rightarrow> ('r \<times> 'a kernel_st_scheme) option" where
  "call_mm f k = (let (r, m) = f (mm k) in if halted m then None else Some (r, k\<lparr>mm := m\<rparr>))"

text \<open>
  An access to one byte of user memory goes through the page tables of the current address space; a
  page that is reserved but not yet backed is filled by the page fault handler and the access
  repeated. The handlers do not check the addresses they get from user programs; an address below
  the user region is kernel memory that the model does not represent as bytes, and one that is not
  canonical raises an exception that stops the processor. Both have no successor state.
\<close>

definition user_address :: "u64 \<Rightarrow> bool" where
  "user_address va \<longleftrightarrow> VA_USER_BASE \<le> va \<and> va < 0x800000000000"

definition touch_user :: "u64 \<Rightarrow> 'a kernel_st_scheme \<Rightarrow> (u64 \<times> 'a kernel_st_scheme) option" where
  "touch_user va k =
     (if \<not> user_address va then None
      else case translate (mem (mm k)) (CR3 (mm k)) va of
        Some pa \<Rightarrow> Some (pa, k)
      | None \<Rightarrow> do {
          k \<leftarrow> run_mm (ISR14_PAGE_FAULT va) k;
          pa \<leftarrow> translate (mem (mm k)) (CR3 (mm k)) va;
          Some (pa, k)
        })"

definition load_user_byte :: "u64 \<Rightarrow> 'a kernel_st_scheme \<Rightarrow> (u8 \<times> 'a kernel_st_scheme) option" where
  "load_user_byte va k = do {
     (pa, k) \<leftarrow> touch_user va k;
     Some (get_byte (mem (mm k)) pa, k)
   }"

definition store_user_byte :: "u64 \<Rightarrow> u8 \<Rightarrow> 'a kernel_st_scheme \<Rightarrow> 'a kernel_st_scheme option" where
  "store_user_byte va b k = do {
     (pa, k) \<leftarrow> touch_user va k;
     Some (on_mm (\<lambda>m. m\<lparr>mem := put_byte pa b (mem m)\<rparr>) k)
   }"

text \<open>\<open>*status_ptr = status\<close> for an \<open>int\<close> status, least significant byte first.\<close>

definition store_user_int :: "u64 \<Rightarrow> u32 \<Rightarrow> 'a kernel_st_scheme \<Rightarrow> 'a kernel_st_scheme option" where
  "store_user_int va v k = do {
     k \<leftarrow> store_user_byte va (ucast v) k;
     k \<leftarrow> store_user_byte (va + 1) (ucast (drop_bit 8 v)) k;
     k \<leftarrow> store_user_byte (va + 2) (ucast (drop_bit 16 v)) k;
     store_user_byte (va + 3) (ucast (drop_bit 24 v)) k
   }"

end
