(* ===== verification/Mutex.thy ===== *)
theory Mutex
  imports Wait_Queues Syscall_Frame
begin

text \<open>
  The mutexes of \<open>multitask/mutex_syscalls.c\<close>: a list of control blocks, each belonging to a
  process, with the thread that owns it and the queue of those waiting for it. \<open>sp\<close> is the address
  of the interrupt frame on the kernel stack of a thread that blocks.
\<close>

section \<open>The list of mutexes\<close>

definition mutex_links :: "'a kernel_st_scheme \<Rightarrow> ptr \<Rightarrow> ptr" where
  "mutex_links k = (\<lambda>m. m_next (mtx k m))"

definition sizeof_kernel_mutex_st :: u64 where "sizeof_kernel_mutex_st = 48"

definition find_mutex :: "ptr \<Rightarrow> u64 \<Rightarrow> 'a kernel_st_scheme \<Rightarrow> ptr option" where
  "find_mutex own i k =
     list_find (mutex_links k) NULL (\<lambda>m. m_id (mtx k m) = i \<and> owner_process (mtx k m) = own) (mutex_list k)"

definition unlink_mutex :: "ptr \<Rightarrow> 'a kernel_st_scheme \<Rightarrow> 'a kernel_st_scheme option" where
  "unlink_mutex mutex k = do {
     found \<leftarrow> list_prev (mutex_links k) NULL mutex NULL (mutex_list k);
     case found of
       None \<Rightarrow> Some k
     | Some prev \<Rightarrow>
         let nxt = m_next (mtx k mutex);
             k = (if prev \<noteq> NULL then setm prev (\<lambda>x. x\<lparr>m_next := nxt\<rparr>) k else k\<lparr>mutex_list := nxt\<rparr>)
         in Some (setm mutex (\<lambda>x. x\<lparr>m_next := NULL\<rparr>) k)
   }"

definition free_mutex :: "ptr \<Rightarrow> 'a kernel_st_scheme \<Rightarrow> 'a kernel_st_scheme option" where
  "free_mutex mutex k = run_mm (kfree mutex) k"

section \<open>System calls\<close>

definition syscall_mutex_create :: "'a kernel_st_scheme \<Rightarrow> (sys_result \<times> 'a kernel_st_scheme) option" where
  "syscall_mutex_create k = do {
     (mutex, k) \<leftarrow> call_mm (kmalloc sizeof_kernel_mutex_st) k;
     if mutex = NULL then Some (Ret 0, k)
     else let i = next_mutex_id k;
              k = k\<lparr>next_mutex_id := i + 1\<rparr>;
              k = setm mutex (\<lambda>x. x\<lparr>m_id := i, owner_process := owner (thr k (curr_proc k)), owner_thread := NULL\<rparr>) k;
              k = PROC_init_queue (Q_mutex mutex) k;
              k = setm mutex (\<lambda>x. x\<lparr>m_next := mutex_list k\<rparr>) k;
              k = k\<lparr>mutex_list := mutex\<rparr>
          in Some (Ret (m_id (mtx k mutex)), k)
   }"

text \<open>
  The loop of \<open>syscall_mutex_lock\<close> from its top to the call that blocks, and from there to the next
  round.
\<close>

definition mutex_lock_try :: "u64 \<Rightarrow> ptr \<Rightarrow> 'a kernel_st_scheme \<Rightarrow> (sys_result \<times> 'a kernel_st_scheme) option" where
  "mutex_lock_try i sp k = do {
     let k = on_mm CLI k;
     mutex \<leftarrow> find_mutex (owner (thr k (curr_proc k))) i k;
     if mutex = NULL then Some (Ret (-1), on_mm STI k)
     else if owner_thread (mtx k mutex) = NULL
     then Some (Ret 0, on_mm STI (setm mutex (\<lambda>x. x\<lparr>owner_thread := curr_proc k\<rparr>) k))
     else if owner_thread (mtx k mutex) = curr_proc k then Some (Ret (-1), on_mm STI k)
     else do {
       k \<leftarrow> PROC_block_on (Q_mutex mutex) True sp k;
       Some (Blocked (In_mutex_lock i mutex), k)
     }
   }"

definition mutex_lock_resume :: "u64 \<Rightarrow> ptr \<Rightarrow> ptr \<Rightarrow> 'a kernel_st_scheme \<Rightarrow> (sys_result \<times> 'a kernel_st_scheme) option" where
  "mutex_lock_resume i mutex sp k =
     (let k = on_mm CLI k
      in if owner_thread (mtx k mutex) = curr_proc k then Some (Ret 0, on_mm STI k)
         else mutex_lock_try i sp k)"

definition no_process :: "'a kernel_st_scheme \<Rightarrow> bool" where
  "no_process k \<longleftrightarrow> curr_proc k = NULL \<or> owner (thr k (curr_proc k)) = NULL"

definition syscall_mutex_lock :: "ptr \<Rightarrow> ptr \<Rightarrow> 'a kernel_st_scheme \<Rightarrow> (sys_result \<times> 'a kernel_st_scheme) option" where
  "syscall_mutex_lock frame sp k =
     (let i = get_reg frame F_rdi k
      in if no_process k \<or> i = 0 then Some (Ret (-1), k) else mutex_lock_try i sp k)"

definition syscall_mutex_unlock :: "ptr \<Rightarrow> 'a kernel_st_scheme \<Rightarrow> (sys_result \<times> 'a kernel_st_scheme) option" where
  "syscall_mutex_unlock frame k =
     (let i = get_reg frame F_rdi k
      in if no_process k \<or> i = 0 then Some (Ret (-1), k)
         else do {
           let k = on_mm CLI k;
           mutex \<leftarrow> find_mutex (owner (thr k (curr_proc k))) i k;
           if mutex = NULL \<or> owner_thread (mtx k mutex) \<noteq> curr_proc k then Some (Ret (-1), on_mm STI k)
           else do {
             (next_owner, k) \<leftarrow> PROC_unblock_one (Q_mutex mutex) k;
             Some (Ret 0, on_mm STI (setm mutex (\<lambda>x. x\<lparr>owner_thread := next_owner\<rparr>) k))
           }
         })"

definition syscall_mutex_destroy :: "ptr \<Rightarrow> 'a kernel_st_scheme \<Rightarrow> (sys_result \<times> 'a kernel_st_scheme) option" where
  "syscall_mutex_destroy frame k =
     (let i = get_reg frame F_rdi k
      in if no_process k \<or> i = 0 then Some (Ret (-1), k)
         else do {
           let k = on_mm CLI k;
           mutex \<leftarrow> find_mutex (owner (thr k (curr_proc k))) i k;
           if mutex = NULL \<or> owner_thread (mtx k mutex) \<noteq> NULL \<or> q_head (waiters (mtx k mutex)) \<noteq> NULL
           then Some (Ret (-1), on_mm STI k)
           else do {
             k \<leftarrow> unlink_mutex mutex k;
             k \<leftarrow> free_mutex mutex (on_mm STI k);
             Some (Ret 0, k)
           }
         })"

section \<open>The mutexes of a process that ends\<close>

partial_function (option) destroy_mutexes_from :: "ptr \<Rightarrow> ptr \<Rightarrow> 'a kernel_st_scheme \<Rightarrow> 'a kernel_st_scheme option" where
  "destroy_mutexes_from own cur k =
     (if cur = NULL then Some k
      else let nxt = m_next (mtx k cur)
           in if owner_process (mtx k cur) = own
              then do {
                k \<leftarrow> unlink_mutex cur k;
                k \<leftarrow> PROC_unblock_all (Q_mutex cur) k;
                k \<leftarrow> free_mutex cur k;
                destroy_mutexes_from own nxt k
              }
              else destroy_mutexes_from own nxt k)"

definition MUTEX_destroy_process_mutexes :: "ptr \<Rightarrow> 'a kernel_st_scheme \<Rightarrow> 'a kernel_st_scheme option" where
  "MUTEX_destroy_process_mutexes own k =
     (if own = NULL then Some k
      else do {
        let ints_enabled = are_interrupts_enabled (mm k);
        let k = (if ints_enabled then on_mm CLI k else k);
        k \<leftarrow> destroy_mutexes_from own (mutex_list k) k;
        Some (on_mm (irq_restore ints_enabled) k)
      })"

end
