(* ===== verification/Multitask.thy ===== *)
theory Multitask
  imports Mutex
begin

text \<open>
  Processes and threads (\<open>multitask/multitask.c\<close>): creation, the lists that tie threads to their
  process and processes to their parent, and the end of threads and processes. Processes and
  threads are allocated in the kernel heap; \<open>kernel_process\<close> and \<open>main_thread\<close> are the addresses of
  the two static control blocks.
\<close>

section \<open>Constants\<close>

definition x86_64_ALIGNMENT :: u64 where "x86_64_ALIGNMENT = 16"
definition DEFAULT_RFLAGS :: u64 where "DEFAULT_RFLAGS = 0x202"
definition USER_CS :: u64 where "USER_CS = 0x18"
definition USER_DS :: u64 where "USER_DS = 0x20"
definition USER_RPL :: u64 where "USER_RPL = 3"
definition NO_THREAD :: u64 where "NO_THREAD = 0"

definition sizeof_process_st :: u64 where "sizeof_process_st = 104"
definition sizeof_thread_st :: u64 where "sizeof_thread_st = 240"

definition align_down :: "u64 \<Rightarrow> u64 \<Rightarrow> u64" where
  "align_down addr al = addr AND NOT (al - 1)"

section \<open>Initialisation of control blocks\<close>

definition PROC_init_process :: "ptr \<Rightarrow> ptr \<Rightarrow> u64 \<Rightarrow> 'a kernel_st_scheme \<Rightarrow> 'a kernel_st_scheme" where
  "PROC_init_process p par new_cr3 k =
     (let k = setp p (\<lambda>x. x\<lparr>pid := next_pid k, cr3 := new_cr3, parent := par, first_child := NULL,
                            next_sibling := NULL, threads := NULL, live_threads := 0, p_exit_status := 0,
                            exiting := False, zombie := False\<rparr>) (k\<lparr>next_pid := next_pid k + 1\<rparr>)
      in PROC_init_queue (Q_thread p) (PROC_init_queue (Q_child p) k))"

definition PROC_init_thread :: "ptr \<Rightarrow> ptr \<Rightarrow> 'a kernel_st_scheme \<Rightarrow> 'a kernel_st_scheme" where
  "PROC_init_thread t own k =
     sett t (\<lambda>_. \<lparr>tid = next_tid k, kstack = NULL, ustack = NULL, stacksize = DEFAULT_STACK_BYTES,
                  owner = own, saved = rfile_zero, run_state = PROC_READY, exit_status = 0,
                  next_thread = NULL, lib_one = NULL, lib_two = NULL, sched_one = NULL, sched_two = NULL,
                  exited = NULL\<rparr>) (k\<lparr>next_tid := next_tid k + 1\<rparr>)"

section \<open>The process tree\<close>

definition sibling_links :: "'a kernel_st_scheme \<Rightarrow> ptr \<Rightarrow> ptr" where
  "sibling_links k = (\<lambda>p. next_sibling (prc k p))"

definition PROC_link_process_child :: "ptr \<Rightarrow> ptr \<Rightarrow> 'a kernel_st_scheme \<Rightarrow> 'a kernel_st_scheme" where
  "PROC_link_process_child par child k =
     (if par = NULL \<or> child = NULL then k
      else let k = setp child (\<lambda>x. x\<lparr>parent := par\<rparr>) k;
               k = setp child (\<lambda>x. x\<lparr>next_sibling := first_child (prc k par)\<rparr>) k
           in setp par (\<lambda>x. x\<lparr>first_child := child\<rparr>) k)"

definition PROC_unlink_process_child :: "ptr \<Rightarrow> ptr \<Rightarrow> 'a kernel_st_scheme \<Rightarrow> 'a kernel_st_scheme option" where
  "PROC_unlink_process_child par child k =
     (if par = NULL \<or> child = NULL then Some k
      else do {
        found \<leftarrow> list_prev (sibling_links k) NULL child NULL (first_child (prc k par));
        case found of
          None \<Rightarrow> Some k
        | Some prev \<Rightarrow>
            let nxt = next_sibling (prc k child);
                k = (if prev \<noteq> NULL then setp prev (\<lambda>x. x\<lparr>next_sibling := nxt\<rparr>) k
                     else setp par (\<lambda>x. x\<lparr>first_child := nxt\<rparr>) k);
                k = setp child (\<lambda>x. x\<lparr>parent := NULL\<rparr>) k
            in Some (setp child (\<lambda>x. x\<lparr>next_sibling := NULL\<rparr>) k)
      })"

definition PROC_find_zombie_child :: "ptr \<Rightarrow> 'a kernel_st_scheme \<Rightarrow> ptr option" where
  "PROC_find_zombie_child par k =
     list_find (sibling_links k) NULL (\<lambda>c. zombie (prc k c)) (if par \<noteq> NULL then first_child (prc k par) else NULL)"

text \<open>The loop that hands the children over; the last child is handled behind it.\<close>

partial_function (option) reparent_from :: "ptr \<Rightarrow> 'a kernel_st_scheme \<Rightarrow> (ptr \<times> 'a kernel_st_scheme) option" where
  "reparent_from child k =
     (if next_sibling (prc k child) \<noteq> NULL
      then let k = setp child (\<lambda>x. x\<lparr>parent := kernel_process k\<rparr>) k
           in reparent_from (next_sibling (prc k child)) k
      else Some (child, k))"

definition PROC_reparent_children :: "ptr \<Rightarrow> 'a kernel_st_scheme \<Rightarrow> 'a kernel_st_scheme option" where
  "PROC_reparent_children ex k =
     (if ex = NULL \<or> first_child (prc k ex) = NULL then Some k
      else do {
        (child, k) \<leftarrow> reparent_from (first_child (prc k ex)) k;
        let k = setp child (\<lambda>x. x\<lparr>parent := kernel_process k\<rparr>) k;
        let k = setp child (\<lambda>x. x\<lparr>next_sibling := first_child (prc k (kernel_process k))\<rparr>) k;
        let k = setp (kernel_process k) (\<lambda>x. x\<lparr>first_child := first_child (prc k ex)\<rparr>) k;
        Some (setp ex (\<lambda>x. x\<lparr>first_child := NULL\<rparr>) k)
      })"

section \<open>The threads of a process\<close>

definition PROC_link_thread :: "ptr \<Rightarrow> ptr \<Rightarrow> 'a kernel_st_scheme \<Rightarrow> 'a kernel_st_scheme" where
  "PROC_link_thread own t k =
     (if own = NULL \<or> t = NULL then k
      else let k = sett t (\<lambda>x. x\<lparr>owner := own\<rparr>) k;
               k = sett t (\<lambda>x. x\<lparr>next_thread := threads (prc k own)\<rparr>) k;
               k = setp own (\<lambda>x. x\<lparr>threads := t\<rparr>) k
           in setp own (\<lambda>x. x\<lparr>live_threads := live_threads x + 1\<rparr>) k)"

definition PROC_unlink_thread :: "ptr \<Rightarrow> ptr \<Rightarrow> 'a kernel_st_scheme \<Rightarrow> 'a kernel_st_scheme option" where
  "PROC_unlink_thread own t k =
     (if own = NULL \<or> t = NULL then Some k
      else do {
        found \<leftarrow> list_prev (thread_links (thr k)) NULL t NULL (threads (prc k own));
        case found of
          None \<Rightarrow> Some k
        | Some prev \<Rightarrow>
            let nxt = next_thread (thr k t);
                k = (if prev \<noteq> NULL then sett prev (\<lambda>x. x\<lparr>next_thread := nxt\<rparr>) k
                     else setp own (\<lambda>x. x\<lparr>threads := nxt\<rparr>) k)
            in Some (sett t (\<lambda>x. x\<lparr>next_thread := NULL\<rparr>) k)
      })"

definition PROC_find_thread :: "ptr \<Rightarrow> u64 \<Rightarrow> 'a kernel_st_scheme \<Rightarrow> ptr option" where
  "PROC_find_thread own t k =
     list_find (thread_links (thr k)) NULL (\<lambda>x. tid (thr k x) = t) (if own \<noteq> NULL then threads (prc k own) else NULL)"

definition PROC_free_thread :: "ptr \<Rightarrow> 'a kernel_st_scheme \<Rightarrow> 'a kernel_st_scheme option" where
  "PROC_free_thread t k =
     (if t = NULL then Some k
      else do {
        k \<leftarrow> (if kstack (thr k t) \<noteq> NULL then run_mm (kfree (kstack (thr k t))) k else Some k);
        run_mm (kfree t) k
      })"

definition PROC_free_process :: "ptr \<Rightarrow> 'a kernel_st_scheme \<Rightarrow> 'a kernel_st_scheme option" where
  "PROC_free_process p k = (if p = NULL then Some k else run_mm (kfree p) k)"

text \<open>\<open>if (p->live_threads > 0) p->live_threads--;\<close>\<close>

definition drop_live :: "ptr \<Rightarrow> 'a kernel_st_scheme \<Rightarrow> 'a kernel_st_scheme" where
  "drop_live p k = (if live_threads (prc k p) > 0 then setp p (\<lambda>x. x\<lparr>live_threads := live_threads x - 1\<rparr>) k else k)"

section \<open>Allocation\<close>

definition alloc_process :: "ptr \<Rightarrow> u64 \<Rightarrow> 'a kernel_st_scheme \<Rightarrow> (ptr \<times> 'a kernel_st_scheme) option" where
  "alloc_process par new_cr3 k = do {
     (p, k) \<leftarrow> call_mm (kmalloc sizeof_process_st) k;
     if p = NULL then Some (NULL, k)
     else Some (p, PROC_init_process p par new_cr3 (setp p (\<lambda>_. process_zero) k))
   }"

definition alloc_thread :: "ptr \<Rightarrow> 'a kernel_st_scheme \<Rightarrow> (ptr \<times> 'a kernel_st_scheme) option" where
  "alloc_thread own k = do {
     (t, k) \<leftarrow> call_mm (kmalloc sizeof_thread_st) k;
     if t = NULL then Some (NULL, k)
     else Some (t, PROC_link_thread own t (PROC_init_thread t own (sett t (\<lambda>_. thread_zero) k)))
   }"

text \<open>
  The first frame of a thread is written onto its new kernel stack downwards from the top,
  \<open>*--stack_top = w\<close> for one word after the other.
\<close>

fun push_words :: "u64 list \<Rightarrow> ptr \<Rightarrow> 'a kernel_st_scheme \<Rightarrow> ptr \<times> 'a kernel_st_scheme" where
  "push_words [] sp k = (sp, k)"
| "push_words (w # ws) sp k = push_words ws (sp - 8) (on_mm (\<lambda>m. m\<lparr>kheap := (kheap m)(sp - 8 := w)\<rparr>) k)"

definition setup_kthread :: "ptr \<Rightarrow> ptr \<Rightarrow> ptr \<Rightarrow> 'a kernel_st_scheme \<Rightarrow> (int \<times> 'a kernel_st_scheme) option" where
  "setup_kthread new_proc entry_point arg k = do {
     (stack, k) \<leftarrow> call_mm (kmalloc DEFAULT_STACK_BYTES) k;
     if stack = NULL then Some (-1, k)
     else let k = sett new_proc (\<lambda>x. x\<lparr>kstack := stack\<rparr>) k;
              sp = align_down (stack + DEFAULT_STACK_BYTES) x86_64_ALIGNMENT;
              (stack_top, k) = push_words
                ([0, sp, DEFAULT_RFLAGS, ucast KERNEL_CS, thread_start k] @ [0, 0] @
                 [0, 0, 0, arg, entry_point, 0, 0, 0, 0, 0, 0, 0, 0, 0, 0]) sp k
          in Some (0, sett new_proc (\<lambda>x. x\<lparr>saved := (saved x)\<lparr>rsp := stack_top\<rparr>\<rparr>) k)
   }"

definition PROC_setup_uthread :: "ptr \<Rightarrow> ptr \<Rightarrow> ptr \<Rightarrow> u64 \<Rightarrow> 'a kernel_st_scheme \<Rightarrow> (int \<times> 'a kernel_st_scheme) option" where
  "PROC_setup_uthread new_proc entry_point arg user_rsp k = do {
     (stack, k) \<leftarrow> call_mm (kmalloc DEFAULT_STACK_BYTES) k;
     if stack = NULL then Some (-1, k)
     else let k = sett new_proc (\<lambda>x. x\<lparr>kstack := stack\<rparr>) k;
              ksp = align_down (stack + DEFAULT_STACK_BYTES) x86_64_ALIGNMENT;
              usp = align_down user_rsp x86_64_ALIGNMENT;
              (kstack_top, k) = push_words
                ([USER_DS OR USER_RPL, usp, DEFAULT_RFLAGS, USER_CS OR USER_RPL, entry_point] @ [0, 0] @
                 [0, 0, 0, 0, arg, 0, 0, 0, 0, 0, 0, 0, 0, 0, 0]) ksp k;
              k = sett new_proc (\<lambda>x. x\<lparr>ustack := user_rsp\<rparr>) k
          in Some (0, sett new_proc (\<lambda>x. x\<lparr>saved := (saved x)\<lparr>rsp := kstack_top\<rparr>\<rparr>) k)
   }"

definition PROC_create_kthread :: "ptr \<Rightarrow> ptr \<Rightarrow> 'a kernel_st_scheme \<Rightarrow> 'a kernel_st_scheme option" where
  "PROC_create_kthread entry_point arg k =
     (if entry_point = NULL then Some k
      else do {
        (new_proc, k) \<leftarrow> alloc_thread (kernel_process k) k;
        if new_proc = NULL then Some k
        else do {
          (r, k) \<leftarrow> setup_kthread new_proc entry_point arg k;
          if r < 0
          then do {
            k \<leftarrow> PROC_unlink_thread (kernel_process k) new_proc k;
            PROC_free_thread new_proc (drop_live (kernel_process k) k)
          }
          else Some (PROC_admit new_proc k)
        }
      })"

definition PROC_create_uthread ::
    "ptr \<Rightarrow> ptr \<Rightarrow> u64 \<Rightarrow> ptr \<Rightarrow> 'a kernel_st_scheme \<Rightarrow> (int \<times> 'a kernel_st_scheme) option" where
  "PROC_create_uthread entry_point arg new_cr3 stack k =
     (if entry_point = NULL \<or> stack = NULL then Some (-1, k)
      else do {
        let par = (if curr_proc k \<noteq> NULL then owner (thr k (curr_proc k)) else kernel_process k);
        (new_process, k) \<leftarrow> alloc_process par new_cr3 k;
        if new_process = NULL then Some (-1, k)
        else do {
          (new_proc, k) \<leftarrow> alloc_thread new_process k;
          if new_proc = NULL then do { k \<leftarrow> PROC_free_process new_process k; Some (-1, k) }
          else do {
            (r, k) \<leftarrow> PROC_setup_uthread new_proc entry_point arg (stack + DEFAULT_STACK_BYTES) k;
            if r < 0
            then do {
              k \<leftarrow> PROC_unlink_thread new_process new_proc k;
              k \<leftarrow> PROC_free_thread new_proc (drop_live new_process k);
              k \<leftarrow> PROC_free_process new_process k;
              Some (-1, k)
            }
            else let k = sett new_proc (\<lambda>x. x\<lparr>ustack := stack\<rparr>) k;
                     k = PROC_link_process_child par new_process k
                 in Some (0, PROC_admit new_proc k)
          }
        }
      })"

text \<open>The start of multitasking: the running code becomes \<open>main_thread\<close> of \<open>kernel_process\<close>.\<close>

definition PROC_run :: "ptr \<Rightarrow> 'a kernel_st_scheme \<Rightarrow> 'a kernel_st_scheme" where
  "PROC_run sp k =
     (let k = (if multitask_started k then k
               else let kp = kernel_process k; mt = main_thread k;
                        k = setp kp (\<lambda>_. process_zero) k;
                        k = sett mt (\<lambda>_. thread_zero) k;
                        k = PROC_init_process kp NULL (MMU_get_kernel_p4 (mm k)) k;
                        k = setp kp (\<lambda>x. x\<lparr>pid := 0\<rparr>) k;
                        k = k\<lparr>next_pid := 1\<rparr>;
                        k = PROC_init_thread mt kp k;
                        k = sett mt (\<lambda>x. x\<lparr>tid := NO_THREAD\<rparr>) k;
                        k = sett mt (\<lambda>x. x\<lparr>run_state := PROC_RUNNING\<rparr>) k;
                        k = PROC_link_thread kp mt k
                    in k\<lparr>curr_proc := mt, next_proc := mt, multitask_started := True\<rparr>)
      in yield sp k)"

definition PROC_main_proc :: "'a kernel_st_scheme \<Rightarrow> ptr" where
  "PROC_main_proc k = main_thread k"

definition PROC_main_process :: "'a kernel_st_scheme \<Rightarrow> ptr" where
  "PROC_main_process k = kernel_process k"

section \<open>The end of threads and processes\<close>

definition destroy_process_address_space :: "ptr \<Rightarrow> 'a kernel_st_scheme \<Rightarrow> 'a kernel_st_scheme option" where
  "destroy_process_address_space p k =
     (if p = NULL \<or> cr3 (prc k p) = 0 \<or> cr3 (prc k p) = MMU_get_kernel_p4 (mm k) then Some k
      else let old_cr3 = cr3 (prc k p);
               k = on_mm (MMU_switch_p4 (MMU_get_kernel_p4 (mm k))) k;
               k = setp p (\<lambda>x. x\<lparr>cr3 := 0\<rparr>) k
           in run_mm (MMU_destroy_userspace old_cr3) k)"

definition process_teardown :: "ptr \<Rightarrow> u32 \<Rightarrow> 'a kernel_st_scheme \<Rightarrow> 'a kernel_st_scheme option" where
  "process_teardown ex status k =
     (if ex = NULL \<or> zombie (prc k ex) then Some k
      else do {
        let k = setp ex (\<lambda>x. x\<lparr>exiting := True, zombie := True, p_exit_status := status\<rparr>) k;
        k \<leftarrow> PROC_reparent_children ex k;
        k \<leftarrow> MUTEX_destroy_process_mutexes ex k;
        k \<leftarrow> destroy_process_address_space ex k;
        if parent (prc k ex) \<noteq> NULL then PROC_unblock_all (Q_child (parent (prc k ex))) k else Some k
      })"

text \<open>The loop over the threads of a process that ends as a whole.\<close>

partial_function (option) exit_threads :: "ptr \<Rightarrow> u32 \<Rightarrow> 'a kernel_st_scheme \<Rightarrow> 'a kernel_st_scheme option" where
  "exit_threads t status k =
     (if t = NULL then Some k
      else do {
        k \<leftarrow> (if run_state (thr k t) \<noteq> PROC_ZOMBIE
              then do {
                k \<leftarrow> (if run_state (thr k t) = PROC_READY \<or> run_state (thr k t) = PROC_RUNNING
                      then PROC_remove t k else Some k);
                Some (sett t (\<lambda>x. x\<lparr>run_state := PROC_ZOMBIE, exit_status := status\<rparr>) k)
              }
              else Some k);
        exit_threads (next_thread (thr k t)) status k
      })"

text \<open>
  With interrupts off, the \<open>hlt\<close> on the main thread is never left; otherwise the code behind it runs
  after the next interrupt.
\<close>

definition PROC_exit_current_thread :: "u32 \<Rightarrow> bool \<Rightarrow> 'a kernel_st_scheme \<Rightarrow> (int \<times> 'a kernel_st_scheme) option" where
  "PROC_exit_current_thread status whole_process k =
     (if curr_proc k = NULL then Some (-1, k)
      else if curr_proc k = main_thread k \<and> \<not> IF_flag (mm k) then None
      else let own = owner (thr k (curr_proc k))
           in if own = NULL then Some (-1, k)
              else do {
                k \<leftarrow> (if whole_process \<and> own \<noteq> kernel_process k
                      then do {
                        let t = threads (prc k own);
                        k \<leftarrow> exit_threads t status (setp own (\<lambda>x. x\<lparr>exiting := True\<rparr>) k);
                        let k = setp own (\<lambda>x. x\<lparr>live_threads := 0\<rparr>) k;
                        k \<leftarrow> process_teardown own status k;
                        PROC_unblock_all (Q_thread own) k
                      }
                      else do {
                        let k = sett (curr_proc k) (\<lambda>x. x\<lparr>run_state := PROC_ZOMBIE, exit_status := status\<rparr>) k;
                        let k = drop_live own k;
                        k \<leftarrow> PROC_remove (curr_proc k) k;
                        k \<leftarrow> PROC_unblock_all (Q_thread own) k;
                        if live_threads (prc k own) = 0 then process_teardown own status k else Some k
                      });
                Some (0, PROC_reschedule (k\<lparr>curr_proc := NULL\<rparr>))
              })"

text \<open>
  \<open>dst\<close> is the address of the destination buffer, \<open>buf\<close> its content; the loop runs while
  \<open>i < dst_size - 1\<close>.
\<close>

fun copy_user_bytes :: "nat \<Rightarrow> nat \<Rightarrow> u64 \<Rightarrow> u8 list \<Rightarrow> 'a kernel_st_scheme \<Rightarrow> (int \<times> u8 list \<times> 'a kernel_st_scheme) option" where
  "copy_user_bytes 0 i src buf k = Some (-1, buf[i := 0], k)"
| "copy_user_bytes (Suc n) i src buf k = do {
     (b, k) \<leftarrow> load_user_byte (src + of_nat i) k;
     let buf = buf[i := b];
     if b = 0 then Some (0, buf, k) else copy_user_bytes n (Suc i) src buf k
   }"

definition PROC_copy_user_string ::
    "ptr \<Rightarrow> u64 \<Rightarrow> u64 \<Rightarrow> u8 list \<Rightarrow> 'a kernel_st_scheme \<Rightarrow> (int \<times> u8 list \<times> 'a kernel_st_scheme) option" where
  "PROC_copy_user_string dst src dst_size buf k =
     (if dst = NULL \<or> src = NULL \<or> dst_size = 0 then Some (-1, buf, k)
      else copy_user_bytes (unat (dst_size - 1)) 0 src buf k)"

end
