(* ===== verification/Process_Syscalls.thy ===== *)
theory Process_Syscalls
  imports Multitask
begin

text \<open>
  The process system calls (\<open>multitask/process_syscalls.c\<close>). A handler gets the address of the
  frame with the registers of its caller; \<open>sp\<close> is the address of the frame that a blocking call
  leaves on the kernel stack. The loader of \<open>exec\<close> is an argument.
\<close>

section \<open>Simple calls\<close>

definition PROC_set_root :: "ptr \<Rightarrow> 'a kernel_st_scheme \<Rightarrow> 'a kernel_st_scheme" where
  "PROC_set_root root k = k\<lparr>proc_root := root\<rparr>"

definition syscall_yield :: "'a kernel_st_scheme \<Rightarrow> (sys_result \<times> 'a kernel_st_scheme) option" where
  "syscall_yield k = Some (Ret 0, PROC_reschedule k)"

definition ret_int :: "int \<times> 'a kernel_st_scheme \<Rightarrow> sys_result \<times> 'a kernel_st_scheme" where
  "ret_int = (\<lambda>(r, k). (Ret (word_of_int r), k))"

definition syscall_exit :: "ptr \<Rightarrow> 'a kernel_st_scheme \<Rightarrow> (sys_result \<times> 'a kernel_st_scheme) option" where
  "syscall_exit frame k = map_option ret_int (PROC_exit_current_thread (ucast (get_reg frame F_rdi k)) True k)"

definition syscall_thread_exit :: "ptr \<Rightarrow> 'a kernel_st_scheme \<Rightarrow> (sys_result \<times> 'a kernel_st_scheme) option" where
  "syscall_thread_exit frame k = map_option ret_int (PROC_exit_current_thread (ucast (get_reg frame F_rdi k)) False k)"

definition syscall_getpid :: "'a kernel_st_scheme \<Rightarrow> (sys_result \<times> 'a kernel_st_scheme) option" where
  "syscall_getpid k = Some (Ret (if no_process k then 0 else pid (prc k (owner (thr k (curr_proc k))))), k)"

definition syscall_gettid :: "'a kernel_st_scheme \<Rightarrow> (sys_result \<times> 'a kernel_st_scheme) option" where
  "syscall_gettid k = Some (Ret (if curr_proc k = NULL then 0 else tid (thr k (curr_proc k))), k)"

section \<open>Waiting for a child\<close>

partial_function (option) free_threads :: "ptr \<Rightarrow> 'a kernel_st_scheme \<Rightarrow> 'a kernel_st_scheme option" where
  "free_threads t k =
     (if t = NULL then Some k
      else let nxt = next_thread (thr k t) in Option.bind (PROC_free_thread t k) (free_threads nxt))"

text \<open>One round of the loop, up to the call that blocks; the thread goes on with the next round.\<close>

definition wait_round :: "ptr \<Rightarrow> ptr \<Rightarrow> ptr \<Rightarrow> 'a kernel_st_scheme \<Rightarrow> (sys_result \<times> 'a kernel_st_scheme) option" where
  "wait_round par frame sp k = do {
     child \<leftarrow> PROC_find_zombie_child par k;
     if child \<noteq> NULL
     then do {
       let p = pid (prc k child);
       let status_ptr = get_reg frame F_rdi k;
       let t = threads (prc k child);
       k \<leftarrow> (if status_ptr \<noteq> NULL then store_user_int status_ptr (p_exit_status (prc k child)) k else Some k);
       k \<leftarrow> PROC_unlink_process_child par child k;
       k \<leftarrow> free_threads t k;
       k \<leftarrow> PROC_free_process child k;
       Some (Ret p, k)
     }
     else if first_child (prc k par) = NULL then Some (Ret (-1), k)
     else do {
       k \<leftarrow> PROC_block_on (Q_child par) True sp (on_mm CLI k);
       Some (Blocked (In_wait par frame), k)
     }
   }"

definition syscall_wait :: "ptr \<Rightarrow> ptr \<Rightarrow> 'a kernel_st_scheme \<Rightarrow> (sys_result \<times> 'a kernel_st_scheme) option" where
  "syscall_wait frame sp k =
     (if no_process k then Some (Ret (-1), k) else wait_round (owner (thr k (curr_proc k))) frame sp k)"

section \<open>Joining a thread\<close>

text \<open>From a found target to the result or to the call that blocks, and the lookup that follows it.\<close>

definition join_target :: "ptr \<Rightarrow> u64 \<Rightarrow> ptr \<Rightarrow> ptr \<Rightarrow> ptr \<Rightarrow> 'a kernel_st_scheme \<Rightarrow> (sys_result \<times> 'a kernel_st_scheme) option" where
  "join_target own t status_ptr target sp k =
     (if run_state (thr k target) \<noteq> PROC_ZOMBIE
      then do {
        k \<leftarrow> PROC_block_on (Q_thread own) True sp (on_mm CLI k);
        Some (Blocked (In_thread_join own t status_ptr), k)
      }
      else do {
        k \<leftarrow> (if status_ptr \<noteq> NULL then store_user_int status_ptr (exit_status (thr k target)) k else Some k);
        k \<leftarrow> PROC_unlink_thread own target k;
        k \<leftarrow> PROC_free_thread target k;
        Some (Ret t, k)
      })"

definition join_round :: "ptr \<Rightarrow> u64 \<Rightarrow> ptr \<Rightarrow> ptr \<Rightarrow> 'a kernel_st_scheme \<Rightarrow> (sys_result \<times> 'a kernel_st_scheme) option" where
  "join_round own t status_ptr sp k = do {
     target \<leftarrow> PROC_find_thread own t k;
     if target = NULL then Some (Ret (-1), k) else join_target own t status_ptr target sp k
   }"

definition syscall_thread_join :: "ptr \<Rightarrow> ptr \<Rightarrow> 'a kernel_st_scheme \<Rightarrow> (sys_result \<times> 'a kernel_st_scheme) option" where
  "syscall_thread_join frame sp k =
     (let t = get_reg frame F_rdi k; status_ptr = get_reg frame F_rsi k
      in if no_process k \<or> t = tid (thr k (curr_proc k)) then Some (Ret (-1), k)
         else join_round (owner (thr k (curr_proc k))) t status_ptr sp k)"

section \<open>Creating processes and threads\<close>

definition CLONE_PROCESS :: u64 where "CLONE_PROCESS = 0"
definition CLONE_THREAD :: u64 where "CLONE_THREAD = 1"

text \<open>
  \<open>memcpy\<close> between kernel stacks: from \<open>frame_offset\<close> to the end of the stack, word by word. Frames
  are aligned to words.
\<close>

definition copy_stack :: "ptr \<Rightarrow> ptr \<Rightarrow> u64 \<Rightarrow> 'a kernel_st_scheme \<Rightarrow> 'a kernel_st_scheme" where
  "copy_stack dst src off =
     on_mm (\<lambda>m. m\<lparr>kheap := fold (\<lambda>i h. h(dst + off + 8 * of_nat i := h (src + off + 8 * of_nat i)))
                              [0..<unat (DEFAULT_STACK_BYTES - off) div 8] (kheap m)\<rparr>)"

text \<open>The child's copy of the kernel stack and its control block, when all memory has been allocated.\<close>

definition clone_finish :: "ptr \<Rightarrow> ptr \<Rightarrow> ptr \<Rightarrow> ptr \<Rightarrow> ptr \<Rightarrow> u64 \<Rightarrow> 'a kernel_st_scheme \<Rightarrow> sys_result \<times> 'a kernel_st_scheme" where
  "clone_finish parent_thread par child_process child stack frame_offset k =
     (let k = copy_stack stack (kstack (thr k parent_thread)) frame_offset k;
          k = sett child (\<lambda>x. x\<lparr>kstack := stack, ustack := ustack (thr k parent_thread),
                                stacksize := stacksize (thr k parent_thread)\<rparr>) k;
          child_frame = stack + frame_offset;
          k = set_reg child_frame F_rax 0 k;
          k = sett child (\<lambda>x. x\<lparr>saved := (saved x)\<lparr>rsp := child_frame\<rparr>\<rparr>) k;
          k = PROC_link_thread child_process child k;
          k = PROC_link_process_child par child_process k;
          k = PROC_admit child k
      in (Ret (pid (prc k child_process)), k))"

definition clone_process :: "ptr \<Rightarrow> 'a kernel_st_scheme \<Rightarrow> (sys_result \<times> 'a kernel_st_scheme) option" where
  "clone_process frame k =
     (let parent_thread = curr_proc k
      in if no_process k then Some (Ret (-1), k)
         else let par = owner (thr k parent_thread)
              in if cr3 (prc k par) = 0 \<or> cr3 (prc k par) = MMU_get_kernel_p4 (mm k) \<or> live_threads (prc k par) \<noteq> 1
                 then Some (Ret (-1), k)
                 else do {
                   (child_cr3, k) \<leftarrow> call_mm (MMU_clone_userspace (cr3 (prc k par))) k;
                   if child_cr3 = 0 then Some (Ret (-1), k)
                   else do {
                     (child_process, k) \<leftarrow> call_mm (kmalloc sizeof_process_st) k;
                     if child_process = NULL
                     then do { k \<leftarrow> run_mm (MMU_destroy_userspace child_cr3) k; Some (Ret (-1), k) }
                     else do {
                       let k = PROC_init_process child_process par child_cr3 (setp child_process (\<lambda>_. process_zero) k);
                       (child, k) \<leftarrow> call_mm (kmalloc sizeof_thread_st) k;
                       if child = NULL
                       then do {
                         k \<leftarrow> run_mm (kfree child_process) k;
                         k \<leftarrow> run_mm (MMU_destroy_userspace child_cr3) k;
                         Some (Ret (-1), k)
                       }
                       else do {
                         let k = PROC_init_thread child child_process (sett child (\<lambda>_. thread_zero) k);
                         (stack, k) \<leftarrow> call_mm (kmalloc DEFAULT_STACK_BYTES) k;
                         if stack = NULL
                         then do {
                           k \<leftarrow> run_mm (kfree child) k;
                           k \<leftarrow> run_mm (kfree child_process) k;
                           k \<leftarrow> run_mm (MMU_destroy_userspace child_cr3) k;
                           Some (Ret (-1), k)
                         }
                         else do {
                           let frame_offset = frame - kstack (thr k parent_thread);
                           if frame_offset \<ge> DEFAULT_STACK_BYTES
                           then do {
                             k \<leftarrow> run_mm (kfree stack) k;
                             k \<leftarrow> run_mm (kfree child) k;
                             k \<leftarrow> run_mm (kfree child_process) k;
                             k \<leftarrow> run_mm (MMU_destroy_userspace child_cr3) k;
                             Some (Ret (-1), k)
                           }
                           else Some (clone_finish parent_thread par child_process child stack frame_offset k)
                         }
                       }
                     }
                   }
                 })"

definition clone_thread :: "ptr \<Rightarrow> 'a kernel_st_scheme \<Rightarrow> (sys_result \<times> 'a kernel_st_scheme) option" where
  "clone_thread frame k =
     (let child_stack_top = get_reg frame F_rsi k; entry = get_reg frame F_rdx k; arg = get_reg frame F_r10 k
      in if no_process k \<or> child_stack_top = 0 \<or> entry = NULL then Some (Ret (-1), k)
         else let own = owner (thr k (curr_proc k))
              in if cr3 (prc k own) = 0 \<or> cr3 (prc k own) = MMU_get_kernel_p4 (mm k) then Some (Ret (-1), k)
                 else do {
                   (child, k) \<leftarrow> call_mm (kmalloc sizeof_thread_st) k;
                   if child = NULL then Some (Ret (-1), k)
                   else do {
                     let k = PROC_init_thread child own (sett child (\<lambda>_. thread_zero) k);
                     (r, k) \<leftarrow> PROC_setup_uthread child entry arg child_stack_top (PROC_link_thread own child k);
                     if r < 0
                     then do {
                       k \<leftarrow> PROC_unlink_thread own child k;
                       k \<leftarrow> PROC_free_thread child (drop_live own k);
                       Some (Ret (-1), k)
                     }
                     else let k = PROC_admit child k in Some (Ret (tid (thr k child)), k)
                   }
                 })"

definition syscall_clone :: "ptr \<Rightarrow> 'a kernel_st_scheme \<Rightarrow> (sys_result \<times> 'a kernel_st_scheme) option" where
  "syscall_clone frame k =
     (if get_reg frame F_rdi k = CLONE_PROCESS then clone_process frame k
      else if get_reg frame F_rdi k = CLONE_THREAD then clone_thread frame k
      else Some (Ret (-1), k))"

definition syscall_fork :: "ptr \<Rightarrow> 'a kernel_st_scheme \<Rightarrow> (sys_result \<times> 'a kernel_st_scheme) option" where
  "syscall_fork frame k =
     (let k = set_reg frame F_rdi CLONE_PROCESS k;
          k = set_reg frame F_rsi 0 k;
          k = set_reg frame F_rdx 0 k;
          k = set_reg frame F_r10 0 k
      in syscall_clone frame k)"

section \<open>Replacing the program\<close>

record elf_image =
  img_cr3 :: u64
  img_entry :: u64
  ustack_base :: u64
  ustack_top :: u64

text \<open>
  The buffer for the file name is 128 bytes on the kernel stack at some address \<open>dst\<close>; what it
  holds before the call is not used.
\<close>

definition syscall_exec ::
    "(ptr \<Rightarrow> u8 list \<Rightarrow> 'a kernel_st_scheme \<Rightarrow> (int \<times> elf_image \<times> 'a kernel_st_scheme) option) \<Rightarrow>
     ptr \<Rightarrow> ptr \<Rightarrow> 'a kernel_st_scheme \<Rightarrow> (sys_result \<times> 'a kernel_st_scheme) option" where
  "syscall_exec elf_load_program dst frame k =
     (if proc_root k = NULL \<or> no_process k then Some (Ret (-1), k)
      else let own = owner (thr k (curr_proc k))
           in if live_threads (prc k own) \<noteq> 1 then Some (Ret (-1), k)
              else do {
                (r, filename, k) \<leftarrow> PROC_copy_user_string dst (get_reg frame F_rdi k) 128 (replicate 128 0) k;
                if r < 0 then Some (Ret (-1), k)
                else do {
                  let old_cr3 = cr3 (prc k own);
                  (r, image, k) \<leftarrow> elf_load_program (proc_root k) filename k;
                  if r < 0 then Some (Ret (-1), k)
                  else do {
                    let k = on_mm CLI k;
                    let k = setp own (\<lambda>x. x\<lparr>cr3 := img_cr3 image\<rparr>) k;
                    let k = sett (curr_proc k) (\<lambda>x. x\<lparr>ustack := ustack_base image\<rparr>) k;
                    let k = on_mm (MMU_switch_p4 (img_cr3 image)) k;
                    k \<leftarrow> (if old_cr3 \<noteq> 0 \<and> old_cr3 \<noteq> MMU_get_kernel_p4 (mm k) \<and> old_cr3 \<noteq> img_cr3 image
                          then run_mm (MMU_destroy_userspace old_cr3) k else Some k);
                    let k = on_mm STI k;
                    let k = set_reg frame F_rip (img_entry image) k;
                    let k = set_reg frame F_rsp (ustack_top image) k;
                    let k = set_reg frame F_rdi 0 k;
                    let k = set_reg frame F_rsi 0 k;
                    Some (Ret 0, set_reg frame F_rdx 0 k)
                  }
                }
              })"

end
