(* ===== verification/Blocking.thy ===== *)
theory Blocking
  imports Wait_Queues "HOL-Library.Multiset"
begin

text \<open>
  Blocking and waking as changes of one abstract picture of the kernel: the order in which the
  scheduler serves the runnable threads, and the list of threads waiting on every queue. A thread
  is in at most one of these places.
\<close>

section \<open>What the queue operations leave alone\<close>

text \<open>
  The kernel state without the queues, the scheduler and the states of threads. Two states with the
  same \<open>core\<close> agree on everything else.
\<close>

definition core :: "'a kernel_st_scheme \<Rightarrow> 'a kernel_st_scheme" where
  "core k = k\<lparr>thr := (\<lambda>t. (thr k t)\<lparr>run_state := PROC_READY, lib_one := NULL, sched_one := NULL\<rparr>),
     Head := NULL, Tail := NULL, Current := NULL, Count := 0,
     prc := (\<lambda>p. (prc k p)\<lparr>wait_child_exit := queue_zero, wait_thread_exit := queue_zero\<rparr>),
     mtx := (\<lambda>m. (mtx k m)\<lparr>waiters := queue_zero\<rparr>), dvq := (\<lambda>_. queue_zero)\<rparr>"

lemma coreD:
  assumes "core k' = core k"
  shows "mm k' = mm k" "curr_proc k' = curr_proc k" "next_proc k' = next_proc k" "next_pid k' = next_pid k"
    "next_tid k' = next_tid k" "mutex_list k' = mutex_list k" "next_mutex_id k' = next_mutex_id k"
    "multitask_started k' = multitask_started k" "kernel_process k' = kernel_process k"
    "main_thread k' = main_thread k" "thread_start k' = thread_start k" "proc_root k' = proc_root k"
    "kernel_st.more k' = kernel_st.more k"
  using arg_cong [OF assms, of mm] arg_cong [OF assms, of curr_proc] arg_cong [OF assms, of next_proc]
    arg_cong [OF assms, of next_pid] arg_cong [OF assms, of next_tid] arg_cong [OF assms, of mutex_list]
    arg_cong [OF assms, of next_mutex_id] arg_cong [OF assms, of multitask_started]
    arg_cong [OF assms, of kernel_process] arg_cong [OF assms, of main_thread]
    arg_cong [OF assms, of thread_start] arg_cong [OF assms, of proc_root] arg_cong [OF assms, of kernel_st.more]
  by (simp_all add: core_def)

lemma core_thr:
  assumes "core k' = core k"
  shows "owner (thr k' t) = owner (thr k t)" "tid (thr k' t) = tid (thr k t)" "next_thread (thr k' t) = next_thread (thr k t)"
    "saved (thr k' t) = saved (thr k t)" "kstack (thr k' t) = kstack (thr k t)" "ustack (thr k' t) = ustack (thr k t)"
    "exit_status (thr k' t) = exit_status (thr k t)" "stacksize (thr k' t) = stacksize (thr k t)"
proof -
  have "thr (core k') t = thr (core k) t" using assms by simp
  then have e: "(thr k' t)\<lparr>run_state := PROC_READY, lib_one := NULL, sched_one := NULL\<rparr> =
      (thr k t)\<lparr>run_state := PROC_READY, lib_one := NULL, sched_one := NULL\<rparr>" by (simp add: core_def)
  show "owner (thr k' t) = owner (thr k t)" "tid (thr k' t) = tid (thr k t)" "next_thread (thr k' t) = next_thread (thr k t)"
    "saved (thr k' t) = saved (thr k t)" "kstack (thr k' t) = kstack (thr k t)" "ustack (thr k' t) = ustack (thr k t)"
    "exit_status (thr k' t) = exit_status (thr k t)" "stacksize (thr k' t) = stacksize (thr k t)"
    using arg_cong [OF e, of owner] arg_cong [OF e, of tid] arg_cong [OF e, of next_thread] arg_cong [OF e, of saved]
      arg_cong [OF e, of kstack] arg_cong [OF e, of ustack] arg_cong [OF e, of exit_status] arg_cong [OF e, of stacksize]
    by simp_all
qed

lemma core_prc:
  assumes "core k' = core k"
  shows "pid (prc k' p) = pid (prc k p)" "cr3 (prc k' p) = cr3 (prc k p)" "parent (prc k' p) = parent (prc k p)"
    "first_child (prc k' p) = first_child (prc k p)" "next_sibling (prc k' p) = next_sibling (prc k p)"
    "threads (prc k' p) = threads (prc k p)" "live_threads (prc k' p) = live_threads (prc k p)"
    "p_exit_status (prc k' p) = p_exit_status (prc k p)" "exiting (prc k' p) = exiting (prc k p)"
    "zombie (prc k' p) = zombie (prc k p)"
proof -
  have "prc (core k') p = prc (core k) p" using assms by simp
  then have e: "(prc k' p)\<lparr>wait_child_exit := queue_zero, wait_thread_exit := queue_zero\<rparr> =
      (prc k p)\<lparr>wait_child_exit := queue_zero, wait_thread_exit := queue_zero\<rparr>" by (simp add: core_def)
  show "pid (prc k' p) = pid (prc k p)" "cr3 (prc k' p) = cr3 (prc k p)" "parent (prc k' p) = parent (prc k p)"
    "first_child (prc k' p) = first_child (prc k p)" "next_sibling (prc k' p) = next_sibling (prc k p)"
    "threads (prc k' p) = threads (prc k p)" "live_threads (prc k' p) = live_threads (prc k p)"
    "p_exit_status (prc k' p) = p_exit_status (prc k p)" "exiting (prc k' p) = exiting (prc k p)"
    "zombie (prc k' p) = zombie (prc k p)"
    using arg_cong [OF e, of pid] arg_cong [OF e, of cr3] arg_cong [OF e, of parent] arg_cong [OF e, of first_child]
      arg_cong [OF e, of next_sibling] arg_cong [OF e, of threads] arg_cong [OF e, of live_threads]
      arg_cong [OF e, of p_exit_status] arg_cong [OF e, of exiting] arg_cong [OF e, of zombie]
    by simp_all
qed

lemma core_mtx:
  assumes "core k' = core k"
  shows "m_id (mtx k' m) = m_id (mtx k m)" "owner_process (mtx k' m) = owner_process (mtx k m)"
    "owner_thread (mtx k' m) = owner_thread (mtx k m)" "m_next (mtx k' m) = m_next (mtx k m)"
proof -
  have "mtx (core k') m = mtx (core k) m" using assms by simp
  then have e: "(mtx k' m)\<lparr>waiters := queue_zero\<rparr> = (mtx k m)\<lparr>waiters := queue_zero\<rparr>" by (simp add: core_def)
  show "m_id (mtx k' m) = m_id (mtx k m)" "owner_process (mtx k' m) = owner_process (mtx k m)"
    "owner_thread (mtx k' m) = owner_thread (mtx k m)" "m_next (mtx k' m) = m_next (mtx k m)"
    using arg_cong [OF e, of m_id] arg_cong [OF e, of owner_process] arg_cong [OF e, of owner_thread]
      arg_cong [OF e, of m_next] by simp_all
qed

lemma core_set_queue [simp]: "core (set_queue q x k) = core k"
  by (cases q) (simp_all add: core_def setp_def setm_def fun_eq_iff fun_upd_def)

lemma core_lib_one [simp]: "core (k\<lparr>thr := set_lib_one a b (thr k)\<rparr>) = core k"
  by (simp add: core_def set_lib_one_def fun_eq_iff fun_upd_def)

lemma core_run_state [simp]: "core (sett t (\<lambda>x. x\<lparr>run_state := s\<rparr>) k) = core k"
  by (simp add: core_def sett_def fun_eq_iff fun_upd_def)

lemma core_sched_only: "sched_only k k' \<Longrightarrow> core k' = core k"
proof -
  assume s: "sched_only k k'"
  have "(thr k' t)\<lparr>run_state := PROC_READY, lib_one := NULL, sched_one := NULL\<rparr> =
      (thr k t)\<lparr>run_state := PROC_READY, lib_one := NULL, sched_one := NULL\<rparr>" for t
  proof -
    obtain v where v: "thr k' t = (thr k t)\<lparr>sched_one := v\<rparr>" using s unfolding sched_only_def by blast
    show ?thesis unfolding v by simp
  qed
  moreover have "sched_st.more k' = sched_st.more k" using s by (simp add: sched_only_def)
  ultimately show ?thesis by (cases k; cases k') (simp add: core_def)
qed

lemma core_admit [simp]: "core (PROC_admit p k) = core k"
  by (rule core_sched_only [OF admit_frame])

lemma core_next [simp]: "core (snd (sched_next k)) = core k"
  by (rule core_sched_only [OF next_frame])

lemma core_wake [simp]: "core (wake p k) = core k"
  by (simp add: wake_def)

lemma core_enqueue [simp]: "core (enqueue q p k) = core k"
proof -
  have "core (k\<lparr>thr := set_lib_one a b (set_lib_one p NULL (thr k))\<rparr>) = core k" for a b
    using core_lib_one [where k = "k\<lparr>thr := set_lib_one p NULL (thr k)\<rparr>"] by simp
  then show ?thesis by (simp add: enqueue_def Let_def)
qed

lemma core_dequeue [simp]: "core (snd (dequeue q k)) = core k"
  using core_lib_one [where k = "set_queue q x k" for x] by (simp add: dequeue_def Let_def)

lemma core_unblock_one: "PROC_unblock_one q k = Some (p, k') \<Longrightarrow> core k' = core k"
proof -
  have "core (snd r) = core k" if "PROC_unblock_one q k = Some r" for q :: qref and k :: "'a kernel_st_scheme" and r
  proof (rule PROC_unblock_one.raw_induct [where P = "\<lambda>q k r. core (snd r) = core k", OF _ that], goal_cases)
    case (1 unblock q k r)
    obtain t k1 where d: "dequeue q k = (t, k1)" by fastforce
    have "core k1 = core k" using core_dequeue [of q k] d by simp
    then show ?case using 1(2) 1(1) [of q k1 r] d by (auto split: if_splits)
  qed
  then show "PROC_unblock_one q k = Some (p, k') \<Longrightarrow> core k' = core k" by fastforce
qed

lemma core_unblock_head: "PROC_unblock_head q k = Some k' \<Longrightarrow> core k' = core k"
  using core_unblock_one by (auto simp: PROC_unblock_head_def)

lemma core_unblock_all: "PROC_unblock_all q k = Some k' \<Longrightarrow> core k' = core k"
proof (rule PROC_unblock_all.raw_induct [where P = "\<lambda>q k k'. core k' = core k"], goal_cases)
  case (1 unblock q k k')
  show ?case
  proof (cases "q = Q_NULL \<or> q_head (get_queue q k) = NULL")
    case True
    then show ?thesis using 1(3) by auto
  next
    case False
    then obtain k1 where "PROC_unblock_head q k = Some k1" "unblock q k1 = Some k'"
      using 1(3) by (auto simp: bind_eq_Some_conv)
    then show ?thesis using 1(2) core_unblock_head by metis
  qed
qed

section \<open>Where the threads are\<close>

text \<open>
  \<open>r\<close> is the order in which the runnable threads are served, \<open>W q\<close> the threads waiting on queue \<open>q\<close>,
  for the queues in use \<open>Q\<close>. No thread is in two places.
\<close>

definition threads_ok :: "'a kernel_st_scheme \<Rightarrow> ptr list \<Rightarrow> (qref \<Rightarrow> ptr list) \<Rightarrow> qref set \<Rightarrow> bool" where
  "threads_ok k r W Q \<longleftrightarrow> k_serves k r \<and> Q_NULL \<notin> Q \<and> (\<forall>q \<in> Q. queue_holds k q (W q) \<and> set r \<inter> set (W q) = {}) \<and>
     (\<forall>q \<in> Q. \<forall>q' \<in> Q. q \<noteq> q' \<longrightarrow> set (W q) \<inter> set (W q') = {})"

lemma threads_okD:
  assumes "threads_ok k r W Q"
  shows "k_serves k r" "Q_NULL \<notin> Q" "distinct r" "NULL \<notin> set r"
    "q \<in> Q \<Longrightarrow> queue_holds k q (W q)" "q \<in> Q \<Longrightarrow> q \<noteq> Q_NULL" "q \<in> Q \<Longrightarrow> set r \<inter> set (W q) = {}"
    "q \<in> Q \<Longrightarrow> distinct (W q) \<and> NULL \<notin> set (W q)"
    "q \<in> Q \<Longrightarrow> q' \<in> Q \<Longrightarrow> q \<noteq> q' \<Longrightarrow> set (W q) \<inter> set (W q') = {}"
proof -
  show "k_serves k r" "Q_NULL \<notin> Q" "q \<in> Q \<Longrightarrow> queue_holds k q (W q)" "q \<in> Q \<Longrightarrow> q \<noteq> Q_NULL"
    "q \<in> Q \<Longrightarrow> set r \<inter> set (W q) = {}" "q \<in> Q \<Longrightarrow> q' \<in> Q \<Longrightarrow> q \<noteq> q' \<Longrightarrow> set (W q) \<inter> set (W q') = {}"
    using assms by (auto simp: threads_ok_def)
  then show "distinct r" "NULL \<notin> set r" "q \<in> Q \<Longrightarrow> distinct (W q) \<and> NULL \<notin> set (W q)"
    using ks.serves_valid kq.holds_valid by blast+
qed

lemma threads_okI:
  assumes "k_serves k r" "Q_NULL \<notin> Q" "\<And>q. q \<in> Q \<Longrightarrow> queue_holds k q (W q)" "\<And>q. q \<in> Q \<Longrightarrow> set r \<inter> set (W q) = {}"
    "\<And>q q'. q \<in> Q \<Longrightarrow> q' \<in> Q \<Longrightarrow> q \<noteq> q' \<Longrightarrow> set (W q) \<inter> set (W q') = {}"
  shows "threads_ok k r W Q"
  using assms by (auto simp: threads_ok_def)

text \<open>Only the links, the queues and the scheduler's variables matter.\<close>

definition same_places :: "'a kernel_st_scheme \<Rightarrow> 'b kernel_st_scheme \<Rightarrow> bool" where
  "same_places k k' \<longleftrightarrow> sched_links (thr k') = sched_links (thr k) \<and> queue_links (thr k') = queue_links (thr k) \<and>
     Head k' = Head k \<and> Tail k' = Tail k \<and> Current k' = Current k \<and> Count k' = Count k \<and>
     (\<forall>q. get_queue q k' = get_queue q k) \<and> halted (mm k') = halted (mm k)"

lemma threads_ok_same: "same_places k k' \<Longrightarrow> threads_ok k' r W Q = threads_ok k r W Q"
proof -
  assume s: "same_places k k'"
  then have "k_serves k' r = k_serves k r"
    by (simp add: same_places_def k_serves_def rr_serves_def rr_ring_def)
  moreover have "queue_holds k' q ts = queue_holds k q ts" for q ts
    using s by (simp add: same_places_def queue_holds_def)
  ultimately show ?thesis by (simp add: threads_ok_def)
qed

lemma same_places_refl [simp]: "same_places k k"
  by (simp add: same_places_def)

lemma same_places_trans: "same_places a b \<Longrightarrow> same_places b c \<Longrightarrow> same_places a c"
  by (simp add: same_places_def)

lemma same_places_sett:
  "(\<And>x. sched_one (f x) = sched_one x) \<Longrightarrow> (\<And>x. lib_one (f x) = lib_one x) \<Longrightarrow> same_places k (sett t f k)"
proof -
  assume f: "\<And>x. sched_one (f x) = sched_one x" "\<And>x. lib_one (f x) = lib_one x"
  have "get_queue q (sett t f k) = get_queue q k" for q by (cases q) (simp_all add: sett_def)
  then show ?thesis using f by (auto simp: same_places_def sett_def links_defs)
qed

lemma same_places_setp:
  "(\<And>x. wait_child_exit (f x) = wait_child_exit x) \<Longrightarrow> (\<And>x. wait_thread_exit (f x) = wait_thread_exit x) \<Longrightarrow>
   same_places k (setp p f k)"
proof -
  assume f: "\<And>x. wait_child_exit (f x) = wait_child_exit x" "\<And>x. wait_thread_exit (f x) = wait_thread_exit x"
  have "get_queue q (setp p f k) = get_queue q k" for q by (cases q) (simp_all add: setp_def f)
  then show ?thesis by (simp add: same_places_def setp_def)
qed

lemma same_places_setm: "(\<And>x. waiters (f x) = waiters x) \<Longrightarrow> same_places k (setm m f k)"
proof -
  assume f: "\<And>x. waiters (f x) = waiters x"
  have "get_queue q (setm m f k) = get_queue q k" for q by (cases q) (simp_all add: setm_def f)
  then show ?thesis by (simp add: same_places_def setm_def)
qed

lemma same_places_mm: "halted (f (mm k)) = halted (mm k) \<Longrightarrow> same_places k (on_mm f k)"
proof -
  assume f: "halted (f (mm k)) = halted (mm k)"
  have "get_queue q (on_mm f k) = get_queue q k" for q by (cases q) (simp_all add: on_mm_def)
  then show ?thesis using f by (simp add: same_places_def on_mm_def)
qed

lemma same_places_vars [simp]:
  "same_places k (k\<lparr>curr_proc := a\<rparr>)" "same_places k (k\<lparr>next_proc := a\<rparr>)"
  "same_places k (k\<lparr>mutex_list := a\<rparr>)" "same_places k (k\<lparr>next_mutex_id := a\<rparr>)"
proof -
  have "get_queue q (k\<lparr>curr_proc := a\<rparr>) = get_queue q k" "get_queue q (k\<lparr>next_proc := a\<rparr>) = get_queue q k"
    "get_queue q (k\<lparr>mutex_list := a\<rparr>) = get_queue q k" "get_queue q (k\<lparr>next_mutex_id := a\<rparr>) = get_queue q k" for q
    by (cases q; simp)+
  then show "same_places k (k\<lparr>curr_proc := a\<rparr>)" "same_places k (k\<lparr>next_proc := a\<rparr>)"
    "same_places k (k\<lparr>mutex_list := a\<rparr>)" "same_places k (k\<lparr>next_mutex_id := a\<rparr>)"
    by (simp_all add: same_places_def)
qed

section \<open>Moving threads\<close>

lemma enqueue_serves: "k_serves (enqueue q p k) r = k_serves k r"
proof -
  have "k_serves (k\<lparr>thr := set_lib_one a b (set_lib_one p NULL (thr k))\<rparr>) r = k_serves k r" for a b
    using lib_one_serves [where k = "k\<lparr>thr := set_lib_one p NULL (thr k)\<rparr>"] by simp
  then show ?thesis by (simp add: enqueue_def Let_def)
qed

lemma enqueue_run_state [simp]: "run_state (thr (enqueue q p k) t) = run_state (thr k t)"
  by (simp add: enqueue_def Let_def)

lemma threads_enqueue:
  assumes "threads_ok k r W Q" "q \<in> Q" "p \<noteq> NULL" "p \<notin> set r" "\<forall>q' \<in> Q. p \<notin> set (W q')"
  shows "threads_ok (enqueue q p k) r (W(q := W q @ [p])) Q"
proof (rule threads_okI)
  note d = threads_okD [OF assms(1)]
  show "k_serves (enqueue q p k) r" using d(1) by (simp add: enqueue_serves)
  show "Q_NULL \<notin> Q" by (rule d(2))
  fix q1 assume q1: "q1 \<in> Q"
  show "queue_holds (enqueue q p k) q1 ((W(q := W q @ [p])) q1)"
  proof (cases "q1 = q")
    case True
    then show ?thesis using kq.enq_holds [OF d(6) d(5) assms(3)] assms(2,5) by simp
  next
    case False
    then show ?thesis
      using kq.enq_other [OF d(6) [OF assms(2)] False d(5) [OF assms(2)] d(5) [OF q1]] d(9) [OF assms(2) q1] assms(5) q1 by auto
  qed
  show "set r \<inter> set ((W(q := W q @ [p])) q1) = {}" using d(7) [OF q1] assms(4) by auto
  fix q2 assume q2: "q2 \<in> Q" "q1 \<noteq> q2"
  show "set ((W(q := W q @ [p])) q1) \<inter> set ((W(q := W q @ [p])) q2) = {}"
    using d(9) [OF q1 q2] assms(5) q1 q2 by auto
qed

lemma threads_remove:
  assumes "threads_ok k r W Q" "p \<in> set r"
  shows "\<exists>k'. PROC_remove p k = Some k' \<and> threads_ok k' (removeAll p r) W Q \<and> sched_only k k'"
proof -
  note d = threads_okD [OF assms(1)]
  obtain k' where k': "PROC_remove p k = Some k'" "k_serves k' (removeAll p r)" "sched_only k k'"
    using k_serves_remove [OF d(1) assms(2)] by blast
  have "threads_ok k' (removeAll p r) W Q"
  proof (rule threads_okI [OF k'(2) d(2)])
    show "queue_holds k' q (W q)" if "q \<in> Q" for q using d(5) [OF that] queue_holds_sched_only [OF k'(3)] by simp
    show "set (removeAll p r) \<inter> set (W q) = {}" if "q \<in> Q" for q using d(7) [OF that] by auto
    show "set (W q) \<inter> set (W q') = {}" if "q \<in> Q" "q' \<in> Q" "q \<noteq> q'" for q q' by (rule d(9) [OF that])
  qed
  then show ?thesis using k' by blast
qed

text \<open>The first waiter that can run is woken; those before it are dropped from the queue.\<close>

definition woken :: "ptr list \<Rightarrow> 'a kernel_st_scheme \<Rightarrow> ptr" where
  "woken ts k = (case find (\<lambda>t. can_wake t k) ts of None \<Rightarrow> NULL | Some t \<Rightarrow> t)"

definition still_waiting :: "ptr list \<Rightarrow> 'a kernel_st_scheme \<Rightarrow> ptr list" where
  "still_waiting ts k = tl (dropWhile (\<lambda>t. \<not> can_wake t k) ts)"

lemma still_waiting_subset: "set (still_waiting ts k) \<subseteq> set ts"
  unfolding still_waiting_def using set_dropWhileD by (metis list.set_sel(2) subsetI tl_Nil)

lemma find_split: "find P ts = Some t \<Longrightarrow> \<exists>us vs. ts = us @ t # vs \<and> (\<forall>u \<in> set us. \<not> P u) \<and> P t"
proof (induction ts)
  case (Cons a ts)
  show ?case
  proof (cases "P a")
    case True
    then show ?thesis using Cons.prems by (intro exI [of _ "[]"] exI [of _ ts]) simp
  next
    case False
    then obtain us vs where "ts = us @ t # vs \<and> (\<forall>u \<in> set us. \<not> P u) \<and> P t" using Cons by auto
    then show ?thesis using False by (intro exI [of _ "a # us"] exI [of _ vs]) simp
  qed
qed simp

lemma woken_in: "woken ts k \<noteq> NULL \<Longrightarrow> woken ts k \<in> set ts \<and> can_wake (woken ts k) k"
  by (auto simp: woken_def dest!: find_split split: option.split)

lemma threads_unblock_one:
  assumes "threads_ok k r W Q" "q \<in> Q"
  shows "\<exists>k' r1 r2. PROC_unblock_one q k = Some (woken (W q) k, k') \<and> core k' = core k \<and> r = r1 @ r2 \<and>
    (r \<noteq> [] \<longrightarrow> r1 \<noteq> []) \<and>
    threads_ok k' (if woken (W q) k = NULL then r else r1 @ woken (W q) k # r2) (W(q := still_waiting (W q) k)) Q \<and>
    (\<forall>t. run_state (thr k' t) = (if t = woken (W q) k \<and> t \<noteq> NULL then PROC_READY else run_state (thr k t)))"
proof -
  note d = threads_okD [OF assms(1)]
  obtain p k' where u: "PROC_unblock_one q k = Some (p, k')" "unblocked q (W q) r k p k'"
    using unblock_one_list [OF d(6,5) d(1) d(7)] assms(2) by blast
  have p: "p = woken (W q) k" using u(2) by (auto simp: unblocked_def woken_def split: option.splits)
  have "\<exists>r1 r2. r = r1 @ r2 \<and> (r \<noteq> [] \<longrightarrow> r1 \<noteq> []) \<and> k_serves k' (if p = NULL then r else r1 @ p # r2)"
  proof (cases "find (\<lambda>t. can_wake t k) (W q)")
    case None
    then show ?thesis using u(2) by (intro exI [of _ r] exI [of _ "[]"]) (simp add: unblocked_def)
  next
    case (Some t)
    then have "t \<noteq> NULL" by (auto simp: find_Some_iff can_wake_def)
    then show ?thesis using u(2) Some by (auto simp: unblocked_def)
  qed
  then obtain r1 r2 where r: "r = r1 @ r2" "r \<noteq> [] \<longrightarrow> r1 \<noteq> []" "k_serves k' (if p = NULL then r else r1 @ p # r2)"
    by blast
  have "threads_ok k' (if p = NULL then r else r1 @ p # r2) (W(q := still_waiting (W q) k)) Q"
  proof (rule threads_okI [OF r(3) d(2)])
    fix q1 assume q1: "q1 \<in> Q"
    show "queue_holds k' q1 ((W(q := still_waiting (W q) k)) q1)"
      using u(2) d(5) [OF q1] d(9) [OF assms(2) q1] by (simp add: unblocked_def still_waiting_def)
    have "p \<notin> set ((W(q := still_waiting (W q) k)) q1)" if pn: "p \<noteq> NULL"
    proof (cases "q1 = q")
      case True
      obtain t where t: "find (\<lambda>t. can_wake t k) (W q) = Some t" "p = t"
        using pn p by (auto simp: woken_def split: option.splits)
      obtain us vs where "W q = us @ t # vs" "\<forall>u \<in> set us. \<not> can_wake u k" "can_wake t k"
        using find_split [OF t(1)] by blast
      then show ?thesis using t(2) True d(8) [OF assms(2)] by (simp add: still_waiting_def dropWhile_append2)
    next
      case False
      then show ?thesis using woken_in [of "W q" k] p pn d(9) [OF assms(2) q1] by auto
    qed
    then show "set (if p = NULL then r else r1 @ p # r2) \<inter> set ((W(q := still_waiting (W q) k)) q1) = {}"
      using d(7) [OF q1] d(7) [OF assms(2)] r(1) still_waiting_subset [of "W q" k] by (auto split: if_splits)
    fix q2 assume q2: "q2 \<in> Q" "q1 \<noteq> q2"
    have "set ((W(q := still_waiting (W q) k)) x) \<subseteq> set (W x)" for x using still_waiting_subset [of "W q" k] by simp
    then show "set ((W(q := still_waiting (W q) k)) q1) \<inter> set ((W(q := still_waiting (W q) k)) q2) = {}"
      using d(9) [OF q1 q2] by blast
  qed
  moreover have "run_state (thr k' t) = (if t = p \<and> t \<noteq> NULL then PROC_READY else run_state (thr k t))" for t
    using u(2) by (auto simp: unblocked_def)
  ultimately show ?thesis using u(1) core_unblock_one [OF u(1)] r(1,2) p by blast
qed

lemma woken_NULL: "woken ts k = NULL \<Longrightarrow> filter (\<lambda>t. can_wake t k) ts = [] \<and> still_waiting ts k = []"
proof -
  assume "woken ts k = NULL"
  moreover have "\<not> can_wake NULL k" by (simp add: can_wake_def)
  ultimately have "find (\<lambda>t. can_wake t k) ts = None"
    by (cases "find (\<lambda>t. can_wake t k) ts") (auto simp: woken_def dest!: find_split)
  then have "\<forall>t \<in> set ts. \<not> can_wake t k" by (auto simp: find_None_iff)
  then show ?thesis by (simp add: still_waiting_def filter_empty_conv dropWhile_eq_Nil_conv[THEN iffD2])
qed

lemma woken_filter:
  "woken ts k \<noteq> NULL \<Longrightarrow> filter (\<lambda>t. can_wake t k) ts = woken ts k # filter (\<lambda>t. can_wake t k) (still_waiting ts k)"
  by (induction ts) (auto simp: woken_def still_waiting_def)

lemma length_tl_less: "length xs \<le> length ts \<Longrightarrow> ts \<noteq> [] \<Longrightarrow> length (tl xs) < length ts"
  by (cases xs) auto

lemma length_still_waiting: "ts \<noteq> [] \<Longrightarrow> length (still_waiting ts k) < length ts"
  unfolding still_waiting_def by (rule length_tl_less [OF length_dropWhile_le])

text \<open>Waking all waiters empties the queue and makes exactly those runnable that can run.\<close>

lemma threads_unblock_all:
  assumes "threads_ok k r W Q" "q \<in> Q"
  shows "\<exists>k' r'. PROC_unblock_all q k = Some k' \<and> core k' = core k \<and> threads_ok k' r' (W(q := [])) Q \<and>
    mset r' = mset r + mset (filter (\<lambda>t. can_wake t k) (W q)) \<and>
    (\<forall>t. run_state (thr k' t) = (if t \<in> set (filter (\<lambda>t. can_wake t k) (W q)) then PROC_READY else run_state (thr k t)))"
  using assms
proof (induction "length (W q)" arbitrary: k r W rule: less_induct)
  case less
  note d = threads_okD [OF less.prems(1)]
  have head: "q_head (get_queue q k) = NULL \<longleftrightarrow> W q = []"
    using d(5) [OF less.prems(2)] d(8) [OF less.prems(2)] by (cases "W q") (auto simp: queue_holds_def)
  show ?case
  proof (cases "W q = []")
    case True
    then have "PROC_unblock_all q k = Some k" using head by (subst PROC_unblock_all.simps) simp
    moreover have "W(q := []) = W" using True by auto
    ultimately show ?thesis using less.prems True by auto
  next
    case False
    let ?t = "woken (W q) k" and ?W = "W(q := still_waiting (W q) k)"
    obtain k1 r1 r2 where u: "PROC_unblock_one q k = Some (?t, k1)" "core k1 = core k" "r = r1 @ r2"
      "threads_ok k1 (if ?t = NULL then r else r1 @ ?t # r2) ?W Q"
      "\<forall>t. run_state (thr k1 t) = (if t = ?t \<and> t \<noteq> NULL then PROC_READY else run_state (thr k t))"
      using threads_unblock_one [OF less.prems] by blast
    let ?r = "if ?t = NULL then r else r1 @ ?t # r2"
    have l: "length (?W q) < length (W q)" using length_still_waiting [OF False] by simp
    obtain k' r' where k': "PROC_unblock_all q k1 = Some k'" "core k' = core k1" "threads_ok k' r' (?W(q := [])) Q"
      "mset r' = mset ?r + mset (filter (\<lambda>t. can_wake t k1) (?W q))"
      "\<forall>t. run_state (thr k' t) = (if t \<in> set (filter (\<lambda>t. can_wake t k1) (?W q)) then PROC_READY else run_state (thr k1 t))"
      using less.hyps [OF l u(4) less.prems(2)] by blast
    have cw: "can_wake t k1 = can_wake t k" if "t \<noteq> ?t" for t
      using u(5) that core_thr(1) [OF u(2)] core_prc(9) [OF u(2)] by (simp add: can_wake_def)
    have tn: "?t \<notin> set (?W q)" if "?t \<noteq> NULL"
      using threads_okD(7) [OF u(4) less.prems(2)] that by simp
    have nn: "NULL \<notin> set (?W q)" using threads_okD(8) [OF u(4) less.prems(2)] by simp
    have f: "filter (\<lambda>t. can_wake t k1) (?W q) = filter (\<lambda>t. can_wake t k) (?W q)"
      using cw tn nn by (intro filter_cong refl) (metis)
    have fl: "filter (\<lambda>t. can_wake t k) (W q) =
        (if ?t = NULL then [] else [?t]) @ filter (\<lambda>t. can_wake t k) (still_waiting (W q) k)"
      using woken_NULL [of "W q" k] woken_filter [of "W q" k] d(8) [OF less.prems(2)] by auto
    have "PROC_unblock_all q k = Some k'"
      using d(6) [OF less.prems(2)] head False u(1) k'(1)
      by (subst PROC_unblock_all.simps) (simp add: PROC_unblock_head_def)
    moreover have "mset r' = mset r + mset (filter (\<lambda>t. can_wake t k) (W q))"
      unfolding k'(4) f fl using u(3) by simp
    moreover have "run_state (thr k' t) =
        (if t \<in> set (filter (\<lambda>t. can_wake t k) (W q)) then PROC_READY else run_state (thr k t))" for t
    proof -
      define S where "S = set (filter (\<lambda>t. can_wake t k) (still_waiting (W q) k))"
      have "set (filter (\<lambda>t. can_wake t k) (W q)) = (if ?t = NULL then {} else {?t}) \<union> S" unfolding fl S_def by simp
      moreover have "run_state (thr k' t) = (if t \<in> S then PROC_READY else run_state (thr k1 t))"
        using k'(5) unfolding f S_def by simp
      ultimately show ?thesis using u(5) by auto
    qed
    ultimately show ?thesis using k'(2,3) u(2) by auto
  qed
qed

section \<open>Choosing the next thread\<close>

text \<open>
  The thread that is served next and the order afterwards, for a running thread \<open>cur\<close>: the first in
  the order, but not the running one as long as there is another.
\<close>

fun pick :: "ptr \<Rightarrow> ptr list \<Rightarrow> ptr \<times> ptr list" where
  "pick cur [] = (NULL, [])"
| "pick cur [p] = (p, [p])"
| "pick cur (p # p' # q) = (if p = cur then (p', q @ [p, p']) else (p, p' # q @ [p]))"

lemma pick_mset: "mset (snd (pick cur r)) = mset r"
  by (induction cur r rule: pick.induct) auto

lemma pick_in: "r \<noteq> [] \<Longrightarrow> fst (pick cur r) \<in> set r"
  by (induction cur r rule: pick.induct) auto

lemma pick_other: "distinct r \<Longrightarrow> r \<noteq> [] \<Longrightarrow> r \<noteq> [cur] \<Longrightarrow> fst (pick cur r) \<noteq> cur"
  by (induction cur r rule: pick.induct) auto

lemma threads_next:
  assumes "threads_ok k (p # r) W Q"
  shows "\<exists>k'. sched_next k = (p, k') \<and> threads_ok k' (r @ [p]) W Q \<and> sched_only k k'"
proof -
  note d = threads_okD [OF assms]
  obtain k' where k': "sched_next k = (p, k')" "k_serves k' (r @ [p])" using ks.next_serves [OF d(1)] by blast
  have so: "sched_only k k'" using next_frame [of k] k'(1) by simp
  have "threads_ok k' (r @ [p]) W Q"
  proof (rule threads_okI [OF k'(2) d(2)])
    show "queue_holds k' q (W q)" if "q \<in> Q" for q using d(5) [OF that] queue_holds_sched_only [OF so] by simp
    show "set (r @ [p]) \<inter> set (W q) = {}" if "q \<in> Q" for q using d(7) [OF that] by auto
    show "set (W q) \<inter> set (W q') = {}" if "q \<in> Q" "q' \<in> Q" "q \<noteq> q'" for q q' by (rule d(9) [OF that])
  qed
  then show ?thesis using k'(1) so by blast
qed

lemma sched_only_trans: "sched_only a b \<Longrightarrow> sched_only b c \<Longrightarrow> sched_only a c"
proof -
  assume ab: "sched_only a b" and bc: "sched_only b c"
  have "thr c t = (thr a t)\<lparr>sched_one := sched_one (thr c t)\<rparr>" for t
  proof -
    obtain v where v: "thr b t = (thr a t)\<lparr>sched_one := v\<rparr>" using ab unfolding sched_only_def by blast
    obtain w where w: "thr c t = (thr b t)\<lparr>sched_one := w\<rparr>" using bc unfolding sched_only_def by blast
    show ?thesis unfolding w v by simp
  qed
  then show ?thesis using ab bc by (simp add: sched_only_def)
qed

text \<open>The two calls of the scheduler in \<open>PROC_reschedule\<close> follow \<open>pick\<close>.\<close>

definition choose_next :: "'a kernel_st_scheme \<Rightarrow> ptr \<times> 'a kernel_st_scheme" where
  "choose_next k = (let (c, k) = sched_next k in if c = curr_proc k \<and> rr_qlen k > 1 then sched_next k else (c, k))"

lemma choose_pick:
  assumes "threads_ok k r W Q" "r \<noteq> []"
  shows "\<exists>k'. choose_next k = (fst (pick (curr_proc k) r), k') \<and> threads_ok k' (snd (pick (curr_proc k) r)) W Q \<and> sched_only k k'"
proof -
  obtain p r1 where r: "r = p # r1" using assms(2) by (cases r) auto
  obtain k1 where k1: "sched_next k = (p, k1)" "threads_ok k1 (r1 @ [p]) W Q" "sched_only k k1"
    using threads_next assms(1) r by blast
  have len: "rr_qlen k1 = int (length r)"
    using ks.qlen_serves [OF threads_okD(1) [OF k1(2)]] r by (simp add: num_proc_runnable_def)
  have cur: "curr_proc k1 = curr_proc k" using coreD(2) [OF core_sched_only [OF k1(3)]] .
  show ?thesis
  proof (cases r1)
    case Nil
    then show ?thesis using k1 len cur r by (simp add: choose_next_def)
  next
    case (Cons p' r2)
    obtain k2 where k2: "sched_next k1 = (p', k2)" "threads_ok k2 ((r2 @ [p]) @ [p']) W Q" "sched_only k1 k2"
      using threads_next [of k1 p' "r2 @ [p]"] k1(2) Cons by auto
    have "threads_ok k2 (r2 @ [p, p']) W Q" using k2(2) by simp
    then show ?thesis
      using k1 k2(1) len cur r Cons sched_only_trans [OF k1(3) k2(3)]
      by (cases "p = curr_proc k") (simp_all add: choose_next_def)
  qed
qed

lemma reschedule_eq:
  "PROC_reschedule k =
     (if fst (sched_next k) = NULL
      then (snd (sched_next k))\<lparr>next_proc := (if multitask_started (snd (sched_next k)) then main_thread (snd (sched_next k)) else NULL)\<rparr>
      else let (c, k) = choose_next k;
               k = (if curr_proc k \<noteq> NULL \<and> run_state (thr k (curr_proc k)) = PROC_RUNNING
                    then sett (curr_proc k) (\<lambda>t. t\<lparr>run_state := PROC_READY\<rparr>) k else k)
           in (sett c (\<lambda>t. t\<lparr>run_state := PROC_RUNNING\<rparr>) k)\<lparr>next_proc := c\<rparr>)"
  by (auto simp: PROC_reschedule_def choose_next_def Let_def split: prod.splits)

definition next_state :: "ptr \<Rightarrow> ptr \<Rightarrow> 'a kernel_st_scheme \<Rightarrow> ptr \<Rightarrow> proc_state" where
  "next_state cur nxt k t =
     (if t = nxt then PROC_RUNNING
      else if t = cur \<and> run_state (thr k t) = PROC_RUNNING then PROC_READY else run_state (thr k t))"

lemma core_next_proc: "core (k\<lparr>next_proc := a\<rparr>) = (core k)\<lparr>next_proc := a\<rparr>"
  by (simp add: core_def)

lemma reschedule_idle:
  assumes "threads_ok k [] W Q"
  shows "PROC_reschedule k = k\<lparr>next_proc := (if multitask_started k then main_thread k else NULL)\<rparr>"
  using ks.next_empty [OF threads_okD(1) [OF assms]] by (simp add: reschedule_eq)

lemma reschedule_pick:
  assumes "threads_ok k r W Q" "r \<noteq> []"
  defines "nxt \<equiv> fst (pick (curr_proc k) r)"
  shows "threads_ok (PROC_reschedule k) (snd (pick (curr_proc k) r)) W Q" "next_proc (PROC_reschedule k) = nxt"
    "core (PROC_reschedule k) = (core k)\<lparr>next_proc := nxt\<rparr>"
    "curr_proc k \<noteq> NULL \<or> t \<noteq> NULL \<Longrightarrow> run_state (thr (PROC_reschedule k) t) = next_state (curr_proc k) nxt k t"
proof -
  obtain k1 where k1: "choose_next k = (nxt, k1)" "threads_ok k1 (snd (pick (curr_proc k) r)) W Q" "sched_only k k1"
    using choose_pick [OF assms(1,2)] unfolding nxt_def by blast
  have n: "fst (sched_next k) \<noteq> NULL"
    using threads_next [of k "hd r" "tl r" W Q] assms(1,2) threads_okD(4) [OF assms(1)] by (cases r) auto
  have c: "core k1 = core k" by (rule core_sched_only [OF k1(3)])
  have cur: "curr_proc k1 = curr_proc k" by (rule coreD(2) [OF c])
  define k2 where "k2 = (if curr_proc k1 \<noteq> NULL \<and> run_state (thr k1 (curr_proc k1)) = PROC_RUNNING
      then sett (curr_proc k1) (\<lambda>t. t\<lparr>run_state := PROC_READY\<rparr>) k1 else k1)"
  have e: "PROC_reschedule k = (sett nxt (\<lambda>t. t\<lparr>run_state := PROC_RUNNING\<rparr>) k2)\<lparr>next_proc := nxt\<rparr>"
    using n k1(1) by (simp add: reschedule_eq Let_def k2_def)
  have "same_places k1 k2" unfolding k2_def by (simp add: same_places_sett)
  then have "same_places k1 (PROC_reschedule k)"
    unfolding e by (rule same_places_trans [OF _ same_places_trans [OF same_places_sett same_places_vars(2)]]) simp_all
  then show "threads_ok (PROC_reschedule k) (snd (pick (curr_proc k) r)) W Q" using k1(2) threads_ok_same by blast
  show "next_proc (PROC_reschedule k) = nxt" unfolding e by simp
  have "core k2 = core k1" by (simp add: k2_def)
  then show "core (PROC_reschedule k) = (core k)\<lparr>next_proc := nxt\<rparr>" unfolding e core_next_proc using c by simp
  have rs: "run_state (thr k1 t) = run_state (thr k t)" for t by (rule sched_onlyD(1) [OF k1(3)])
  show "run_state (thr (PROC_reschedule k) t) = next_state (curr_proc k) nxt k t" if "curr_proc k \<noteq> NULL \<or> t \<noteq> NULL"
    unfolding e using that by (auto simp: next_state_def k2_def sett_def cur rs)
qed

section \<open>Switching\<close>

text \<open>
  What blocking leaves alone although another thread goes on: processes and mutexes apart from their
  queues, the identity and the place of every thread, the tables of the kernel and the memory of the
  programs.
\<close>

definition bare :: "'a kernel_st_scheme \<Rightarrow> _" where
  "bare k = ((\<lambda>t. (tid (thr k t), kstack (thr k t), ustack (thr k t), owner (thr k t), exit_status (thr k t), next_thread (thr k t))),
     (\<lambda>p. (prc k p)\<lparr>wait_child_exit := queue_zero, wait_thread_exit := queue_zero\<rparr>),
     (\<lambda>m. (mtx k m)\<lparr>waiters := queue_zero\<rparr>), next_pid k, next_tid k, mutex_list k, next_mutex_id k,
     multitask_started k, kernel_process k, main_thread k, proc_root k, kernel_st.more k,
     mem (mm k), pools (mm k), halted (mm k))"

lemma bare_core: "core k' = core k \<Longrightarrow> bare k' = bare k"
proof -
  assume c: "core k' = core k"
  have "prc (core k') = prc (core k)" "mtx (core k') = mtx (core k)" using c by simp_all
  then show ?thesis using coreD [OF c] core_thr [OF c] by (simp add: bare_def core_def)
qed

lemma bareD:
  assumes "bare k' = bare k"
  shows "mutex_list k' = mutex_list k" "next_mutex_id k' = next_mutex_id k" "multitask_started k' = multitask_started k"
    "kernel_process k' = kernel_process k" "main_thread k' = main_thread k" "halted (mm k') = halted (mm k)"
    "owner (thr k' t) = owner (thr k t)" "next_thread (thr k' t) = next_thread (thr k t)" "tid (thr k' t) = tid (thr k t)"
    "kernel_st.more k' = kernel_st.more k"
  using assms by (simp_all add: bare_def fun_eq_iff)

lemma bare_mtx:
  assumes "bare k' = bare k"
  shows "m_id (mtx k' m) = m_id (mtx k m)" "owner_process (mtx k' m) = owner_process (mtx k m)"
    "owner_thread (mtx k' m) = owner_thread (mtx k m)" "m_next (mtx k' m) = m_next (mtx k m)"
proof -
  have e: "(mtx k' m)\<lparr>waiters := queue_zero\<rparr> = (mtx k m)\<lparr>waiters := queue_zero\<rparr>"
    using assms by (simp add: bare_def fun_eq_iff)
  show "m_id (mtx k' m) = m_id (mtx k m)" "owner_process (mtx k' m) = owner_process (mtx k m)"
    "owner_thread (mtx k' m) = owner_thread (mtx k m)" "m_next (mtx k' m) = m_next (mtx k m)"
    using arg_cong [OF e, of m_id] arg_cong [OF e, of owner_process] arg_cong [OF e, of owner_thread]
      arg_cong [OF e, of m_next] by simp_all
qed

lemma bare_next_proc [simp]: "bare (k\<lparr>next_proc := a\<rparr>) = bare k" "bare (k\<lparr>curr_proc := a\<rparr>) = bare k"
  by (simp_all add: bare_def)

lemma bare_mm:
  "mem (f (mm k)) = mem (mm k) \<Longrightarrow> pools (f (mm k)) = pools (mm k) \<Longrightarrow> halted (f (mm k)) = halted (mm k) \<Longrightarrow>
   bare (on_mm f k) = bare k"
  by (simp add: bare_def on_mm_def)

lemma bare_saved: "bare (sett t (\<lambda>x. x\<lparr>saved := (saved x)\<lparr>rsp := v\<rparr>\<rparr>) k) = bare k"
  by (simp add: bare_def sett_def fun_eq_iff)

lemma bare_switch_mmu [simp]: "bare (switch_mmu_and_tss n k) = bare k"
  by (simp add: switch_mmu_and_tss_def Let_def bare_mm MMU_switch_p4_def)

lemma places_switch_mmu [simp]: "same_places k (switch_mmu_and_tss n k)"
proof -
  have "get_queue q (switch_mmu_and_tss n k) = get_queue q k" for q
    by (cases q) (simp_all add: switch_mmu_and_tss_def Let_def on_mm_def)
  then show ?thesis by (simp add: same_places_def switch_mmu_and_tss_def on_mm_def MMU_switch_p4_def Let_def)
qed

lemma switch_mmu_thr [simp]: "thr (switch_mmu_and_tss n k) = thr k"
  by (simp add: switch_mmu_and_tss_def on_mm_def Let_def)

text \<open>A context switch goes to the thread in \<open>next_proc\<close>, unless there is none.\<close>

lemma context_switch_frame:
  "bare (context_switch sp k) = bare k" "same_places k (context_switch sp k)"
  "run_state (thr (context_switch sp k) t) = run_state (thr k t)"
  "curr_proc (context_switch sp k) = (if next_proc k = NULL then curr_proc k else next_proc k)"
proof -
  let ?k1 = "if curr_proc k \<noteq> NULL then sett (curr_proc k) (\<lambda>t. t\<lparr>saved := (saved t)\<lparr>rsp := sp\<rparr>\<rparr>) k else k"
  have b: "bare ?k1 = bare k" by (simp add: bare_saved)
  have p: "same_places k ?k1" by (simp add: same_places_sett)
  have r: "run_state (thr ?k1 t) = run_state (thr k t)" for t by (simp add: sett_def)
  show "bare (context_switch sp k) = bare k" using b by (simp add: context_switch_def Let_def bare_mm)
  have q: "same_places k (on_mm f ((switch_mmu_and_tss n ?k1)\<lparr>curr_proc := n, next_proc := NULL\<rparr>))"
    if "\<And>m. halted (f m) = halted m" for f n
    by (rule same_places_trans [OF p same_places_trans [OF places_switch_mmu same_places_trans
          [OF same_places_vars(1) same_places_trans [OF same_places_vars(2) same_places_mm]]]]) (simp add: that)
  show "same_places k (context_switch sp k)"
  proof (cases "next_proc k = NULL \<or> next_proc k = curr_proc k")
    case True
    then show ?thesis by (simp add: context_switch_def same_places_mm)
  next
    case False
    show ?thesis unfolding context_switch_def Let_def if_not_P [OF False] by (rule q) simp
  qed
  show "run_state (thr (context_switch sp k) t) = run_state (thr k t)"
    using r by (simp add: context_switch_def Let_def on_mm_def)
  show "curr_proc (context_switch sp k) = (if next_proc k = NULL then curr_proc k else next_proc k)"
    by (simp add: context_switch_def Let_def on_mm_def)
qed

lemma yield_eq:
  "\<exists>f. yield sp k = context_switch sp (PROC_reschedule (on_mm f k)) \<and> mem (f (mm k)) = mem (mm k) \<and>
     pools (f (mm k)) = pools (mm k) \<and> halted (f (mm k)) = halted (mm k)"
  by (rule exI, unfold yield_def Let_def, rule conjI, rule refl) (simp add: CLI_def)

text \<open>
  Giving up the processor. The thread that runs next is the one \<open>pick\<close> names; when nobody is
  runnable it is the main thread.
\<close>

lemma yield_pick:
  assumes "threads_ok k r W Q" "r \<noteq> []" "curr_proc k \<noteq> NULL"
  defines "nxt \<equiv> fst (pick (curr_proc k) r)"
  shows "threads_ok (yield sp k) (snd (pick (curr_proc k) r)) W Q" "curr_proc (yield sp k) = nxt"
    "bare (yield sp k) = bare k" "run_state (thr (yield sp k) t) = next_state (curr_proc k) nxt k t"
proof -
  obtain f where f: "yield sp k = context_switch sp (PROC_reschedule (on_mm f k))" "mem (f (mm k)) = mem (mm k)"
     "pools (f (mm k)) = pools (mm k)" "halted (f (mm k)) = halted (mm k)" using yield_eq by blast
  let ?k = "on_mm f k"
  have ok: "threads_ok ?k r W Q" using assms(1) threads_ok_same [OF same_places_mm [where f = f and k = k, OF f(4)]] by blast
  have cur: "curr_proc ?k = curr_proc k" and th: "thr ?k = thr k" by (simp_all add: on_mm_def)
  note p = reschedule_pick [OF ok assms(2), unfolded cur]
  have n: "nxt \<noteq> NULL" using pick_in [OF assms(2), of "curr_proc k"] threads_okD(4) [OF assms(1)] unfolding nxt_def by metis
  show "threads_ok (yield sp k) (snd (pick (curr_proc k) r)) W Q"
    unfolding f(1) using p(1) threads_ok_same [OF context_switch_frame(2)] by blast
  show "curr_proc (yield sp k) = nxt" unfolding f(1) context_switch_frame(4) using p(2) n by (simp add: nxt_def)
  have "bare (PROC_reschedule ?k) = bare ?k"
  proof -
    have "core (PROC_reschedule ?k) = core (?k\<lparr>next_proc := nxt\<rparr>)" unfolding core_next_proc p(3) nxt_def ..
    then show ?thesis using bare_core by fastforce
  qed
  then show "bare (yield sp k) = bare k" unfolding f(1) context_switch_frame(1) using f(2-4) by (simp add: bare_mm)
  show "run_state (thr (yield sp k) t) = next_state (curr_proc k) nxt k t"
    unfolding f(1) context_switch_frame(3) p(4) [OF disjI1 [OF assms(3)]] nxt_def by (auto simp: next_state_def th)
qed

lemma yield_idle:
  assumes "threads_ok k [] W Q" "multitask_started k" "main_thread k \<noteq> NULL"
  shows "threads_ok (yield sp k) [] W Q" "curr_proc (yield sp k) = main_thread k" "bare (yield sp k) = bare k"
    "run_state (thr (yield sp k) t) = run_state (thr k t)"
proof -
  obtain f where f: "yield sp k = context_switch sp (PROC_reschedule (on_mm f k))" "mem (f (mm k)) = mem (mm k)"
     "pools (f (mm k)) = pools (mm k)" "halted (f (mm k)) = halted (mm k)" using yield_eq by blast
  let ?k = "on_mm f k"
  have ok: "threads_ok ?k [] W Q" using assms(1) threads_ok_same [OF same_places_mm [where f = f and k = k, OF f(4)]] by blast
  have e: "PROC_reschedule ?k = ?k\<lparr>next_proc := main_thread k\<rparr>"
    using reschedule_idle [OF ok] assms(2) by (simp add: on_mm_def)
  show "threads_ok (yield sp k) [] W Q"
    unfolding f(1) e using ok threads_ok_same [OF context_switch_frame(2)] threads_ok_same [OF same_places_vars(2)] by blast
  show "curr_proc (yield sp k) = main_thread k" unfolding f(1) e context_switch_frame(4) using assms(3) by simp
  show "bare (yield sp k) = bare k" unfolding f(1) e context_switch_frame(1) using f(2-4) by (simp add: bare_mm)
  show "run_state (thr (yield sp k) t) = run_state (thr k t)" unfolding f(1) e context_switch_frame(3) by (simp add: on_mm_def)
qed

text \<open>Blocking: out of the scheduler, to the end of the queue, and on to the next thread.\<close>

lemma block_on_yield:
  assumes "threads_ok k r W Q" "q \<in> Q" "curr_proc k \<in> set r"
  shows "\<exists>k1. PROC_block_on q e sp k = Some (yield sp k1) \<and> curr_proc k1 = curr_proc k \<and> bare k1 = bare k \<and>
    threads_ok k1 (removeAll (curr_proc k) r) (W(q := W q @ [curr_proc k])) Q \<and>
    (\<forall>t. run_state (thr k1 t) = (if t = curr_proc k then PROC_BLOCKED else run_state (thr k t)))"
proof -
  let ?c = "curr_proc k" and ?b = "sett (curr_proc k) (\<lambda>t. t\<lparr>run_state := PROC_BLOCKED\<rparr>) k"
  note d = threads_okD [OF assms(1)]
  have ok: "threads_ok ?b r W Q" by (subst threads_ok_same [OF same_places_sett]) (use assms(1) in simp_all)
  obtain k1 where k1: "PROC_remove ?c ?b = Some k1" "threads_ok k1 (removeAll ?c r) W Q" "sched_only ?b k1"
    using threads_remove [OF ok assms(3)] by blast
  have c1: "core k1 = core k" using core_sched_only [OF k1(3)] by simp
  let ?k2 = "enqueue q ?c k1"
  have k2: "threads_ok ?k2 (removeAll ?c r) (W(q := W q @ [?c])) Q"
  proof (rule threads_enqueue [OF k1(2) assms(2)])
    show "?c \<noteq> NULL" "\<forall>q' \<in> Q. ?c \<notin> set (W q')" using d(4,7) assms(3) by auto
  qed simp
  have c2: "core ?k2 = core k" using c1 by simp
  let ?k3 = "if e then on_mm STI ?k2 else ?k2"
  have p3: "same_places ?k2 ?k3" by (simp add: same_places_mm STI_def)
  have "bare ?k3 = bare ?k2" by (simp add: bare_mm STI_def)
  moreover have "PROC_block_on q e sp k = Some (yield sp ?k3)"
    using k1(1) d(6) [OF assms(2)] coreD(2) [OF c1] by (simp add: PROC_block_on_def sett_def)
  moreover have "curr_proc ?k3 = ?c" using coreD(2) [OF c2] by (simp add: on_mm_def)
  moreover have "threads_ok ?k3 (removeAll ?c r) (W(q := W q @ [?c])) Q" using k2 threads_ok_same [OF p3] by blast
  moreover have "run_state (thr ?k3 t) = (if t = ?c then PROC_BLOCKED else run_state (thr k t))" for t
    using sched_onlyD(1) [OF k1(3), of t] by (auto simp: on_mm_def sett_def)
  ultimately show ?thesis using bare_core [OF c2] by (intro exI [of _ ?k3]) simp
qed

lemma pick_absent: "cur \<notin> set r \<Longrightarrow> pick cur r = (if r = [] then NULL else hd r, rotate1 r)"
  by (cases "(cur, r)" rule: pick.cases) auto

lemma threads_block_on:
  assumes "threads_ok k r W Q" "q \<in> Q" "curr_proc k \<in> set r"
    "multitask_started k" "main_thread k \<noteq> NULL"
  shows "\<exists>k'. PROC_block_on q e sp k = Some k' \<and> bare k' = bare k \<and>
    (let c = curr_proc k; rest = removeAll c r in
      threads_ok k' (rotate1 rest) (W(q := W q @ [c])) Q \<and> run_state (thr k' c) = PROC_BLOCKED \<and>
      (if rest = [] then curr_proc k' = main_thread k
       else curr_proc k' = hd rest \<and> run_state (thr k' (hd rest)) = PROC_RUNNING))"
proof -
  let ?c = "curr_proc k" and ?r = "removeAll (curr_proc k) r" and ?W = "W(q := W q @ [curr_proc k])"
  obtain k1 where k1: "PROC_block_on q e sp k = Some (yield sp k1)" "curr_proc k1 = ?c" "bare k1 = bare k"
    "threads_ok k1 ?r ?W Q" "\<forall>t. run_state (thr k1 t) = (if t = ?c then PROC_BLOCKED else run_state (thr k t))"
    using block_on_yield [OF assms(1-3)] by blast
  have c0: "curr_proc k1 \<noteq> NULL" using assms(3) threads_okD(4) [OF assms(1)] k1(2) by auto
  note b = bareD [OF k1(3)]
  show ?thesis
  proof (cases "?r = []")
    case True
    note y = yield_idle [of k1 ?W Q sp]
    show ?thesis using k1 y b assms(4,5) True by (intro exI [of _ "yield sp k1"]) (simp add: Let_def)
  next
    case False
    have pk: "pick (curr_proc k1) ?r = (hd ?r, rotate1 ?r)" using False k1(2) by (simp add: pick_absent)
    have "hd ?r \<in> set ?r" using False by (rule hd_in_set)
    then have h: "hd ?r \<noteq> ?c" by auto
    show ?thesis
      using k1 yield_pick [OF k1(4) False c0, of sp, unfolded pk] b h False
      by (intro exI [of _ "yield sp k1"]) (simp add: Let_def next_state_def)
  qed
qed

section \<open>Properties\<close>

text \<open>
  C22: Blocking the running thread always returns into the kernel: the thread leaves the scheduler,
  becomes the last waiter of the queue and is marked blocked, every other queue and the order of the
  other runnable threads stay as they were, and the next thread of that order runs, or the main
  thread when there is none. No process, mutex or program memory changes.
\<close>

theorem block_on_correct:
  assumes "threads_ok k r W Q" "q \<in> Q" "curr_proc k \<in> set r"
    "multitask_started k" "main_thread k \<noteq> NULL"
  shows "\<exists>k'. PROC_block_on q e sp k = Some k' \<and> bare k' = bare k \<and>
    (let c = curr_proc k; rest = removeAll c r in
      threads_ok k' (rotate1 rest) (W(q := W q @ [c])) Q \<and> run_state (thr k' c) = PROC_BLOCKED \<and>
      (if rest = [] then curr_proc k' = main_thread k
       else curr_proc k' = hd rest \<and> run_state (thr k' (hd rest)) = PROC_RUNNING))"
  by (rule threads_block_on [OF assms])

text \<open>
  C23: Waking one waiter: the first waiter that is neither a zombie nor of a process that is exiting is
  returned, marked ready and scheduled behind at least one other thread if there is one; waiters
  before it are dropped, those behind it keep waiting in order. Nothing else changes.
\<close>

theorem unblock_one_correct:
  assumes "threads_ok k r W Q" "q \<in> Q"
  shows "\<exists>k' r1 r2. PROC_unblock_one q k = Some (woken (W q) k, k') \<and> core k' = core k \<and> r = r1 @ r2 \<and>
    (r \<noteq> [] \<longrightarrow> r1 \<noteq> []) \<and>
    threads_ok k' (if woken (W q) k = NULL then r else r1 @ woken (W q) k # r2) (W(q := still_waiting (W q) k)) Q \<and>
    (\<forall>t. run_state (thr k' t) = (if t = woken (W q) k \<and> t \<noteq> NULL then PROC_READY else run_state (thr k t)))"
  by (rule threads_unblock_one [OF assms])

text \<open>
  C24: Waking all waiters returns, leaves the queue empty, and makes exactly those waiters runnable and
  ready that are neither zombies nor of an exiting process, each once.
\<close>

theorem unblock_all_correct:
  assumes "threads_ok k r W Q" "q \<in> Q"
  shows "\<exists>k' r'. PROC_unblock_all q k = Some k' \<and> core k' = core k \<and> threads_ok k' r' (W(q := [])) Q \<and>
    mset r' = mset r + mset (filter (\<lambda>t. can_wake t k) (W q)) \<and>
    (\<forall>t. run_state (thr k' t) = (if t \<in> set (filter (\<lambda>t. can_wake t k) (W q)) then PROC_READY else run_state (thr k t)))"
  by (rule threads_unblock_all [OF assms])

text \<open>
  C25: Giving up the processor: with another runnable thread the current one is never chosen again; the
  one chosen runs, the one that gave up is ready, the set of runnable threads is the same, and no
  wait queue, process, mutex or program memory changes.
\<close>

theorem yield_correct:
  assumes "threads_ok k r W Q" "curr_proc k \<in> set r" "run_state (thr k (curr_proc k)) = PROC_RUNNING"
    "r \<noteq> [curr_proc k]"
  shows "\<exists>r'. threads_ok (yield sp k) r' W Q \<and> mset r' = mset r \<and> bare (yield sp k) = bare k \<and>
    curr_proc (yield sp k) \<in> set r - {curr_proc k} \<and>
    run_state (thr (yield sp k) (curr_proc (yield sp k))) = PROC_RUNNING \<and>
    run_state (thr (yield sp k) (curr_proc k)) = PROC_READY"
proof -
  have r: "r \<noteq> []" "curr_proc k \<noteq> NULL" using assms(2) threads_okD(4) [OF assms(1)] by auto
  note y = yield_pick [OF assms(1) r, of sp]
  have "fst (pick (curr_proc k) r) \<noteq> curr_proc k" by (rule pick_other [OF threads_okD(3) [OF assms(1)] r(1) assms(4)])
  then show ?thesis
    using y pick_in [OF r(1)] pick_mset [of "curr_proc k" r] assms(3)
    by (intro exI [of _ "snd (pick (curr_proc k) r)"]) (simp add: next_state_def)
qed

section \<open>A concrete kernel\<close>

text \<open>
  A process at 0x5000 with the threads 0x1000 (running), 0x2000 (ready) and 0x3000, which waits for
  the mutex at 0x4000 that the running thread owns.
\<close>

definition example_thread :: "u64 \<Rightarrow> proc_state \<Rightarrow> ptr \<Rightarrow> ptr \<Rightarrow> thread_st" where
  "example_thread i st nxt ring =
     thread_zero\<lparr>tid := i, run_state := st, owner := 0x5000, next_thread := nxt, sched_one := ring\<rparr>"

definition kernel_example :: kernel_st where
  "kernel_example =
     \<lparr>thr = (\<lambda>_. thread_zero)(0x1000 := example_thread 1 PROC_RUNNING 0x2000 0x2000,
                              0x2000 := example_thread 2 PROC_READY 0x3000 0x1000,
                              0x3000 := example_thread 3 PROC_BLOCKED NULL NULL),
      Head = 0x1000, Tail = 0x2000, Current = 0x2000, Count = 2, mm = kmem_example,
      prc = (\<lambda>_. process_zero)(0x5000 := process_zero\<lparr>pid := 1, cr3 := 0x115000, parent := 0x80,
                                     threads := 0x1000, live_threads := 3\<rparr>,
                                0x80 := process_zero\<lparr>cr3 := 0x110000, first_child := 0x5000, threads := 0x100, live_threads := 1\<rparr>),
      mtx = (\<lambda>_. \<lparr>m_id = 1, owner_process = 0x5000, owner_thread = 0x1000,
                     waiters = \<lparr>q_head = 0x3000, q_tail = 0x3000\<rparr>, m_next = NULL\<rparr>),
      dvq = (\<lambda>_. queue_zero), curr_proc = 0x1000, next_proc = NULL, next_pid = 2, next_tid = 4,
      mutex_list = 0x4000, next_mutex_id = 2, multitask_started = True, kernel_process = 0x80,
      main_thread = 0x100, thread_start = 0x200, proc_root = NULL\<rparr>"

definition example_waits :: "qref \<Rightarrow> ptr list" where
  "example_waits q = (if q = Q_mutex 0x4000 then [0x3000] else [])"

definition example_queues :: "qref set" where
  "example_queues = {Q_mutex 0x4000, Q_child 0x5000, Q_thread 0x5000, Q_child 0x80, Q_thread 0x80}"

lemma kernel_example_halted: "\<not> halted (mm kernel_example)"
  by (simp add: kernel_example_def kmem_example_def vm_st.defs kmem_st.defs vm_example_def frames_st.defs pf_example_def)

lemma kernel_example_ok: "threads_ok kernel_example [0x2000, 0x1000] example_waits example_queues"
proof (rule threads_okI)
  show "k_serves kernel_example [0x2000, 0x1000]"
    unfolding k_serves_def rr_serves_def
    by (rule conjI, rule exI [of _ "[0x1000]"], rule exI [of _ "[0x2000]"], simp add: rr_ring_def)
       (simp_all add: kernel_example_halted, simp_all add: kernel_example_def example_thread_def)
  show "queue_holds kernel_example q (example_waits q)" if "q \<in> example_queues" for q
    using that
    by (auto simp: example_queues_def queue_holds_def example_waits_def kernel_example_def example_thread_def
        thread_zero_def process_zero_def queue_zero_def)
qed (auto simp: example_queues_def example_waits_def)

lemma kernel_example_fields:
  "curr_proc kernel_example = 0x1000" "multitask_started kernel_example" "main_thread kernel_example = 0x100"
  "run_state (thr kernel_example 0x1000) = PROC_RUNNING" "can_wake 0x3000 kernel_example"
  by (simp_all add: kernel_example_def example_thread_def can_wake_def process_zero_def)

theorem block_on_correct_witness:
  "\<exists>k'. PROC_block_on (Q_thread 0x5000) True 0x9000 kernel_example = Some k' \<and> curr_proc k' = 0x2000 \<and>
     run_state (thr k' 0x1000) = PROC_BLOCKED"
  using block_on_correct [OF kernel_example_ok, of "Q_thread 0x5000" True "0x9000"] kernel_example_fields
  by (auto simp: example_queues_def Let_def)

theorem unblock_one_correct_witness:
  "\<exists>k'. PROC_unblock_one (Q_mutex 0x4000) kernel_example = Some (0x3000, k') \<and> run_state (thr k' 0x3000) = PROC_READY"
proof -
  have "woken (example_waits (Q_mutex 0x4000)) kernel_example = 0x3000"
    using kernel_example_fields(5) by (simp add: woken_def example_waits_def)
  then show ?thesis
    using unblock_one_correct [OF kernel_example_ok, of "Q_mutex 0x4000"] by (auto simp: example_queues_def)
qed

theorem unblock_all_correct_witness:
  "\<exists>k' r'. PROC_unblock_all (Q_mutex 0x4000) kernel_example = Some k' \<and> mset r' = {#0x3000, 0x2000, 0x1000#} \<and>
     k_serves k' r' \<and> run_state (thr k' 0x3000) = PROC_READY"
proof -
  have "filter (\<lambda>t. can_wake t kernel_example) (example_waits (Q_mutex 0x4000)) = [0x3000]"
    using kernel_example_fields(5) by (simp add: example_waits_def)
  then obtain k' r' where k': "PROC_unblock_all (Q_mutex 0x4000) kernel_example = Some k'"
    "threads_ok k' r' (example_waits(Q_mutex 0x4000 := [])) example_queues" "mset r' = {#0x3000, 0x2000, 0x1000#}"
    "run_state (thr k' 0x3000) = PROC_READY"
    using unblock_all_correct [OF kernel_example_ok, of "Q_mutex 0x4000"] by (auto simp: example_queues_def)
  then show ?thesis using threads_okD(1) [OF k'(2)] by blast
qed

theorem yield_correct_witness:
  "curr_proc (yield 0x9000 kernel_example) = 0x2000 \<and> run_state (thr (yield 0x9000 kernel_example) 0x1000) = PROC_READY"
  using yield_correct [OF kernel_example_ok, of "0x9000"] kernel_example_fields by auto

end
