(* ===== verification/Bbuf.thy ===== *)
theory Bbuf
  imports Machine
begin

text \<open>
  The bounded buffer of \<open>src/kernel/bbuf.c\<close>, the ring between an interrupt handler and the
  code that produces or consumes its bytes (serial output, keyboard input). The model keeps the
  ring arithmetic on \<open>size_t\<close> words; the abstraction \<open>bb_contents\<close> reads the bytes
  between \<open>tail\<close> and \<open>head\<close>.
\<close>

section \<open>Model\<close>

record bbuf_st =
  bb_buf :: "u8 list"
  bb_size :: u64
  bb_head :: u64
  bb_tail :: u64

definition bbuf_init :: "u8 list \<Rightarrow> u64 \<Rightarrow> bbuf_st \<Rightarrow> bbuf_st" where
  "bbuf_init buf sz state =
     (if sz < 2 then state
      else state\<lparr>bb_buf := buf, bb_size := sz, bb_head := 0, bb_tail := 0\<rparr>)"

text \<open>The remainder by a zero size (a buffer never initialised) is a divide error.\<close>

definition bbuf_try_add ::
    "u8 \<Rightarrow> 'c cpu_scheme \<times> bbuf_st \<Rightarrow> fault + int \<times> 'c cpu_scheme \<times> bbuf_st" where
  "bbuf_try_add c = (\<lambda>(cpu, st).
     let enable_ints = are_interrupts_enabled cpu;
         cpu1 = (if enable_ints then CLI cpu else cpu)
     in if bb_size st = 0 then Inl Divide_Error
        else
          let nxt = (bb_head st + 1) mod bb_size st;
              (ret, st1) =
                (if nxt = bb_tail st then (-1, st)
                 else (0, st\<lparr>bb_buf := (bb_buf st)[unat (bb_head st) := c], bb_head := nxt\<rparr>))
          in Inr (ret, irq_restore enable_ints cpu1, st1))"

text \<open>\<open>res\<close> is the content of the out parameter: \<open>None\<close> for a NULL pointer.\<close>

definition bbuf_try_consume ::
    "u8 option \<Rightarrow> 'c cpu_scheme \<times> bbuf_st
      \<Rightarrow> fault + int \<times> u8 option \<times> 'c cpu_scheme \<times> bbuf_st" where
  "bbuf_try_consume res = (\<lambda>(cpu, st).
     if res = None then Inr (-1, res, cpu, st)
     else
       let enable_ints = are_interrupts_enabled cpu;
           cpu1 = (if enable_ints then CLI cpu else cpu)
       in if bb_head st = bb_tail st then Inr (-1, res, irq_restore enable_ints cpu1, st)
          else if bb_size st = 0 then Inl Divide_Error
          else Inr (0, Some (bb_buf st ! unat (bb_tail st)), irq_restore enable_ints cpu1,
                    st\<lparr>bb_tail := (bb_tail st + 1) mod bb_size st\<rparr>))"

section \<open>Invariant and abstraction\<close>

definition bb_inv :: "bbuf_st \<Rightarrow> bool" where
  "bb_inv st \<longleftrightarrow> 2 \<le> bb_size st \<and> unat (bb_size st) \<le> length (bb_buf st)
     \<and> bb_head st < bb_size st \<and> bb_tail st < bb_size st"

definition ring_len :: "nat \<Rightarrow> nat \<Rightarrow> nat \<Rightarrow> nat" where
  "ring_len n h t = (if t \<le> h then h - t else n + h - t)"

definition ring_read :: "u8 list \<Rightarrow> nat \<Rightarrow> nat \<Rightarrow> nat \<Rightarrow> u8 list" where
  "ring_read xs n h t = map (\<lambda>i. xs ! ((t + i) mod n)) [0..<ring_len n h t]"

definition bb_contents :: "bbuf_st \<Rightarrow> u8 list" where
  "bb_contents st =
     ring_read (bb_buf st) (unat (bb_size st)) (unat (bb_head st)) (unat (bb_tail st))"


lemma length_ring_read [simp]: "length (ring_read xs n h t) = ring_len n h t"
  by (simp add: ring_read_def)

lemma ring_len_less: "h < n \<Longrightarrow> t < n \<Longrightarrow> ring_len n h t < n"
  by (auto simp: ring_len_def)

lemma ring_len_0: "h < n \<Longrightarrow> t < n \<Longrightarrow> ring_len n h t = 0 \<longleftrightarrow> h = t"
  by (auto simp: ring_len_def)

lemma ring_len_full:
  "h < n \<Longrightarrow> t < n \<Longrightarrow> ring_len n h t = n - Suc 0 \<longleftrightarrow> Suc h mod n = t"
  by (cases "Suc h = n") (auto simp: ring_len_def)

lemma ring_len_add:
  "h < n \<Longrightarrow> t < n \<Longrightarrow> Suc h mod n \<noteq> t
     \<Longrightarrow> ring_len n (Suc h mod n) t = Suc (ring_len n h t)"
  by (cases "Suc h = n") (auto simp: ring_len_def)

lemma ring_len_consume:
  "h < n \<Longrightarrow> t < n \<Longrightarrow> h \<noteq> t \<Longrightarrow> ring_len n h (Suc t mod n) = ring_len n h t - 1"
  by (cases "Suc t = n") (auto simp: ring_len_def)

lemma ring_head_pos: "h < n \<Longrightarrow> t < n \<Longrightarrow> (t + ring_len n h t) mod n = h"
  by (auto simp: ring_len_def)

lemma ring_slot_neq_head:
  assumes "h < n" "t < n" "i < ring_len n h t"
  shows "(t + i) mod n \<noteq> h"
proof (cases "t + i < n")
  case True
  with assms show ?thesis by (auto simp: ring_len_def split: if_splits)
next
  case False
  with assms have "(t + i) mod n = t + i - n"
    by (simp add: ring_len_def le_mod_geq split: if_splits)
  with assms False show ?thesis by (auto simp: ring_len_def split: if_splits)
qed

lemma ring_read_add:
  assumes "h < n" "t < n" "n \<le> length xs" "Suc h mod n \<noteq> t"
  shows "ring_read (xs[h := c]) n (Suc h mod n) t = ring_read xs n h t @ [c]"
proof -
  have "xs[h := c] ! ((t + i) mod n) = xs ! ((t + i) mod n)" if "i < ring_len n h t" for i
    using ring_slot_neq_head [OF assms(1,2) that] by simp
  then show ?thesis
    using assms by (simp add: ring_read_def ring_len_add ring_head_pos)
qed

lemma ring_read_consume:
  assumes "h < n" "t < n" "h \<noteq> t"
  shows "ring_read xs n h t = xs ! t # ring_read xs n h (Suc t mod n)"
proof -
  have pos: "0 < ring_len n h t"
    using assms by (simp add: ring_len_0 flip: neq0_conv)
  have "(t + Suc i) mod n = (Suc t mod n + i) mod n" for i
    by (simp add: mod_add_left_eq)
  with assms pos show ?thesis
    by (simp add: ring_read_def upt_map_shift ring_len_consume)
qed

section \<open>The bounded FIFO contract\<close>

text \<open>
  What the drivers rely on: a full buffer refuses a byte and is unchanged, otherwise the byte is
  appended; an empty buffer refuses to consume, otherwise the oldest byte is returned.
  \<open>put_all\<close> and \<open>get_n\<close> are a producer that offers bytes one after the other and a
  consumer that polls.
\<close>

primrec put_all :: "('a \<Rightarrow> 's \<Rightarrow> bool \<times> 's) \<Rightarrow> 'a list \<Rightarrow> 's \<Rightarrow> 's" where
  "put_all put [] s = s"
| "put_all put (x # xs) s = put_all put xs (snd (put x s))"

primrec get_n :: "('s \<Rightarrow> 'a option \<times> 's) \<Rightarrow> nat \<Rightarrow> 's \<Rightarrow> 'a list \<times> 's" where
  "get_n get 0 s = ([], s)"
| "get_n get (Suc n) s =
     (case get s of (None, s') \<Rightarrow> ([], s')
      | (Some x, s') \<Rightarrow> (let (xs, s'') = get_n get n s' in (x # xs, s'')))"

locale bounded_fifo =
  fixes put :: "'a \<Rightarrow> 's \<Rightarrow> bool \<times> 's"
    and get :: "'s \<Rightarrow> 'a option \<times> 's"
    and contents :: "'s \<Rightarrow> 'a list"
    and cap :: "'s \<Rightarrow> nat"
    and invar :: "'s \<Rightarrow> bool"
  assumes put_full: "invar s \<Longrightarrow> length (contents s) = cap s \<Longrightarrow> put x s = (False, s)"
    and put_room: "invar s \<Longrightarrow> length (contents s) < cap s \<Longrightarrow>
      fst (put x s) \<and> contents (snd (put x s)) = contents s @ [x]"
    and put_keeps: "invar s \<Longrightarrow> invar (snd (put x s)) \<and> cap (snd (put x s)) = cap s"
    and get_empty: "invar s \<Longrightarrow> contents s = [] \<Longrightarrow> get s = (None, s)"
    and get_first: "invar s \<Longrightarrow> contents s = x # xs \<Longrightarrow>
      fst (get s) = Some x \<and> contents (snd (get s)) = xs"
    and get_keeps: "invar s \<Longrightarrow> invar (snd (get s)) \<and> cap (snd (get s)) = cap s"
    and bounded: "invar s \<Longrightarrow> length (contents s) \<le> cap s"
begin

lemma put_all_keeps:
  "invar s \<Longrightarrow> invar (put_all put xs s) \<and> cap (put_all put xs s) = cap s"
  by (induction xs arbitrary: s) (simp_all add: put_keeps)

lemma put_all_contents:
  "invar s \<Longrightarrow> contents (put_all put xs s) = take (cap s) (contents s @ xs)"
proof (induction xs arbitrary: s)
  case Nil
  then show ?case using bounded [of s] by simp
next
  case (Cons x xs)
  show ?case
  proof (cases "length (contents s) = cap s")
    case True
    with Cons show ?thesis by (simp add: put_full)
  next
    case False
    with Cons.prems bounded [of s] have "length (contents s) < cap s" by simp
    from put_room [OF Cons.prems this, of x] put_keeps [OF Cons.prems, of x] Cons.IH
    have "contents (put_all put xs (snd (put x s))) = take (cap s) ((contents s @ [x]) @ xs)"
      by metis
    then show ?thesis by simp
  qed
qed

lemma get_n_contents:
  "invar s \<Longrightarrow> fst (get_n get n s) = take n (contents s)
     \<and> contents (snd (get_n get n s)) = drop n (contents s)"
proof (induction n arbitrary: s)
  case 0
  then show ?case by simp
next
  case (Suc n)
  show ?case
  proof (cases "contents s")
    case Nil
    with Suc.prems show ?thesis by (simp add: get_empty)
  next
    case (Cons x xs)
    from get_first [OF Suc.prems Cons] obtain s' where s': "get s = (Some x, s')" "contents s' = xs"
      by (cases "get s") auto
    from get_keeps [OF Suc.prems] s'(1) have "invar s'" by simp
    from Suc.IH [OF this] s' Cons show ?thesis
      by (auto split: prod.splits)
  qed
qed

lemma put_all_get_n:
  assumes "invar s" "contents s = []"
  shows "fst (get_n get (length xs) (put_all put xs s)) = take (cap s) xs"
  using assms by (simp add: get_n_contents put_all_contents put_all_keeps min_def)

end

section \<open>The buffer implements the contract\<close>

text \<open>
  The two operations seen by a caller that passes a valid out parameter: \<open>bb_put\<close> reports
  whether the byte was accepted, \<open>bb_get\<close> the byte consumed.
\<close>

definition bb_put :: "u8 \<Rightarrow> 'c cpu_scheme \<times> bbuf_st \<Rightarrow> bool \<times> 'c cpu_scheme \<times> bbuf_st" where
  "bb_put c s = (case bbuf_try_add c s of Inl _ \<Rightarrow> (False, s) | Inr (ret, s') \<Rightarrow> (ret = 0, s'))"

definition bb_get :: "'c cpu_scheme \<times> bbuf_st \<Rightarrow> u8 option \<times> 'c cpu_scheme \<times> bbuf_st" where
  "bb_get s = (case bbuf_try_consume (Some 0) s of Inl _ \<Rightarrow> (None, s)
     | Inr (ret, res, s') \<Rightarrow> (if ret = 0 then res else None, s'))"

lemma bb_inv_unat:
  assumes "bb_inv st"
  shows "unat (bb_head st) < unat (bb_size st)" "unat (bb_tail st) < unat (bb_size st)"
    "2 \<le> unat (bb_size st)" "unat (bb_size st) \<le> length (bb_buf st)" "bb_size st \<noteq> 0"
    "unat ((bb_head st + 1) mod bb_size st) = Suc (unat (bb_head st)) mod unat (bb_size st)"
    "unat ((bb_tail st + 1) mod bb_size st) = Suc (unat (bb_tail st)) mod unat (bb_size st)"
  using assms by (auto simp: bb_inv_def unat_less_iff unat_le_iff unat_mod unat_Suc_below)

lemma bb_add_cases:
  assumes "bb_inv st"
  shows "bbuf_try_add c (cpu, st) =
    (if length (bb_contents st) = unat (bb_size st) - 1 then Inr (-1, cpu, st)
     else Inr (0, cpu, st\<lparr>bb_buf := (bb_buf st)[unat (bb_head st) := c],
                          bb_head := (bb_head st + 1) mod bb_size st\<rparr>))"
proof -
  have "(bb_head st + 1) mod bb_size st = bb_tail st \<longleftrightarrow>
      length (bb_contents st) = unat (bb_size st) - 1"
    using bb_inv_unat [OF assms]
    by (simp add: bb_contents_def ring_len_full word_unat_eq_iff [of _ "bb_tail st"])
  with bb_inv_unat(5) [OF assms] show ?thesis
    by (simp add: bbuf_try_add_def Let_def irq_simps)
qed

lemma bb_consume_cases:
  assumes "bb_inv st"
  shows "bbuf_try_consume (Some r) (cpu, st) =
    (if bb_contents st = [] then Inr (-1, Some r, cpu, st)
     else Inr (0, Some (hd (bb_contents st)), cpu,
               st\<lparr>bb_tail := (bb_tail st + 1) mod bb_size st\<rparr>))"
proof -
  have empty: "bb_head st = bb_tail st \<longleftrightarrow> bb_contents st = []"
    using bb_inv_unat [OF assms]
    by (simp add: bb_contents_def ring_len_0 word_unat_eq_iff flip: length_0_conv)
  have "hd (bb_contents st) = bb_buf st ! unat (bb_tail st)" if "bb_contents st \<noteq> []"
    using that empty bb_inv_unat [OF assms]
    by (simp add: bb_contents_def ring_read_consume word_unat_eq_iff)
  with empty bb_inv_unat(5) [OF assms] show ?thesis
    by (simp add: bbuf_try_consume_def Let_def irq_simps)
qed

definition bb_add_state :: "u8 \<Rightarrow> bbuf_st \<Rightarrow> bbuf_st" where
  "bb_add_state c st = st\<lparr>bb_buf := (bb_buf st)[unat (bb_head st) := c],
                          bb_head := (bb_head st + 1) mod bb_size st\<rparr>"

definition bb_consume_state :: "bbuf_st \<Rightarrow> bbuf_st" where
  "bb_consume_state st = st\<lparr>bb_tail := (bb_tail st + 1) mod bb_size st\<rparr>"

lemma bb_size_state [simp]:
  "bb_size (bb_add_state c st) = bb_size st" "bb_size (bb_consume_state st) = bb_size st"
  by (simp_all add: bb_add_state_def bb_consume_state_def)

lemma bb_inv_add: "bb_inv st \<Longrightarrow> bb_inv (bb_add_state c st)"
  by (frule bb_inv_unat(5)) (simp add: bb_inv_def bb_add_state_def word_mod_less_divisor word_neq_0_conv)

lemma bb_inv_consume: "bb_inv st \<Longrightarrow> bb_inv (bb_consume_state st)"
  by (frule bb_inv_unat(5)) (simp add: bb_inv_def bb_consume_state_def word_mod_less_divisor word_neq_0_conv)

lemma bb_contents_add:
  assumes "bb_inv st" "length (bb_contents st) \<noteq> unat (bb_size st) - 1"
  shows "bb_contents (bb_add_state c st) = bb_contents st @ [c]"
  using bb_inv_unat [OF assms(1)] assms(2)
  by (simp add: bb_contents_def bb_add_state_def ring_read_add ring_len_full)

lemma bb_contents_consume:
  assumes "bb_inv st" "bb_contents st \<noteq> []"
  shows "bb_contents (bb_consume_state st) = tl (bb_contents st)"
proof -
  have "unat (bb_head st) \<noteq> unat (bb_tail st)"
    using assms bb_inv_unat [OF assms(1)]
    by (metis bb_contents_def length_0_conv length_ring_read ring_len_0)
  with bb_inv_unat [OF assms(1)] show ?thesis
    by (simp add: bb_contents_def bb_consume_state_def ring_read_consume [of "unat (bb_head st)" _ "unat (bb_tail st)"])
qed

lemma bb_contents_bounded:
  "bb_inv st \<Longrightarrow> length (bb_contents st) \<le> unat (bb_size st) - 1"
  using bb_inv_unat [of st] ring_len_less [of "unat (bb_head st)" "unat (bb_size st)" "unat (bb_tail st)"]
  by (simp add: bb_contents_def)

lemmas bb_step_simps = bb_put_def bb_get_def bb_add_cases bb_consume_cases
  bb_add_state_def [symmetric] bb_consume_state_def [symmetric]

interpretation bbf: bounded_fifo bb_put bb_get "\<lambda>(cpu, st). bb_contents st"
    "\<lambda>(cpu, st). unat (bb_size st) - 1" "\<lambda>(cpu, st). bb_inv st"
proof (unfold_locales, goal_cases)
  case (1 s x)
  then show ?case by (cases s) (simp add: bb_step_simps)
next
  case (2 s x)
  then show ?case by (cases s) (simp add: bb_step_simps bb_contents_add)
next
  case (3 s x)
  then show ?case
    by (cases s) (simp add: bb_step_simps bb_inv_add)
next
  case (4 s)
  then show ?case by (cases s) (simp add: bb_step_simps)
next
  case (5 s x xs)
  then show ?case by (cases s) (simp add: bb_step_simps bb_contents_consume)
next
  case (6 s)
  then show ?case
    by (cases s) (simp add: bb_step_simps bb_inv_consume)
next
  case (7 s)
  then show ?case using bb_contents_bounded by (cases s) simp
qed

section \<open>Properties\<close>

text \<open>
  adding to a valid buffer never faults and returns with the interrupt flag as it was. A full
  buffer (one slot short of \<open>size\<close>) answers -1 and is unchanged; otherwise the answer is 0
  and the byte is the newest of the buffer.
\<close>

theorem bbuf_try_add_correct:
  assumes "bb_inv st"
  shows "\<exists>ret st'. bbuf_try_add c (cpu, st) = Inr (ret, cpu, st') \<and> bb_inv st' \<and>
    (if length (bb_contents st) = unat (bb_size st) - 1 then ret = -1 \<and> st' = st
     else ret = 0 \<and> bb_contents st' = bb_contents st @ [c])"
  using assms bb_inv_add [of st c] bb_contents_add [of st c]
  by (simp add: bb_add_cases flip: bb_add_state_def)

text \<open>
  consuming from a valid buffer never faults and returns with the interrupt flag as it was. An
  empty buffer answers -1 and leaves the out parameter alone; otherwise the answer is 0 and the
  oldest byte has moved to the out parameter.
\<close>

theorem bbuf_try_consume_correct:
  assumes "bb_inv st"
  shows "\<exists>ret res st'. bbuf_try_consume (Some r) (cpu, st) = Inr (ret, Some res, cpu, st') \<and> bb_inv st' \<and>
    (if bb_contents st = [] then ret = -1 \<and> res = r \<and> st' = st
     else ret = 0 \<and> bb_contents st = res # bb_contents st')"
  using assms bb_inv_consume [of st] bb_contents_consume [of st]
  by (simp add: bb_consume_cases flip: bb_consume_state_def)

text \<open>
  C39: a producer that offers \<open>xs\<close> to a freshly initialised buffer and a consumer that polls
  afterwards: the consumer receives the bytes in the order they were produced, and exactly those
  that fitted into the \<open>size - 1\<close> slots.
\<close>

theorem bbuf_init_fifo:
  assumes "2 \<le> sz" "unat sz \<le> length buf"
  shows "fst (get_n bb_get (length xs) (put_all bb_put xs (cpu, bbuf_init buf sz st)))
    = take (unat sz - 1) xs"
proof -
  have inv: "bb_inv (bbuf_init buf sz st)" and empty: "bb_contents (bbuf_init buf sz st) = []"
    and size: "bb_size (bbuf_init buf sz st) = sz"
    using assms by (auto simp: bbuf_init_def bb_inv_def bb_contents_def ring_read_def ring_len_def
        unat_less_iff unat_le_iff)
  from bbf.put_all_get_n [of "(cpu, bbuf_init buf sz st)" xs] inv empty size show ?thesis
    by simp
qed

theorem bbuf_try_add_correct_witness:
  "bb_inv \<lparr>bb_buf = [4, 9, 6], bb_size = 3, bb_head = 2, bb_tail = 1\<rparr> \<and>
   (\<exists>st'. bbuf_try_add 5 (\<lparr>IF_flag = True, halted = False\<rparr>,
        \<lparr>bb_buf = [4, 9, 6], bb_size = 3, bb_head = 2, bb_tail = 1\<rparr>)
      = Inr (0, \<lparr>IF_flag = True, halted = False\<rparr>, st') \<and> bb_contents st' = [9, 5])"
proof -
  have inv: "bb_inv \<lparr>bb_buf = [4, 9, 6], bb_size = 3, bb_head = 2, bb_tail = 1\<rparr>"
    by (simp add: bb_inv_def)
  have con: "bb_contents \<lparr>bb_buf = [4, 9, 6], bb_size = 3, bb_head = 2, bb_tail = 1\<rparr> = [9]"
    by (simp add: bb_contents_def ring_read_def ring_len_def)
  from bbuf_try_add_correct [OF inv, of 5 "\<lparr>IF_flag = True, halted = False\<rparr>"] inv con
  show ?thesis by auto
qed

theorem bbuf_try_consume_correct_witness:
  "bb_inv \<lparr>bb_buf = [4, 9, 6], bb_size = 3, bb_head = 0, bb_tail = 1\<rparr> \<and>
   (\<exists>res st'. bbuf_try_consume (Some 0) (\<lparr>IF_flag = True, halted = False\<rparr>,
        \<lparr>bb_buf = [4, 9, 6], bb_size = 3, bb_head = 0, bb_tail = 1\<rparr>)
      = Inr (0, Some res, \<lparr>IF_flag = True, halted = False\<rparr>, st') \<and> [9, 6] = res # bb_contents st')"
proof -
  have inv: "bb_inv \<lparr>bb_buf = [4, 9, 6], bb_size = 3, bb_head = 0, bb_tail = 1\<rparr>"
    by (simp add: bb_inv_def)
  have con: "bb_contents \<lparr>bb_buf = [4, 9, 6], bb_size = 3, bb_head = 0, bb_tail = 1\<rparr> = [9, 6]"
    by (simp add: bb_contents_def ring_read_def ring_len_def upt_rec)
  from bbuf_try_consume_correct [OF inv, of 0 "\<lparr>IF_flag = True, halted = False\<rparr>"] inv con
  show ?thesis by auto
qed

theorem bbuf_init_fifo_witness:
  "fst (get_n bb_get (length [1, 2, 3]) (put_all bb_put [1, 2, 3]
      (\<lparr>IF_flag = True, halted = False\<rparr>, bbuf_init [0, 0, 0] 3 \<lparr>bb_buf = [], bb_size = 0, bb_head = 0, bb_tail = 0\<rparr>))) = [1, 2]"
  using bbuf_init_fifo [of 3 "[0, 0, 0]" "[1, 2, 3]" "\<lparr>IF_flag = True, halted = False\<rparr>" "\<lparr>bb_buf = [], bb_size = 0, bb_head = 0, bb_tail = 0\<rparr>"]
  by simp

end
