(* ===== verification/Keyboard.thy ===== *)
theory Keyboard
  imports Syscall_Frame Blocking Bbuf
begin

text \<open>
  The keyboard driver (\<open>drivers/ps2_kbd.c\<close>). The interrupt handler translates scancodes and puts
  them into a bounded buffer; readers take them out and wait on a queue while it is empty. The PS/2
  controller is an argument: \<open>pin\<close> and \<open>pout\<close> are \<open>inb\<close> and \<open>outb\<close> on the state of the device.
\<close>

section \<open>Model\<close>

definition PS2_DATA :: u16 where "PS2_DATA = 0x60"
definition PS2_STATUS :: u16 where "PS2_STATUS = 0x64"
definition PS2_CMD :: u16 where "PS2_CMD = 0x64"
definition PS2_STAT_OBF :: u8 where "PS2_STAT_OBF = 0x01"
definition PS2_STAT_IBF :: u8 where "PS2_STAT_IBF = 0x02"
definition KBD_ACK :: u8 where "KBD_ACK = 0xFA"
definition KBD_BUFFER_SIZE :: u64 where "KBD_BUFFER_SIZE = 16"
definition KBD_ISR_NUM :: int where "KBD_ISR_NUM = 33"

record kbd_sys = kernel_st +
  kbd_st :: bbuf_st
  kbd_wait_queue :: ptr

definition scancode_map :: "u8 list" where
  "scancode_map =
     [0, 27, 0x31, 0x32, 0x33, 0x34, 0x35, 0x36, 0x37, 0x38, 0x39, 0x30, 0x2D, 0x3D, 0x08,
      0x09, 0x71, 0x77, 0x65, 0x72, 0x74, 0x79, 0x75, 0x69, 0x6F, 0x70, 0x5B, 0x5D, 0x0A, 0,
      0x61, 0x73, 0x64, 0x66, 0x67, 0x68, 0x6A, 0x6B, 0x6C, 0x3B, 0x27, 0x60, 0,
      0x5C, 0x7A, 0x78, 0x63, 0x76, 0x62, 0x6E, 0x6D, 0x2C, 0x2E, 0x2F, 0, 0, 0,
      0x20]"

type_synonym 'd port_in = "u16 \<Rightarrow> 'd \<Rightarrow> u8 \<times> 'd"
type_synonym 'd port_out = "u16 \<Rightarrow> u8 \<Rightarrow> 'd \<Rightarrow> 'd"

partial_function (option) poll_read :: "'d port_in \<Rightarrow> 'd \<Rightarrow> (u8 \<times> 'd) option" where
  "poll_read pin d =
     (let (st, d) = pin PS2_STATUS d
      in if st AND PS2_STAT_OBF = 0 then poll_read pin d else Some (pin PS2_DATA d))"

partial_function (option) poll_write :: "'d port_in \<Rightarrow> 'd port_out \<Rightarrow> u16 \<Rightarrow> u8 \<Rightarrow> 'd \<Rightarrow> 'd option" where
  "poll_write pin pout port b d =
     (let (st, d) = pin PS2_STATUS d
      in if st AND PS2_STAT_IBF \<noteq> 0 then poll_write pin pout port b d else Some (pout port b d))"

definition ps2_config :: "u8 \<Rightarrow> u8" where
  "ps2_config cfg =
     (let cfg = cfg OR 1;
          cfg = cfg OR push_bit 4 1;
          cfg = cfg AND NOT (push_bit 1 1);
          cfg = cfg AND NOT (push_bit 5 1)
      in cfg OR push_bit 6 1)"

definition ps2_init :: "'d port_in \<Rightarrow> 'd port_out \<Rightarrow> 'd \<Rightarrow> 'd option" where
  "ps2_init pin pout d = do {
     d \<leftarrow> poll_write pin pout PS2_CMD 0xAD d;
     d \<leftarrow> poll_write pin pout PS2_CMD 0xA7 d;
     d \<leftarrow> poll_write pin pout PS2_CMD 0x20 d;
     (cfg, d) \<leftarrow> poll_read pin d;
     d \<leftarrow> poll_write pin pout PS2_CMD 0x60 d;
     d \<leftarrow> poll_write pin pout PS2_DATA (ps2_config cfg) d;
     poll_write pin pout PS2_CMD 0xAE d
   }"

partial_function (option) kbd_flush :: "'d port_in \<Rightarrow> 'd \<Rightarrow> 'd option" where
  "kbd_flush pin d =
     (let (st, d) = pin PS2_STATUS d
      in if st AND PS2_STAT_OBF \<noteq> 0 then kbd_flush pin (snd (pin PS2_DATA d)) else Some d)"

text \<open>Reset, self test, scancode set and scanning; the result tells whether initialisation goes on.\<close>

definition kbd_handshake :: "'d port_in \<Rightarrow> 'd port_out \<Rightarrow> 'd \<Rightarrow> (bool \<times> 'd) option" where
  "kbd_handshake pin pout d = do {
     d \<leftarrow> poll_write pin pout PS2_DATA 0xFF d;
     (res, d) \<leftarrow> poll_read pin d;
     if res \<noteq> KBD_ACK then Some (False, d)
     else do {
       (res, d) \<leftarrow> poll_read pin d;
       if res \<noteq> 0xAA then Some (False, d)
       else do {
         d \<leftarrow> kbd_flush pin d;
         d \<leftarrow> poll_write pin pout PS2_DATA 0xF0 d;
         d \<leftarrow> poll_write pin pout PS2_DATA 0x02 d;
         (res, d) \<leftarrow> poll_read pin d;
         if res \<noteq> KBD_ACK then Some (False, d)
         else do {
           d \<leftarrow> poll_write pin pout PS2_DATA 0xF4 d;
           (res, d) \<leftarrow> poll_read pin d;
           Some (True, d)
         }
       }
     }
   }"

definition keyboard_init ::
    "'d port_in \<Rightarrow> 'd port_out \<Rightarrow> u8 list \<Rightarrow> 'd \<Rightarrow> 'a kbd_sys_scheme \<Rightarrow> ('d \<times> 'a kbd_sys_scheme) option" where
  "keyboard_init pin pout kbd_buf d k = do {
     (ok, d) \<leftarrow> kbd_handshake pin pout d;
     if \<not> ok then Some (d, k)
     else let k = k\<lparr>kbd_st := bbuf_init kbd_buf KBD_BUFFER_SIZE (kbd_st k)\<rparr>;
              k = PROC_init_queue (Q_dev (kbd_wait_queue k)) k
          in Some (d, on_mm (register_interrupt KBD_ISR_NUM 0 TYPE_INTRGATE 0 ISR33_keyboard_irq NULL) k)
   }"

text \<open>
  One round of \<open>wait_event_interruptable\<close>: interrupts off, an attempt to take a byte, and blocking when
  there is none. The thread goes on with the next round.
\<close>

definition getchar_round :: "ptr \<Rightarrow> 'a kbd_sys_scheme \<Rightarrow> (sys_result \<times> 'a kbd_sys_scheme) option" where
  "getchar_round sp k =
     (let k = on_mm CLI k
      in case bbuf_try_consume (Some 0) (mm k, kbd_st k) of
           Inl _ \<Rightarrow> None
         | Inr (r, c, m, st) \<Rightarrow>
             let k = k\<lparr>mm := m, kbd_st := st\<rparr>
             in if r = 0 then Some (Ret (scast (the c)), on_mm STI k)
                else do {
                  k \<leftarrow> PROC_block_on (Q_dev (kbd_wait_queue k)) True sp k;
                  Some (Blocked In_getchar, k)
                })"

definition keyboard_getchar :: "ptr \<Rightarrow> 'a kbd_sys_scheme \<Rightarrow> (sys_result \<times> 'a kbd_sys_scheme) option" where
  "keyboard_getchar sp k = getchar_round sp k"

definition ISR33_keyboard :: "u8 \<Rightarrow> 'a kbd_sys_scheme \<Rightarrow> 'a kbd_sys_scheme option" where
  "ISR33_keyboard sc k =
     (if sc = 0xF0 \<or> sc = 0xE0 then Some k
      else if sc < 0x3A
      then (case bbuf_try_add (scancode_map ! unat sc) (mm k, kbd_st k) of
              Inl _ \<Rightarrow> None
            | Inr (_, m, st) \<Rightarrow> PROC_unblock_head (Q_dev (kbd_wait_queue k)) (k\<lparr>mm := m, kbd_st := st\<rparr>))
      else Some k)"

section \<open>Keys reach their readers\<close>

lemma kbd_places: "same_places k (k\<lparr>mm := mm k, kbd_st := st\<rparr>)" for k :: "'a kbd_sys_scheme"
proof -
  have "get_queue q (k\<lparr>mm := mm k, kbd_st := st\<rparr>) = get_queue q k" for q by (cases q) simp_all
  then show ?thesis by (simp add: same_places_def)
qed

text \<open>
  A key press. A scancode the table covers appends its character to the buffer unless that is full,
  and the first waiting reader that may run becomes runnable; nothing else of the kernel changes.
  Prefix bytes and other scancodes change nothing.
\<close>

theorem key_press_correct:
  assumes "threads_ok k r W Q" "Q_dev (kbd_wait_queue k) \<in> Q" "bb_inv (kbd_st k)"
  shows "if sc < 0x3A
    then \<exists>k' st r1 r2. ISR33_keyboard sc k = Some k' \<and> core k' = core (k\<lparr>kbd_st := st\<rparr>) \<and> bb_inv st \<and>
      bb_contents st = (if length (bb_contents (kbd_st k)) = unat (bb_size (kbd_st k)) - 1 then bb_contents (kbd_st k)
                        else bb_contents (kbd_st k) @ [scancode_map ! unat sc]) \<and>
      (let q = Q_dev (kbd_wait_queue k); t = woken (W q) k in
       r = r1 @ r2 \<and> threads_ok k' (if t = NULL then r else r1 @ t # r2) (W(q := still_waiting (W q) k)) Q \<and>
       (t \<noteq> NULL \<longrightarrow> run_state (thr k' t) = PROC_READY))
    else ISR33_keyboard sc k = Some k"
proof (cases "sc < 0x3A")
  case True
  let ?q = "Q_dev (kbd_wait_queue k)"
  have n: "sc \<noteq> 0xF0" "sc \<noteq> 0xE0" using True by auto
  obtain ret st where a: "bbuf_try_add (scancode_map ! unat sc) (mm k, kbd_st k) = Inr (ret, mm k, st)" "bb_inv st"
    "bb_contents st = (if length (bb_contents (kbd_st k)) = unat (bb_size (kbd_st k)) - 1 then bb_contents (kbd_st k)
                        else bb_contents (kbd_st k) @ [scancode_map ! unat sc])"
    using bbuf_try_add_correct [OF assms(3), of "scancode_map ! unat sc" "mm k"] by (auto split: if_splits)
  let ?k = "k\<lparr>mm := mm k, kbd_st := st\<rparr>"
  have t: "threads_ok ?k r W Q" using assms(1) threads_ok_same [OF kbd_places] by blast
  have w: "woken ts ?k = woken ts k" "still_waiting ts ?k = still_waiting ts k" for ts
    by (simp_all add: woken_def still_waiting_def can_wake_def)
  obtain k' r1 r2 where u: "PROC_unblock_one ?q ?k = Some (woken (W ?q) ?k, k')" "core k' = core ?k" "r = r1 @ r2"
    "threads_ok k' (if woken (W ?q) ?k = NULL then r else r1 @ woken (W ?q) ?k # r2) (W(?q := still_waiting (W ?q) ?k)) Q"
    "\<forall>t. run_state (thr k' t) = (if t = woken (W ?q) ?k \<and> t \<noteq> NULL then PROC_READY else run_state (thr ?k t))"
    using threads_unblock_one [OF t assms(2)] by blast
  have "ISR33_keyboard sc k = Some k'" using True n a(1) u(1) by (simp add: ISR33_keyboard_def PROC_unblock_head_def)
  moreover have "?k = k\<lparr>kbd_st := st\<rparr>" by simp
  ultimately show ?thesis using True a(2,3) u(2-5) unfolding w Let_def if_P [OF True]
    by (intro exI [of _ k'] exI [of _ st] exI [of _ r1] exI [of _ r2]) simp
qed (auto simp: ISR33_keyboard_def)


section \<open>A concrete keyboard\<close>

text \<open>The example of the wait queues, with the thread 0x3000 waiting for a key instead.\<close>

definition kbd_example :: kbd_sys where
  "kbd_example = kernel_st.extend (kernel_example\<lparr>dvq := (\<lambda>_. queue_zero)(0x700 := \<lparr>q_head = 0x3000, q_tail = 0x3000\<rparr>)\<rparr>)
     (kbd_sys.fields \<lparr>bb_buf = [0, 0, 0, 0], bb_size = 4, bb_head = 0, bb_tail = 0\<rparr> 0x700)"

definition kbd_waits :: "qref \<Rightarrow> ptr list" where
  "kbd_waits q = (if q = Q_dev 0x700 then [0x3000] else [])"

lemma kbd_example_fields:
  "thr kbd_example = thr kernel_example" "mm kbd_example = mm kernel_example" "prc kbd_example = prc kernel_example"
  "curr_proc kbd_example = 0x1000" "multitask_started kbd_example" "main_thread kbd_example = 0x100" "kbd_wait_queue kbd_example = 0x700"
  "kbd_st kbd_example = \<lparr>bb_buf = [0, 0, 0, 0], bb_size = 4, bb_head = 0, bb_tail = 0\<rparr>"
  "Head kbd_example = 0x1000" "Tail kbd_example = 0x2000" "Current kbd_example = 0x2000" "Count kbd_example = 2"
  "dvq kbd_example = (\<lambda>_. queue_zero)(0x700 := \<lparr>q_head = 0x3000, q_tail = 0x3000\<rparr>)"
  by (simp_all add: kbd_example_def kernel_st.defs kbd_sys.defs kernel_example_def)

lemma kbd_example_ok: "threads_ok kbd_example [0x2000, 0x1000] kbd_waits {Q_dev 0x700, Q_thread 0x5000}"
proof (rule threads_okI)
  show "k_serves kbd_example [0x2000, 0x1000]"
    unfolding k_serves_def rr_serves_def
    by (rule conjI, rule exI [of _ "[0x1000]"], rule exI [of _ "[0x2000]"], simp add: rr_ring_def)
       (simp_all add: kernel_example_halted kbd_example_fields, simp_all add: kernel_example_def example_thread_def)
  show "queue_holds kbd_example q (kbd_waits q)" if "q \<in> {Q_dev 0x700, Q_thread 0x5000}" for q
    using that
    by (auto simp: queue_holds_def kbd_waits_def kbd_example_fields kernel_example_def example_thread_def thread_zero_def process_zero_def queue_zero_def)
qed (auto simp: kbd_waits_def)

lemma kbd_example_buffer: "bb_inv (kbd_st kbd_example)" "bb_contents (kbd_st kbd_example) = []"
  by (simp_all add: kbd_example_fields bb_inv_def bb_contents_def ring_read_def ring_len_def)

theorem key_press_correct_witness:
  "\<exists>k'. ISR33_keyboard 0x1E kbd_example = Some k' \<and> bb_contents (kbd_st k') = [0x61] \<and> run_state (thr k' 0x3000) = PROC_READY"
proof -
  have w: "woken [0x3000] kbd_example = 0x3000"
    by (simp add: woken_def can_wake_def kbd_example_fields kernel_example_def example_thread_def process_zero_def)
  have m: "scancode_map ! unat (0x1E :: u8) = 0x61" by (simp add: scancode_map_def)
  obtain k' st where k': "ISR33_keyboard 0x1E kbd_example = Some k'" "core k' = core (kbd_example\<lparr>kbd_st := st\<rparr>)" "bb_contents st = [0x61]"
    "run_state (thr k' 0x3000) = PROC_READY"
    using key_press_correct [OF kbd_example_ok, of "0x1E"] kbd_example_buffer w m
    by (auto simp: kbd_example_fields(7,8) kbd_waits_def Let_def)
  have "kbd_st k' = st" using arg_cong [OF k'(2), of kbd_st] by (simp add: core_def)
  then show ?thesis using k' by blast
qed


end
