(* ===== verification/Vga.thy ===== *)
theory Vga
  imports Machine
begin

text \<open>
  The text screen (\<open>drivers/vga.c\<close>): 25 rows of 80 cells in the frame buffer, a cursor and the
  current colour. \<open>enable_ints\<close> of \<open>vga_display_char\<close> is not initialised, so what it holds before
  the first assignment is an argument of the model.
\<close>

section \<open>Model\<close>

definition VGA_WIDTH :: int where "VGA_WIDTH = 80"
definition VGA_HEIGHT :: int where "VGA_HEIGHT = 25"

definition VGA_BLACK :: u8 where "VGA_BLACK = 0x00"
definition VGA_LIGHT_GREY :: u8 where "VGA_LIGHT_GREY = 0x07"

definition BG :: "u8 \<Rightarrow> u8" where "BG c = push_bit 4 (c AND 0x0F)"
definition FG :: "u8 \<Rightarrow> u8" where "FG c = push_bit 0 (c AND 0x0F)"

record vga_st =
  vga_buff :: "u16 list"
  row :: int
  col :: int
  color :: u8

definition vga_start :: "u16 list \<Rightarrow> vga_st" where
  "vga_start screen = \<lparr>vga_buff = screen, row = 0, col = 0, color = FG VGA_LIGHT_GREY OR BG VGA_BLACK\<rparr>"

definition vga_setcolor :: "u8 \<Rightarrow> u8 \<Rightarrow> vga_st \<Rightarrow> vga_st" where
  "vga_setcolor fg bg v = v\<lparr>color := FG fg OR BG bg\<rparr>"

definition vga_nextrow :: "vga_st \<Rightarrow> vga_st" where
  "vga_nextrow v = (if row v \<ge> VGA_HEIGHT - 1 then v\<lparr>row := 0\<rparr> else v\<lparr>row := row v + 1\<rparr>)"

definition vga_nextcol :: "vga_st \<Rightarrow> vga_st" where
  "vga_nextcol v = (if col v \<ge> VGA_WIDTH - 1 then vga_nextrow (v\<lparr>col := 0\<rparr>) else v\<lparr>col := col v + 1\<rparr>)"

text \<open>\<open>vga_buff[(row * VGA_WIDTH) + col] = (color << 8) | c\<close>\<close>

definition vga_cell :: "vga_st \<Rightarrow> u8 \<Rightarrow> u16" where
  "vga_cell v c = push_bit 8 (ucast (color v)) OR ucast c"

definition vga_put :: "u8 \<Rightarrow> vga_st \<Rightarrow> vga_st" where
  "vga_put c v = v\<lparr>vga_buff := (vga_buff v)[nat (row v * VGA_WIDTH + col v) := vga_cell v c]\<rparr>"

definition vga_left :: "vga_st \<Rightarrow> vga_st" where
  "vga_left v =
     (if col v = 0 then (if row v \<noteq> 0 then v\<lparr>row := row v - 1, col := VGA_WIDTH - 1\<rparr> else v)
      else v\<lparr>col := col v - 1\<rparr>)"

definition vga_backcol :: "vga_st \<Rightarrow> vga_st" where
  "vga_backcol v = vga_put 0x20 (vga_left v)"

definition vga_glyph :: "u8 \<Rightarrow> vga_st \<Rightarrow> vga_st" where
  "vga_glyph uc v =
     (if uc = 0x0A then (vga_nextrow v)\<lparr>col := 0\<rparr>
      else if uc = 0x0D then v\<lparr>col := 0\<rparr>
      else if uc = 0x09 then vga_nextcol (vga_nextcol (vga_nextcol (vga_nextcol (vga_nextcol v))))
      else if uc = 0x08 then vga_backcol v
      else vga_nextcol (vga_put uc v))"

definition vga_display_char :: "bool \<Rightarrow> u8 \<Rightarrow> 'c cpu_scheme \<times> vga_st \<Rightarrow> 'c cpu_scheme \<times> vga_st" where
  "vga_display_char uninit c = (\<lambda>(cpu, v).
     let (enable_ints, cpu) = (if are_interrupts_enabled cpu then (True, CLI cpu) else (uninit, cpu));
         v = vga_glyph c v
     in (if enable_ints then STI cpu else cpu, v))"

text \<open>
  A string is the list of its bytes before the terminating zero. \<open>uninit\<close> gives the left-over value
  for each call.
\<close>

fun vga_display_str :: "(nat \<Rightarrow> bool) \<Rightarrow> u8 list \<Rightarrow> 'c cpu_scheme \<times> vga_st \<Rightarrow> 'c cpu_scheme \<times> vga_st" where
  "vga_display_str uninit [] s = s"
| "vga_display_str uninit (c # cs) s = vga_display_str (uninit \<circ> Suc) cs (vga_display_char (uninit 0) c s)"

definition vga_clear :: "(nat \<Rightarrow> bool) \<Rightarrow> 'c cpu_scheme \<times> vga_st \<Rightarrow> 'c cpu_scheme \<times> vga_st" where
  "vga_clear uninit s =
     (let (cpu, v) = vga_display_str uninit (replicate (nat (VGA_HEIGHT * VGA_WIDTH)) 0x20) s
      in (cpu, v\<lparr>row := 0, col := 0\<rparr>))"

section \<open>The cursor stays on the screen\<close>

definition vga_inv :: "vga_st \<Rightarrow> bool" where
  "vga_inv v \<longleftrightarrow> length (vga_buff v) = 2000 \<and> 0 \<le> row v \<and> row v < 25 \<and> 0 \<le> col v \<and> col v < 80"

definition vga_pos :: "vga_st \<Rightarrow> nat" where
  "vga_pos v = nat (row v * VGA_WIDTH + col v)"

lemmas vga_defs = VGA_WIDTH_def VGA_HEIGHT_def vga_inv_def vga_pos_def

lemma vga_pos_less: "vga_inv v \<Longrightarrow> vga_pos v < 2000"
  by (auto simp: vga_defs)

lemma vga_nextrow_inv: "vga_inv v \<Longrightarrow> vga_inv (vga_nextrow v)"
  by (auto simp: vga_nextrow_def vga_defs)

lemma vga_nextrow_fields [simp]:
  "vga_buff (vga_nextrow v) = vga_buff v" "color (vga_nextrow v) = color v" "col (vga_nextrow v) = col v"
  by (auto simp: vga_nextrow_def)

lemma vga_nextrow_row: "vga_inv v \<Longrightarrow> row (vga_nextrow v) = (row v + 1) mod 25"
  by (cases "row v = 24") (auto simp: vga_nextrow_def vga_defs mod_pos_pos_trivial)

lemma vga_nextcol_inv: "vga_inv v \<Longrightarrow> vga_inv (vga_nextcol v)"
  by (auto simp: vga_nextcol_def vga_defs vga_nextrow_def)

lemma vga_nextcol_fields [simp]:
  "vga_buff (vga_nextcol v) = vga_buff v" "color (vga_nextcol v) = color v"
  by (auto simp: vga_nextcol_def)

text \<open>Moving right is one step in the row-major order of the cells, from the last to the first.\<close>

lemma vga_nextcol_pos:
  assumes "vga_inv v" shows "vga_pos (vga_nextcol v) = (vga_pos v + 1) mod 2000"
proof -
  consider "col v \<noteq> 79" | "col v = 79" "row v = 24" | "col v = 79" "row v \<noteq> 24" by blast
  then show ?thesis
    by cases (use assms in \<open>auto simp: vga_defs vga_nextcol_def vga_nextrow_def nat_add_distrib\<close>)
qed

lemma vga_put_inv [simp]: "vga_inv (vga_put c v) = vga_inv v"
  by (simp add: vga_inv_def vga_put_def)

lemma vga_put_fields [simp]:
  "vga_pos (vga_put c v) = vga_pos v" "color (vga_put c v) = color v"
  "vga_buff (vga_put c v) = (vga_buff v)[vga_pos v := vga_cell v c]"
  by (simp_all add: vga_put_def vga_pos_def)

lemma vga_left_inv: "vga_inv v \<Longrightarrow> vga_inv (vga_left v)"
  by (auto simp: vga_left_def vga_defs)

lemma vga_left_fields [simp]: "vga_buff (vga_left v) = vga_buff v" "color (vga_left v) = color v"
  by (simp_all add: vga_left_def)

lemma vga_left_pos:
  assumes "vga_inv v" shows "vga_pos (vga_left v) = vga_pos v - 1"
proof -
  consider "col v = 0" "row v = 0" | "col v = 0" "row v \<noteq> 0" | "col v \<noteq> 0" by blast
  then show ?thesis
  proof cases
    case 3
    then have "row v * 80 + (col v - 1) = row v * 80 + col v - 1" "1 \<le> row v * 80 + col v"
      using assms by (auto simp: vga_inv_def)
    then show ?thesis using 3 by (simp add: vga_left_def vga_pos_def VGA_WIDTH_def nat_diff_distrib)
  qed (use assms in \<open>auto simp: vga_left_def vga_defs nat_diff_distrib\<close>)
qed

lemma vga_backcol_eq:
  assumes "vga_inv v"
  shows "vga_inv (vga_backcol v)" "vga_pos (vga_backcol v) = vga_pos v - 1"
    "vga_buff (vga_backcol v) = (vga_buff v)[vga_pos v - 1 := vga_cell v 0x20]"
  using vga_left_inv [OF assms] vga_left_pos [OF assms] by (simp_all add: vga_backcol_def vga_cell_def)

lemma vga_glyph_inv: "vga_inv v \<Longrightarrow> vga_inv (vga_glyph c v)"
proof -
  assume v: "vga_inv v"
  have "vga_inv ((vga_nextrow v)\<lparr>col := 0\<rparr>)" "vga_inv (v\<lparr>col := 0\<rparr>)"
    using v vga_nextrow_inv [OF v] by (simp_all add: vga_inv_def)
  then show ?thesis using v vga_backcol_eq(1) [OF v] by (simp add: vga_glyph_def vga_nextcol_inv)
qed

lemma vga_glyph_color [simp]: "color (vga_glyph c v) = color v"
  by (simp add: vga_glyph_def vga_backcol_def)

text \<open>Only \<open>\\b\<close> and the characters that are shown change a cell.\<close>

definition vga_control :: "u8 \<Rightarrow> bool" where
  "vga_control c \<longleftrightarrow> c \<in> {0x08, 0x09, 0x0A, 0x0D}"

lemma vga_glyph_shown:
  assumes "vga_inv v" "\<not> vga_control c"
  shows "vga_buff (vga_glyph c v) = (vga_buff v)[vga_pos v := vga_cell v c]"
    "vga_pos (vga_glyph c v) = (vga_pos v + 1) mod 2000"
  using assms vga_nextcol_pos [of "vga_put c v"] by (simp_all add: vga_glyph_def vga_control_def)

section \<open>Strings\<close>

lemma vga_char_snd: "snd (vga_display_char u c s) = vga_glyph c (snd s)"
  by (simp add: vga_display_char_def Let_def split: prod.split)

lemma vga_str_inv: "vga_inv (snd s) \<Longrightarrow> vga_inv (snd (vga_display_str u cs s))"
  by (induction cs arbitrary: s u) (simp_all add: vga_char_snd vga_glyph_inv)

lemma vga_str_color [simp]: "color (snd (vga_display_str u cs s)) = color (snd s)"
  by (induction cs arbitrary: s u) (simp_all add: vga_char_snd)

lemma vga_char_irq: "are_interrupts_enabled (fst s) \<Longrightarrow> fst (vga_display_char u c s) = fst s"
  by (cases s) (simp add: vga_display_char_def Let_def are_interrupts_enabled_def CLI_def STI_def)

lemma vga_str_irq: "are_interrupts_enabled (fst s) \<Longrightarrow> fst (vga_display_str u cs s) = fst s"
  by (induction cs arbitrary: s u) (simp_all add: vga_char_irq)

text \<open>A run of shown characters fills the cells from the cursor on, around the end of the screen.\<close>

lemma vga_str_snoc: "vga_display_str u (cs @ [c]) s = vga_display_char (u (length cs)) c (vga_display_str u cs s)"
  by (induction cs arbitrary: s u) simp_all

definition vga_dist :: "nat \<Rightarrow> nat \<Rightarrow> nat" where
  "vga_dist p i = (i + 2000 - p) mod 2000"

lemma vga_dist_eq: "p < 2000 \<Longrightarrow> i < 2000 \<Longrightarrow> n < 2000 \<Longrightarrow> (vga_dist p i = n) = (i = (p + n) mod 2000)"
  unfolding vga_dist_def by (cases "p + n < 2000"; cases "p \<le> i") (auto simp: mod_if)

lemma vga_str_cells:
  assumes "vga_inv (snd s)" "\<forall>c \<in> set cs. \<not> vga_control c" "length cs \<le> 2000"
  shows "vga_pos (snd (vga_display_str u cs s)) = (vga_pos (snd s) + length cs) mod 2000 \<and>
    (\<forall>i < 2000. vga_buff (snd (vga_display_str u cs s)) ! i =
      (if vga_dist (vga_pos (snd s)) i < length cs then vga_cell (snd s) (cs ! vga_dist (vga_pos (snd s)) i)
       else vga_buff (snd s) ! i))"
  using assms
proof (induction cs rule: rev_induct)
  case Nil
  then show ?case using vga_pos_less by simp
next
  case (snoc c cs)
  let ?p = "vga_pos (snd s)" and ?t = "vga_display_str u cs s"
  have c: "\<not> vga_control c" and ih: "vga_pos (snd ?t) = (?p + length cs) mod 2000"
    "\<forall>i < 2000. vga_buff (snd ?t) ! i =
      (if vga_dist ?p i < length cs then vga_cell (snd s) (cs ! vga_dist ?p i) else vga_buff (snd s) ! i)"
    using snoc by simp_all
  have t: "vga_inv (snd ?t)" by (rule vga_str_inv [OF snoc.prems(1)])
  have n: "length cs < 2000" using snoc.prems(3) by simp
  have cell: "vga_cell (snd ?t) c = vga_cell (snd s) c" by (simp add: vga_cell_def)
  note g = vga_glyph_shown [OF t c]
  have "vga_buff (snd (vga_display_str u (cs @ [c]) s)) ! i =
      (if vga_dist ?p i < length (cs @ [c]) then vga_cell (snd s) ((cs @ [c]) ! vga_dist ?p i) else vga_buff (snd s) ! i)"
    if i: "i < 2000" for i
  proof (cases "i = (?p + length cs) mod 2000")
    case True
    then have "vga_dist ?p i = length cs" using vga_dist_eq [OF vga_pos_less [OF snoc.prems(1)] i n] by simp
    then show ?thesis using True t g(1) ih(1) cell i by (simp add: vga_str_snoc vga_char_snd vga_inv_def)
  next
    case False
    then have "vga_dist ?p i \<noteq> length cs" using vga_dist_eq [OF vga_pos_less [OF snoc.prems(1)] i n] by simp
    then show ?thesis using False g(1) ih i by (simp add: vga_str_snoc vga_char_snd nth_append)
  qed
  moreover have "vga_pos (snd (vga_display_str u (cs @ [c]) s)) = (?p + length (cs @ [c])) mod 2000"
    using g(2) ih(1) by (simp add: vga_str_snoc vga_char_snd mod_Suc_eq)
  ultimately show ?case by blast
qed

section \<open>Properties\<close>

text \<open>
  C38: Writing one character never leaves the screen. With the cursor on the screen it stays there,
  and every write hits one of the 2000 cells: a character that is shown goes into the cell under
  the cursor with the current colour and the cursor moves to the next cell, from the last one to the
  first; backspace blanks the cell before the cursor and moves there, and stays at the first cell;
  newline goes to the start of the following row, carriage return to the start of this one, and tab
  five cells on, all three without changing a cell.
\<close>

theorem vga_display_char_correct:
  assumes "vga_inv v"
  shows "let v' = snd (vga_display_char u c (cpu, v)) in
    vga_inv v' \<and> color v' = color v \<and> vga_pos v < 2000 \<and>
    (if c = 0x08 then vga_pos v' = vga_pos v - 1 \<and> vga_buff v' = (vga_buff v)[vga_pos v - 1 := vga_cell v 0x20]
     else if c = 0x09 then vga_pos v' = (vga_pos v + 5) mod 2000 \<and> vga_buff v' = vga_buff v
     else if c = 0x0A then vga_pos v' = nat ((row v + 1) mod 25 * 80) \<and> vga_buff v' = vga_buff v
     else if c = 0x0D then vga_pos v' = nat (row v * 80) \<and> vga_buff v' = vga_buff v
     else vga_pos v' = (vga_pos v + 1) mod 2000 \<and> vga_buff v' = (vga_buff v)[vga_pos v := vga_cell v c])"
proof -
  have tab: "vga_pos (vga_nextcol (vga_nextcol (vga_nextcol (vga_nextcol (vga_nextcol v))))) = (vga_pos v + 5) mod 2000"
    using assms by (simp add: vga_nextcol_inv vga_nextcol_pos mod_simps add.commute)
  have nl: "vga_pos ((vga_nextrow v)\<lparr>col := 0\<rparr>) = nat ((row v + 1) mod 25 * 80)" "vga_pos (v\<lparr>col := 0\<rparr>) = nat (row v * 80)"
    using vga_nextrow_row [OF assms] by (simp_all add: vga_pos_def VGA_WIDTH_def)
  note shown = vga_glyph_shown [OF assms, of c]
  show ?thesis
    unfolding Let_def vga_char_snd snd_conv
    using vga_glyph_inv [OF assms, of c] vga_glyph_color [of c v] vga_pos_less [OF assms] vga_backcol_eq(2,3) [OF assms] tab nl shown
    by (auto simp: vga_control_def vga_glyph_def)
qed

text \<open>
  Clearing the screen blanks every cell in the current colour, wherever the cursor was, and puts
  the cursor at the top left; interrupts that were enabled are enabled afterwards.
\<close>

theorem vga_clear_correct:
  assumes "vga_inv v"
  shows "let (cpu', v') = vga_clear u (cpu, v) in
    vga_buff v' = replicate 2000 (vga_cell v 0x20) \<and> row v' = 0 \<and> col v' = 0 \<and> color v' = color v \<and>
    (are_interrupts_enabled cpu \<longrightarrow> cpu' = cpu)"
proof -
  let ?r = "vga_display_str u (replicate 2000 0x20) (cpu, v)"
  have l: "length (vga_buff (snd ?r)) = 2000" using vga_str_inv [of "(cpu, v)"] assms by (simp add: vga_inv_def)
  have "vga_buff (snd ?r) ! i = vga_cell v 0x20" if "i < 2000" for i
  proof -
    have "vga_dist (vga_pos v) i < 2000" by (simp add: vga_dist_def)
    then show ?thesis
      using vga_str_cells [of "(cpu, v)" "replicate 2000 0x20" u] assms that by (simp add: vga_control_def)
  qed
  then have "vga_buff (snd ?r) = replicate 2000 (vga_cell v 0x20)"
    using l by (intro nth_equalityI) simp_all
  then show ?thesis
    using vga_str_irq [of "(cpu, v)" u "replicate 2000 0x20"]
    by (auto simp: vga_clear_def Let_def VGA_WIDTH_def VGA_HEIGHT_def split: prod.split)
       (metis fst_conv snd_conv vga_str_color)+
qed

text \<open>
  A character written while interrupts are disabled may enable them: \<open>enable_ints\<close> is then read
  without ever having been assigned, and the flag afterwards is whatever it happened to hold. With
  interrupts enabled before the call the flag is restored.
\<close>

theorem vga_display_char_flag:
  "are_interrupts_enabled (fst (vga_display_char u c (cpu, v))) = (are_interrupts_enabled cpu \<or> u)"
  by (simp add: vga_display_char_def Let_def are_interrupts_enabled_def CLI_def STI_def)

definition vga_example :: vga_st where
  "vga_example = (vga_start (replicate 2000 0))\<lparr>row := 24, col := 79\<rparr>"

lemma vga_example_inv: "vga_inv vga_example" "vga_pos vga_example = 1999"
  by (simp_all add: vga_example_def vga_start_def vga_defs)

theorem vga_display_char_correct_witness:
  "vga_pos (snd (vga_display_char False 0x41 (\<lparr>IF_flag = True, halted = False\<rparr>, vga_example))) = 0 \<and>
   vga_buff (snd (vga_display_char False 0x41 (\<lparr>IF_flag = True, halted = False\<rparr>, vga_example))) ! 1999 = 0x0741"
  using vga_display_char_correct [OF vga_example_inv(1), of False "0x41" "\<lparr>IF_flag = True, halted = False\<rparr>"] vga_example_inv(2)
  by (simp add: Let_def vga_example_def vga_start_def vga_cell_def FG_def BG_def VGA_LIGHT_GREY_def VGA_BLACK_def)

theorem vga_clear_correct_witness:
  "vga_buff (snd (vga_clear (\<lambda>_. False) (\<lparr>IF_flag = True, halted = False\<rparr>, vga_example))) ! 7 = 0x0720"
  using vga_clear_correct [OF vga_example_inv(1), of "\<lambda>_. False" "\<lparr>IF_flag = True, halted = False\<rparr>"]
  by (simp add: vga_example_def vga_start_def vga_cell_def FG_def BG_def VGA_LIGHT_GREY_def VGA_BLACK_def split: prod.splits)

end
