(* ===== verification/Serial.thy ===== *)
theory Serial
  imports Bbuf Interrupts
begin

text \<open>
  The serial port driver (\<open>drivers/serial_out.c\<close>): a bounded buffer of bytes to send, and a busy
  flag that is cleared when the transmitter is empty. The port is a list of the bytes written to its
  registers; what its status registers read is an argument (\<open>lsr\<close>, \<open>iir\<close>).
\<close>

section \<open>Model\<close>

definition PORT :: u16 where "PORT = 0x3f8"
definition IIR_NO_PENDING :: u8 where "IIR_NO_PENDING = 1"
definition IIR_MASK :: u8 where "IIR_MASK = 0x0E"
definition IIR_THR_EMPTY :: u8 where "IIR_THR_EMPTY = 0x02"
definition LSR_THR_EMPTY :: u8 where "LSR_THR_EMPTY = push_bit 5 1"
definition SER_BUFFER_SIZE :: u64 where "SER_BUFFER_SIZE = 2048"

record serial_st =
  ser_active :: bool
  ser_st :: bbuf_st
  ser_out :: "(u16 \<times> u8) list"

definition ser_outb :: "u16 \<Rightarrow> u8 \<Rightarrow> serial_st \<Rightarrow> serial_st" where
  "ser_outb p v s = s\<lparr>ser_out := ser_out s @ [(p, v)]\<rparr>"

definition serial_init :: "u8 list \<Rightarrow> 'a intr_st_scheme \<times> serial_st \<Rightarrow> int \<times> 'a intr_st_scheme \<times> serial_st" where
  "serial_init ser_buf = (\<lambda>(cpu, s).
     let s = ser_outb (PORT + 1) 0x00 s;
         s = ser_outb (PORT + 3) 0x80 s;
         s = ser_outb (PORT + 0) 0x01 s;
         s = ser_outb (PORT + 1) 0x00 s;
         s = ser_outb (PORT + 3) 0x03 s;
         s = ser_outb (PORT + 2) 0xC7 s;
         s = ser_outb (PORT + 4) 0x03 s;
         s = ser_outb (PORT + 4) 0x0F s;
         s = ser_outb (PORT + 1) 0x02 s;
         s = s\<lparr>ser_st := bbuf_init ser_buf SER_BUFFER_SIZE (ser_st s)\<rparr>;
         cpu = register_interrupt 36 0 TYPE_INTRGATE 0 ISR36_IRQ4_serial NULL cpu
     in (0, cpu, s))"

definition transmit_empty :: "u8 \<Rightarrow> bool" where
  "transmit_empty lsr \<longleftrightarrow> lsr AND LSR_THR_EMPTY \<noteq> 0"

definition transmit :: "u8 \<Rightarrow> 'c cpu_scheme \<times> serial_st \<Rightarrow> fault + 'c cpu_scheme \<times> serial_st" where
  "transmit lsr = (\<lambda>(cpu, s).
     let enable_ints = are_interrupts_enabled cpu;
         cpu = (if enable_ints then CLI cpu else cpu);
         s = (if ser_active s \<and> transmit_empty lsr then s\<lparr>ser_active := False\<rparr> else s)
     in if ser_active s then Inr (irq_restore enable_ints cpu, s)
        else case bbuf_try_consume (Some 0) (cpu, ser_st s) of
          Inl f \<Rightarrow> Inl f
        | Inr (r, c, cpu, st) \<Rightarrow>
            let s = s\<lparr>ser_st := st\<rparr>;
                s = (if r = 0 then ser_outb PORT (the c) (s\<lparr>ser_active := True\<rparr>) else s)
            in Inr (irq_restore enable_ints cpu, s))"

definition serial_display_char :: "u8 \<Rightarrow> u8 \<Rightarrow> 'c cpu_scheme \<times> serial_st \<Rightarrow> fault + 'c cpu_scheme \<times> serial_st" where
  "serial_display_char lsr c = (\<lambda>(cpu, s).
     case bbuf_try_add c (cpu, ser_st s) of
       Inl f \<Rightarrow> Inl f
     | Inr (_, cpu, st) \<Rightarrow> transmit lsr (cpu, s\<lparr>ser_st := st\<rparr>))"

text \<open>\<open>lsr\<close> gives what the line status register reads at each character.\<close>

fun serial_display_string :: "(nat \<Rightarrow> u8) \<Rightarrow> u8 list \<Rightarrow> 'c cpu_scheme \<times> serial_st \<Rightarrow> fault + 'c cpu_scheme \<times> serial_st" where
  "serial_display_string lsr [] x = Inr x"
| "serial_display_string lsr (c # cs) x =
     (case serial_display_char (lsr 0) c x of
        Inl f \<Rightarrow> Inl f
      | Inr x \<Rightarrow> serial_display_string (lsr \<circ> Suc) cs x)"

definition ISR36_IRQ4 :: "u8 \<Rightarrow> u8 \<Rightarrow> 'c cpu_scheme \<times> serial_st \<Rightarrow> fault + 'c cpu_scheme \<times> serial_st" where
  "ISR36_IRQ4 iir lsr = (\<lambda>(cpu, s).
     if iir AND IIR_NO_PENDING \<noteq> 0 then Inr (cpu, s)
     else if iir AND IIR_MASK = IIR_THR_EMPTY then transmit lsr (cpu, s\<lparr>ser_active := False\<rparr>)
     else Inr (cpu, s))"

section \<open>What is sent and what waits\<close>

text \<open>The bytes written to the data register since the port was initialised, then those buffered.\<close>

definition ser_sent :: "serial_st \<Rightarrow> u8 list" where
  "ser_sent s = map snd (filter (\<lambda>(p, v). p = PORT) (ser_out s))"

definition ser_stream :: "serial_st \<Rightarrow> u8 list" where
  "ser_stream s = ser_sent s @ bb_contents (ser_st s)"

lemma ser_sent_outb [simp]: "ser_sent (ser_outb PORT c s) = ser_sent s @ [c]"
  by (simp add: ser_sent_def ser_outb_def)

lemma ser_sent_frame [simp]: "ser_sent (s\<lparr>ser_st := st\<rparr>) = ser_sent s" "ser_sent (s\<lparr>ser_active := b\<rparr>) = ser_sent s"
  by (simp_all add: ser_sent_def)

lemma ser_st_outb [simp]: "ser_st (ser_outb p c s) = ser_st s" "ser_active (ser_outb p c s) = ser_active s"
  by (simp_all add: ser_outb_def)

definition ser_ready :: "u8 \<Rightarrow> serial_st \<Rightarrow> bool" where
  "ser_ready lsr s \<longleftrightarrow> \<not> ser_active s \<or> transmit_empty lsr"

lemma transmit_cases:
  assumes "bb_inv (ser_st s)"
  shows "transmit lsr (cpu, s) = Inr (cpu,
    if ser_ready lsr s
    then (if bb_contents (ser_st s) = [] then s\<lparr>ser_active := False\<rparr>
          else ser_outb PORT (hd (bb_contents (ser_st s)))
                 (s\<lparr>ser_active := True, ser_st := bb_consume_state (ser_st s)\<rparr>))
    else s)"
  using assms
  by (auto simp: transmit_def Let_def irq_simps ser_ready_def bb_consume_cases ser_outb_def
      bb_consume_state_def are_interrupts_enabled_def irq_restore_def CLI_def STI_def)

text \<open>
  Sending moves the oldest waiting byte to the port, if the transmitter is free; the stream of bytes
  stays the same.
\<close>

lemma transmit_stream:
  assumes "bb_inv (ser_st s)"
  shows "\<exists>s'. transmit lsr (cpu, s) = Inr (cpu, s') \<and> bb_inv (ser_st s') \<and> bb_size (ser_st s') = bb_size (ser_st s) \<and>
    ser_stream s' = ser_stream s \<and>
    length (ser_sent s') = length (ser_sent s) + (if ser_ready lsr s \<and> bb_contents (ser_st s) \<noteq> [] then 1 else 0)"
  unfolding transmit_cases [OF assms]
  using assms bb_contents_consume [OF assms] bb_inv_consume [OF assms] by (auto simp: ser_stream_def)

lemma display_char_stream:
  assumes "bb_inv (ser_st s)"
  shows "\<exists>s'. serial_display_char lsr c (cpu, s) = Inr (cpu, s') \<and> bb_inv (ser_st s') \<and>
    bb_size (ser_st s') = bb_size (ser_st s) \<and>
    ser_stream s' = ser_stream s @ (if length (bb_contents (ser_st s)) = unat (bb_size (ser_st s)) - 1 then [] else [c])"
proof (cases "length (bb_contents (ser_st s)) = unat (bb_size (ser_st s)) - 1")
  case True
  then have "serial_display_char lsr c (cpu, s) = transmit lsr (cpu, s)"
    using assms by (simp add: serial_display_char_def bb_add_cases)
  then show ?thesis using transmit_stream [OF assms, of lsr cpu] True by auto
next
  case False
  let ?s = "s\<lparr>ser_st := bb_add_state c (ser_st s)\<rparr>"
  have "serial_display_char lsr c (cpu, s) = transmit lsr (cpu, ?s)"
    using assms False by (simp add: serial_display_char_def bb_add_cases bb_add_state_def)
  moreover have "ser_stream ?s = ser_stream s @ [c]"
    using bb_contents_add [OF assms False] by (simp add: ser_stream_def)
  ultimately show ?thesis using transmit_stream [of ?s lsr cpu] bb_inv_add [OF assms] False by auto
qed

lemma display_string_stream:
  assumes "bb_inv (ser_st s)" "length (bb_contents (ser_st s)) + length cs < unat (bb_size (ser_st s))"
  shows "\<exists>s'. serial_display_string lsr cs (cpu, s) = Inr (cpu, s') \<and> bb_inv (ser_st s') \<and>
    ser_stream s' = ser_stream s @ cs"
  using assms
proof (induction cs arbitrary: s lsr)
  case (Cons c cs)
  have nf: "length (bb_contents (ser_st s)) \<noteq> unat (bb_size (ser_st s)) - 1" using Cons.prems(2) by simp
  obtain s1 where s1: "serial_display_char (lsr 0) c (cpu, s) = Inr (cpu, s1)" "bb_inv (ser_st s1)"
    "bb_size (ser_st s1) = bb_size (ser_st s)" "ser_stream s1 = ser_stream s @ [c]"
    using display_char_stream [OF Cons.prems(1), of "lsr 0" c cpu] nf by auto
  have "length (ser_sent s) \<le> length (ser_sent s1)"
    using s1(1) nf Cons.prems(1) transmit_cases [of "s\<lparr>ser_st := bb_add_state c (ser_st s)\<rparr>" "lsr 0" cpu] bb_inv_add
    by (auto simp: serial_display_char_def bb_add_cases bb_add_state_def [symmetric] split: if_splits)
  moreover have "length (ser_stream s1) = Suc (length (ser_stream s))" using s1(4) by simp
  ultimately have "length (bb_contents (ser_st s1)) \<le> Suc (length (bb_contents (ser_st s)))" by (simp add: ser_stream_def)
  then show ?case using Cons.IH [OF s1(2), of "lsr \<circ> Suc"] Cons.prems(2) s1 by (auto simp: comp_def)
qed simp

section \<open>Properties\<close>

text \<open>
  C37: No byte is lost, duplicated or reordered on the way to the port. Writing a string that the
  buffer has room for never faults, leaves the interrupt flag alone, and extends the stream of bytes
  sent and waiting by exactly the string.
\<close>

theorem serial_string_in_order:
  assumes "bb_inv (ser_st s)" "length (bb_contents (ser_st s)) + length cs < unat (bb_size (ser_st s))"
  shows "\<exists>s'. serial_display_string lsr cs (cpu, s) = Inr (cpu, s') \<and> ser_stream s' = ser_stream s @ cs"
  using display_string_stream [OF assms] by blast

text \<open>
  The port drains. An interrupt that reports an empty transmitter sends the oldest waiting byte
  if there is one and changes nothing else of the stream; other causes are ignored.
\<close>

theorem serial_interrupt_drains:
  assumes "bb_inv (ser_st s)" "iir AND IIR_NO_PENDING = 0" "iir AND IIR_MASK = IIR_THR_EMPTY"
  shows "\<exists>s'. ISR36_IRQ4 iir lsr (cpu, s) = Inr (cpu, s') \<and> bb_inv (ser_st s') \<and> ser_stream s' = ser_stream s \<and>
    length (bb_contents (ser_st s')) = length (bb_contents (ser_st s)) - 1"
proof -
  let ?s = "s\<lparr>ser_active := False\<rparr>"
  have i: "ISR36_IRQ4 iir lsr (cpu, s) = transmit lsr (cpu, ?s)" using assms by (simp add: ISR36_IRQ4_def)
  obtain s' where s': "transmit lsr (cpu, ?s) = Inr (cpu, s')" "bb_inv (ser_st s')" "ser_stream s' = ser_stream ?s"
    "length (ser_sent s') = length (ser_sent ?s) + (if ser_ready lsr ?s \<and> bb_contents (ser_st ?s) \<noteq> [] then 1 else 0)"
    using transmit_stream [of ?s lsr cpu] assms(1) by auto
  have "length (ser_stream s') = length (ser_stream ?s)" using s'(3) by simp
  then have "length (bb_contents (ser_st s')) = length (bb_contents (ser_st s)) - 1"
    using s'(4) by (auto simp: ser_stream_def ser_ready_def split: if_splits)
  then show ?thesis using i s' by (auto simp: ser_stream_def)
qed

definition serial_example :: serial_st where
  "serial_example = \<lparr>ser_active = False,
     ser_st = bbuf_init (replicate 2048 0) SER_BUFFER_SIZE \<lparr>bb_buf = [], bb_size = 0, bb_head = 0, bb_tail = 0\<rparr>,
     ser_out = []\<rparr>"

lemma serial_example_inv: "bb_inv (ser_st serial_example)" "bb_contents (ser_st serial_example) = []"
  "bb_size (ser_st serial_example) = 2048" "ser_sent serial_example = []"
  by (simp_all add: serial_example_def SER_BUFFER_SIZE_def bbuf_init_def bb_inv_def bb_contents_def ring_read_def
      ring_len_def ser_sent_def)

theorem serial_string_in_order_witness:
  "\<exists>s'. serial_display_string (\<lambda>_. 0) [0x68, 0x69] (\<lparr>IF_flag = True, halted = False\<rparr>, serial_example) =
     Inr (\<lparr>IF_flag = True, halted = False\<rparr>, s') \<and> ser_stream s' = [0x68, 0x69]"
  using serial_string_in_order [of serial_example "[0x68, 0x69]" "\<lambda>_. 0" "\<lparr>IF_flag = True, halted = False\<rparr>"]
    serial_example_inv by (simp add: ser_stream_def)

theorem serial_interrupt_drains_witness:
  "\<exists>s'. ISR36_IRQ4 0x02 0 (\<lparr>IF_flag = False, halted = False\<rparr>, serial_example\<lparr>ser_st := bb_add_state 0x68 (ser_st serial_example)\<rparr>) =
     Inr (\<lparr>IF_flag = False, halted = False\<rparr>, s') \<and> bb_contents (ser_st s') = [] \<and> ser_stream s' = [0x68]"
proof -
  let ?s = "serial_example\<lparr>ser_st := bb_add_state 0x68 (ser_st serial_example)\<rparr>"
  have i: "bb_inv (ser_st ?s)" using bb_inv_add [OF serial_example_inv(1)] by simp
  have c: "bb_contents (ser_st ?s) = [0x68]"
    using bb_contents_add [OF serial_example_inv(1), of "0x68"] serial_example_inv by simp
  show ?thesis
    using serial_interrupt_drains [OF i, of "0x02" 0 "\<lparr>IF_flag = False, halted = False\<rparr>"] c serial_example_inv(4)
    by (auto simp: IIR_NO_PENDING_def IIR_MASK_def IIR_THR_EMPTY_def ser_stream_def)
qed

end
