(* ===== verification/Stdio.thy ===== *)
theory Stdio
  imports Vga Serial "HOL-Library.Monad_Syntax"
begin

text \<open>
  Formatted output (\<open>klibc/stdio.c\<close>). A call of \<open>printk\<close> is first translated into the list of its
  calls of \<open>putchar\<close> and \<open>putstr\<close>, which then run on the screen and the serial port. Reading an
  argument that is not there, or as another type, is undefined in C and has the value \<open>None\<close>.
\<close>

section \<open>Model\<close>

datatype out = Char u8 | Str "u8 list"

definition digit_chars :: "u8 list" where
  "digit_chars = [0x30, 0x31, 0x32, 0x33, 0x34, 0x35, 0x36, 0x37, 0x38, 0x39, 0x41, 0x42, 0x43, 0x44, 0x45, 0x46]"

text \<open>The filled part of \<open>buf\<close>, least significant digit first. A base of 0 is a divide error, and with 1 the loop does not end.\<close>

partial_function (option) digits_from :: "u64 \<Rightarrow> u64 \<Rightarrow> u8 list option" where
  "digits_from num base =
     (if num = 0 then Some []
      else if base = 0 then None
      else do { ds \<leftarrow> digits_from (num div base) base; Some (digit_chars ! unat (num mod base) # ds) })"

definition print_unsigned :: "u64 \<Rightarrow> u64 \<Rightarrow> out list option" where
  "print_unsigned num base = do {
     buf \<leftarrow> (if num = 0 then Some [0x30] else digits_from num base);
     Some (map Char (rev buf))
   }"

definition print_signed :: "u64 \<Rightarrow> out list option" where
  "print_signed num =
     (if sint num < 0 then do { os \<leftarrow> print_unsigned (- num) 10; Some (Char 0x2D # os) }
      else print_unsigned num 10)"

text \<open>An argument is a 64-bit slot or a string, of which NULL is \<open>None\<close>.\<close>

datatype va_arg = V_int u64 | V_str "u8 list option"

fun va_int :: "va_arg list \<Rightarrow> (u64 \<times> va_arg list) option" where
  "va_int (V_int w # as) = Some (w, as)"
| "va_int _ = None"

fun va_str :: "va_arg list \<Rightarrow> (u8 list option \<times> va_arg list) option" where
  "va_str (V_str s # as) = Some (s, as)"
| "va_str _ = None"

datatype lmod = L_none | L_h | L_l | L_q

definition read_lmod :: "u8 list \<Rightarrow> lmod \<times> u8 list" where
  "read_lmod ps =
     (case ps of
        [] \<Rightarrow> (L_none, [])
      | p # qs \<Rightarrow> if p = 0x68 then (L_h, qs) else if p = 0x6C then (L_l, qs) else if p = 0x71 then (L_q, qs)
                 else (L_none, ps))"

definition int_arg :: "lmod \<Rightarrow> u64 \<Rightarrow> u64" where
  "int_arg m w = (case m of L_q \<Rightarrow> w | L_l \<Rightarrow> w | L_h \<Rightarrow> scast (ucast w :: u16) | L_none \<Rightarrow> scast (ucast w :: u32))"

definition uint_arg :: "lmod \<Rightarrow> u64 \<Rightarrow> u64" where
  "uint_arg m w = (case m of L_q \<Rightarrow> w | L_l \<Rightarrow> w | L_h \<Rightarrow> ucast (ucast w :: u16) | L_none \<Rightarrow> ucast (ucast w :: u32))"

text \<open>
  One conversion: the calls it makes, the increment of \<open>written\<close> and the remaining arguments;
  \<open>None\<close> inside is an unknown conversion character.
\<close>

definition convert :: "lmod \<Rightarrow> u8 \<Rightarrow> va_arg list \<Rightarrow> (out list \<times> int \<times> va_arg list) option option" where
  "convert m c as =
     (if c = 0x25 then Some (Some ([Char 0x25], 1, as))
      else if c = 0x63 then do { (w, as) \<leftarrow> va_int as; Some (Some ([Char (ucast w)], 1, as)) }
      else if c = 0x73 then do {
        (s, as) \<leftarrow> va_str as;
        let s = (case s of None \<Rightarrow> [0x28, 0x6E, 0x75, 0x6C, 0x6C, 0x29] | Some s \<Rightarrow> s);
        Some (Some ([Str s], int (length s), as))
      }
      else if c = 0x70 then do {
        (w, as) \<leftarrow> va_int as;
        os \<leftarrow> print_unsigned w 16;
        Some (Some (Str [0x30, 0x78] # os, 2, as))
      }
      else if c = 0x64 then do { (w, as) \<leftarrow> va_int as; os \<leftarrow> print_signed (int_arg m w); Some (Some (os, 0, as)) }
      else if c = 0x75 then do { (w, as) \<leftarrow> va_int as; os \<leftarrow> print_unsigned (uint_arg m w) 10; Some (Some (os, 0, as)) }
      else if c = 0x78 then do {
        (w, as) \<leftarrow> va_int as;
        os \<leftarrow> print_unsigned (uint_arg m w) 16;
        Some (Some (Str [0x30, 0x78] # os, 2, as))
      }
      else Some None)"

definition unknown_format :: "u8 list" where
  "unknown_format = [0x0A, 0x55, 0x6E, 0x6B, 0x6E, 0x6F, 0x77, 0x6E, 0x20, 0x66, 0x6F, 0x72, 0x6D, 0x61, 0x74, 0x0A]"

lemma read_lmod_length: "read_lmod ps = (m, c # qs) \<Longrightarrow> length qs < length ps"
  by (auto simp: read_lmod_def split: list.splits if_splits)

function printk_calls :: "u8 list \<Rightarrow> va_arg list \<Rightarrow> int \<Rightarrow> (out list \<times> int) option" where
  "printk_calls [] as written = Some ([], written)"
| "printk_calls (p # ps) as written =
     (if p \<noteq> 0x25 then do { (os, w) \<leftarrow> printk_calls ps as (written + 1); Some (Char p # os, w) }
      else case read_lmod ps of
        (_, []) \<Rightarrow> Some ([Str unknown_format], written)
      | (m, c # qs) \<Rightarrow> do {
          conv \<leftarrow> convert m c as;
          case conv of
            None \<Rightarrow> Some ([Str unknown_format], written)
          | Some (os, n, as) \<Rightarrow> do { (os', w) \<leftarrow> printk_calls qs as (written + n); Some (os @ os', w) }
        })"
  by pat_completeness auto
termination
  by (relation "measure (\<lambda>(ps, _, _). length ps)") (auto simp: less_Suc_eq dest!: read_lmod_length [OF sym])

record console =
  con_vga :: vga_st
  con_ser :: serial_st

text \<open>The device inputs of the driver calls: the uninitialised flag and the line status, per character.\<close>

definition putchar :: "bool \<Rightarrow> u8 \<Rightarrow> u8 \<Rightarrow> 'c cpu_scheme \<times> console \<Rightarrow> fault + 'c cpu_scheme \<times> console" where
  "putchar uninit lsr c = (\<lambda>(cpu, con).
     let (cpu, v) = vga_display_char uninit c (cpu, con_vga con)
     in case serial_display_char lsr c (cpu, con_ser con) of
          Inl f \<Rightarrow> Inl f
        | Inr (cpu, s) \<Rightarrow> Inr (cpu, con\<lparr>con_vga := v, con_ser := s\<rparr>))"

definition putstr :: "(nat \<Rightarrow> bool) \<Rightarrow> (nat \<Rightarrow> u8) \<Rightarrow> u8 list \<Rightarrow> 'c cpu_scheme \<times> console \<Rightarrow> fault + 'c cpu_scheme \<times> console" where
  "putstr uninit lsr str = (\<lambda>(cpu, con).
     let (cpu, v) = vga_display_str uninit str (cpu, con_vga con)
     in case serial_display_string lsr str (cpu, con_ser con) of
          Inl f \<Rightarrow> Inl f
        | Inr (cpu, s) \<Rightarrow> Inr (cpu, con\<lparr>con_vga := v, con_ser := s\<rparr>))"

definition run_out ::
    "(nat \<Rightarrow> bool) \<Rightarrow> (nat \<Rightarrow> u8) \<Rightarrow> out \<Rightarrow> 'c cpu_scheme \<times> console \<Rightarrow> fault + 'c cpu_scheme \<times> console" where
  "run_out uninit lsr o1 = (case o1 of Char c \<Rightarrow> putchar (uninit 0) (lsr 0) c | Str s \<Rightarrow> putstr uninit lsr s)"

fun run_outs ::
    "(nat \<Rightarrow> nat \<Rightarrow> bool) \<Rightarrow> (nat \<Rightarrow> nat \<Rightarrow> u8) \<Rightarrow> out list \<Rightarrow> 'c cpu_scheme \<times> console \<Rightarrow> fault + 'c cpu_scheme \<times> console" where
  "run_outs uninit lsr [] x = Inr x"
| "run_outs uninit lsr (o1 # os) x =
     (case run_out (uninit 0) (lsr 0) o1 x of
        Inl f \<Rightarrow> Inl f
      | Inr x \<Rightarrow> run_outs (uninit \<circ> Suc) (lsr \<circ> Suc) os x)"

definition printk ::
    "(nat \<Rightarrow> nat \<Rightarrow> bool) \<Rightarrow> (nat \<Rightarrow> nat \<Rightarrow> u8) \<Rightarrow> u8 list \<Rightarrow> va_arg list \<Rightarrow>
     'c cpu_scheme \<times> console \<Rightarrow> (fault + int \<times> 'c cpu_scheme \<times> console) option" where
  "printk uninit lsr fmt as x = do {
     (os, written) \<leftarrow> printk_calls fmt as 0;
     Some (case run_outs uninit lsr os x of Inl f \<Rightarrow> Inl f | Inr x \<Rightarrow> Inr (written, x))
   }"

section \<open>Numbers\<close>

text \<open>The value of a numeral, most significant digit first.\<close>

definition digit_value :: "u8 \<Rightarrow> nat" where
  "digit_value c = (case first_index (\<lambda>d. d = c) digit_chars of Some i \<Rightarrow> i | None \<Rightarrow> 0)"

definition numeral_value :: "nat \<Rightarrow> u8 list \<Rightarrow> nat" where
  "numeral_value base cs = foldl (\<lambda>v c. v * base + digit_value c) 0 cs"

lemma digit_value_nth: "i < 16 \<Longrightarrow> digit_value (digit_chars ! i) = i"
proof -
  assume "i < 16"
  then have "i \<in> set [0..<16]" by simp
  moreover have "\<forall>i \<in> set [0..<16]. digit_value (digit_chars ! i) = i"
    by (simp add: upt_conv_Cons digit_value_def digit_chars_def)
  ultimately show ?thesis by blast
qed

lemma digit_zero: "i < 16 \<Longrightarrow> digit_chars ! i = 0x30 \<longleftrightarrow> i = 0"
  using digit_value_nth [of i] digit_value_nth [of 0] by (auto simp: digit_chars_def)

lemma numeral_value_snoc: "numeral_value base (cs @ [c]) = numeral_value base cs * base + digit_value c"
  by (simp add: numeral_value_def)

text \<open>The loop ends for a base from 2 to 16 and produces at most \<open>k\<close> digits of a number below \<open>base ^ k\<close>.\<close>

lemma digits_from_value:
  assumes "2 \<le> base" "base \<le> 16" "unat num < unat base ^ k"
  shows "\<exists>ds. digits_from num base = Some ds \<and> length ds \<le> k \<and> numeral_value (unat base) (rev ds) = unat num \<and>
    (num \<noteq> 0 \<longrightarrow> ds \<noteq> [] \<and> last ds \<noteq> 0x30)"
  using assms(3)
proof (induction k arbitrary: num)
  case 0
  then have "num = 0" by (simp add: unat_eq_0)
  then show ?case by (simp add: digits_from.simps numeral_value_def)
next
  case (Suc k)
  have b: "2 \<le> unat base" "unat base \<le> 16" "base \<noteq> 0" using assms(1,2) by (auto simp: unat_le_iff)
  show ?case
  proof (cases "num = 0")
    case True
    then show ?thesis by (simp add: digits_from.simps numeral_value_def)
  next
    case False
    have "unat (num div base) < unat base ^ k"
      using Suc.prems b(1) by (simp add: unat_div less_mult_imp_div_less mult.commute)
    from Suc.IH [OF this] obtain ds where ds: "digits_from (num div base) base = Some ds" "length ds \<le> k"
      "numeral_value (unat base) (rev ds) = unat (num div base)"
      "num div base \<noteq> 0 \<longrightarrow> ds \<noteq> [] \<and> last ds \<noteq> 0x30" by blast
    let ?d = "digit_chars ! unat (num mod base)"
    have "unat num mod unat base < unat base" using b(1) by simp
    then have m: "unat (num mod base) = unat num mod unat base" "unat (num mod base) < 16"
      using b(2) by (simp_all add: unat_mod)
    have "digits_from num base = Some (?d # ds)" using False b(3) ds(1) by (subst digits_from.simps) simp
    moreover have "numeral_value (unat base) (rev (?d # ds)) = unat num"
      using ds(3) digit_value_nth [OF m(2)] m(1) by (simp add: numeral_value_snoc unat_div mult.commute)
    moreover have "last (?d # ds) \<noteq> 0x30"
    proof (cases "num div base = 0")
      case True
      then have "unat (num div base) = 0" by simp
      then have "unat num < unat base" using b(1) by (simp add: unat_div div_eq_0_iff)
      then have "num mod base = num" by (simp add: mod_less word_unat_eq_iff unat_mod)
      moreover have "digits_from 0 base = Some []" by (simp add: digits_from.simps)
      ultimately show ?thesis using True ds(1) False digit_zero [OF m(2)] by (simp add: unat_eq_0)
    next
      case False
      then show ?thesis using ds(4) by simp
    qed
    ultimately show ?thesis using ds(2) by auto
  qed
qed

text \<open>
  C36: Printing a number. For every 64-bit number in base 10 and 16 the loop ends, the digits fit the
  32 bytes of the buffer (at most 20 and 16), and what is printed is the numeral of the number in
  that base without leading zeroes.
\<close>

theorem print_unsigned_correct:
  assumes "base = 10 \<or> base = 16"
  shows "\<exists>cs. print_unsigned num base = Some (map Char cs) \<and> numeral_value (unat base) cs = unat num \<and>
    length cs \<le> (if base = 10 then 20 else 16) \<and> cs \<noteq> [] \<and> (hd cs = 0x30 \<longrightarrow> cs = [0x30])"
proof -
  define k :: nat where "k = (if base = 10 then 20 else 16)"
  have b: "2 \<le> base" "base \<le> 16" "unat num < unat base ^ k"
    using assms unat64_less [of num] by (auto simp: k_def)
  from digits_from_value [OF this] obtain ds where ds: "digits_from num base = Some ds" "length ds \<le> k"
    "numeral_value (unat base) (rev ds) = unat num" "num \<noteq> 0 \<longrightarrow> ds \<noteq> [] \<and> last ds \<noteq> 0x30" by blast
  show ?thesis
  proof (cases "num = 0")
    case True
    have "numeral_value (unat base) [0x30] = 0"
      using digit_value_nth [of 0] by (simp add: numeral_value_def digit_chars_def)
    then show ?thesis using True by (intro exI [of _ "[0x30]"]) (simp add: print_unsigned_def)
  next
    case False
    then show ?thesis
      using ds by (intro exI [of _ "rev ds"]) (auto simp: print_unsigned_def hd_rev k_def)
  qed
qed

theorem print_unsigned_correct_witness:
  "\<exists>cs. print_unsigned 0xFFFFFFFFFFFFFFFF 10 = Some (map Char cs) \<and> numeral_value 10 cs = 18446744073709551615 \<and>
    length cs \<le> 20"
  using print_unsigned_correct [of 10 "0xFFFFFFFFFFFFFFFF"] by auto

end
