(* ===== verification/Syscalls.thy ===== *)
theory Syscalls
  imports Process_Syscalls Keyboard Stdio
begin

text \<open>
  The system call table and its dispatcher (\<open>multitask/syscalls.c\<close>), the timer (\<open>drivers/pit.c\<close>), and
  the start of multitasking. A table entry names the C function that is registered.
\<close>

section \<open>The table\<close>

definition NUM_SYSCALLS :: nat where "NUM_SYSCALLS = 256"
definition SYSCALL_ISR_VECTOR :: int where "SYSCALL_ISR_VECTOR = 128"

definition SYS_YIELD_NUM :: int where "SYS_YIELD_NUM = 0"
definition SYS_EXIT_NUM :: int where "SYS_EXIT_NUM = 1"
definition SYS_GETC_NUM :: int where "SYS_GETC_NUM = 2"
definition SYS_PUTC_NUM :: int where "SYS_PUTC_NUM = 3"
definition SYS_WAIT_NUM :: int where "SYS_WAIT_NUM = 4"
definition SYS_EXEC_NUM :: int where "SYS_EXEC_NUM = 5"
definition SYS_FORK_NUM :: int where "SYS_FORK_NUM = 6"
definition SYS_CLONE_NUM :: int where "SYS_CLONE_NUM = 7"
definition SYS_GETPID_NUM :: int where "SYS_GETPID_NUM = 8"
definition SYS_GETTID_NUM :: int where "SYS_GETTID_NUM = 9"
definition SYS_THREAD_EXIT_NUM :: int where "SYS_THREAD_EXIT_NUM = 10"
definition SYS_THREAD_JOIN_NUM :: int where "SYS_THREAD_JOIN_NUM = 11"
definition SYS_MUTEX_CREATE_NUM :: int where "SYS_MUTEX_CREATE_NUM = 12"
definition SYS_MUTEX_LOCK_NUM :: int where "SYS_MUTEX_LOCK_NUM = 13"
definition SYS_MUTEX_UNLOCK_NUM :: int where "SYS_MUTEX_UNLOCK_NUM = 14"
definition SYS_MUTEX_DESTROY_NUM :: int where "SYS_MUTEX_DESTROY_NUM = 15"

datatype sys_t = Sys_getc | Sys_putc | Syscall_yield | Syscall_exit | Syscall_wait | Syscall_exec
  | Syscall_fork | Syscall_clone | Syscall_getpid | Syscall_gettid | Syscall_thread_exit
  | Syscall_thread_join | Syscall_mutex_create | Syscall_mutex_lock | Syscall_mutex_unlock
  | Syscall_mutex_destroy

record sys_st = kbd_sys +
  syscall_table :: "sys_t option list"
  con :: console

definition register_syscall :: "int \<Rightarrow> sys_t \<Rightarrow> 'a sys_st_scheme \<Rightarrow> 'a sys_st_scheme" where
  "register_syscall sys_num handler k =
     (if sys_num < 0 \<or> sys_num \<ge> int NUM_SYSCALLS \<or> syscall_table k ! nat sys_num \<noteq> None then k
      else k\<lparr>syscall_table := (syscall_table k)[nat sys_num := Some handler]\<rparr>)"

definition syscall_init :: "'a sys_st_scheme \<Rightarrow> 'a sys_st_scheme" where
  "syscall_init k =
     (let k = on_mm (register_interrupt SYSCALL_ISR_VECTOR 0 TYPE_INTRGATE 3 ISR128_syscall NULL) k;
          k = register_syscall SYS_GETC_NUM Sys_getc k
      in register_syscall SYS_PUTC_NUM Sys_putc k)"

definition PROC_register_syscalls :: "'a sys_st_scheme \<Rightarrow> 'a sys_st_scheme" where
  "PROC_register_syscalls k =
     (let k = register_syscall SYS_YIELD_NUM Syscall_yield k;
          k = register_syscall SYS_EXIT_NUM Syscall_exit k;
          k = register_syscall SYS_WAIT_NUM Syscall_wait k;
          k = register_syscall SYS_EXEC_NUM Syscall_exec k;
          k = register_syscall SYS_FORK_NUM Syscall_fork k;
          k = register_syscall SYS_CLONE_NUM Syscall_clone k;
          k = register_syscall SYS_GETPID_NUM Syscall_getpid k;
          k = register_syscall SYS_GETTID_NUM Syscall_gettid k;
          k = register_syscall SYS_THREAD_EXIT_NUM Syscall_thread_exit k
      in register_syscall SYS_THREAD_JOIN_NUM Syscall_thread_join k)"

definition MUTEX_register_syscalls :: "'a sys_st_scheme \<Rightarrow> 'a sys_st_scheme" where
  "MUTEX_register_syscalls k =
     (let k = register_syscall SYS_MUTEX_CREATE_NUM Syscall_mutex_create k;
          k = register_syscall SYS_MUTEX_LOCK_NUM Syscall_mutex_lock k;
          k = register_syscall SYS_MUTEX_UNLOCK_NUM Syscall_mutex_unlock k
      in register_syscall SYS_MUTEX_DESTROY_NUM Syscall_mutex_destroy k)"

text \<open>The scheduler is fixed to \<open>round_robin\<close> in the model, which is what the assignment does.\<close>

definition multitask_init :: "'a sys_st_scheme \<Rightarrow> 'a sys_st_scheme" where
  "multitask_init k = MUTEX_register_syscalls (PROC_register_syscalls k)"

section \<open>Dispatch\<close>

definition sys_getc :: "ptr \<Rightarrow> 'a sys_st_scheme \<Rightarrow> (sys_result \<times> 'a sys_st_scheme) option" where
  "sys_getc sp k = keyboard_getchar sp k"

text \<open>What the devices contribute to a call: the left-over flag and line status of the console.\<close>

definition sys_putc :: "bool \<Rightarrow> u8 \<Rightarrow> ptr \<Rightarrow> 'a sys_st_scheme \<Rightarrow> (sys_result \<times> 'a sys_st_scheme) option" where
  "sys_putc uninit lsr frame k = do {
     r \<leftarrow> printk (\<lambda>_ _. uninit) (\<lambda>_ _. lsr) [0x25, 0x63] [V_int (ucast (ucast (get_reg frame F_rdi k) :: u8))] (mm k, con k);
     case r of
       Inl _ \<Rightarrow> None
     | Inr (_, m, c) \<Rightarrow> Some (Ret 0, k\<lparr>mm := m, con := c\<rparr>)
   }"

text \<open>
  The arguments of a handler besides its frame: the loader and the address of the name buffer of
  \<open>exec\<close>, the console inputs, and the place of the frame a blocking call pushes.
\<close>

record 'k sys_env =
  env_load :: "ptr \<Rightarrow> u8 list \<Rightarrow> 'k \<Rightarrow> (int \<times> elf_image \<times> 'k) option"
  env_dst :: ptr
  env_uninit :: bool
  env_lsr :: u8
  env_sp :: ptr

fun run_handler ::
    "'a sys_st_scheme sys_env \<Rightarrow> sys_t \<Rightarrow> ptr \<Rightarrow> 'a sys_st_scheme \<Rightarrow> (sys_result \<times> 'a sys_st_scheme) option" where
  "run_handler e Sys_getc frame k = sys_getc (env_sp e) k"
| "run_handler e Sys_putc frame k = sys_putc (env_uninit e) (env_lsr e) frame k"
| "run_handler e Syscall_yield frame k = syscall_yield k"
| "run_handler e Syscall_exit frame k = syscall_exit frame k"
| "run_handler e Syscall_wait frame k = syscall_wait frame (env_sp e) k"
| "run_handler e Syscall_exec frame k = syscall_exec (env_load e) (env_dst e) frame k"
| "run_handler e Syscall_fork frame k = syscall_fork frame k"
| "run_handler e Syscall_clone frame k = syscall_clone frame k"
| "run_handler e Syscall_getpid frame k = syscall_getpid k"
| "run_handler e Syscall_gettid frame k = syscall_gettid k"
| "run_handler e Syscall_thread_exit frame k = syscall_thread_exit frame k"
| "run_handler e Syscall_thread_join frame k = syscall_thread_join frame (env_sp e) k"
| "run_handler e Syscall_mutex_create frame k = syscall_mutex_create k"
| "run_handler e Syscall_mutex_lock frame k = syscall_mutex_lock frame (env_sp e) k"
| "run_handler e Syscall_mutex_unlock frame k = syscall_mutex_unlock frame k"
| "run_handler e Syscall_mutex_destroy frame k = syscall_mutex_destroy frame k"

text \<open>What a thread that blocked inside a handler does when it runs again.\<close>

fun resume_handler ::
    "'a sys_st_scheme sys_env \<Rightarrow> resume \<Rightarrow> 'a sys_st_scheme \<Rightarrow> (sys_result \<times> 'a sys_st_scheme) option" where
  "resume_handler e (In_wait par frame) k = wait_round par frame (env_sp e) k"
| "resume_handler e (In_thread_join own t status_ptr) k = join_round own t status_ptr (env_sp e) k"
| "resume_handler e (In_mutex_lock i mutex) k = mutex_lock_resume i mutex (env_sp e) k"
| "resume_handler e In_getchar k = getchar_round (env_sp e) k"

text \<open>The return value goes into the frame; a blocked call has not returned yet.\<close>

definition store_result :: "ptr \<Rightarrow> sys_result \<times> 'a sys_st_scheme \<Rightarrow> resume option \<times> 'a sys_st_scheme" where
  "store_result frame = (\<lambda>(r, k). case r of Ret v \<Rightarrow> (None, set_reg frame F_rax v k) | Blocked c \<Rightarrow> (Some c, k))"

text \<open>A number without a handler halts; interrupts are off behind an interrupt gate, so for good.\<close>

definition ISR128_run ::
    "'a sys_st_scheme sys_env \<Rightarrow> int \<Rightarrow> int \<Rightarrow> ptr \<Rightarrow> 'a sys_st_scheme \<Rightarrow> (resume option \<times> 'a sys_st_scheme) option" where
  "ISR128_run e vector err frame k =
     (let sys_num = get_reg frame F_rax k
      in if vector \<noteq> SYSCALL_ISR_VECTOR \<or> err \<noteq> 0 then Some (None, k)
         else if sys_num < of_nat NUM_SYSCALLS \<and> syscall_table k ! unat sys_num \<noteq> None
         then map_option (store_result frame) (run_handler e (the (syscall_table k ! unat sys_num)) frame k)
         else None)"

section \<open>The timer\<close>

definition PIT_DIVISOR :: u16 where "PIT_DIVISOR = 11932"
definition MODE_PORT :: u16 where "MODE_PORT = 0x43"
definition CHAN0_PORT :: u16 where "CHAN0_PORT = 0x40"

text \<open>\<open>pout\<close> is \<open>outb\<close> to the timer's ports, the hardware an argument.\<close>

definition pit_init :: "'d port_out \<Rightarrow> 'd \<Rightarrow> 'a kernel_st_scheme \<Rightarrow> 'd \<times> 'a kernel_st_scheme" where
  "pit_init pout d k =
     (let enable = are_interrupts_enabled (mm k);
          k = on_mm CLI k;
          d = pout MODE_PORT 0x34 d;
          d = pout CHAN0_PORT (ucast (PIT_DIVISOR AND 0xFF)) d;
          d = pout CHAN0_PORT (ucast (drop_bit 8 (PIT_DIVISOR AND 0xFF00))) d;
          k = on_mm (register_interrupt 32 0 TYPE_INTRGATE 0 ISR32_pit NULL) k
      in (d, on_mm (irq_restore enable) k))"

definition ISR32_pit_run :: "'a kernel_st_scheme \<Rightarrow> 'a kernel_st_scheme" where
  "ISR32_pit_run k = PROC_reschedule k"

section \<open>Which handler serves a number\<close>

text \<open>The handlers in the order of their numbers, as the header file numbers them.\<close>

definition handlers :: "sys_t list" where
  "handlers = [Syscall_yield, Syscall_exit, Sys_getc, Sys_putc, Syscall_wait, Syscall_exec, Syscall_fork, Syscall_clone,
     Syscall_getpid, Syscall_gettid, Syscall_thread_exit, Syscall_thread_join, Syscall_mutex_create, Syscall_mutex_lock,
     Syscall_mutex_unlock, Syscall_mutex_destroy]"

lemmas sys_nums = SYS_YIELD_NUM_def SYS_EXIT_NUM_def SYS_GETC_NUM_def SYS_PUTC_NUM_def SYS_WAIT_NUM_def SYS_EXEC_NUM_def
  SYS_FORK_NUM_def SYS_CLONE_NUM_def SYS_GETPID_NUM_def SYS_GETTID_NUM_def SYS_THREAD_EXIT_NUM_def SYS_THREAD_JOIN_NUM_def
  SYS_MUTEX_CREATE_NUM_def SYS_MUTEX_LOCK_NUM_def SYS_MUTEX_UNLOCK_NUM_def SYS_MUTEX_DESTROY_NUM_def

text \<open>What a registration does to the table.\<close>

definition enter :: "int \<Rightarrow> sys_t \<Rightarrow> sys_t option list \<Rightarrow> sys_t option list" where
  "enter i h t = (if i < 0 \<or> i \<ge> 256 \<or> t ! nat i \<noteq> None then t else t[nat i := Some h])"

lemma table_register: "syscall_table (register_syscall i h k) = enter i h (syscall_table k)"
  by (simp add: register_syscall_def enter_def NUM_SYSCALLS_def)

lemma enter_free: "0 \<le> i \<Longrightarrow> i < 256 \<Longrightarrow> t ! nat i = None \<Longrightarrow> enter i h t = t[nat i := Some h]"
  by (simp add: enter_def)

lemma table_on_mm [simp]: "syscall_table (on_mm f k) = syscall_table k"
  by (simp add: on_mm_def)

lemma boot_table:
  assumes "syscall_table k = replicate 256 None"
  shows "syscall_table (multitask_init (syscall_init k)) = map Some handlers @ replicate 240 None"
proof -
  have "replicate 256 (None :: sys_t option) = replicate 16 None @ replicate 240 None" by (simp flip: replicate_add)
  moreover have "replicate 16 (None :: sys_t option) = [None, None, None, None, None, None, None, None, None, None, None, None, None, None, None, None]"
    by (simp add: numeral_eq_Suc)
  moreover define ys where "ys = replicate 240 (None :: sys_t option)"
  ultimately show ?thesis
    using assms
    unfolding multitask_init_def syscall_init_def PROC_register_syscalls_def MUTEX_register_syscalls_def Let_def sys_nums ys_def [symmetric]
    by (simp add: table_register enter_free handlers_def)
qed

text \<open>
  C29: Once both tables of handlers are registered at boot, a system call runs exactly the handler that the
  header file numbers and stores its result in the caller's register; a call that blocks stores
  nothing. Every other number stops the machine.
\<close>

theorem dispatch_correct:
  assumes "syscall_table k0 = replicate 256 None" "syscall_table k = syscall_table (multitask_init (syscall_init k0))"
  shows "ISR128_run e 128 0 frame k =
    (let n = unat (get_reg frame F_rax k) in
     if n < length handlers
     then do {
       (r, k') \<leftarrow> run_handler e (handlers ! n) frame k;
       Some (case r of Ret v \<Rightarrow> (None, set_reg frame F_rax v k') | Blocked c \<Rightarrow> (Some c, k'))
     }
     else None)"
proof -
  have len: "length handlers = 16" by (simp add: handlers_def)
  have t: "syscall_table k ! n = (if n < 16 then Some (handlers ! n) else None)" if "n < 256" for n
    using that len by (simp add: assms(2) boot_table [OF assms(1)] nth_append)
  have "get_reg frame F_rax k < of_nat NUM_SYSCALLS \<longleftrightarrow> unat (get_reg frame F_rax k) < 256"
    by (simp add: word_less_nat_alt NUM_SYSCALLS_def)
  then show ?thesis
    using t [of "unat (get_reg frame F_rax k)"] len
    by (auto simp: ISR128_run_def Let_def SYSCALL_ISR_VECTOR_def store_result_def map_option_case split: option.splits prod.splits)
qed

section \<open>A concrete call\<close>

definition sys_example :: sys_st where
  "sys_example = kbd_sys.extend kbd_example (sys_st.fields (replicate 256 None)
     \<lparr>con_vga = vga_start (replicate 2000 0),
      con_ser = \<lparr>ser_active = False, ser_st = \<lparr>bb_buf = [], bb_size = 0, bb_head = 0, bb_tail = 0\<rparr>, ser_out = []\<rparr>\<rparr>)"

text \<open>After boot, with the number of \<open>getpid\<close> in the frame at 0x9000.\<close>

definition getpid_call :: sys_st where
  "getpid_call = set_reg 0x9000 F_rax 8 (sys_example\<lparr>syscall_table := syscall_table (multitask_init (syscall_init sys_example))\<rparr>)"

definition example_env :: "sys_st sys_env" where
  "example_env = \<lparr>env_load = (\<lambda>_ _ k. Some (-1, \<lparr>img_cr3 = 0, img_entry = 0, ustack_base = 0, ustack_top = 0\<rparr>, k)),
     env_dst = 0xA000, env_uninit = False, env_lsr = 0x20, env_sp = 0xB000\<rparr>"

theorem dispatch_correct_witness:
  "\<exists>k'. ISR128_run example_env 128 0 0x9000 getpid_call = Some (None, k') \<and> get_reg 0x9000 F_rax k' = 1"
proof -
  have t: "syscall_table sys_example = replicate 256 None" by (simp add: sys_example_def kbd_sys.defs sys_st.defs)
  have p: "get_reg 0x9000 F_rax getpid_call = 8" "syscall_getpid getpid_call = Some (Ret 1, getpid_call)"
    by (simp_all add: getpid_call_def get_reg_def set_reg_def on_mm_def syscall_getpid_def no_process_def sys_example_def kbd_sys.defs sys_st.defs
        kbd_example_def kernel_st.defs kernel_example_def example_thread_def)
  have "syscall_table getpid_call = syscall_table (multitask_init (syscall_init sys_example))" by (simp add: getpid_call_def set_reg_def on_mm_def)
  from dispatch_correct [OF t this, of example_env "0x9000"] show ?thesis
    using p by (simp add: handlers_def set_reg_def get_reg_def on_mm_def)
qed

end
