(* ===== verification/Mutual_Exclusion.thy ===== *)
theory Mutual_Exclusion
  imports Mutex Blocking
begin

text \<open>
  The mutexes exclude: a step relation whose steps are the system calls on mutexes, resuming a thread
  that blocked in one, and whatever else the scheduler does, with a record of which thread was told
  that it holds which mutex. Then the behaviour of locking and unlocking on every branch, and the
  end of the mutexes of a process.
\<close>

section \<open>The heap under the kernel stacks\<close>

definition in_body :: "ptr \<times> nat \<Rightarrow> ptr \<Rightarrow> bool" where
  "in_body r x \<longleftrightarrow> unat (fst r) + 16 \<le> unat x \<and> unat x < unat (fst r) + snd r"

lemma heap_live_write:
  assumes "heap_live s L" "r \<in> L" "in_body r x"
  shows "heap_live (s\<lparr>kheap := (kheap s)(x := v)\<rparr>) L"
proof -
  obtain Fs where h: "heap_ok s Fs L" using assms(1) by (auto simp: heap_live_def)
  then have hl: "heap_lists s Fs L (unat (kernel_va s))" by (simp add: heap_ok_def)
  have x: "unat x \<in> span r" using assms(3) by (simp add: in_body_def span_def)
  have apart: "unat x \<notin> span r'" if "r' \<in> free_regions Fs \<union> L" "r' \<noteq> r" for r'
    using heap_listsD(8) [OF hl] that assms(2) x by (auto simp: disjoint_family_on_def)
  have start: "unat (fst r') \<in> span r'" if "r' \<in> free_regions Fs \<union> L" for r'
    using heap_listsD(11) [OF hl that] by (simp add: span_def)
  have nf: "x \<notin> set (Fs i)" if i: "i < NUM_POOLS" for i
  proof
    assume "x \<in> set (Fs i)"
    then have f: "(x, block_size i) \<in> free_regions Fs" using i by (auto simp: free_regions_mem)
    then have "(x, block_size i) \<noteq> r" using heap_listsD(7) [OF hl] assms(2) by blast
    then show False using apart start [of "(x, block_size i)"] f by auto
  qed
  have nh: "fst r' \<noteq> x" if "r' \<in> L" for r'
    using apart [of r'] start [of r'] that assms(3) by (cases "r' = r") (auto simp: in_body_def)
  have "heap_lists (s\<lparr>kheap := (kheap s)(x := v)\<rparr>) Fs L (unat (kernel_va s))"
  proof (rule heap_listsI)
    show "llist (kheap (s\<lparr>kheap := (kheap s)(x := v)\<rparr>)) NULL (pool_head (pools (s\<lparr>kheap := (kheap s)(x := v)\<rparr>) ! i)) (Fs i)"
      if "i < NUM_POOLS" for i using heap_listsD(6) [OF hl that] nf [OF that] by simp
    show "header_ok (s\<lparr>kheap := (kheap s)(x := v)\<rparr>) r'" if "r' \<in> L" for r'
      using heap_listsD(12) [OF hl that] nh [OF that] by (simp add: header_ok_def pool_ptr_def)
    show "0 < unat (fst r') \<and> unat (fst r') + snd r' \<le> unat (kernel_va s) \<and> 32 \<le> snd r'"
      if "r' \<in> free_regions Fs \<union> L" for r' using heap_listsD(9-11) [OF hl that] by simp
  qed (use heap_listsD [OF hl] in simp_all)
  then show ?thesis using h by (auto simp: heap_live_def heap_ok_def)
qed

text \<open>The part of memory management the heap consists of.\<close>

definition heap_of :: "'a kmem_st_scheme \<Rightarrow> _" where
  "heap_of s = (pools s, pools_at s, kernel_va s, kheap s)"

lemma heap_live_cong: "heap_of s' = heap_of s \<Longrightarrow> heap_live s' L = heap_live s L"
  by (simp add: heap_of_def heap_live_def heap_ok_def heap_lists_def header_ok_def pool_ptr_def)

lemma heap_of_irq [simp]: "heap_of (CLI s) = heap_of s" "heap_of (STI s) = heap_of s" "heap_of (irq_restore b s) = heap_of s"
  by (simp_all add: heap_of_def CLI_def STI_def irq_restore_def)

lemma heap_live_apart:
  assumes "heap_live s L" "(a, n) \<in> L" "(a, n') \<in> L"
  shows "n = n'"
proof -
  obtain Fs where "heap_lists s Fs L (unat (kernel_va s))" using assms(1) by (auto simp: heap_live_def heap_ok_def)
  from heap_listsD(11) [OF this] have "32 \<le> n" "32 \<le> n'" using assms by fastforce+
  then have "unat a \<in> span (a, n) \<inter> span (a, n')" by (simp add: span_def)
  then show ?thesis using kh.ok_disjoint [OF assms] by auto
qed

section \<open>What switching threads leaves alone\<close>

lemma core_choose: "core (snd (choose_next k)) = core k"
proof -
  obtain c k1 where 1: "sched_next k = (c, k1)" by fastforce
  then have "core k1 = core k" "core (snd (sched_next k1)) = core k" using core_next [of k] core_next [of k1] by auto
  then show ?thesis using 1 by (simp add: choose_next_def)
qed

lemma core_reschedule: "core (PROC_reschedule k) = core (k\<lparr>next_proc := next_proc (PROC_reschedule k)\<rparr>)"
proof -
  obtain c k1 where 1: "choose_next k = (c, k1)" by fastforce
  then have "core k1 = core k" using core_choose [of k] by simp
  then show ?thesis using 1 by (simp add: reschedule_eq core_next_proc Let_def)
qed

lemma rr_remove_cpu: "rr_remove p (c, s) = Some (c', s') \<Longrightarrow> \<not> halted c' \<Longrightarrow> c' = c"
  by (cases c) (auto simp: rr_remove_def Let_def HLT_def CLI_def STI_def irq_restore_def are_interrupts_enabled_def
      split: if_splits option.splits)

lemma core_remove: "PROC_remove p k = Some k' \<Longrightarrow> core k' = core k"
proof -
  assume "PROC_remove p k = Some k'"
  then obtain c s where r: "rr_remove p (mm k, k) = Some (c, s)" "\<not> halted c" "k' = s\<lparr>mm := c\<rparr>"
    by (auto simp: PROC_remove_def bind_eq_Some_conv split: if_splits)
  then have s: "c = mm k" "sched_only k s" using rr_remove_cpu rr_remove_frame by blast+
  then have m: "mm s = mm k" using kernel_more(1) [of s k] by (simp add: sched_only_def)
  have "k' = s" unfolding r(3) s(1) m [symmetric] by (cases s) simp
  then show ?thesis using core_sched_only [OF s(2)] by simp
qed

text \<open>Giving up the processor writes one word, the saved flags on the stack of the thread.\<close>

definition stack_write :: "ptr \<Rightarrow> 'a kernel_st_scheme \<Rightarrow> 'a kernel_st_scheme \<Rightarrow> bool" where
  "stack_write sp k k' \<longleftrightarrow> bare k' = bare k \<and>
     (\<exists>v. heap_of (mm k') = heap_of ((mm k)\<lparr>kheap := (kheap (mm k))(frame_flags sp := v)\<rparr>))"

lemma heap_switch: "heap_of (mm (context_switch sp k)) = heap_of (mm k)"
  by (simp add: context_switch_def switch_mmu_and_tss_def Let_def on_mm_def sett_def heap_of_def MMU_switch_p4_def)

lemma yield_stack: "stack_write sp k (yield sp k)"
proof -
  define f :: "kmem_st \<Rightarrow> kmem_st" where "f = (\<lambda>m. CLI (m\<lparr>kheap := (kheap m)(frame_flags sp := (if IF_flag (mm k) then 0x202 else 0x002))\<rparr>))"
  have y: "yield sp k = context_switch sp (PROC_reschedule (on_mm f k))" by (simp add: yield_def Let_def f_def)
  note c = core_reschedule [of "on_mm f k"]
  have "bare (PROC_reschedule (on_mm f k)) = bare (on_mm f k)" using bare_core [OF c] by simp
  moreover have "bare (on_mm f k) = bare k" by (simp add: bare_mm f_def CLI_def)
  moreover have "mm (PROC_reschedule (on_mm f k)) = f (mm k)" using coreD(1) [OF c] by (simp add: on_mm_def)
  then have "heap_of (mm (yield sp k)) = heap_of (f (mm k))" unfolding y heap_switch by simp
  ultimately show ?thesis unfolding stack_write_def y context_switch_frame(1) by (auto simp: f_def)
qed

lemma block_on_stack:
  assumes "PROC_block_on q e sp k = Some k'"
  shows "k' = k \<or> stack_write sp k k'"
proof (cases "q = Q_NULL")
  case True
  then show ?thesis using assms by (simp add: PROC_block_on_def)
next
  case False
  then obtain k1 where k1: "PROC_remove (curr_proc k) (sett (curr_proc k) (\<lambda>t. t\<lparr>run_state := PROC_BLOCKED\<rparr>) k) = Some k1"
    "k' = yield sp (if e then on_mm STI (enqueue q (curr_proc k1) k1) else enqueue q (curr_proc k1) k1)"
    using assms by (auto simp: PROC_block_on_def bind_eq_Some_conv Let_def)
  let ?k2 = "enqueue q (curr_proc k1) k1"
  let ?k3 = "if e then on_mm STI ?k2 else ?k2"
  have c: "core ?k2 = core k" using core_remove [OF k1(1)] by simp
  have "bare ?k3 = bare k" using bare_core [OF c] by (simp add: bare_mm STI_def)
  moreover have "heap_of ((mm ?k3)\<lparr>kheap := (kheap (mm ?k3))(a := v)\<rparr>) = heap_of ((mm k)\<lparr>kheap := (kheap (mm k))(a := v)\<rparr>)" for a v
    using coreD(1) [OF c] by (simp add: on_mm_def heap_of_def STI_def)
  ultimately show ?thesis using yield_stack [of sp ?k3] k1(2) by (simp add: stack_write_def)
qed

section \<open>The list of mutexes\<close>

definition mutex_named :: "ptr \<Rightarrow> u64 \<Rightarrow> 'a kernel_st_scheme \<Rightarrow> ptr list \<Rightarrow> ptr" where
  "mutex_named own i k ms =
     (case find (\<lambda>m. m_id (mtx k m) = i \<and> owner_process (mtx k m) = own) ms of Some m \<Rightarrow> m | None \<Rightarrow> NULL)"

definition mutexes :: "'a kernel_st_scheme \<Rightarrow> ptr list \<Rightarrow> bool" where
  "mutexes k ms \<longleftrightarrow> llist (mutex_links k) NULL (mutex_list k) ms"

lemma mutexesD: "mutexes k ms \<Longrightarrow> distinct ms" "mutexes k ms \<Longrightarrow> NULL \<notin> set ms"
  unfolding mutexes_def by (rule llist_distinct) (auto simp: llist_def)

lemma mutexes_same:
  "(\<And>m. m_next (mtx k' m) = m_next (mtx k m)) \<Longrightarrow> mutex_list k' = mutex_list k \<Longrightarrow> mutexes k' ms = mutexes k ms"
  by (simp add: mutexes_def mutex_links_def)

lemma find_mutex_named: "mutexes k ms \<Longrightarrow> find_mutex own i k = Some (mutex_named own i k ms)"
  by (simp add: mutexes_def find_mutex_def list_find_list mutex_named_def option.case_eq_if)

lemma mutex_named_in:
  assumes "mutex_named own i k ms \<noteq> NULL"
  shows "mutex_named own i k ms \<in> set ms" "m_id (mtx k (mutex_named own i k ms)) = i"
    "owner_process (mtx k (mutex_named own i k ms)) = own"
  using assms by (auto simp: mutex_named_def dest!: find_split split: option.splits)

lemma setm_fields [simp]:
  "mtx (setm m f k) = (mtx k)(m := f (mtx k m))" "thr (setm m f k) = thr k" "mm (setm m f k) = mm k"
  "mutex_list (setm m f k) = mutex_list k" "curr_proc (setm m f k) = curr_proc k" "prc (setm m f k) = prc k"
  "next_mutex_id (setm m f k) = next_mutex_id k"
  by (simp_all add: setm_def)

lemma on_mm_fields [simp]:
  "mtx (on_mm g k) = mtx k" "thr (on_mm g k) = thr k" "mm (on_mm g k) = g (mm k)" "prc (on_mm g k) = prc k"
  "mutex_list (on_mm g k) = mutex_list k" "curr_proc (on_mm g k) = curr_proc k" "next_mutex_id (on_mm g k) = next_mutex_id k"
  by (simp_all add: on_mm_def)

lemma mutexes_mm [simp]: "mutexes (on_mm g k) ms = mutexes k ms" "mutex_named own i (on_mm g k) ms = mutex_named own i k ms"
  by (simp_all add: mutexes_def mutex_links_def mutex_named_def)

lemma mutexes_owner: "mutexes (setm m (\<lambda>x. x\<lparr>owner_thread := t\<rparr>) k) ms = mutexes k ms"
  by (rule mutexes_same) simp_all

text \<open>Taking a mutex out of the list.\<close>

lemma unlink_mutex_list:
  assumes "mutexes k ms" "m \<in> set ms"
  shows "\<exists>k'. unlink_mutex m k = Some k' \<and> mutexes k' (removeAll m ms) \<and> same_places k k' \<and> mm k' = mm k \<and>
    thr k' = thr k \<and> prc k' = prc k \<and> curr_proc k' = curr_proc k \<and>
    (\<forall>m'. \<exists>n. mtx k' m' = (mtx k m')\<lparr>m_next := n\<rparr>)"
proof -
  obtain as bs where ms: "ms = as @ m # bs" using split_list [OF assms(2)] by blast
  have d: "distinct ms" and n: "NULL \<notin> set ms" using mutexesD assms(1) by blast+
  have rm: "removeAll m ms = as @ bs" using d ms by (simp add: removeAll_id)
  have p: "list_prev (mutex_links k) NULL m NULL (mutex_list k) = Some (Some (last (NULL # as)))"
    using assms(1) d by (simp add: mutexes_def ms list_prev_list pred_in_append)
  let ?nx = "m_next (mtx k m)"
  show ?thesis
  proof (cases as rule: rev_cases)
    case Nil
    let ?k = "setm m (\<lambda>x. x\<lparr>m_next := NULL\<rparr>) (k\<lparr>mutex_list := ?nx\<rparr>)"
    have "llist ((mutex_links k)(m := NULL)) NULL (mutex_links k m) bs"
      using assms(1) ms Nil by (intro llist_unlink_first [where x = "mutex_list k"]) (simp add: mutexes_def)
    moreover have "mutex_links ?k = (mutex_links k)(m := NULL)" by (auto simp: mutex_links_def)
    ultimately have "mutexes ?k (removeAll m ms)" using rm Nil by (simp add: mutexes_def mutex_links_def)
    moreover have "same_places k ?k" by (rule same_places_trans [OF same_places_vars(3) same_places_setm]) simp
    moreover have "\<exists>n. mtx ?k m' = (mtx k m')\<lparr>m_next := n\<rparr>" for m'
      by (cases "m' = m") (auto intro: exI [of _ "m_next (mtx k m')"])
    ultimately show ?thesis using p Nil by (intro exI [of _ ?k]) (simp add: unlink_mutex_def Let_def)
  next
    case (snoc as' b)
    then have b: "b \<noteq> m" "b \<noteq> NULL" using d n ms by auto
    let ?k = "setm m (\<lambda>x. x\<lparr>m_next := NULL\<rparr>) (setm b (\<lambda>x. x\<lparr>m_next := ?nx\<rparr>) k)"
    have "mutex_links ?k = ((mutex_links k)(b := mutex_links k m))(m := NULL)" using b by (auto simp: mutex_links_def)
    moreover have "llist (((mutex_links k)(b := mutex_links k m))(m := NULL)) NULL (mutex_list k) (as' @ b # bs)"
      using assms(1) ms snoc by (intro llist_unlink) (simp add: mutexes_def)
    ultimately have "mutexes ?k (removeAll m ms)" using rm snoc by (simp add: mutexes_def)
    moreover have "same_places k ?k" by (rule same_places_trans [OF same_places_setm same_places_setm]) simp_all
    moreover have "\<exists>n. mtx ?k m' = (mtx k m')\<lparr>m_next := n\<rparr>" for m'
      using b by (cases "m' = m"; cases "m' = b") (auto intro: exI [of _ "m_next (mtx k m')"])
    ultimately show ?thesis using p snoc b by (intro exI [of _ ?k]) (simp add: unlink_mutex_def Let_def)
  qed
qed

section \<open>Steps\<close>

text \<open>
  A run of the kernel as far as mutexes see it. \<open>pend t\<close> is where thread \<open>t\<close> blocked inside
  \<open>syscall_mutex_lock\<close>, and \<open>held\<close> the pairs of a thread and a mutex such that a call of
  \<open>syscall_mutex_lock\<close> by the thread for the mutex returned 0 and none of \<open>syscall_mutex_unlock\<close> has
  since. \<open>S\<close> are the kernel stacks, which are blocks of the heap. Besides the system calls on
  mutexes, threads give up the processor, block and are woken in any order.
\<close>

type_synonym 'a mutex_run = "'a kernel_st_scheme \<times> (ptr \<rightharpoonup> u64 \<times> ptr) \<times> (ptr \<times> ptr) set"

definition on_stack :: "(ptr \<times> nat) set \<Rightarrow> ptr \<Rightarrow> bool" where
  "on_stack S sp \<longleftrightarrow> (\<exists>r \<in> S. in_body r (frame_flags sp))"

definition requested :: "u64 \<Rightarrow> 'a kernel_st_scheme \<Rightarrow> ptr" where
  "requested i k = (case find_mutex (owner (thr k (curr_proc k))) i k of Some m \<Rightarrow> m | None \<Rightarrow> NULL)"

fun told :: "ptr \<Rightarrow> ptr \<Rightarrow> sys_result \<Rightarrow> (ptr \<rightharpoonup> u64 \<times> ptr) \<times> (ptr \<times> ptr) set \<Rightarrow> (ptr \<rightharpoonup> u64 \<times> ptr) \<times> (ptr \<times> ptr) set" where
  "told c m (Ret v) (pend, held) = (pend(c := None), if v = 0 then insert (c, m) held else held)"
| "told c m (Blocked (In_mutex_lock i m')) (pend, held) = (pend(c \<mapsto> (i, m')), held)"
| "told c m (Blocked _) w = w"

inductive mutex_step :: "(ptr \<times> nat) set \<Rightarrow> 'a mutex_run \<Rightarrow> 'a mutex_run \<Rightarrow> bool" for S where
  create: "pend (curr_proc k) = None \<Longrightarrow> room sizeof_kernel_mutex_st (mm k) \<Longrightarrow>
     syscall_mutex_create k = Some (res, k') \<Longrightarrow> mutex_step S (k, pend, held) (k', pend, held)"
| destroy: "pend (curr_proc k) = None \<Longrightarrow> syscall_mutex_destroy frame k = Some (res, k') \<Longrightarrow>
     mutex_step S (k, pend, held) (k', pend, held)"
| lock: "pend (curr_proc k) = None \<Longrightarrow> on_stack S sp \<Longrightarrow> syscall_mutex_lock frame sp k = Some (res, k') \<Longrightarrow>
     mutex_step S (k, pend, held) (k', told (curr_proc k) (requested (get_reg frame F_rdi k) k) res (pend, held))"
| resume: "pend (curr_proc k) = Some (i, m) \<Longrightarrow> on_stack S sp \<Longrightarrow> mutex_lock_resume i m sp k = Some (res, k') \<Longrightarrow>
     mutex_step S (k, pend, held)
       (k', told (curr_proc k) (if owner_thread (mtx k m) = curr_proc k then m else requested i k) res (pend, held))"
| unlock: "pend (curr_proc k) = None \<Longrightarrow> syscall_mutex_unlock frame k = Some (res, k') \<Longrightarrow>
     mutex_step S (k, pend, held)
       (k', pend, if res = Ret 0 then held - {(curr_proc k, requested (get_reg frame F_rdi k) k)} else held)"
| yield: "on_stack S sp \<Longrightarrow> mutex_step S (k, pend, held) (yield sp k, pend, held)"
| block: "on_stack S sp \<Longrightarrow> PROC_block_on q e sp k = Some k' \<Longrightarrow> mutex_step S (k, pend, held) (k', pend, held)"
| wake: "PROC_unblock_one q k = Some (p, k') \<Longrightarrow> mutex_step S (k, pend, held) (k', pend, held)"

text \<open>
  The invariant: the mutexes are live blocks of the heap apart from the stacks, and whoever was told
  that it holds a mutex is its owner.
\<close>

definition mutex_inv :: "(ptr \<times> nat) set \<Rightarrow> 'a mutex_run \<Rightarrow> bool" where
  "mutex_inv S = (\<lambda>(k, pend, held). \<exists>ms L. mutexes k ms \<and> heap_live (mm k) L \<and> S \<subseteq> L \<and>
     (\<forall>m \<in> set ms. \<exists>n. (m - 16, n) \<in> L - S) \<and>
     (\<forall>(t, m) \<in> held. m \<in> set ms \<and> owner_thread (mtx k m) = t \<and> t \<noteq> NULL) \<and>
     (\<forall>t i m. pend t = Some (i, m) \<longrightarrow> t \<noteq> NULL \<and> (m \<in> set ms \<or> owner_thread (mtx k m) = NULL)))"

lemma mutex_invI:
  assumes "mutexes k ms" "heap_live (mm k) L" "S \<subseteq> L" "\<And>m. m \<in> set ms \<Longrightarrow> \<exists>n. (m - 16, n) \<in> L - S"
    "\<And>t m. (t, m) \<in> held \<Longrightarrow> m \<in> set ms \<and> owner_thread (mtx k m) = t \<and> t \<noteq> NULL"
    "\<And>t i m. pend t = Some (i, m) \<Longrightarrow> t \<noteq> NULL \<and> (m \<in> set ms \<or> owner_thread (mtx k m) = NULL)"
  shows "mutex_inv S (k, pend, held)"
  unfolding mutex_inv_def split using assms by (intro exI [of _ ms] exI [of _ L] conjI) blast+

lemma mutex_invE:
  assumes "mutex_inv S (k, pend, held)"
  obtains ms L where "mutexes k ms" "heap_live (mm k) L" "S \<subseteq> L" "\<And>m. m \<in> set ms \<Longrightarrow> \<exists>n. (m - 16, n) \<in> L - S"
    "\<And>t m. (t, m) \<in> held \<Longrightarrow> m \<in> set ms \<and> owner_thread (mtx k m) = t \<and> t \<noteq> NULL"
    "\<And>t i m. pend t = Some (i, m) \<Longrightarrow> t \<noteq> NULL \<and> (m \<in> set ms \<or> owner_thread (mtx k m) = NULL)"
proof -
  obtain ms L where *: "mutexes k ms" "heap_live (mm k) L" "S \<subseteq> L" "\<forall>m \<in> set ms. \<exists>n. (m - 16, n) \<in> L - S"
    "\<forall>(t, m) \<in> held. m \<in> set ms \<and> owner_thread (mtx k m) = t \<and> t \<noteq> NULL"
    "\<forall>t i m. pend t = Some (i, m) \<longrightarrow> t \<noteq> NULL \<and> (m \<in> set ms \<or> owner_thread (mtx k m) = NULL)"
    using assms unfolding mutex_inv_def split by (elim exE conjE)
  show ?thesis by (rule that [OF *(1-3)]) (use *(4-6) in auto)
qed

text \<open>Most of the kernel does not touch mutexes, and writes the heap only on a stack.\<close>

definition calm :: "(ptr \<times> nat) set \<Rightarrow> 'a kernel_st_scheme \<Rightarrow> 'a kernel_st_scheme \<Rightarrow> bool" where
  "calm S k k' \<longleftrightarrow> (\<forall>m. owner_thread (mtx k' m) = owner_thread (mtx k m) \<and> m_next (mtx k' m) = m_next (mtx k m)) \<and>
     mutex_list k' = mutex_list k \<and> (\<forall>L. heap_live (mm k) L \<longrightarrow> S \<subseteq> L \<longrightarrow> heap_live (mm k') L)"

lemma calm_trans: "calm S a b \<Longrightarrow> calm S b c \<Longrightarrow> calm S a c"
  by (simp add: calm_def)

lemma calm_inv: "calm S k k' \<Longrightarrow> mutex_inv S (k, pend, held) \<Longrightarrow> mutex_inv S (k', pend, held)"
proof -
  assume c: "calm S k k'" and i: "mutex_inv S (k, pend, held)"
  from i show ?thesis
  proof (rule mutex_invE, goal_cases)
    case (1 ms L)
    have "mutexes k' ms" using 1(1) c mutexes_same [of k' k ms] by (simp add: calm_def)
    moreover have "heap_live (mm k') L" using 1(2,3) c by (simp add: calm_def)
    ultimately show ?case using 1 c by (intro mutex_invI [where ms = ms and L = L]) (auto simp: calm_def)
  qed
qed

lemma calm_mm: "heap_of (g (mm k)) = heap_of (mm k) \<Longrightarrow> calm S k (on_mm g k)"
  using heap_live_cong [of "g (mm k)" "mm k"] by (simp add: calm_def)

lemma calm_core: "core k' = core k \<Longrightarrow> calm S k k'"
  by (simp add: calm_def core_mtx [of k' k] coreD(1,6) [of k' k])

lemma calm_stack: "stack_write sp k k' \<Longrightarrow> on_stack S sp \<Longrightarrow> calm S k k'"
proof -
  assume w: "stack_write sp k k'" and o: "on_stack S sp"
  obtain v where v: "heap_of (mm k') = heap_of ((mm k)\<lparr>kheap := (kheap (mm k))(frame_flags sp := v)\<rparr>)" and b: "bare k' = bare k"
    using w by (auto simp: stack_write_def)
  have "heap_live (mm k') L" if "heap_live (mm k) L" "S \<subseteq> L" for L
    unfolding heap_live_cong [OF v] using heap_live_write [OF that(1)] o that(2) by (auto simp: on_stack_def)
  then show ?thesis using bare_mtx [OF b] bareD(1) [OF b] by (simp add: calm_def)
qed

lemma calm_block: "PROC_block_on q e sp k = Some k' \<Longrightarrow> on_stack S sp \<Longrightarrow> calm S k k'"
  using block_on_stack calm_stack by (fastforce simp: calm_def)

section \<open>Every step keeps the invariant\<close>

lemma mutexes_unique: "mutexes k ms \<Longrightarrow> mutexes k ms' \<Longrightarrow> ms' = ms"
  unfolding mutexes_def by (rule llist_unique)

lemma inv_unpend: "mutex_inv S (k, pend, held) \<Longrightarrow> mutex_inv S (k, pend(c := None), held)"
proof (erule mutex_invE, goal_cases)
  case (1 ms L)
  show ?case by (rule mutex_invI [OF 1(1-5)]) (use 1(6) in \<open>auto split: if_splits\<close>)
qed

lemma inv_pend:
  assumes "mutex_inv S (k, pend, held)" "mutexes k ms" "m \<in> set ms" "c \<noteq> NULL"
  shows "mutex_inv S (k, pend(c \<mapsto> (i, m)), held)"
  using assms(1)
proof (rule mutex_invE, goal_cases)
  case (1 ms' L)
  then have [simp]: "ms' = ms" using assms(2) mutexes_unique by blast
  show ?case using 1 assms(3,4) by (intro mutex_invI [where ms = ms and L = L]) (auto split: if_splits)
qed

lemma inv_own:
  assumes "mutex_inv S (k, pend, held)" "mutexes k ms" "m \<in> set ms" "\<And>t. (t, m) \<in> held \<Longrightarrow> t = x"
    "held' = held - {(x, m)} \<or> held' = insert (t, m) held \<and> t \<noteq> NULL \<and> owner_thread (mtx k m) = NULL"
  shows "mutex_inv S (setm m (\<lambda>x. x\<lparr>owner_thread := t\<rparr>) k, pend, held')"
  using assms(1)
proof (rule mutex_invE, goal_cases)
  case (1 ms' L)
  then have [simp]: "ms' = ms" using assms(2) mutexes_unique by blast
  show ?case
    using 1 assms(2-5) by (intro mutex_invI [where ms = ms and L = L]) (auto simp: mutexes_owner split: if_splits)
qed

lemma requested_named: "mutexes k ms \<Longrightarrow> requested i k = mutex_named (owner (thr k (curr_proc k))) i k ms"
  by (simp add: requested_def find_mutex_named)

lemma calm_irq: "calm S k (on_mm CLI k)" "calm S k (on_mm STI k)"
  by (rule calm_mm, simp)+

lemma owner_free: "mutex_inv S (k, pend, held) \<Longrightarrow> owner_thread (mtx k m) = NULL \<Longrightarrow> (t, m) \<notin> held"
  by (erule mutex_invE) blast

lemma lock_try_inv:
  assumes "mutex_inv S (k, pend, held)" "curr_proc k \<noteq> NULL" "on_stack S sp" "mutex_lock_try i sp k = Some (res, k')"
  shows "mutex_inv S (k', told (curr_proc k) (requested i k) res (pend, held))"
proof -
  obtain ms where ms: "mutexes k ms" using assms(1) by (rule mutex_invE)
  let ?c = "curr_proc k" and ?k = "on_mm CLI k"
  define m where "m = requested i k"
  have inv: "mutex_inv S (?k, pend, held)" by (rule calm_inv [OF calm_irq(1) assms(1)])
  have f: "find_mutex (owner (thr ?k ?c)) i ?k = Some m"
    using find_mutex_named [of ?k ms] ms requested_named [OF ms] by (simp add: m_def)
  have min: "m \<in> set ms" if "m \<noteq> NULL" using mutex_named_in(1) that requested_named [OF ms] by (metis m_def)
  have fail: "mutex_inv S (on_mm STI ?k, pend(?c := None), held)" by (rule inv_unpend [OF calm_inv [OF calm_irq(2) inv]])
  consider "m = NULL \<or> owner_thread (mtx k m) = ?c" | (free) "m \<noteq> NULL" "owner_thread (mtx k m) = NULL"
    | (busy) "m \<noteq> NULL" "owner_thread (mtx k m) \<noteq> NULL" "owner_thread (mtx k m) \<noteq> ?c" by blast
  then show ?thesis
  proof cases
    case 1
    then have "res = Ret (-1)" "k' = on_mm STI ?k" using assms(2,4) f by (auto simp: mutex_lock_try_def Let_def split: if_splits)
    then show ?thesis using fail by simp
  next
    case free
    then have r: "res = Ret 0" "k' = on_mm STI (setm m (\<lambda>x. x\<lparr>owner_thread := ?c\<rparr>) ?k)"
      using assms(4) f by (auto simp: mutex_lock_try_def Let_def split: if_splits)
    have "mutex_inv S (setm m (\<lambda>x. x\<lparr>owner_thread := ?c\<rparr>) ?k, pend, insert (?c, m) held)"
      using free owner_free [OF inv, of m] ms assms(2) by (intro inv_own [OF inv _ min]) auto
    then show ?thesis using calm_inv [OF calm_irq(2) inv_unpend] r unfolding m_def by simp
  next
    case busy
    then have r: "res = Blocked (In_mutex_lock i m)" "PROC_block_on (Q_mutex m) True sp ?k = Some k'"
      using assms(4) f by (auto simp: mutex_lock_try_def Let_def bind_eq_Some_conv split: if_splits)
    have i': "mutex_inv S (?k, pend(?c \<mapsto> (i, m)), held)"
      using busy ms assms(2) by (intro inv_pend [OF inv _ min]) simp_all
    show ?thesis using calm_inv [OF calm_block [OF r(2) assms(3)] i'] r by simp
  qed
qed

lemma lock_inv:
  assumes "mutex_inv S (k, pend, held)" "pend (curr_proc k) = None" "on_stack S sp" "syscall_mutex_lock frame sp k = Some (res, k')"
  shows "mutex_inv S (k', told (curr_proc k) (requested (get_reg frame F_rdi k) k) res (pend, held))"
proof (cases "no_process k \<or> get_reg frame F_rdi k = 0")
  case True
  have "res = Ret (-1)" "k' = k" using assms(4) True by (auto simp: syscall_mutex_lock_def Let_def)
  then show ?thesis using inv_unpend [OF assms(1)] by simp
next
  case False
  then have "mutex_lock_try (get_reg frame F_rdi k) sp k = Some (res, k')" using assms(4) by (simp add: syscall_mutex_lock_def Let_def)
  then show ?thesis using lock_try_inv [OF assms(1) _ assms(3)] False by (simp add: no_process_def)
qed

lemma resume_inv:
  assumes "mutex_inv S (k, pend, held)" "pend (curr_proc k) = Some (i, m)" "on_stack S sp"
    "mutex_lock_resume i m sp k = Some (res, k')"
  shows "mutex_inv S (k', told (curr_proc k) (if owner_thread (mtx k m) = curr_proc k then m else requested i k) res (pend, held))"
proof -
  let ?c = "curr_proc k" and ?k = "on_mm CLI k"
  have inv: "mutex_inv S (?k, pend, held)" by (rule calm_inv [OF calm_irq(1) assms(1)])
  have c: "?c \<noteq> NULL" using assms(1) by (rule mutex_invE) (use assms(2) in blast)
  show ?thesis
  proof (cases "owner_thread (mtx k m) = ?c")
    case True
    then have r: "res = Ret 0" "k' = on_mm STI ?k" using assms(4) by (simp_all add: mutex_lock_resume_def)
    have "mutex_inv S (?k, pend(?c := None), insert (?c, m) held)" using inv_unpend [OF inv, of ?c]
    proof (rule mutex_invE, goal_cases)
      case (1 ms L)
      then have "mutexes k ms" by simp
      have "m \<in> set ms" using assms(1)
      proof (rule mutex_invE, goal_cases)
        case (1 ms' L')
        then show ?case using 1(6) [OF assms(2)] True c mutexes_unique [OF \<open>mutexes k ms\<close>] by metis
      qed
      then show ?case using 1 True c by (intro mutex_invI [where ms = ms and L = L]) auto
    qed
    then show ?thesis using calm_inv [OF calm_irq(2)] r True by simp
  next
    case False
    then have t: "mutex_lock_try i sp ?k = Some (res, k')" using assms(4) by (simp add: mutex_lock_resume_def)
    have "requested i ?k = requested i k" by (simp add: requested_def find_mutex_def mutex_links_def)
    then show ?thesis using lock_try_inv [OF inv _ assms(3) t] c False by simp
  qed
qed

lemma unlock_inv:
  assumes "mutex_inv S (k, pend, held)" "syscall_mutex_unlock frame k = Some (res, k')"
  shows "mutex_inv S (k', pend, if res = Ret 0 then held - {(curr_proc k, requested (get_reg frame F_rdi k) k)} else held)"
proof (cases "no_process k \<or> get_reg frame F_rdi k = 0")
  case True
  then have "res = Ret (-1)" "k' = k" using assms(2) by (auto simp: syscall_mutex_unlock_def Let_def)
  then show ?thesis using assms(1) by simp
next
  case False
  obtain ms where ms: "mutexes k ms" using assms(1) by (rule mutex_invE)
  let ?c = "curr_proc k" and ?k = "on_mm CLI k"
  define m where "m = requested (get_reg frame F_rdi k) k"
  have inv: "mutex_inv S (?k, pend, held)" by (rule calm_inv [OF calm_irq(1) assms(1)])
  have f: "find_mutex (owner (thr ?k ?c)) (get_reg frame F_rdi k) ?k = Some m"
    using find_mutex_named [of ?k ms] ms requested_named [OF ms] by (simp add: m_def)
  show ?thesis
  proof (cases "m = NULL \<or> owner_thread (mtx k m) \<noteq> ?c")
    case True
    then have "res = Ret (-1)" "k' = on_mm STI ?k"
      using assms(2) False f by (auto simp: syscall_mutex_unlock_def Let_def split: if_splits)
    then show ?thesis using calm_inv [OF calm_irq(2) inv] by simp
  next
    case own: False
    then obtain t k1 where r: "PROC_unblock_one (Q_mutex m) ?k = Some (t, k1)" "res = Ret 0"
      "k' = on_mm STI (setm m (\<lambda>x. x\<lparr>owner_thread := t\<rparr>) k1)"
      using assms(2) False f by (auto simp: syscall_mutex_unlock_def Let_def bind_eq_Some_conv split: if_splits)
    have c: "core k1 = core ?k" by (rule core_unblock_one [OF r(1)])
    have i1: "mutex_inv S (k1, pend, held)" by (rule calm_inv [OF calm_core [OF c] inv])
    have m: "m \<in> set ms" using own mutex_named_in(1) requested_named [OF ms] by (metis m_def)
    have ms1: "mutexes k1 ms" using ms mutexes_same [of k1 k ms] core_mtx(4) [OF c] coreD(6) [OF c] by simp
    have "t' = ?c" if "(t', m) \<in> held" for t' using assms(1) by (rule mutex_invE) (use own that in blast)
    then have "mutex_inv S (setm m (\<lambda>x. x\<lparr>owner_thread := t\<rparr>) k1, pend, held - {(?c, m)})"
      by (intro inv_own [OF i1 ms1 m]) auto
    then show ?thesis using calm_inv [OF calm_irq(2)] r(2,3) by (simp add: m_def)
  qed
qed

lemma create_inv:
  assumes "mutex_inv S (k, pend, held)" "room sizeof_kernel_mutex_st (mm k)" "syscall_mutex_create k = Some (res, k')"
  shows "mutex_inv S (k', pend, held)"
  using assms(1)
proof (rule mutex_invE, goal_cases)
  case (1 ms L)
  obtain p m1 where a: "kmalloc sizeof_kernel_mutex_st (mm k) = (p, m1)" by fastforce
  have z: "sizeof_kernel_mutex_st \<noteq> 0" by (simp add: sizeof_kernel_mutex_st_def)
  show ?case
  proof (cases "p = NULL")
    case True
    then have "k' = k\<lparr>mm := m1\<rparr>" using assms(3) a by (auto simp: syscall_mutex_create_def call_mm_def split: if_splits)
    moreover have "heap_live m1 L" using kh.malloc_none [OF 1(2) assms(2) z] a True by simp
    moreover have "mutexes (k\<lparr>mm := m1\<rparr>) ms" using 1(1) mutexes_same [of "k\<lparr>mm := m1\<rparr>" k] by simp
    ultimately show ?thesis using 1 by (intro mutex_invI [where ms = ms and L = L]) simp_all
  next
    case False
    obtain n where n: "heap_live m1 (insert (p - 16, n) L)" "(p - 16, n) \<notin> L"
      using kh.malloc_some [OF 1(2) assms(2) z a False] by blast
    have pn: "p \<notin> set ms"
    proof
      assume "p \<in> set ms"
      then obtain n' where "(p - 16, n') \<in> L" using 1(4) by blast
      then show False using heap_live_apart [OF n(1), of "p - 16" n n'] n(2) by simp
    qed
    have k': "mm k' = m1" "mutex_list k' = p" "m_next (mtx k' p) = mutex_list k" "owner_thread (mtx k' p) = NULL"
      "\<And>m. m \<noteq> p \<Longrightarrow> mtx k' m = mtx k m"
      using assms(3) a False
      by (auto simp: syscall_mutex_create_def call_mm_def Let_def PROC_init_queue_def split: if_splits)
    have "mutex_links k' m = mutex_links k m" if "m \<in> set ms" for m using that pn k'(5) [of m] by (cases "m = p") (auto simp: mutex_links_def)
    then have "llist (mutex_links k') NULL (mutex_list k) ms"
      using 1(1) llist_cong [of ms "mutex_links k'" "mutex_links k"] by (simp add: mutexes_def)
    then have "mutexes k' (p # ms)" using False k'(2,3) by (simp add: mutexes_def mutex_links_def)
    then show ?thesis
    proof (rule mutex_invI [where L = "insert (p - 16, n) L"])
      show "\<exists>n'. (m - 16, n') \<in> insert (p - 16, n) L - S" if "m \<in> set (p # ms)" for m using 1(3,4) that n(2) by auto
      show "m \<in> set (p # ms) \<and> owner_thread (mtx k' m) = t \<and> t \<noteq> NULL" if "(t, m) \<in> held" for t m
        using 1(5) [OF that] pn k'(5) [of m] by (cases "m = p") auto
      show "t \<noteq> NULL \<and> (m \<in> set (p # ms) \<or> owner_thread (mtx k' m) = NULL)" if "pend t = Some (i, m)" for t i m
        using 1(6) [OF that] k'(5) by (cases "m = p") auto
    qed (use 1(3) n(1) k'(1) in auto)
  qed
qed

lemma destroy_inv:
  assumes "mutex_inv S (k, pend, held)" "syscall_mutex_destroy frame k = Some (res, k')"
  shows "mutex_inv S (k', pend, held)"
proof (cases "no_process k \<or> get_reg frame F_rdi k = 0")
  case True
  then have "k' = k" using assms(2) by (auto simp: syscall_mutex_destroy_def Let_def)
  then show ?thesis using assms(1) by simp
next
  case False
  let ?c = "curr_proc k" and ?k = "on_mm CLI k"
  define m where "m = requested (get_reg frame F_rdi k) k"
  have inv: "mutex_inv S (?k, pend, held)" by (rule calm_inv [OF calm_irq(1) assms(1)])
  from assms(1) show ?thesis
  proof (rule mutex_invE, goal_cases)
    case (1 ms L)
    have f: "find_mutex (owner (thr ?k ?c)) (get_reg frame F_rdi k) ?k = Some m"
      using find_mutex_named [of ?k ms] 1(1) requested_named [OF 1(1)] by (simp add: m_def)
    show ?case
    proof (cases "m = NULL \<or> owner_thread (mtx k m) \<noteq> NULL \<or> q_head (waiters (mtx k m)) \<noteq> NULL")
      case True
      then have "k' = on_mm STI ?k"
        using assms(2) False f by (auto simp: syscall_mutex_destroy_def Let_def split: if_splits)
      then show ?thesis using calm_inv [OF calm_irq(2) inv] by simp
    next
      case free: False
      have m: "m \<in> set ms" using free mutex_named_in(1) requested_named [OF 1(1)] by (metis m_def)
      obtain k1 where k1: "unlink_mutex m ?k = Some k1" "mutexes k1 (removeAll m ms)" "mm k1 = mm ?k"
        "\<forall>m'. \<exists>n. mtx k1 m' = (mtx k m')\<lparr>m_next := n\<rparr>"
        using unlink_mutex_list [of ?k ms m] 1(1) m by auto
      have own: "owner_thread (mtx k1 m') = owner_thread (mtx k m')" for m'
      proof -
        obtain n where "mtx k1 m' = (mtx k m')\<lparr>m_next := n\<rparr>" using k1(4) by blast
        then show ?thesis by simp
      qed
      have k': "k' = k1\<lparr>mm := kfree m (STI (mm k1))\<rparr>"
        using assms(2) False f free k1(1)
        by (auto simp: syscall_mutex_destroy_def Let_def free_mutex_def run_mm_def on_mm_def split: if_splits)
      obtain n where n: "(m - 16, n) \<in> L - S" using 1(4) [OF m] by blast
      have "heap_live (STI (mm k1)) L" using 1(2) heap_live_cong [of "STI (mm k1)" "mm k"] k1(3) by simp
      then have hl: "heap_live (kfree m (STI (mm k1))) (L - {(m - 16, n)})" using kh.release_ok [of _ L "m - 16" n] n by simp
      show ?thesis
      proof (rule mutex_invI [where ms = "removeAll m ms" and L = "L - {(m - 16, n)}"])
        show "mutexes k' (removeAll m ms)" using k1(2) mutexes_same [of k' k1] k' by simp
        show "heap_live (mm k') (L - {(m - 16, n)})" using hl k' by simp
        show "S \<subseteq> L - {(m - 16, n)}" using 1(3) n by blast
        show "\<exists>n'. (m' - 16, n') \<in> L - {(m - 16, n)} - S" if "m' \<in> set (removeAll m ms)" for m' using 1(4) [of m'] that by auto
        show "m' \<in> set (removeAll m ms) \<and> owner_thread (mtx k' m') = t \<and> t \<noteq> NULL" if "(t, m') \<in> held" for t m'
          using 1(5) [OF that] free k' own by auto
        show "t \<noteq> NULL \<and> (m' \<in> set (removeAll m ms) \<or> owner_thread (mtx k' m') = NULL)" if "pend t = Some (i, m')" for t i m'
          using 1(6) [OF that] free k' own by auto
      qed
    qed
  qed
qed

lemma mutex_step_inv: "mutex_step S c c' \<Longrightarrow> mutex_inv S c \<Longrightarrow> mutex_inv S c'"
proof (induction rule: mutex_step.induct)
  case (create pend k res k' held)
  then show ?case using create_inv by blast
next
  case (destroy pend k frame res k' held)
  then show ?case using destroy_inv by blast
next
  case (lock pend k sp frame res k' held)
  then show ?case using lock_inv by blast
next
  case (resume pend k i m sp res k' held)
  then show ?case using resume_inv by blast
next
  case (unlock pend k frame res k' held)
  then show ?case using unlock_inv by blast
next
  case (yield sp k pend held)
  then show ?case using calm_inv [OF calm_stack [OF yield_stack]] by blast
next
  case (block sp q e k k' pend held)
  then show ?case using calm_inv [OF calm_block] by blast
next
  case (wake q k p k' pend held)
  then show ?case using calm_inv [OF calm_core [OF core_unblock_one]] by blast
qed

lemma mutex_run_inv: "(mutex_step S)\<^sup>*\<^sup>* c c' \<Longrightarrow> mutex_inv S c \<Longrightarrow> mutex_inv S c'"
  by (induction rule: rtranclp_induct) (use mutex_step_inv in blast)+

section \<open>Locking and unlocking\<close>

lemma irq_mm [simp]: "on_mm STI (on_mm CLI k) = on_mm STI k"
  by (simp add: on_mm_def CLI_def STI_def)

lemma threads_irq [simp]: "threads_ok (on_mm CLI k) r W Q = threads_ok k r W Q" "threads_ok (on_mm STI k) r W Q = threads_ok k r W Q"
  by (rule threads_ok_same [OF same_places_mm], simp add: CLI_def STI_def)+

lemma bare_irq [simp]: "bare (on_mm CLI k) = bare k" "bare (on_mm STI k) = bare k"
  by (simp_all add: bare_mm CLI_def STI_def)

lemma on_mm_vars [simp]: "multitask_started (on_mm g k) = multitask_started k" "main_thread (on_mm g k) = main_thread k"
  by (simp_all add: on_mm_def)

lemma lock_free:
  assumes "mutexes k ms" "\<not> no_process k" "get_reg frame F_rdi k \<noteq> 0"
  defines "m \<equiv> mutex_named (owner (thr k (curr_proc k))) (get_reg frame F_rdi k) k ms"
  shows "m = NULL \<or> owner_thread (mtx k m) = curr_proc k \<Longrightarrow> syscall_mutex_lock frame sp k = Some (Ret (-1), on_mm STI k)"
    "m \<noteq> NULL \<Longrightarrow> owner_thread (mtx k m) = NULL \<Longrightarrow>
     syscall_mutex_lock frame sp k = Some (Ret 0, on_mm STI (setm m (\<lambda>x. x\<lparr>owner_thread := curr_proc k\<rparr>) k))"
    "m \<noteq> NULL \<Longrightarrow> owner_thread (mtx k m) \<notin> {NULL, curr_proc k} \<Longrightarrow>
     syscall_mutex_lock frame sp k = do {
       k1 \<leftarrow> PROC_block_on (Q_mutex m) True sp (on_mm CLI k);
       Some (Blocked (In_mutex_lock (get_reg frame F_rdi k) m), k1) }"
proof -
  let ?i = "get_reg frame F_rdi k" and ?k = "on_mm CLI k"
  have f: "find_mutex (owner (thr ?k (curr_proc ?k))) ?i ?k = Some m"
    using find_mutex_named [of ?k ms] assms(1) by (simp add: m_def)
  have l: "syscall_mutex_lock frame sp k = mutex_lock_try ?i sp k" using assms(2,3) by (simp add: syscall_mutex_lock_def Let_def)
  have c: "curr_proc k \<noteq> NULL" using assms(2) by (simp add: no_process_def)
  show "syscall_mutex_lock frame sp k = Some (Ret (-1), on_mm STI k)" if "m = NULL \<or> owner_thread (mtx k m) = curr_proc k"
    using that f c unfolding l by (auto simp: mutex_lock_try_def Let_def)
  have "on_mm STI (setm m g ?k) = on_mm STI (setm m g k)" for g by (simp add: on_mm_def setm_def CLI_def STI_def)
  then show "syscall_mutex_lock frame sp k = Some (Ret 0, on_mm STI (setm m (\<lambda>x. x\<lparr>owner_thread := curr_proc k\<rparr>) k))"
    if "m \<noteq> NULL" "owner_thread (mtx k m) = NULL" using that f unfolding l by (simp add: mutex_lock_try_def Let_def)
  show "syscall_mutex_lock frame sp k = do {
       k1 \<leftarrow> PROC_block_on (Q_mutex m) True sp (on_mm CLI k);
       Some (Blocked (In_mutex_lock ?i m), k1) }"
    if "m \<noteq> NULL" "owner_thread (mtx k m) \<notin> {NULL, curr_proc k}"
    using that f unfolding l by (simp add: mutex_lock_try_def Let_def)
qed

lemma unlock_cases:
  assumes "mutexes k ms" "\<not> no_process k" "get_reg frame F_rdi k \<noteq> 0"
  defines "m \<equiv> mutex_named (owner (thr k (curr_proc k))) (get_reg frame F_rdi k) k ms"
  shows "m = NULL \<or> owner_thread (mtx k m) \<noteq> curr_proc k \<Longrightarrow> syscall_mutex_unlock frame k = Some (Ret (-1), on_mm STI k)"
    "m \<noteq> NULL \<Longrightarrow> owner_thread (mtx k m) = curr_proc k \<Longrightarrow> syscall_mutex_unlock frame k = do {
       (t, k) \<leftarrow> PROC_unblock_one (Q_mutex m) (on_mm CLI k);
       Some (Ret 0, on_mm STI (setm m (\<lambda>x. x\<lparr>owner_thread := t\<rparr>) k)) }"
proof -
  let ?i = "get_reg frame F_rdi k" and ?k = "on_mm CLI k"
  have f: "find_mutex (owner (thr ?k (curr_proc ?k))) ?i ?k = Some m"
    using find_mutex_named [of ?k ms] assms(1) by (simp add: m_def)
  show "syscall_mutex_unlock frame k = Some (Ret (-1), on_mm STI k)" if "m = NULL \<or> owner_thread (mtx k m) \<noteq> curr_proc k"
    using that f assms(2,3) by (auto simp: syscall_mutex_unlock_def Let_def)
  show "syscall_mutex_unlock frame k = do {
       (t, k) \<leftarrow> PROC_unblock_one (Q_mutex m) (on_mm CLI k);
       Some (Ret 0, on_mm STI (setm m (\<lambda>x. x\<lparr>owner_thread := t\<rparr>) k)) }"
    if "m \<noteq> NULL" "owner_thread (mtx k m) = curr_proc k"
    using that f assms(2,3) by (simp add: syscall_mutex_unlock_def Let_def)
qed

lemma can_wake_mm [simp]: "can_wake t (on_mm g k) = can_wake t k"
  by (simp add: can_wake_def)

lemma woken_mm [simp]: "woken ts (on_mm g k) = woken ts k" "still_waiting ts (on_mm g k) = still_waiting ts k"
  by (simp_all add: woken_def still_waiting_def)

section \<open>The end of a process\<close>

lemma kfree_halted: "halted (kfree a s) = halted s"
proof -
  have "halted (MMU_free_pages va n s) = halted s" for va n and s :: "'a kmem_st_scheme"
    by (rule same_restD(2) [OF same_rest_free_pages])
  then show ?thesis
    by (simp add: kfree_def Let_def irq_restore_def CLI_def STI_def push_block_def add_avail_def)
qed

lemma free_mutex_live: "\<not> halted (mm k) \<Longrightarrow> free_mutex m k = Some (on_mm (kfree m) k)"
  by (simp add: free_mutex_def run_mm_def on_mm_def kfree_halted)

definition head_or_NULL :: "ptr list \<Rightarrow> ptr" where
  "head_or_NULL ms = (case ms of [] \<Rightarrow> NULL | m # _ \<Rightarrow> m)"

lemma mutexes_next: "mutexes k (as @ m # bs) \<Longrightarrow> m_next (mtx k m) = head_or_NULL bs"
  by (cases bs) (auto simp: mutexes_def llist_append mutex_links_def head_or_NULL_def)

text \<open>One round of the loop for a mutex of the process: out of the list, its waiters woken, its block free.\<close>

lemma destroy_one:
  assumes "threads_ok k r W Q" "mutexes k (as @ m # bs)" "Q_mutex m \<in> Q" "heap_live (mm k) L" "(m - 16, n) \<in> L"
  shows "\<exists>k' r'. (do { k \<leftarrow> unlink_mutex m k; k \<leftarrow> PROC_unblock_all (Q_mutex m) k; free_mutex m k }) = Some k' \<and>
    threads_ok k' r' (W(Q_mutex m := [])) Q \<and> mutexes k' (as @ bs) \<and> heap_live (mm k') (L - {(m - 16, n)}) \<and>
    set r' = set r \<union> {t \<in> set (W (Q_mutex m)). can_wake t k} \<and> (\<forall>t. can_wake t k' = can_wake t k) \<and>
    IF_flag (mm k') = IF_flag (mm k) \<and>
    (\<forall>m'. owner_process (mtx k' m') = owner_process (mtx k m') \<and> owner_thread (mtx k' m') = owner_thread (mtx k m'))"
proof -
  let ?ms = "as @ m # bs"
  have rm: "removeAll m ?ms = as @ bs" using mutexesD(1) [OF assms(2)] by (simp add: removeAll_id)
  obtain k1 where k1: "unlink_mutex m k = Some k1" "mutexes k1 (as @ bs)" "same_places k k1" "mm k1 = mm k"
    "thr k1 = thr k" "prc k1 = prc k" "\<forall>m'. \<exists>n. mtx k1 m' = (mtx k m')\<lparr>m_next := n\<rparr>"
    using unlink_mutex_list [OF assms(2), of m] unfolding rm by auto
  have own1: "owner_process (mtx k1 m') = owner_process (mtx k m') \<and> owner_thread (mtx k1 m') = owner_thread (mtx k m')" for m'
  proof -
    obtain n where "mtx k1 m' = (mtx k m')\<lparr>m_next := n\<rparr>" using k1(7) by blast
    then show ?thesis by simp
  qed
  have t1: "threads_ok k1 r W Q" using assms(1) threads_ok_same [OF k1(3)] by blast
  have cw1: "can_wake t k1 = can_wake t k" for t using k1(5,6) by (simp add: can_wake_def)
  let ?F = "filter (\<lambda>t. can_wake t k1) (W (Q_mutex m))"
  obtain k2 r' where k2: "PROC_unblock_all (Q_mutex m) k1 = Some k2" "core k2 = core k1" "threads_ok k2 r' (W(Q_mutex m := [])) Q"
    "mset r' = mset r + mset ?F" "\<forall>t. run_state (thr k2 t) = (if t \<in> set ?F then PROC_READY else run_state (thr k1 t))"
    using threads_unblock_all [OF t1 assms(3)] by blast
  have cw2: "can_wake t k2 = can_wake t k1" for t
    using k2(5) core_thr(1) [OF k2(2)] core_prc(9) [OF k2(2)] by (auto simp: can_wake_def)
  have mm2: "mm k2 = mm k" using coreD(1) [OF k2(2)] k1(4) by simp
  have nh: "\<not> halted (mm k2)" using threads_okD(1) [OF assms(1)] mm2 by (simp add: k_serves_def)
  let ?k3 = "on_mm (kfree m) k2"
  have "threads_ok ?k3 r' (W(Q_mutex m := [])) Q" using k2(3) threads_ok_same [OF same_places_mm] by (metis kfree_halted)
  moreover have "mutexes ?k3 (as @ bs)"
    using k1(2) mutexes_same [of k2 k1 "as @ bs"] core_mtx(4) [OF k2(2)] coreD(6) [OF k2(2)] by simp
  moreover have "heap_live (mm ?k3) (L - {(m - 16, n)})" using kh.release_ok [OF assms(4,5)] mm2 by simp
  moreover have "set r' = set r \<union> {t \<in> set (W (Q_mutex m)). can_wake t k}"
    using arg_cong [OF k2(4), of set_mset] cw1 by auto
  moreover have "IF_flag (mm ?k3) = IF_flag (mm k)"
  proof -
    obtain Fs where "heap_ok (mm k) Fs L" using assms(4) by (auto simp: heap_live_def)
    from kfree_ok(3) [OF this assms(5)] show ?thesis using mm2 by simp
  qed
  ultimately show ?thesis
    using k1(1) k2(1) free_mutex_live [OF nh] cw1 cw2 own1 core_mtx(2,3) [OF k2(2)]
    by (intro exI [of _ ?k3] exI [of _ r']) simp
qed

definition process_mutexes :: "ptr \<Rightarrow> 'a kernel_st_scheme \<Rightarrow> ptr list \<Rightarrow> ptr set" where
  "process_mutexes own k ms = {m \<in> set ms. owner_process (mtx k m) = own}"

lemma destroy_mutexes_list:
  assumes "threads_ok k r W Q" "mutexes k (as @ bs)" "Q_mutex ` set bs \<subseteq> Q" "heap_live (mm k) L" "\<forall>m \<in> set bs. (m - 16, n m) \<in> L"
  shows "\<exists>k' r'. destroy_mutexes_from own (head_or_NULL bs) k = Some k' \<and>
    mutexes k' (as @ filter (\<lambda>m. owner_process (mtx k m) \<noteq> own) bs) \<and>
    heap_live (mm k') (L - (\<lambda>m. (m - 16, n m)) ` process_mutexes own k bs) \<and>
    threads_ok k' r' (\<lambda>q. if q \<in> Q_mutex ` process_mutexes own k bs then [] else W q) Q \<and>
    set r' = set r \<union> {t. can_wake t k \<and> (\<exists>m \<in> process_mutexes own k bs. t \<in> set (W (Q_mutex m)))} \<and>
    IF_flag (mm k') = IF_flag (mm k) \<and>
    (\<forall>m. owner_process (mtx k' m) = owner_process (mtx k m) \<and> owner_thread (mtx k' m) = owner_thread (mtx k m))"
  using assms
proof (induction bs arbitrary: as k r W L)
  case Nil
  then show ?case by (subst destroy_mutexes_from.simps) (auto simp: head_or_NULL_def process_mutexes_def)
next
  case (Cons m bs)
  have nz: "m \<noteq> NULL" using mutexesD(2) [OF Cons.prems(2)] by auto
  have nx: "m_next (mtx k m) = head_or_NULL bs" by (rule mutexes_next [OF Cons.prems(2)])
  have hd: "head_or_NULL (m # bs) = m" by (simp add: head_or_NULL_def)
  show ?case
  proof (cases "owner_process (mtx k m) = own")
    case False
    then have "process_mutexes own k (m # bs) = process_mutexes own k bs" by (auto simp: process_mutexes_def)
    then show ?thesis
      using Cons.IH [of k r W "as @ [m]" L] Cons.prems nz nx False unfolding hd
      by (subst destroy_mutexes_from.simps) auto
  next
    case True
    obtain k1 r1 where k1: "(do { k \<leftarrow> unlink_mutex m k; k \<leftarrow> PROC_unblock_all (Q_mutex m) k; free_mutex m k }) = Some k1"
      "threads_ok k1 r1 (W(Q_mutex m := [])) Q" "mutexes k1 (as @ bs)" "heap_live (mm k1) (L - {(m - 16, n m)})"
      "set r1 = set r \<union> {t \<in> set (W (Q_mutex m)). can_wake t k}" "\<forall>t. can_wake t k1 = can_wake t k"
      "IF_flag (mm k1) = IF_flag (mm k)"
      "\<forall>m'. owner_process (mtx k1 m') = owner_process (mtx k m') \<and> owner_thread (mtx k1 m') = owner_thread (mtx k m')"
      using destroy_one [OF Cons.prems(1,2) _ Cons.prems(4), of "n m"] Cons.prems(3,5) by auto
    have mb: "m \<notin> set bs" using mutexesD(1) [OF Cons.prems(2)] by simp
    then have L1: "\<forall>x \<in> set bs. (x - 16, n x) \<in> L - {(m - 16, n m)}" using Cons.prems(5) by auto
    have p1: "process_mutexes own k1 bs = process_mutexes own k bs" using k1(8) by (simp add: process_mutexes_def)
    have p: "process_mutexes own k (m # bs) = insert m (process_mutexes own k bs)" using True by (auto simp: process_mutexes_def)
    have mp: "m \<notin> process_mutexes own k bs" using mb by (simp add: process_mutexes_def)
    have step: "destroy_mutexes_from own m k = destroy_mutexes_from own (head_or_NULL bs) k1"
      using nz True nx k1(1) by (subst destroy_mutexes_from.simps) (auto simp: bind_eq_Some_conv)
    have W: "(\<lambda>q. if q \<in> Q_mutex ` process_mutexes own k bs then [] else (W(Q_mutex m := [])) q) =
        (\<lambda>q. if q \<in> Q_mutex ` process_mutexes own k (m # bs) then [] else W q)" unfolding p by auto
    have R: "set r1 \<union> {t. can_wake t k \<and> (\<exists>x \<in> process_mutexes own k bs. t \<in> set ((W(Q_mutex m := [])) (Q_mutex x)))} =
        set r \<union> {t. can_wake t k \<and> (\<exists>x \<in> process_mutexes own k (m # bs). t \<in> set (W (Q_mutex x)))}"
      unfolding p k1(5) using mp by auto
    have D: "L - {(m - 16, n m)} - (\<lambda>m. (m - 16, n m)) ` process_mutexes own k bs =
        L - (\<lambda>m. (m - 16, n m)) ` process_mutexes own k (m # bs)" unfolding p by auto
    from Cons.IH [OF k1(2,3) _ k1(4) L1] Cons.prems(3) show ?thesis
      unfolding hd step p1 W D using R k1(6-8) True by simp
  qed
qed

section \<open>Properties\<close>

text \<open>
  C18: Mutual exclusion. Start with a well-formed list of mutexes in the heap and nobody holding one,
  and let the threads create, destroy, lock and unlock mutexes, give up the processor, block and be
  woken in any order. Then two threads never both hold the same mutex, and the holder is always the
  recorded owner of a mutex that has not been destroyed.
\<close>

theorem mutual_exclusion:
  assumes "(mutex_step S)\<^sup>*\<^sup>* (k, Map.empty, {}) (k', pend, held)" "mutex_inv S (k, Map.empty, {})"
    "(t, m) \<in> held"
  shows "owner_thread (mtx k' m) = t \<and> (\<forall>t'. (t', m) \<in> held \<longrightarrow> t' = t) \<and> (\<exists>ms. mutexes k' ms \<and> m \<in> set ms)"
proof -
  from mutex_run_inv [OF assms(1,2)] show ?thesis
  proof (rule mutex_invE, goal_cases)
    case (1 ms L)
    have "t' = t" if "(t', m) \<in> held" for t' using 1(5) [OF that] 1(5) [OF assms(3)] by simp
    then show ?case using 1(1) 1(5) [OF assms(3)] by blast
  qed
qed

text \<open>
  C19: Locking, on every branch: the call is refused with -1 for a caller without a process, for
  identifier 0, for one that names no mutex of the caller's process and for a mutex the caller
  owns already; a free mutex becomes the caller's and the call returns 0; and for a mutex owned by
  another thread the caller becomes its last waiter and leaves the scheduler, with owners and
  mutexes unchanged.
\<close>

theorem mutex_lock_correct:
  assumes "threads_ok k r W Q" "mutexes k ms" "Q_mutex ` set ms \<subseteq> Q" "curr_proc k \<in> set r"
    "multitask_started k" "main_thread k \<noteq> NULL"
  shows "let c = curr_proc k; i = get_reg frame F_rdi k; m = mutex_named (owner (thr k c)) i k ms in
    \<exists>res k'. syscall_mutex_lock frame sp k = Some (res, k') \<and>
      (if owner (thr k c) = NULL \<or> i = 0 then res = Ret (-1) \<and> k' = k
       else if m = NULL \<or> owner_thread (mtx k m) = c then res = Ret (-1) \<and> k' = on_mm STI k
       else if owner_thread (mtx k m) = NULL
       then res = Ret 0 \<and> k' = on_mm STI (setm m (\<lambda>x. x\<lparr>owner_thread := c\<rparr>) k)
       else res = Blocked (In_mutex_lock i m) \<and> bare k' = bare k \<and> run_state (thr k' c) = PROC_BLOCKED \<and>
         threads_ok k' (rotate1 (removeAll c r)) (W(Q_mutex m := W (Q_mutex m) @ [c])) Q)"
proof -
  let ?c = "curr_proc k" and ?i = "get_reg frame F_rdi k"
  define m where "m = mutex_named (owner (thr k ?c)) ?i k ms"
  have c: "?c \<noteq> NULL" using assms(4) threads_okD(4) [OF assms(1)] by auto
  show ?thesis
  proof (cases "owner (thr k ?c) = NULL \<or> ?i = 0")
    case True
    then show ?thesis by (auto simp: syscall_mutex_lock_def Let_def no_process_def)
  next
    case False
    then have np: "\<not> no_process k" "?i \<noteq> 0" using c by (simp_all add: no_process_def)
    note l = lock_free [OF assms(2) np, of sp, folded m_def]
    show ?thesis
    proof (cases "m \<noteq> NULL \<and> owner_thread (mtx k m) \<notin> {NULL, ?c}")
      case True
      have "Q_mutex m \<in> Q" using mutex_named_in(1) [of "owner (thr k ?c)" ?i k ms] True assms(3) by (auto simp: m_def)
      then show ?thesis
        using threads_block_on [of "on_mm CLI k" r W Q "Q_mutex m" True sp] assms l(3) True False
        by (auto simp: Let_def m_def [symmetric])
    next
      case no: False
      then show ?thesis using l(1,2) False c by (auto simp: Let_def m_def [symmetric])
    qed
  qed
qed

text \<open>
  C20: Unlocking, on every branch: only the owner succeeds. The mutex goes to the first waiter that can
  run, which becomes runnable; with no such waiter the mutex is free and nobody waits for it. No
  other mutex changes, and the thread woken finds itself the owner when it goes on.
\<close>

theorem mutex_unlock_correct:
  fixes k :: "'a kernel_st_scheme"
  assumes "threads_ok k r W Q" "mutexes k ms" "Q_mutex ` set ms \<subseteq> Q"
  shows "let c = curr_proc k; i = get_reg frame F_rdi k; m = mutex_named (owner (thr k c)) i k ms;
      t = woken (W (Q_mutex m)) k in
    \<exists>res k'. syscall_mutex_unlock frame k = Some (res, k') \<and>
      (if no_process k \<or> i = 0 then res = Ret (-1) \<and> k' = k
       else if m = NULL \<or> owner_thread (mtx k m) \<noteq> c then res = Ret (-1) \<and> k' = on_mm STI k
       else res = Ret 0 \<and> owner_thread (mtx k' m) = t \<and>
         (\<forall>m'. m' \<noteq> m \<longrightarrow> owner_thread (mtx k' m') = owner_thread (mtx k m')) \<and> mutexes k' ms \<and>
         (\<exists>r'. threads_ok k' r' (W(Q_mutex m := still_waiting (W (Q_mutex m)) k)) Q \<and>
           set r' = set r \<union> ({t} - {NULL})) \<and>
         (t = NULL \<longrightarrow> still_waiting (W (Q_mutex m)) k = []) \<and>
         (\<forall>(k'' :: 'a kernel_st_scheme) sp. curr_proc k'' = t \<longrightarrow> mtx k'' m = mtx k' m \<longrightarrow>
           mutex_lock_resume i m sp k'' = Some (Ret 0, on_mm STI k'')))"
proof -
  let ?c = "curr_proc k" and ?i = "get_reg frame F_rdi k"
  define m where "m = mutex_named (owner (thr k ?c)) ?i k ms"
  define t where "t = woken (W (Q_mutex m)) k"
  show ?thesis
  proof (cases "no_process k \<or> ?i = 0")
    case True
    then show ?thesis by (auto simp: syscall_mutex_unlock_def Let_def)
  next
    case False
    note u = unlock_cases [OF assms(2), of frame, folded m_def]
    show ?thesis
    proof (cases "m = NULL \<or> owner_thread (mtx k m) \<noteq> ?c")
      case True
      then show ?thesis using u(1) False by (auto simp: Let_def m_def [symmetric])
    next
      case own: False
      have q: "Q_mutex m \<in> Q" using mutex_named_in(1) [of "owner (thr k ?c)" ?i k ms] own assms(3) by (auto simp: m_def)
      obtain k1 r1 r2 where k1: "PROC_unblock_one (Q_mutex m) (on_mm CLI k) = Some (t, k1)" "core k1 = core (on_mm CLI k)"
        "r = r1 @ r2" "threads_ok k1 (if t = NULL then r else r1 @ t # r2) (W(Q_mutex m := still_waiting (W (Q_mutex m)) k)) Q"
        using threads_unblock_one [OF _ q, of "on_mm CLI k" r W, unfolded woken_mm, folded t_def] assms(1) by auto
      let ?k = "setm m (\<lambda>x. x\<lparr>owner_thread := t\<rparr>) k1"
      have "threads_ok ?k (if t = NULL then r else r1 @ t # r2) (W(Q_mutex m := still_waiting (W (Q_mutex m)) k)) Q"
        using k1(4) by (subst threads_ok_same [OF same_places_setm]) simp_all
      then have th: "\<exists>r'. threads_ok (on_mm STI ?k) r' (W(Q_mutex m := still_waiting (W (Q_mutex m)) k)) Q \<and>
           set r' = set r \<union> ({t} - {NULL})"
        using k1(3) by (intro exI [of _ "if t = NULL then r else r1 @ t # r2"]) auto
      have ms: "mutexes (on_mm STI ?k) ms"
        using assms(2) mutexes_same [of k1 k ms] core_mtx(4) [OF k1(2)] coreD(6) [OF k1(2)] by (simp add: mutexes_owner)
      have e: "syscall_mutex_unlock frame k = Some (Ret 0, on_mm STI ?k)" using u(2) own False k1(1) by simp
      have o: "\<forall>m'. m' \<noteq> m \<longrightarrow> owner_thread (mtx (on_mm STI ?k) m') = owner_thread (mtx k m')"
        using core_mtx(3) [OF k1(2)] by simp
      have r: "mutex_lock_resume ?i m sp k'' = Some (Ret 0, on_mm STI k'')"
        if "curr_proc k'' = t" "mtx k'' m = mtx (on_mm STI ?k) m" for k'' :: "'a kernel_st_scheme" and sp
        using that by (simp add: mutex_lock_resume_def)
      have n: "t = NULL \<longrightarrow> still_waiting (W (Q_mutex m)) k = []" using woken_NULL by (auto simp: t_def)
      show ?thesis unfolding Let_def m_def [symmetric] t_def [symmetric]
        using e o th ms n r own False by (intro exI [of _ "Ret 0"] exI [of _ "on_mm STI ?k"]) simp
    qed
  qed
qed


section \<open>Concrete kernels\<close>

text \<open>
  The example kernel with the block of its mutex in the heap and a system call frame at 0x20000 that
  names the mutex, as it is and with the mutex free.
\<close>

definition mutex_example :: kernel_st where
  "mutex_example = on_mm (\<lambda>m. m\<lparr>kheap := (kheap m)(0x20050 := 1)\<rparr>) kernel_example"

definition free_example :: kernel_st where
  "free_example = setm 0x4000 (\<lambda>x. x\<lparr>owner_thread := NULL\<rparr>) mutex_example"

lemma mutex_example_fields [simp]:
  "curr_proc mutex_example = 0x1000" "multitask_started mutex_example" "main_thread mutex_example = 0x100"
  "owner (thr mutex_example 0x1000) = 0x5000" "m_id (mtx mutex_example 0x4000) = 1" "owner_process (mtx mutex_example 0x4000) = 0x5000"
  "owner_thread (mtx mutex_example 0x4000) = 0x1000" "mutex_list mutex_example = 0x4000" "m_next (mtx mutex_example 0x4000) = NULL"
  "get_reg 0x20000 F_rdi mutex_example = 1" "can_wake 0x3000 mutex_example"
  by (simp_all add: mutex_example_def kernel_example_def example_thread_def get_reg_def frame_addr_def on_mm_def can_wake_def process_zero_def)

lemma mutex_example_ok: "threads_ok mutex_example [0x2000, 0x1000] example_waits example_queues"
  unfolding mutex_example_def using kernel_example_ok by (subst threads_ok_same [OF same_places_mm]) simp_all

lemma mutex_example_list: "mutexes mutex_example [0x4000]" "Q_mutex ` set [0x4000] \<subseteq> example_queues"
  by (simp_all add: mutexes_def mutex_links_def example_queues_def)

lemma mutex_example_named: "mutex_named 0x5000 1 mutex_example [0x4000] = 0x4000"
  by (simp add: mutex_named_def)

definition example_blocks :: "(ptr \<times> nat) set" where
  "example_blocks = {(0x3FF0, 64), (0x8000, 0x2000)}"

lemma mutex_example_heap: "heap_live (mm mutex_example) example_blocks"
proof -
  have f: "pools (mm mutex_example) = pools_init" "pools_at (mm mutex_example) = 0x20000"
    "kernel_va (mm mutex_example) = 0x10000001000" "kheap (mm mutex_example) = (\<lambda>_. 0)(0x20050 := 1)"
    by (simp_all add: mutex_example_def kernel_example_def on_mm_def kmem_example_def vm_st.defs kmem_st.defs VA_KHEAP_BASE_def
        vm_example_def frames_st.defs)
  have "length pool_sizes = NUM_POOLS" by (simp add: pool_sizes_def NUM_POOLS_def)
  then have z: "pool_head (pools_init ! i) = NULL" "avail_blocks (pools_init ! i) = 0" if "i < NUM_POOLS" for i
    using that by (simp_all add: pools_init_def)
  have "free_regions (\<lambda>_. []) = {}" by (simp add: free_regions_def)
  moreover have "map max_size pools_init = pool_sizes" by (simp add: pools_init_def comp_def)
  moreover have "header_ok (mm mutex_example) (0x3FF0, 64)" "header_ok (mm mutex_example) (0x8000, 0x2000)"
    by (simp_all add: header_ok_def f)
  ultimately have "heap_ok (mm mutex_example) (\<lambda>_. []) example_blocks"
    using z by (simp add: heap_ok_def heap_lists_def f disjoint_family_on_def example_blocks_def span_def)
  then show ?thesis by (auto simp: heap_live_def)
qed

lemma free_example_inv: "mutex_inv {(0x8000, 0x2000)} (free_example, Map.empty, {})"
proof (rule mutex_invI [where ms = "[0x4000]" and L = example_blocks])
  show "mutexes free_example [0x4000]" using mutex_example_list(1) by (simp add: free_example_def mutexes_owner)
  show "heap_live (mm free_example) example_blocks" using mutex_example_heap by (simp add: free_example_def)
qed (auto simp: example_blocks_def)

text \<open>One step of a run: the running thread locks the free mutex.\<close>

lemma free_example_step:
  "mutex_step {(0x8000, 0x2000)} (free_example, Map.empty, {})
     (on_mm STI (setm 0x4000 (\<lambda>x. x\<lparr>owner_thread := 0x1000\<rparr>) free_example), Map.empty, {(0x1000, 0x4000)})"
proof -
  have ms: "mutexes free_example [0x4000]" using mutex_example_list(1) by (simp add: free_example_def mutexes_owner)
  have f: "curr_proc free_example = 0x1000" "owner (thr free_example 0x1000) = 0x5000" "get_reg 0x20000 F_rdi free_example = 1"
    "owner_thread (mtx free_example 0x4000) = NULL"
    using mutex_example_fields(10) by (simp_all add: free_example_def get_reg_def)
  have n: "mutex_named 0x5000 1 free_example [0x4000] = 0x4000" by (simp add: mutex_named_def free_example_def)
  have np: "\<not> no_process free_example" using f by (simp add: no_process_def)
  have "syscall_mutex_lock 0x20000 0x9000 free_example = Some (Ret 0, on_mm STI (setm 0x4000 (\<lambda>x. x\<lparr>owner_thread := 0x1000\<rparr>) free_example))"
    using lock_free(2) [OF ms np, of "0x20000" "0x9000"] f n by simp
  from mutex_step.lock [OF _ _ this, of Map.empty "{(0x8000, 0x2000)}" "{}"] show ?thesis
    using requested_named [OF ms, of 1] f n by (simp add: on_stack_def in_body_def frame_flags_def)
qed

theorem mutual_exclusion_witness:
  "\<exists>k. (mutex_step {(0x8000, 0x2000)})\<^sup>*\<^sup>* (free_example, Map.empty, {}) (k, Map.empty, {(0x1000, 0x4000)}) \<and>
     owner_thread (mtx k 0x4000) = 0x1000 \<and> (\<exists>ms. mutexes k ms \<and> 0x4000 \<in> set ms)"
  using mutual_exclusion [OF r_into_rtranclp [where r = "mutex_step {(0x8000, 0x2000)}", OF free_example_step] free_example_inv,
      of "0x1000" "0x4000"] free_example_step by blast

theorem mutex_lock_correct_witness:
  "syscall_mutex_lock 0x20000 0x9000 mutex_example = Some (Ret (-1), on_mm STI mutex_example)"
  using mutex_lock_correct [OF mutex_example_ok mutex_example_list, of "0x20000" "0x9000"] mutex_example_named by simp

theorem mutex_unlock_correct_witness:
  "\<exists>k'. syscall_mutex_unlock 0x20000 mutex_example = Some (Ret 0, k') \<and> owner_thread (mtx k' 0x4000) = 0x3000"
proof -
  have w: "woken (example_waits (Q_mutex 0x4000)) mutex_example = 0x3000" by (simp add: woken_def example_waits_def)
  show ?thesis
    using mutex_unlock_correct [OF mutex_example_ok mutex_example_list, of "0x20000"] mutex_example_named w
    by (auto simp: no_process_def Let_def)
qed


end
