(* ===== verification/Process_Tree.thy ===== *)
theory Process_Tree
  imports Process_Syscalls Mutual_Exclusion
begin

text \<open>
  The process tree. Children hang off their parent in a linked list through \<open>next_sibling\<close>;
  \<open>family k P ch\<close> says that for the processes \<open>P\<close> these lists are \<open>ch\<close> and agree with the \<open>parent\<close>
  members. Linking, unlinking and handing over children are updates of \<open>ch\<close>, and \<open>wait\<close> and the end
  of a process are stated with it.
\<close>

section \<open>Families\<close>

definition family :: "'a kernel_st_scheme \<Rightarrow> ptr set \<Rightarrow> (ptr \<Rightarrow> ptr list) \<Rightarrow> bool" where
  "family k P ch \<longleftrightarrow> NULL \<notin> P \<and>
     (\<forall>p \<in> P. llist (sibling_links k) NULL (first_child (prc k p)) (ch p) \<and> set (ch p) \<subseteq> P) \<and>
     (\<forall>c \<in> P. parent (prc k c) \<noteq> c \<and> (parent (prc k c) = NULL \<or> parent (prc k c) \<in> P) \<and>
        (\<forall>p \<in> P. c \<in> set (ch p) \<longleftrightarrow> parent (prc k c) = p))"

lemma familyD:
  assumes "family k P ch"
  shows "NULL \<notin> P" "p \<in> P \<Longrightarrow> llist (sibling_links k) NULL (first_child (prc k p)) (ch p)" "p \<in> P \<Longrightarrow> set (ch p) \<subseteq> P"
    "c \<in> P \<Longrightarrow> parent (prc k c) \<noteq> c" "p \<in> P \<Longrightarrow> c \<in> set (ch p) \<Longrightarrow> parent (prc k c) = p"
    "c \<in> P \<Longrightarrow> p \<in> P \<Longrightarrow> parent (prc k c) = p \<Longrightarrow> c \<in> set (ch p)" "p \<in> P \<Longrightarrow> distinct (ch p)"
    "c \<in> P \<Longrightarrow> parent (prc k c) \<noteq> NULL \<Longrightarrow> parent (prc k c) \<in> P"
proof -
  show "p \<in> P \<Longrightarrow> llist (sibling_links k) NULL (first_child (prc k p)) (ch p)" using assms by (simp add: family_def)
  then show "p \<in> P \<Longrightarrow> distinct (ch p)" by (rule llist_distinct)
qed (use assms in \<open>auto simp: family_def\<close>)

lemma familyI:
  assumes "NULL \<notin> P" "\<And>p. p \<in> P \<Longrightarrow> llist (sibling_links k) NULL (first_child (prc k p)) (ch p)" "\<And>p. p \<in> P \<Longrightarrow> set (ch p) \<subseteq> P"
    "\<And>c. c \<in> P \<Longrightarrow> parent (prc k c) \<noteq> c" "\<And>c. c \<in> P \<Longrightarrow> parent (prc k c) = NULL \<or> parent (prc k c) \<in> P"
    "\<And>c p. c \<in> P \<Longrightarrow> p \<in> P \<Longrightarrow> c \<in> set (ch p) \<longleftrightarrow> parent (prc k c) = p"
  shows "family k P ch"
  using assms by (auto simp: family_def)

text \<open>Two lists of children have no common member.\<close>

lemma family_disjoint: "family k P ch \<Longrightarrow> p \<in> P \<Longrightarrow> q \<in> P \<Longrightarrow> c \<in> set (ch p) \<Longrightarrow> c \<in> set (ch q) \<Longrightarrow> p = q"
  using familyD(5) by metis

lemma family_irrefl: "family k P ch \<Longrightarrow> p \<in> P \<Longrightarrow> p \<notin> set (ch p)"
  using familyD(4,5) by metis

text \<open>Everything but the links of the tree.\<close>

definition off_tree :: "'a kernel_st_scheme \<Rightarrow> 'a kernel_st_scheme" where
  "off_tree k = k\<lparr>prc := (\<lambda>p. (prc k p)\<lparr>parent := NULL, first_child := NULL, next_sibling := NULL\<rparr>)\<rparr>"

lemma off_tree_setp [simp]:
  "off_tree (setp p (\<lambda>x. x\<lparr>parent := v\<rparr>) k) = off_tree k" "off_tree (setp p (\<lambda>x. x\<lparr>first_child := v\<rparr>) k) = off_tree k"
  "off_tree (setp p (\<lambda>x. x\<lparr>next_sibling := v\<rparr>) k) = off_tree k"
  by (simp_all add: off_tree_def setp_def fun_eq_iff fun_upd_def)

lemma setp_prc: "prc (setp p f k) = (prc k)(p := f (prc k p))" "kernel_process (setp p f k) = kernel_process k"
  by (simp_all add: setp_def)

lemma family_cong:
  assumes "family k P ch" "\<And>p. p \<in> P \<Longrightarrow> first_child (prc k' p) = first_child (prc k p)"
    "\<And>p. p \<in> P \<Longrightarrow> parent (prc k' p) = parent (prc k p)" "\<And>p. p \<in> P \<Longrightarrow> next_sibling (prc k' p) = next_sibling (prc k p)"
  shows "family k' P ch"
proof -
  note d = familyD [OF assms(1)]
  have "llist (sibling_links k') NULL (first_child (prc k' p)) (ch p)" if "p \<in> P" for p
  proof -
    have "sibling_links k' a = sibling_links k a" if "a \<in> set (ch p)" for a
      using that d(3) [OF \<open>p \<in> P\<close>] assms(4) [of a] by (auto simp: sibling_links_def)
    from llist_cong [OF this] show ?thesis using d(2) [OF that] assms(2) [OF that] by simp
  qed
  then show ?thesis by (rule familyI [OF d(1)]) (use d(3,4,8) assms(3) d(5,6) in metis)+
qed

section \<open>Operations on the tree\<close>

lemma family_link:
  assumes "family k P ch" "par \<in> P" "child \<notin> P" "child \<noteq> NULL" "first_child (prc k child) = NULL"
  shows "family (PROC_link_process_child par child k) (insert child P) (ch(par := child # ch par, child := []))"
    "off_tree (PROC_link_process_child par child k) = off_tree k"
proof -
  note d = familyD [OF assms(1)]
  have ne: "par \<noteq> NULL" "par \<noteq> child" using assms(2,3) d(1) by auto
  let ?k = "PROC_link_process_child par child k"
  show "off_tree ?k = off_tree k" using ne assms(4) by (simp add: PROC_link_process_child_def Let_def)
  have f: "prc ?k = (prc k)(child := (prc k child)\<lparr>parent := par, next_sibling := first_child (prc k par)\<rparr>,
      par := (prc k par)\<lparr>first_child := child\<rparr>)"
    using ne assms(4) by (auto simp: PROC_link_process_child_def Let_def setp_prc fun_eq_iff)
  have l: "sibling_links ?k = (sibling_links k)(child := first_child (prc k par))"
    using ne by (simp add: sibling_links_def f fun_eq_iff)
  have out: "child \<notin> set (ch p)" if "p \<in> P" for p using d(3) [OF that] assms(3) by auto
  show "family ?k (insert child P) (ch(par := child # ch par, child := []))"
  proof (rule familyI)
    fix p assume p: "p \<in> insert child P"
    show "llist (sibling_links ?k) NULL (first_child (prc ?k p)) ((ch(par := child # ch par, child := [])) p)"
      using p d(2) out ne assms(2-5) by (auto simp: l f)
    show "set ((ch(par := child # ch par, child := [])) p) \<subseteq> insert child P" using p d(3) assms(2,3) by auto
    show "parent (prc ?k p) \<noteq> p" using p d(4) ne assms(3) by (auto simp: f)
    show "parent (prc ?k p) = NULL \<or> parent (prc ?k p) \<in> insert child P" using p d(8) assms(2) by (auto simp: f)
    fix q assume q: "q \<in> insert child P"
    have "parent (prc k p) \<noteq> child" if "p \<in> P" using d(8) [OF that] assms(3,4) by metis
    then show "p \<in> set ((ch(par := child # ch par, child := [])) q) \<longleftrightarrow> parent (prc ?k p) = q"
      using p q d(5) [of q p] d(6) [of p q] d(5) [of par p] d(6) [of p par] ne assms(2,3) out by (auto simp: f)
  qed (use d(1) assms(4) in auto)
qed

lemma llist_unlink_any:
  assumes "llist nx nil x (as @ t # bs)"
  shows "llist (if as = [] then nx(t := nil) else nx(last as := nx t, t := nil)) nil (if as = [] then nx t else x) (as @ bs)"
proof (cases as rule: rev_cases)
  case Nil
  then show ?thesis using assms llist_distinct [OF assms] by simp
next
  case (snoc as' b)
  then show ?thesis using llist_unlink [of nx nil x as' b t bs] assms by simp
qed

lemma family_unlink:
  assumes "family k P ch" "par \<in> P" "child \<in> set (ch par)"
  shows "\<exists>k'. PROC_unlink_process_child par child k = Some k' \<and> off_tree k' = off_tree k \<and>
    family k' P (ch(par := remove1 child (ch par)))"
proof -
  note d = familyD [OF assms(1)]
  have ne: "par \<noteq> NULL" "child \<noteq> NULL" "child \<in> P" "child \<noteq> par"
    using assms d(1) d(3) [OF assms(2)] family_irrefl [OF assms(1,2)] by auto
  obtain as bs where sp: "ch par = as @ child # bs" "child \<notin> set as" using split_list_first [OF assms(3)] by blast
  then have out: "child \<notin> set bs" using d(7) [OF assms(2)] by simp
  have r: "remove1 child (ch par) = as @ bs" using sp by (simp add: remove1_append)
  note l = d(2) [OF assms(2)]
  have fnd: "list_prev (sibling_links k) NULL child NULL (first_child (prc k par)) = Some (Some (last (NULL # as)))"
    using list_prev_list [OF l, of child NULL] pred_in_append [OF sp(2), of NULL bs] sp(1) by simp
  define pv where "pv = last (NULL # as)"
  have pv: "pv = NULL \<longleftrightarrow> as = []" "as \<noteq> [] \<Longrightarrow> pv \<in> set as"
  proof -
    have "NULL \<notin> set as" using l sp(1) by (auto simp: llist_def)
    then show "pv = NULL \<longleftrightarrow> as = []" using last_in_set [of as] unfolding pv_def by (cases "as = []") (simp, metis last_ConsR)
  qed (simp add: pv_def)
  let ?nxt = "next_sibling (prc k child)"
  let ?k1 = "if pv \<noteq> NULL then setp pv (\<lambda>x. x\<lparr>next_sibling := ?nxt\<rparr>) k else setp par (\<lambda>x. x\<lparr>first_child := ?nxt\<rparr>) k"
  let ?k = "setp child (\<lambda>x. x\<lparr>next_sibling := NULL\<rparr>) (setp child (\<lambda>x. x\<lparr>parent := NULL\<rparr>) ?k1)"
  have u: "PROC_unlink_process_child par child k = Some ?k"
    using ne(1,2) fnd by (simp add: PROC_unlink_process_child_def pv_def)
  have pvc: "pv \<noteq> child" using pv sp(2) ne(2) by (cases "as = []") auto
  have pa: "parent (prc ?k q) = (if q = child then NULL else parent (prc k q))" for q
    using pvc ne(4) by (simp add: setp_prc)
  have fc: "first_child (prc ?k q) = (if q = par \<and> as = [] then ?nxt else first_child (prc k q))" for q
    using pv(1) ne(4) by (simp add: setp_prc)
  have sl: "sibling_links ?k = (if as = [] then (sibling_links k)(child := NULL) else (sibling_links k)(pv := ?nxt, child := NULL))"
    using pv(1) pvc ne(4) by (simp add: setp_prc sibling_links_def fun_eq_iff)
  have own: "llist (sibling_links ?k) NULL (first_child (prc ?k par)) (as @ bs)"
    using llist_unlink_any [of "sibling_links k" NULL "first_child (prc k par)" as child bs] l sp(1)
    unfolding fc sl by (auto simp: pv_def sibling_links_def split: if_splits)
  have oth: "llist (sibling_links ?k) NULL (first_child (prc ?k q)) (ch q)" if q: "q \<in> P" "q \<noteq> par" for q
  proof -
    have "pv \<notin> set (ch q)" if "as \<noteq> []" using pv(2) [OF that] sp(1) family_disjoint [OF assms(1) q(1) assms(2), of pv] q(2) by auto
    moreover have "child \<notin> set (ch q)" using family_disjoint [OF assms(1) q(1) assms(2) _ assms(3)] q(2) by auto
    ultimately show ?thesis using d(2) [OF q(1)] q(2) unfolding fc sl by simp
  qed
  have "family ?k P (ch(par := as @ bs))"
  proof (rule familyI)
    fix p assume p: "p \<in> P"
    show "llist (sibling_links ?k) NULL (first_child (prc ?k p)) ((ch(par := as @ bs)) p)"
      using own oth [OF p] by (cases "p = par") simp_all
    show "set ((ch(par := as @ bs)) p) \<subseteq> P" using d(3) [OF p] d(3) [OF assms(2)] sp(1) by auto
    show "parent (prc ?k p) \<noteq> p" unfolding pa using d(1) d(4) [OF p] p by auto
    show "parent (prc ?k p) = NULL \<or> parent (prc ?k p) \<in> P" unfolding pa using d(8) [OF p] by auto
    fix q assume q: "q \<in> P"
    have "child \<notin> set (ch q)" if "q \<noteq> par" using family_disjoint [OF assms(1) q assms(2) _ assms(3)] that by auto
    then show "p \<in> set ((ch(par := as @ bs)) q) \<longleftrightarrow> parent (prc ?k p) = q"
      unfolding pa using d(5) [OF q, of p] d(6) [OF p q] d(1) q sp out by auto
  qed (rule d(1))
  then show ?thesis using u r by (auto intro: exI [of _ ?k])
qed

lemma reparent_from_list:
  assumes "llist (sibling_links k) NULL x as" "as \<noteq> []"
  shows "reparent_from x k = Some (last as,
    k\<lparr>prc := (\<lambda>p. if p \<in> set (butlast as) then (prc k p)\<lparr>parent := kernel_process k\<rparr> else prc k p)\<rparr>)"
  using assms
proof (induction as arbitrary: x k)
  case (Cons a as)
  show ?case
  proof (cases as)
    case Nil
    then have "x = a" "next_sibling (prc k a) = NULL" using Cons.prems by (auto simp: sibling_links_def)
    then show ?thesis using Nil by (subst reparent_from.simps) simp
  next
    case (Cons b bs)
    let ?k = "setp a (\<lambda>x. x\<lparr>parent := kernel_process k\<rparr>) k"
    have x: "x = a" "next_sibling (prc k a) = b" "b \<noteq> NULL" and d: "a \<notin> set as"
      using Cons.prems Cons llist_distinct [OF Cons.prems(1)] by (auto simp: sibling_links_def)
    have "sibling_links ?k = sibling_links k" by (simp add: sibling_links_def setp_prc fun_eq_iff)
    then have "llist (sibling_links ?k) NULL b as" using Cons.prems(1) Cons by simp
    note ih = Cons.IH [OF this]
    have "a \<notin> set (butlast as)" using d in_set_butlastD by metis
    then show ?thesis using ih x Cons
      by (subst reparent_from.simps) (auto simp: setp_prc fun_eq_iff setp_def)
  qed
qed simp

lemma family_reparent:
  assumes "family k P ch" "ex \<in> P" "kernel_process k \<in> P" "ex \<noteq> kernel_process k" "parent (prc k (kernel_process k)) = NULL"
  shows "\<exists>k'. PROC_reparent_children ex k = Some k' \<and> off_tree k' = off_tree k \<and>
    family k' P (ch(ex := [], kernel_process k := ch ex @ ch (kernel_process k)))"
proof (cases "ch ex = []")
  case True
  have "first_child (prc k ex) = NULL" using familyD(2) [OF assms(1,2)] True by simp
  then have "PROC_reparent_children ex k = Some k" by (simp add: PROC_reparent_children_def)
  moreover have "ch(ex := [], kernel_process k := ch ex @ ch (kernel_process k)) = ch" using True by (simp add: fun_eq_iff)
  ultimately show ?thesis using assms(1) by simp
next
  case False
  note d = familyD [OF assms(1)]
  let ?kp = "kernel_process k" and ?z = "last (ch ex)"
  have ne: "ex \<noteq> NULL" "first_child (prc k ex) \<noteq> NULL" using assms(2) d(1) d(2) [OF assms(2)] False by auto
  note l = d(2) [OF assms(2)]
  have zi: "?z \<in> set (ch ex)" using False by simp
  then have z: "?z \<in> set (ch ex)" "?z \<in> P" "?z \<noteq> ex" "?z \<noteq> ?kp"
    using d(3) [OF assms(2)] d(4) [of ?z] d(5) [OF assms(2) zi] assms(5) ne(1) by auto
  have kpx: "?kp \<notin> set (ch ex)" using d(5) [OF assms(2), of ?kp] assms(5) ne(1) by auto
  let ?m = "\<lambda>p. if p \<in> set (butlast (ch ex)) then (prc k p)\<lparr>parent := ?kp\<rparr> else prc k p"
  let ?k1 = "k\<lparr>prc := ?m\<rparr>"
  let ?k2 = "setp ?z (\<lambda>x. x\<lparr>next_sibling := first_child (prc k ?kp)\<rparr>) (setp ?z (\<lambda>x. x\<lparr>parent := ?kp\<rparr>) ?k1)"
  let ?k = "setp ex (\<lambda>x. x\<lparr>first_child := NULL\<rparr>) (setp ?kp (\<lambda>x. x\<lparr>first_child := first_child (prc k ex)\<rparr>) ?k2)"
  have sub: "p \<in> set (butlast (ch ex)) \<Longrightarrow> p \<in> set (ch ex)" for p by (rule in_set_butlastD)
  have al: "p \<in> set (ch ex) \<longleftrightarrow> p \<in> set (butlast (ch ex)) \<or> p = ?z" for p
    using append_butlast_last_id [OF False] by (metis in_set_conv_decomp set_ConsD set_append UnE UnI1 list.set_intros(1) sub z(1) empty_iff empty_set)
  have fst: "first_child (prc ?k2 q) = first_child (prc k q)" for q by (simp add: setp_prc)
  have r: "PROC_reparent_children ex k = Some ?k"
    using ne reparent_from_list [OF l False] assms(4) z(3,4) kpx sub by (simp add: PROC_reparent_children_def setp_prc Let_def)
  have "off_tree ?k1 = off_tree k" by (simp add: off_tree_def fun_eq_iff)
  then have o: "off_tree ?k = off_tree k" by simp
  have pa: "parent (prc ?k q) = (if q \<in> set (ch ex) then ?kp else parent (prc k q))" for q
    unfolding al using assms(4) z(3,4) by (simp add: setp_prc)
  have fc: "first_child (prc ?k q) = (if q = ex then NULL else if q = ?kp then first_child (prc k ex) else first_child (prc k q))" for q
    using assms(4) by (simp add: setp_prc)
  have sl: "sibling_links ?k = (sibling_links k)(?z := first_child (prc k ?kp))"
    using assms(4) z(3,4) by (simp add: setp_prc sibling_links_def fun_eq_iff)
  have joined: "llist (sibling_links ?k) NULL (first_child (prc k ex)) (ch ex @ ch ?kp)"
  proof -
    have "?z \<notin> set (ch ?kp)" using family_disjoint [OF assms(1) assms(3,2) _ z(1)] assms(4) by auto
    then have "llist (sibling_links ?k) NULL (first_child (prc k ?kp)) (ch ?kp)" using d(2) [OF assms(3)] unfolding sl by simp
    moreover have "lpath (sibling_links ?k) (first_child (prc k ex)) (ch ex) (first_child (prc k ?kp))"
      unfolding sl by (rule lpath_retarget [where y = NULL, OF _ False d(7) [OF assms(2)]]) (use l in \<open>simp add: llist_def\<close>)
    ultimately show ?thesis using l by (auto simp: llist_append llist_def)
  qed
  have "family ?k P (ch(ex := [], ?kp := ch ex @ ch ?kp))"
  proof (rule familyI [OF d(1)])
    fix p assume p: "p \<in> P"
    have "?z \<notin> set (ch p)" if "p \<noteq> ex" using family_disjoint [OF assms(1) p assms(2) _ z(1)] that by auto
    then show "llist (sibling_links ?k) NULL (first_child (prc ?k p)) ((ch(ex := [], ?kp := ch ex @ ch ?kp)) p)"
      using joined d(2) [OF p] assms(4) unfolding fc sl by auto
    show "set ((ch(ex := [], ?kp := ch ex @ ch ?kp)) p) \<subseteq> P" using d(3) p assms(2,3) by auto
    show "parent (prc ?k p) \<noteq> p" unfolding pa using d(4) [OF p] kpx by auto
    show "parent (prc ?k p) = NULL \<or> parent (prc ?k p) \<in> P" unfolding pa using d(8) [OF p] assms(3) by auto
    fix q assume q: "q \<in> P"
    have i: "p \<in> set (ch x) \<longleftrightarrow> parent (prc k p) = x" if "x \<in> P" for x using d(5) [OF that, of p] d(6) [OF p that] by blast
    show "p \<in> set ((ch(ex := [], ?kp := ch ex @ ch ?kp)) q) \<longleftrightarrow> parent (prc ?k p) = q"
      unfolding pa fun_upd_apply using i [OF q] i [OF assms(2)] i [OF assms(3)] assms(4)
      by (cases "q = ?kp"; cases "q = ex"; cases "p \<in> set (ch ex)") simp_all
  qed
  then show ?thesis using r o by blast
qed

lemma find_zombie_child:
  assumes "family k P ch" "par \<in> P"
  shows "PROC_find_zombie_child par k = Some (case find (\<lambda>c. zombie (prc k c)) (ch par) of Some c \<Rightarrow> c | None \<Rightarrow> NULL)"
  using list_find_list [OF familyD(2) [OF assms]] familyD(1) [OF assms(1)] assms(2)
  by (auto simp: PROC_find_zombie_child_def)

section \<open>Threads of a process\<close>

text \<open>
  Processes with their children \<open>ch\<close> and threads \<open>ts\<close>; a zombie has handed its children over.
\<close>

definition processes :: "'a kernel_st_scheme \<Rightarrow> ptr set \<Rightarrow> (ptr \<Rightarrow> ptr list) \<Rightarrow> (ptr \<Rightarrow> ptr list) \<Rightarrow> bool" where
  "processes k P ch ts \<longleftrightarrow> family k P ch \<and> (\<forall>p \<in> P. zombie (prc k p) \<longrightarrow> ch p = []) \<and>
     (\<forall>p \<in> P. llist (thread_links (thr k)) NULL (threads (prc k p)) (ts p) \<and> (\<forall>t \<in> set (ts p). owner (thr k t) = p))"

lemma processesD:
  assumes "processes k P ch ts"
  shows "family k P ch" "p \<in> P \<Longrightarrow> zombie (prc k p) \<Longrightarrow> ch p = []"
    "p \<in> P \<Longrightarrow> llist (thread_links (thr k)) NULL (threads (prc k p)) (ts p)" "p \<in> P \<Longrightarrow> t \<in> set (ts p) \<Longrightarrow> owner (thr k t) = p"
  using assms by (auto simp: processes_def)

lemma free_thread_returns:
  assumes "\<not> halted (mm k)"
  shows "\<exists>m. PROC_free_thread t k = Some (k\<lparr>mm := m\<rparr>) \<and> \<not> halted m"
proof (cases "t = NULL")
  case True
  then show ?thesis using assms by (auto simp: PROC_free_thread_def intro: exI [of _ "mm k"])
qed (use assms in \<open>auto simp: PROC_free_thread_def run_mm_def kfree_halted\<close>)

lemma free_threads_list:
  assumes "llist (thread_links (thr k)) NULL t as" "\<not> halted (mm k)"
  shows "\<exists>m. free_threads t k = Some (k\<lparr>mm := m\<rparr>) \<and> \<not> halted m"
  using assms
proof (induction as arbitrary: t k)
  case Nil
  then show ?case by (auto simp: free_threads.simps intro: exI [of _ "mm k"])
next
  case (Cons a as)
  obtain m where m: "PROC_free_thread a k = Some (k\<lparr>mm := m\<rparr>)" "\<not> halted m" using free_thread_returns [OF Cons.prems(2)] by blast
  have "\<exists>m'. free_threads (next_thread (thr k a)) (k\<lparr>mm := m\<rparr>) = Some (k\<lparr>mm := m\<rparr>\<lparr>mm := m'\<rparr>) \<and> \<not> halted m'"
    by (rule Cons.IH) (use Cons.prems(1) m(2) in \<open>auto simp: thread_links_def\<close>)
  then show ?case using m Cons.prems(1) by (subst free_threads.simps) auto
qed

text \<open>Storing into user memory changes memory management only.\<close>

lemma store_user_byte_mm: "store_user_byte va b k = Some k' \<Longrightarrow> \<exists>m. k' = k\<lparr>mm := m\<rparr> \<and> (\<not> halted (mm k) \<longrightarrow> \<not> halted m)"
  by (auto simp: store_user_byte_def touch_user_def run_mm_def on_mm_def Let_def bind_eq_Some_conv split: if_splits option.splits)

lemma store_user_int_mm:
  assumes "store_user_int va v k = Some k'" "\<not> halted (mm k)"
  shows "\<exists>m. k' = k\<lparr>mm := m\<rparr> \<and> \<not> halted m"
proof -
  obtain k1 k2 k3 where s: "store_user_byte va (ucast v) k = Some k1" "store_user_byte (va + 1) (ucast (drop_bit 8 v)) k1 = Some k2"
    "store_user_byte (va + 2) (ucast (drop_bit 16 v)) k2 = Some k3" "store_user_byte (va + 3) (ucast (drop_bit 24 v)) k3 = Some k'"
    using assms(1) unfolding store_user_int_def bind_eq_Some_conv by blast
  obtain m1 m2 m3 m4 where "k1 = k\<lparr>mm := m1\<rparr>" "\<not> halted m1" "k2 = k1\<lparr>mm := m2\<rparr>" "\<not> halted m2" "k3 = k2\<lparr>mm := m3\<rparr>" "\<not> halted m3"
    "k' = k3\<lparr>mm := m4\<rparr>" "\<not> halted m4"
    using store_user_byte_mm [OF s(1)] store_user_byte_mm [OF s(2)] store_user_byte_mm [OF s(3)] store_user_byte_mm [OF s(4)] assms(2)
    by force
  then show ?thesis by auto
qed

lemma off_treeD:
  assumes "off_tree k' = off_tree k"
  shows "thr k' = thr k" "mm k' = mm k" "zombie (prc k' p) = zombie (prc k p)" "threads (prc k' p) = threads (prc k p)"
    "pid (prc k' p) = pid (prc k p)" "p_exit_status (prc k' p) = p_exit_status (prc k p)" "live_threads (prc k' p) = live_threads (prc k p)"
proof -
  show "thr k' = thr k" using arg_cong [OF assms, of thr] by (simp add: off_tree_def)
  show "mm k' = mm k" using arg_cong [OF assms, of mm] by (simp add: off_tree_def)
  have "prc (off_tree k') p = prc (off_tree k) p" using assms by simp
  then have e: "(prc k' p)\<lparr>parent := NULL, first_child := NULL, next_sibling := NULL\<rparr> =
      (prc k p)\<lparr>parent := NULL, first_child := NULL, next_sibling := NULL\<rparr>" by (simp add: off_tree_def)
  show "zombie (prc k' p) = zombie (prc k p)" "threads (prc k' p) = threads (prc k p)" "pid (prc k' p) = pid (prc k p)"
    "p_exit_status (prc k' p) = p_exit_status (prc k p)" "live_threads (prc k' p) = live_threads (prc k p)"
    using arg_cong [OF e, of zombie] arg_cong [OF e, of threads] arg_cong [OF e, of pid] arg_cong [OF e, of p_exit_status]
      arg_cong [OF e, of live_threads] by simp_all
qed

lemma processes_mm [simp]: "processes (k\<lparr>mm := m\<rparr>) P ch ts = processes k P ch ts"
  by (simp add: processes_def family_def sibling_links_def)

text \<open>A childless process without a parent can leave the family.\<close>

lemma processes_drop:
  assumes "processes k P ch ts" "ch c = []" "parent (prc k c) = NULL" "c \<in> P"
  shows "processes k (P - {c}) ch ts"
proof -
  note d = familyD [OF processesD(1) [OF assms(1)]]
  have out: "c \<notin> set (ch p)" if "p \<in> P" for p using d(5) [OF that, of c] assms(3) d(1) that by auto
  have "parent (prc k p) \<noteq> c" if "p \<in> P" for p using d(6) [OF that assms(4)] assms(2) by auto
  then have np: "parent (prc k p) \<noteq> c" if "p \<in> P - {c}" for p using that by blast
  have "family k (P - {c}) ch"
  proof (rule familyI)
    fix p assume p: "p \<in> P - {c}"
    show "llist (sibling_links k) NULL (first_child (prc k p)) (ch p)" "set (ch p) \<subseteq> P - {c}" "parent (prc k p) \<noteq> p"
      using d(2-4) [of p] out [of p] p by auto
    show "parent (prc k p) = NULL \<or> parent (prc k p) \<in> P - {c}" using d(8) [of p] np [OF p] p by auto
    fix q assume "q \<in> P - {c}"
    then show "p \<in> set (ch q) \<longleftrightarrow> parent (prc k p) = q" using d(5) [of q p] d(6) [of p q] p by auto
  qed (use d(1) in auto)
  then show ?thesis using assms(1) by (simp add: processes_def)
qed

text \<open>The optional store of a status through a pointer of the caller.\<close>

lemma store_status:
  assumes "\<not> halted (mm k)" "\<And>v. va \<noteq> NULL \<Longrightarrow> store_user_int va v k \<noteq> None"
  shows "\<exists>m. (if va \<noteq> NULL then store_user_int va v k else Some k) = Some (k\<lparr>mm := m\<rparr>) \<and> \<not> halted m"
proof (cases "va = NULL")
  case True
  then show ?thesis using assms(1) by (auto intro: exI [of _ "mm k"])
next
  case False
  then obtain k1 where "store_user_int va v k = Some k1" using assms(2) by blast
  then show ?thesis using store_user_int_mm [OF _ assms(1)] False by auto
qed

section \<open>Reaping a child\<close>

text \<open>The part of \<open>wait\<close> behind the search: the status is stored, the child leaves the tree and its memory is freed.\<close>

lemma reap_child:
  assumes "processes k P ch ts" "par \<in> P" "c \<in> set (ch par)" "zombie (prc k c)" "\<not> halted (mm k)"
  shows "\<exists>k'. do { k \<leftarrow> PROC_unlink_process_child par c k; k \<leftarrow> free_threads (threads (prc k c)) k; PROC_free_process c k } = Some k' \<and>
    processes k' (P - {c}) (ch(par := remove1 c (ch par))) ts \<and> thr k' = thr k \<and> \<not> halted (mm k')"
proof -
  note d = processesD [OF assms(1)]
  note f = familyD [OF d(1)]
  have c: "c \<in> P" "c \<noteq> NULL" "c \<noteq> par" using assms(2,3) f(1) f(3) [OF assms(2)] family_irrefl [OF d(1) assms(2)] by auto
  obtain k1 where k1: "PROC_unlink_process_child par c k = Some k1" "off_tree k1 = off_tree k" "family k1 P (ch(par := remove1 c (ch par)))"
    using family_unlink [OF d(1) assms(2,3)] by blast
  note o = off_treeD [OF k1(2)]
  let ?ch = "ch(par := remove1 c (ch par))"
  have p1: "processes k1 P ?ch ts" using k1(3) d(2-4) by (auto simp: processes_def o)
  have "parent (prc k1 c) \<notin> P"
  proof
    assume a: "parent (prc k1 c) \<in> P"
    have "c \<in> set (?ch (parent (prc k1 c)))" using familyD(6) [OF k1(3) c(1) a] by simp
    then show False using family_disjoint [OF d(1) assms(2) a assms(3)] f(7) [OF assms(2)] by (auto split: if_splits)
  qed
  then have "parent (prc k1 c) = NULL" using familyD(8) [OF k1(3) c(1)] by blast
  then have p2: "processes k1 (P - {c}) ?ch ts" by (intro processes_drop [OF p1]) (use d(2) [OF c(1) assms(4)] c in simp_all)
  have "llist (thread_links (thr k1)) NULL (threads (prc k1 c)) (ts c)" "\<not> halted (mm k1)" using d(3) [OF c(1)] assms(5) by (simp_all add: o)
  from free_threads_list [OF this] obtain m where m: "free_threads (threads (prc k1 c)) k1 = Some (k1\<lparr>mm := m\<rparr>)" "\<not> halted m" by blast
  show ?thesis using k1(1) m c(2) p2 by (auto simp: PROC_free_process_def run_mm_def kfree_halted o)
qed


section \<open>Joining a thread\<close>

lemma processes_unlink_thread:
  assumes "processes k P ch ts" "own \<in> P" "t \<in> set (ts own)"
  shows "\<exists>k'. PROC_unlink_thread own t k = Some k' \<and> mm k' = mm k \<and> processes k' P ch (ts(own := remove1 t (ts own))) \<and>
    (\<forall>x. run_state (thr k' x) = run_state (thr k x) \<and> tid (thr k' x) = tid (thr k x))"
proof -
  note d = processesD [OF assms(1)]
  note l = d(3) [OF assms(2)]
  have ne: "own \<noteq> NULL" "t \<noteq> NULL" using familyD(1) [OF d(1)] assms(2,3) l by (auto simp: llist_def)
  obtain as bs where sp: "ts own = as @ t # bs" "t \<notin> set as" using split_list_first [OF assms(3)] by blast
  have r: "remove1 t (ts own) = as @ bs" using sp by (simp add: remove1_append)
  define pv where "pv = last (NULL # as)"
  have pv: "pv = NULL \<longleftrightarrow> as = []" "as \<noteq> [] \<Longrightarrow> pv \<in> set as" "as \<noteq> [] \<Longrightarrow> pv = last as" "pv \<noteq> t"
  proof -
    have n: "NULL \<notin> set as" using l sp(1) by (auto simp: llist_def)
    then show "pv = NULL \<longleftrightarrow> as = []" using last_in_set [of as] unfolding pv_def by (cases "as = []") (simp, metis last_ConsR)
    show "pv \<noteq> t" using sp(2) ne(2) last_in_set [of as] unfolding pv_def by (cases "as = []") (simp, metis last_ConsR)
  qed (simp_all add: pv_def)
  let ?nxt = "next_thread (thr k t)"
  let ?k1 = "if pv \<noteq> NULL then sett pv (\<lambda>x. x\<lparr>next_thread := ?nxt\<rparr>) k else setp own (\<lambda>x. x\<lparr>threads := ?nxt\<rparr>) k"
  let ?k = "sett t (\<lambda>x. x\<lparr>next_thread := NULL\<rparr>) ?k1"
  have u: "PROC_unlink_thread own t k = Some ?k"
    using ne list_prev_list [OF l, of t NULL] pred_in_append [OF sp(2), of NULL bs] sp(1) by (simp add: PROC_unlink_thread_def pv_def)
  have th: "threads (prc ?k p) = (if p = own \<and> as = [] then ?nxt else threads (prc k p))" for p
    using pv(1) by (simp add: setp_def sett_def)
  have tl: "thread_links (thr ?k) = (if as = [] then (thread_links (thr k))(t := NULL) else (thread_links (thr k))(last as := ?nxt, t := NULL))"
    using pv by (auto simp: thread_links_def setp_def sett_def fun_eq_iff)
  have same: "owner (thr ?k x) = owner (thr k x)" "run_state (thr ?k x) = run_state (thr k x)" "tid (thr ?k x) = tid (thr k x)" for x
    by (simp_all add: setp_def sett_def)
  have "llist (thread_links (thr ?k)) NULL (threads (prc ?k p)) ((ts(own := as @ bs)) p)" if p: "p \<in> P" for p
  proof (cases "p = own")
    case True
    then show ?thesis using llist_unlink_any [of "thread_links (thr k)" NULL "threads (prc k own)" as t bs] l sp(1)
      unfolding th tl by (auto simp: thread_links_def split: if_splits)
  next
    case False
    have "x \<notin> set (ts p)" if "x \<in> set (ts own)" for x using d(4) [OF p] d(4) [OF assms(2) that] False by metis
    then have "t \<notin> set (ts p)" "as \<noteq> [] \<Longrightarrow> last as \<notin> set (ts p)" using sp(1) by auto
    then show ?thesis using d(3) [OF p] False unfolding th tl by simp
  qed
  moreover have "family ?k P ch" by (rule family_cong [OF d(1)]) (simp_all add: setp_def sett_def)
  moreover have "zombie (prc ?k p) = zombie (prc k p)" for p by (simp add: setp_def sett_def)
  moreover have "owner (thr ?k x) = p" if "p \<in> P" "x \<in> set ((ts(own := as @ bs)) p)" for p x
    unfolding same using d(4) [OF that(1), of x] that(2) sp(1) by (auto split: if_splits)
  ultimately have "processes ?k P ch (ts(own := as @ bs))" using d(2) unfolding processes_def by blast
  moreover have "mm ?k = mm k" by (simp add: setp_def sett_def)
  ultimately show ?thesis using u r same by auto
qed

text \<open>
  Joining a thread of the own process. Joining itself, or a number that no thread of the process has,
  is refused. A dead thread is joined at once: its number is returned, it leaves the list of the
  process and its memory is freed. Otherwise the caller blocks until some thread of the process ends.
\<close>

theorem join_correct:
  assumes "processes k P ch ts" "threads_ok k r W Q" "curr_proc k \<in> set r" "owner (thr k (curr_proc k)) = own" "own \<in> P"
    "Q_thread own \<in> Q" "multitask_started k" "main_thread k \<noteq> NULL" "\<not> halted (mm k)"
    "\<And>v. get_reg frame F_rsi k \<noteq> NULL \<Longrightarrow> store_user_int (get_reg frame F_rsi k) v k \<noteq> None"
    "get_reg frame F_rdi k = x"
  shows "if x = tid (thr k (curr_proc k)) then syscall_thread_join frame sp k = Some (Ret (-1), k)
    else case find (\<lambda>t. tid (thr k t) = x) (ts own) of
      None \<Rightarrow> syscall_thread_join frame sp k = Some (Ret (-1), k)
    | Some t \<Rightarrow> if run_state (thr k t) = PROC_ZOMBIE
        then \<exists>k'. syscall_thread_join frame sp k = Some (Ret x, k') \<and> processes k' P ch (ts(own := remove1 t (ts own)))
        else \<exists>k'. syscall_thread_join frame sp k = Some (Blocked (In_thread_join own x (get_reg frame F_rsi k)), k') \<and>
          bare k' = bare k \<and> run_state (thr k' (curr_proc k)) = PROC_BLOCKED \<and>
          threads_ok k' (rotate1 (removeAll (curr_proc k) r)) (W(Q_thread own := W (Q_thread own) @ [curr_proc k])) Q"
proof -
  note d = processesD [OF assms(1)]
  have ne: "own \<noteq> NULL" "curr_proc k \<noteq> NULL" using familyD(1) [OF d(1)] assms(3,5) threads_okD(4) [OF assms(2)] by auto
  have j: "syscall_thread_join frame sp k =
      (if x = tid (thr k (curr_proc k)) then Some (Ret (-1), k) else join_round own x (get_reg frame F_rsi k) sp k)"
    using ne assms(4,11) by (simp add: syscall_thread_join_def no_process_def Let_def)
  have f: "PROC_find_thread own x k = Some (case find (\<lambda>t. tid (thr k t) = x) (ts own) of Some t \<Rightarrow> t | None \<Rightarrow> NULL)"
    using ne(1) list_find_list [OF d(3) [OF assms(5)]] by (simp add: PROC_find_thread_def)
  show ?thesis
  proof (cases "x = tid (thr k (curr_proc k)) \<or> find (\<lambda>t. tid (thr k t) = x) (ts own) = None")
    case True
    then show ?thesis using j f by (auto simp: join_round_def)
  next
    case False
    then obtain t where t: "find (\<lambda>t. tid (thr k t) = x) (ts own) = Some t" by blast
    then have tin: "t \<in> set (ts own)" by (auto simp: find_Some_iff)
    then have "t \<noteq> NULL" using d(3) [OF assms(5)] by (auto simp: llist_def)
    then have jt: "syscall_thread_join frame sp k = join_target own x (get_reg frame F_rsi k) t sp k"
      using j f t False by (simp add: join_round_def)
    show ?thesis
    proof (cases "run_state (thr k t) = PROC_ZOMBIE")
      case True
      obtain k1 m where k1: "(if get_reg frame F_rsi k \<noteq> NULL then store_user_int (get_reg frame F_rsi k) (exit_status (thr k t)) k else Some k) = Some k1"
        "k1 = k\<lparr>mm := m\<rparr>" "\<not> halted m" using store_status [OF assms(9,10)] by metis
      have "processes k1 P ch ts" using assms(1) k1(2) by simp
      from processes_unlink_thread [OF this assms(5) tin] obtain k2 where
        k2: "PROC_unlink_thread own t k1 = Some k2" "mm k2 = m" "processes k2 P ch (ts(own := remove1 t (ts own)))" using k1(2) by auto
      obtain m' where "PROC_free_thread t k2 = Some (k2\<lparr>mm := m'\<rparr>)" using free_thread_returns [of k2 t] k2(2) k1(3) by auto
      then show ?thesis using jt True k1(1) k2(1,3) t False by (simp add: join_target_def)
    next
      case no: False
      obtain k' where "PROC_block_on (Q_thread own) True sp (on_mm CLI k) = Some k'" "bare k' = bare k"
        "threads_ok k' (rotate1 (removeAll (curr_proc k) r)) (W(Q_thread own := W (Q_thread own) @ [curr_proc k])) Q"
        "run_state (thr k' (curr_proc k)) = PROC_BLOCKED"
        using threads_block_on [of "on_mm CLI k" r W Q "Q_thread own" True sp] assms(2,3,6-8) by (auto simp: Let_def)
      then show ?thesis using jt no t False by (simp add: join_target_def)
    qed
  qed
qed

section \<open>The end of a thread\<close>

text \<open>Marking the thread and taking it off the scheduler.\<close>

definition mark_dead :: "ptr \<Rightarrow> u32 \<Rightarrow> 'a kernel_st_scheme \<Rightarrow> 'a kernel_st_scheme" where
  "mark_dead t status k =
     setp (owner (thr k t)) (\<lambda>x. x\<lparr>live_threads := live_threads x - 1\<rparr>)
       (sett t (\<lambda>x. x\<lparr>run_state := PROC_ZOMBIE, exit_status := status\<rparr>) k)"

lemma mark_dead_fields:
  "thr (mark_dead t status k) = (thr k)(t := (thr k t)\<lparr>run_state := PROC_ZOMBIE, exit_status := status\<rparr>)"
  "prc (mark_dead t status k) = (prc k)(owner (thr k t) := (prc k (owner (thr k t)))\<lparr>live_threads := live_threads (prc k (owner (thr k t))) - 1\<rparr>)"
  "curr_proc (mark_dead t status k) = curr_proc k" "multitask_started (mark_dead t status k) = multitask_started k"
  "main_thread (mark_dead t status k) = main_thread k"
  by (simp_all add: mark_dead_def setp_def sett_def)

lemma mark_dead_places: "same_places k (mark_dead t status k)"
  unfolding mark_dead_def by (rule same_places_trans [OF same_places_sett same_places_setp]) simp_all

lemma processes_mark_dead: "processes k P ch ts \<Longrightarrow> processes (mark_dead t status k) P ch ts"
proof -
  assume p: "processes k P ch ts"
  have "family (mark_dead t status k) P ch" by (rule family_cong [OF processesD(1) [OF p]]) (simp_all add: mark_dead_fields)
  moreover have "thread_links (thr (mark_dead t status k)) = thread_links (thr k)" by (simp add: thread_links_def mark_dead_fields fun_eq_iff)
  moreover have "threads (prc (mark_dead t status k) q) = threads (prc k q)" "zombie (prc (mark_dead t status k) q) = zombie (prc k q)"
    "owner (thr (mark_dead t status k) x) = owner (thr k x)" for q x by (simp_all add: mark_dead_fields)
  ultimately show ?thesis using p unfolding processes_def by auto
qed

lemma processes_core: "core k' = core k \<Longrightarrow> processes k P ch ts \<Longrightarrow> processes k' P ch ts"
proof -
  assume c: "core k' = core k" and p: "processes k P ch ts"
  have "family k' P ch" by (rule family_cong [OF processesD(1) [OF p]]) (simp_all add: core_prc [OF c])
  moreover have "thread_links (thr k') = thread_links (thr k)" by (simp add: thread_links_def core_thr [OF c])
  ultimately show ?thesis using p by (simp add: processes_def core_prc [OF c] core_thr [OF c])
qed

text \<open>Rescheduling when no thread is current.\<close>

lemma reschedule_without_current:
  assumes "threads_ok k r W Q" "curr_proc k = NULL" "multitask_started k" "c \<notin> set r" "c \<noteq> NULL"
  shows "threads_ok (PROC_reschedule k) (rotate1 r) W Q" "next_proc (PROC_reschedule k) = (if r = [] then main_thread k else hd r)"
    "core (PROC_reschedule k) = core (k\<lparr>next_proc := next_proc (PROC_reschedule k)\<rparr>)"
    "run_state (thr (PROC_reschedule k) c) = run_state (thr k c)"
proof -
  have "threads_ok (PROC_reschedule k) (rotate1 r) W Q \<and> next_proc (PROC_reschedule k) = (if r = [] then main_thread k else hd r) \<and>
      core (PROC_reschedule k) = core (k\<lparr>next_proc := next_proc (PROC_reschedule k)\<rparr>) \<and>
      run_state (thr (PROC_reschedule k) c) = run_state (thr k c)"
  proof (cases "r = []")
    case True
    then show ?thesis using reschedule_idle [of k W Q] assms(1,3) threads_ok_same [OF same_places_vars(2) [where k = k and a = "main_thread k"]] by auto
  next
    case False
    then have "pick (curr_proc k) r = (hd r, rotate1 r)" "c \<noteq> hd r" using pick_absent [of "NULL :: ptr" r] threads_okD(4) [OF assms(1)] assms(2,4) by auto
    then show ?thesis using reschedule_pick(1-3) [OF assms(1) False] reschedule_pick(4) [OF assms(1) False, of c] False assms(5) assms(2)
      by (simp add: core_next_proc next_state_def)
  qed
  then show "threads_ok (PROC_reschedule k) (rotate1 r) W Q" "next_proc (PROC_reschedule k) = (if r = [] then main_thread k else hd r)"
    "core (PROC_reschedule k) = core (k\<lparr>next_proc := next_proc (PROC_reschedule k)\<rparr>)"
    "run_state (thr (PROC_reschedule k) c) = run_state (thr k c)" by simp_all
qed

text \<open>From marking the thread to waking those that wait for it.\<close>

lemma dead_thread_leaves:
  assumes "threads_ok k r W Q" "c \<in> set r" "Q_thread own \<in> Q"
  shows "\<exists>k2 k3 r3. PROC_remove c (mark_dead c status k) = Some k2 \<and> PROC_unblock_all (Q_thread own) k2 = Some k3 \<and>
    core k3 = core (mark_dead c status k) \<and> threads_ok k3 r3 (W(Q_thread own := [])) Q \<and> c \<notin> set r3 \<and> run_state (thr k3 c) = PROC_ZOMBIE \<and>
    mset r3 = mset (removeAll c r) + mset (filter (\<lambda>t. can_wake t k) (W (Q_thread own)))"
proof -
  let ?k1 = "mark_dead c status k" and ?w = "W (Q_thread own)"
  have "threads_ok ?k1 r W Q" using assms(1) threads_ok_same [OF mark_dead_places] by blast
  from threads_remove [OF this assms(2)] obtain k2 where
    k2: "PROC_remove c ?k1 = Some k2" "threads_ok k2 (removeAll c r) W Q" "sched_only ?k1 k2" by blast
  note c2 = core_sched_only [OF k2(3)]
  have rs2: "run_state (thr k2 t) = run_state (thr ?k1 t)" for t by (rule sched_onlyD(1) [OF k2(3)])
  obtain k3 r3 where k3: "PROC_unblock_all (Q_thread own) k2 = Some k3" "core k3 = core k2" "threads_ok k3 r3 (W(Q_thread own := [])) Q"
    "mset r3 = mset (removeAll c r) + mset (filter (\<lambda>t. can_wake t k2) ?w)"
    "\<And>t. run_state (thr k3 t) = (if t \<in> set (filter (\<lambda>t. can_wake t k2) ?w) then PROC_READY else run_state (thr k2 t))"
    using threads_unblock_all [OF k2(2) assms(3)] by metis
  have out: "c \<notin> set ?w" using threads_okD(7) [OF assms(1,3)] assms(2) by auto
  have "can_wake t k2 = can_wake t k" if "t \<noteq> c" for t
    using that by (simp add: can_wake_def rs2 core_thr [OF c2] core_prc [OF c2] mark_dead_fields)
  then have "filter (\<lambda>t. can_wake t k2) ?w = filter (\<lambda>t. can_wake t k) ?w" using out by (intro filter_cong refl) metis
  moreover have "c \<notin> set r3"
  proof -
    have "set r3 = set (removeAll c r) \<union> set (filter (\<lambda>t. can_wake t k2) ?w)" using arg_cong [OF k3(4), of set_mset] by simp
    then show ?thesis using out by auto
  qed
  moreover have "run_state (thr k3 c) = PROC_ZOMBIE" using k3(5) out by (simp add: rs2 mark_dead_fields)
  ultimately show ?thesis using k2(1) k3(1-4) c2 by auto
qed


text \<open>
  C28: When a process ends, its children become children of the kernel's process, in front of those it has
  and in their order; no other list of children and nothing else of any process or thread changes.
\<close>

theorem reparent_children_correct:
  assumes "family k P ch" "ex \<in> P" "kernel_process k \<in> P" "ex \<noteq> kernel_process k" "parent (prc k (kernel_process k)) = NULL"
  shows "\<exists>k'. PROC_reparent_children ex k = Some k' \<and> off_tree k' = off_tree k \<and>
    family k' P (ch(ex := [], kernel_process k := ch ex @ ch (kernel_process k)))"
  by (rule family_reparent [OF assms])

section \<open>A concrete tree\<close>

text \<open>
  The example of the wait queues with a dead child 0x6000 of the process 0x5000, whose parent is the
  kernel's process 0x80. The system call frame at 0x9000 asks for the thread with number 2.
\<close>

definition tree_example :: kernel_st where
  "tree_example =
     on_mm (\<lambda>m. m\<lparr>kheap := (kheap m)(frame_addr 0x9000 F_rdi := 2)\<rparr>)
      (sett 0x100 (\<lambda>t. t\<lparr>owner := 0x80\<rparr>)
        (setp 0x5000 (\<lambda>p. p\<lparr>first_child := 0x6000\<rparr>)
          (setp 0x6000 (\<lambda>p. p\<lparr>pid := 2, parent := 0x5000, zombie := True, p_exit_status := 7\<rparr>) kernel_example)))"

definition tree_children :: "ptr \<Rightarrow> ptr list" where
  "tree_children = (\<lambda>_. [])(0x80 := [0x5000], 0x5000 := [0x6000])"

definition tree_threads :: "ptr \<Rightarrow> ptr list" where
  "tree_threads = (\<lambda>_. [])(0x80 := [0x100], 0x5000 := [0x1000, 0x2000, 0x3000])"

lemma tree_example_threads: "threads_ok tree_example [0x2000, 0x1000] example_waits example_queues"
proof -
  have "same_places kernel_example tree_example"
    unfolding tree_example_def
    by (rule same_places_trans [OF same_places_trans [OF same_places_trans [OF same_places_setp same_places_setp] same_places_sett] same_places_mm])
      simp_all
  then show ?thesis using kernel_example_ok threads_ok_same by blast
qed

lemma tree_example_processes: "processes tree_example {0x80, 0x5000, 0x6000} tree_children tree_threads"
proof -
  have "family tree_example {0x80, 0x5000, 0x6000} tree_children"
    by (rule familyI) (auto simp: tree_example_def kernel_example_def setp_def sett_def on_mm_def tree_children_def sibling_links_def process_zero_def)
  then show ?thesis
    by (auto simp: processes_def tree_example_def kernel_example_def setp_def sett_def on_mm_def tree_children_def tree_threads_def
        thread_links_def process_zero_def thread_zero_def example_thread_def)
qed

lemma tree_example_fields:
  "curr_proc tree_example = 0x1000" "multitask_started tree_example" "main_thread tree_example = 0x100" "\<not> halted (mm tree_example)"
  "owner (thr tree_example 0x1000) = 0x5000" "kernel_process tree_example = 0x80" "live_threads (prc tree_example 0x5000) = 3"
  "parent (prc tree_example 0x80) = NULL" "zombie (prc tree_example 0x6000)" "pid (prc tree_example 0x6000) = 2"
  "get_reg 0xA000 F_rdi tree_example = NULL" "get_reg 0x9000 F_rdi tree_example = 2" "get_reg 0x9000 F_rsi tree_example = NULL"
  "tid (thr tree_example 0x1000) = 1" "tid (thr tree_example 0x2000) = 2" "run_state (thr tree_example 0x2000) = PROC_READY"
  using kernel_example_halted
  by (simp_all add: tree_example_def kernel_example_def setp_def sett_def on_mm_def process_zero_def thread_zero_def example_thread_def
      get_reg_def frame_addr_def kmem_example_def vm_st.defs kmem_st.defs)


theorem join_correct_witness:
  "\<exists>k'. syscall_thread_join 0x9000 0xB000 tree_example = Some (Blocked (In_thread_join 0x5000 2 NULL), k') \<and>
     run_state (thr k' 0x1000) = PROC_BLOCKED"
proof -
  have "find (\<lambda>t. tid (thr tree_example t) = 2) (tree_threads 0x5000) = Some 0x2000"
    using tree_example_fields by (simp add: tree_threads_def)
  then show ?thesis
    using join_correct [OF tree_example_processes tree_example_threads, of "0x5000" "0x9000" 2 "0xB000"] tree_example_fields
    by (auto simp: example_queues_def)
qed


theorem reparent_children_correct_witness:
  "\<exists>k'. PROC_reparent_children 0x5000 tree_example = Some k' \<and>
     family k' {0x80, 0x5000, 0x6000} (tree_children(0x5000 := [], 0x80 := [0x6000, 0x5000]))"
  using reparent_children_correct [OF processesD(1) [OF tree_example_processes], of "0x5000"] tree_example_fields
  by (auto simp: tree_children_def)

end
