(* ===== verification/Heap_Stock.thy ===== *)
theory Heap_Stock
  imports Kmalloc
begin

text \<open>
  Heaps with blocks to spare: \<open>stocked c s L\<close> says that pool \<open>i\<close> has at least \<open>c i\<close> free blocks. A
  request a pool serves then succeeds without new pages, and giving the block back restores the
  stock, so code that allocates scratch buffers and releases them never runs out.
\<close>

definition stocked :: "(nat \<Rightarrow> nat) \<Rightarrow> 'a kmem_st_scheme \<Rightarrow> (ptr \<times> nat) set \<Rightarrow> bool" where
  "stocked c s L \<longleftrightarrow> \<not> halted s \<and> (\<exists>Fs. heap_ok s Fs L \<and> (\<forall>i < NUM_POOLS. c i \<le> length (Fs i)))"

definition of_pool :: "nat \<Rightarrow> ptr \<Rightarrow> 'a kmem_st_scheme \<Rightarrow> bool" where
  "of_pool i p s \<longleftrightarrow> kheap s (p - 16) = pool_ptr s i"

lemma stocked_live: "stocked c s L \<Longrightarrow> heap_live s L"
  by (auto simp: stocked_def heap_live_def)

text \<open>The pool that serves a request.\<close>

definition pool_for :: "u64 \<Rightarrow> nat option" where
  "pool_for sz = first_index (\<lambda>n. sz + 16 \<le> n) pool_sizes"

lemma first_index_map: "first_index P (map f xs) = first_index (\<lambda>x. P (f x)) xs"
  by (induction xs) (auto split: option.splits)

lemma best_pool_for: "heap_ok s Fs L \<Longrightarrow> best_pool (CLI s) (sz + sizeof_kmalloc_extra) = pool_for sz"
proof -
  assume "heap_ok s Fs L"
  then have m: "pool_sizes = map max_size (pools s)" by (simp add: heap_ok_def heap_lists_def)
  show ?thesis unfolding pool_for_def m first_index_map by (simp add: best_pool_def CLI_def sizeof_kmalloc_extra_def)
qed

lemma kmalloc_stocked:
  assumes st: "stocked c s L" and i: "pool_for sz = Some i" "i < NUM_POOLS" "0 < c i" and sz: "sz \<noteq> 0"
  shows "\<exists>p s'. kmalloc sz s = (p, s') \<and> p \<noteq> NULL \<and> stocked (c(i := c i - 1)) s' (insert (p - 16, block_size i) L) \<and>
    (p - 16, block_size i) \<notin> L \<and> of_pool i p s' \<and> live_same L s s' \<and> pools_at s' = pools_at s"
proof -
  obtain Fs where h: "heap_ok s Fs L" and c: "\<forall>j < NUM_POOLS. c j \<le> length (Fs j)" and nh: "\<not> halted s"
    using st by (auto simp: stocked_def)
  have hC: "heap_ok (CLI s) Fs L" using h by simp
  then have hl: "heap_lists (CLI s) Fs L (unat (kernel_va s))" by (simp add: heap_ok_def CLI_def)
  obtain a as where F: "Fs i = a # as" using c i(2,3) by (cases "Fs i") auto
  have av: "avail_blocks (pools (CLI s) ! i) \<noteq> 0" using hC i(2) F by (simp add: heap_ok_def)
  note t = heap_lists_take [where Fs = Fs, OF hl i(2) F]
  define s1 where "s1 = take_block i a sz (CLI s)"
  have b: "best_pool (CLI s) (sz + sizeof_kmalloc_extra) = Some i" using best_pool_for [OF h] i(1) by simp
  have k: "kmalloc sz s = (a + 16, irq_restore (are_interrupts_enabled s) s1)"
    using sz b av t(2) by (simp add: kmalloc_def Let_def kmalloc_finish_def take_block_def pool_ptr_def sizeof_kmalloc_extra_def s1_def)
  have len: "i < length (pools (CLI s))" using heap_listsD(2) [OF hl] i(2) by simp
  have "avail_blocks (pools s1 ! j) = int (length ((Fs(i := as)) j))" if "j < NUM_POOLS" for j
    using hC that F len by (auto simp: s1_def take_block_def nth_list_update heap_ok_def)
  then have h1: "heap_ok s1 (Fs(i := as)) (insert (a, block_size i) L)"
    using t(1) hC by (simp add: heap_ok_def take_block_def s1_def CLI_def)
  have sp: "span (a, block_size i) \<noteq> {}" using block_size_bounds [OF i(2)] by (simp add: span_def)
  then have aL: "(a, block_size i) \<notin> L" using t(3) unfolding fresh_def by blast
  have "(a, block_size i) \<in> free_regions Fs" using F i(2) by (auto simp: free_regions_mem)
  then have "unat a + block_size i < 2 ^ 63" using heap_listsD(10) [OF hl] heap_listsD(5) [OF hl] by fastforce
  then have u: "unat (a + 8) = unat a + 8" "unat (a + 16) = unat a + 16"
    using block_size_bounds [OF i(2)] by (simp_all add: unat_word_ariths)
  then have "unat a \<in> span (a, block_size i)" "unat (a + 8) \<in> span (a, block_size i)"
    using block_size_bounds [OF i(2)] by (simp_all add: span_def)
  then have ls: "live_same L s s1" using t(3) by (auto simp: live_same_def take_block_def fresh_def s1_def CLI_def)
  have nz: "a + 16 \<noteq> NULL" using u(2) by auto
  have "stocked (c(i := c i - 1)) (irq_restore (are_interrupts_enabled s) s1) (insert (a, block_size i) L)"
    using h1 c nh F i(2)
    by (auto simp: stocked_def s1_def take_block_def irq_restore_def STI_def CLI_def heap_ok_def heap_lists_def header_ok_def pool_ptr_def
        intro!: exI [of _ "Fs(i := as)"])
  moreover have "of_pool i (a + 16) (irq_restore (are_interrupts_enabled s) s1)"
    by (simp add: of_pool_def s1_def take_block_def irq_restore_def STI_def pool_ptr_def CLI_def)
  moreover have "pools_at (irq_restore (are_interrupts_enabled s) s1) = pools_at s"
    by (simp add: s1_def take_block_def CLI_def irq_restore_def STI_def)
  ultimately show ?thesis using k nz aL ls by (intro exI [of _ "a + 16"]) simp
qed

lemma kfree_stocked:
  assumes st: "stocked c s (insert (p - 16, block_size i) L)" and i: "i < NUM_POOLS"
    and p: "(p - 16, block_size i) \<notin> L" "of_pool i p s" "p \<noteq> NULL"
  shows "stocked (c(i := c i + 1)) (kfree p s) L" "live_same L s (kfree p s)" "pools_at (kfree p s) = pools_at s"
proof -
  let ?a = "p - 16"
  obtain Fs where h: "heap_ok s Fs (insert (?a, block_size i) L)" and c: "\<forall>j < NUM_POOLS. c j \<le> length (Fs j)" and nh: "\<not> halted s"
    using st by (auto simp: stocked_def)
  have hC: "heap_lists (CLI s) Fs (insert (?a, block_size i) L) (unat (kernel_va s))" "0 < unat (kernel_va s)"
    using h by (simp_all add: heap_ok_def heap_lists_vm_only [OF vm_only_irq(1)])
  have hR: "heap_lists (CLI s) Fs L (unat (kernel_va s))" using heap_lists_remove [OF hC(1), of "{(?a, block_size i)}"] p(1) by simp
  note b = heap_listsD(9,10) [OF hC(1), of "(?a, block_size i)"]
  have fr: "fresh Fs L (?a, block_size i)"
    unfolding fresh_def
  proof
    fix r assume r: "r \<in> free_regions Fs \<union> L"
    then have "r \<noteq> (?a, block_size i)" using heap_listsD(7) [OF hC(1)] p(1) by blast
    then show "span r \<inter> span (?a, block_size i) = {}"
      using heap_listsD(8) [OF hC(1)] r by (intro disjoint_family_onD [of span]) auto
  qed
  have hP: "heap_lists (push_block i ?a (CLI s)) (Fs(i := ?a # Fs i)) L (unat (kernel_va s))"
    by (rule heap_lists_push [OF hR i fr]) (use b heap_listsD(5) [OF hR] in auto)
  have ix: "pool_index (CLI s) (kheap (CLI s) ?a) = i" "kheap (CLI s) ?a \<noteq> NULL"
    using pool_index_ptr [OF hR i] p(2) by (simp_all add: of_pool_def CLI_def pool_ptr_def pool_index_def)
  define s1 where "s1 = add_avail i 1 (push_block i ?a (CLI s))"
  have kf: "kfree p s = irq_restore (are_interrupts_enabled s) s1"
    using p(3) ix by (simp add: kfree_def Let_def sizeof_kmalloc_extra_def s1_def)
  have len: "i < length (pools (CLI s))" using heap_listsD(2) [OF hR] i by simp
  have av: "avail_blocks (pools s1 ! j) = int (length ((Fs(i := ?a # Fs i)) j))" if "j < NUM_POOLS" for j
    using h that len by (auto simp: s1_def add_avail_def push_block_def nth_list_update heap_ok_def CLI_def)
  have "heap_lists s1 (Fs(i := ?a # Fs i)) L (unat (kernel_va s))"
    unfolding s1_def by (rule heap_lists_add_avail [OF hP i])
  then have h1: "heap_ok s1 (Fs(i := ?a # Fs i)) L" using av hC(2) by (simp add: heap_ok_def s1_def add_avail_def push_block_def CLI_def)
  have "\<not> halted (irq_restore (are_interrupts_enabled s) s1)"
    using nh by (simp add: s1_def add_avail_def push_block_def CLI_def irq_restore_def STI_def)
  then show "stocked (c(i := c i + 1)) (kfree p s) L"
    unfolding kf stocked_def using h1 c by (intro conjI exI [of _ "Fs(i := ?a # Fs i)"]) auto
  show "pools_at (kfree p s) = pools_at s"
    unfolding kf by (simp add: s1_def add_avail_def push_block_def CLI_def irq_restore_def STI_def)
  have "unat ?a \<in> span (?a, block_size i)" using block_size_bounds [OF i] by (simp add: span_def)
  then show "live_same L s (kfree p s)"
    using fr unfolding kf by (auto simp: live_same_def fresh_def s1_def add_avail_def push_block_def CLI_def irq_restore_def STI_def)
qed

lemma stocked_irq [simp]: "stocked c (STI s) L = stocked c s L" "stocked c (CLI s) L = stocked c s L"
proof -
  have "heap_ok (STI s) Fs L = heap_ok s Fs L" for Fs using irq_heap(2) [of True s Fs L] by (simp add: irq_restore_def)
  moreover have "halted (STI s) = halted s" "halted (CLI s) = halted s" by (simp_all add: STI_def CLI_def)
  ultimately show "stocked c (STI s) L = stocked c s L" "stocked c (CLI s) L = stocked c s L" by (simp_all add: stocked_def)
qed

lemma stocked_less: "stocked c s L \<Longrightarrow> (\<And>i. i < NUM_POOLS \<Longrightarrow> c' i \<le> c i) \<Longrightarrow> stocked c' s L"
  unfolding stocked_def using order_trans by blast

text \<open>A block that was handed out keeps its header as long as it is live.\<close>

lemma of_pool_kept:
  assumes "stocked c s M" "L \<subseteq> M" "live_same L s s'" "pools_at s' = pools_at s" "(p - 16, n) \<in> L" "of_pool i p s"
  shows "of_pool i p s'"
proof -
  obtain Fs where "heap_lists s Fs M (unat (kernel_va s))" using assms(1) by (auto simp: stocked_def heap_ok_def)
  from heap_listsD(11) [OF this, of "(p - 16, n)"] have "unat (p - 16) \<in> span (p - 16, n)"
    using assms(2,5) by (auto simp: span_def)
  then have "kheap s' (p - 16) = kheap s (p - 16)" using assms(3,5) by (auto simp: live_same_def)
  then show ?thesis using assms(4,6) by (simp add: of_pool_def pool_ptr_def)
qed

section \<open>Scratch buffers\<close>

text \<open>
  \<open>buffers ps d s\<close>: the blocks \<open>ps\<close> of the pool for 2048 bytes are in use as buffers, the pool has \<open>d\<close>
  more, and the pool for 64 bytes has one to spare for a driver's own request.
\<close>

definition buffer_blocks :: "ptr set \<Rightarrow> (ptr \<times> nat) set" where
  "buffer_blocks ps = (\<lambda>p. (p - 16, block_size 5)) ` ps"

definition buffers_in :: "(ptr \<times> nat) set \<Rightarrow> ptr set \<Rightarrow> nat \<Rightarrow> kmem_st \<Rightarrow> bool" where
  "buffers_in L ps d s \<longleftrightarrow> stocked ((\<lambda>_. 0)(5 := d, 1 := 1)) s (L \<union> buffer_blocks ps) \<and> L \<inter> buffer_blocks ps = {} \<and>
     (\<forall>p \<in> ps. p \<noteq> NULL \<and> of_pool 5 p s)"

definition buffers :: "ptr set \<Rightarrow> nat \<Rightarrow> kmem_st \<Rightarrow> bool" where
  "buffers ps d s \<longleftrightarrow> (\<exists>L. buffers_in L ps d s)"

lemma pool_for_sizes: "pool_for 1024 = Some 5" "pool_for 48 = Some 1"
  by (simp_all add: pool_for_def pool_sizes_def)

lemma buffer_block_in: "(p - 16, block_size 5) \<in> buffer_blocks ps \<longleftrightarrow> p \<in> ps"
  by (auto simp: buffer_blocks_def)

lemma live_same_subset: "live_same M s s' \<Longrightarrow> L \<subseteq> M \<Longrightarrow> live_same L s s'"
  by (auto simp: live_same_def)

text \<open>Taking and giving back a buffer leaves the other live blocks \<open>L\<close> and their contents alone.\<close>

lemma buffers_in_take:
  assumes "buffers_in L ps (Suc d) s"
  shows "\<exists>p s'. kmalloc 1024 s = (p, s') \<and> p \<noteq> NULL \<and> p \<notin> ps \<and> buffers_in L (insert p ps) d s' \<and> live_same L s s'"
proof -
  note L = assms [unfolded buffers_in_def, THEN conjunct1] assms [unfolded buffers_in_def, THEN conjunct2, THEN conjunct1]
    assms [unfolded buffers_in_def, THEN conjunct2, THEN conjunct2]
  from kmalloc_stocked [OF L(1) pool_for_sizes(1)] obtain p s' where
    k: "kmalloc 1024 s = (p, s')" "p \<noteq> NULL" "(p - 16, block_size 5) \<notin> L \<union> buffer_blocks ps" "of_pool 5 p s'"
      "stocked ((\<lambda>_. 0)(5 := Suc d, 1 := 1, 5 := d)) s' (insert (p - 16, block_size 5) (L \<union> buffer_blocks ps))"
      "live_same (L \<union> buffer_blocks ps) s s'" "pools_at s' = pools_at s" by (auto simp: NUM_POOLS_def)
  have "insert (p - 16, block_size 5) (L \<union> buffer_blocks ps) = L \<union> buffer_blocks (insert p ps)" by (auto simp: buffer_blocks_def)
  moreover have "L \<inter> buffer_blocks (insert p ps) = {}" using L(2) k(3) by (auto simp: buffer_blocks_def)
  moreover have "((\<lambda>_. 0) :: nat \<Rightarrow> nat)(5 := Suc d, 1 := 1, 5 := d) = (\<lambda>_. 0)(5 := d, 1 := Suc 0)" by auto
  moreover have "of_pool 5 q s'" if "q \<in> ps" for q
    using of_pool_kept [OF L(1) subset_refl k(6,7)] L(3) that buffer_block_in by blast
  ultimately have "buffers_in L (insert p ps) d s'" using k(2,4,5) L(3) unfolding buffers_in_def by auto
  moreover have "live_same L s s'" by (rule live_same_subset [OF k(6)]) simp
  ultimately show ?thesis using k(1-3) buffer_block_in by blast
qed

lemma buffers_in_give:
  assumes "buffers_in L ps d s" "p \<in> ps"
  shows "buffers_in L (ps - {p}) (Suc d) (kfree p s)" "live_same L s (kfree p s)"
proof -
  note L = assms(1) [unfolded buffers_in_def, THEN conjunct1] assms(1) [unfolded buffers_in_def, THEN conjunct2, THEN conjunct1]
    assms(1) [unfolded buffers_in_def, THEN conjunct2, THEN conjunct2]
  let ?R = "L \<union> buffer_blocks (ps - {p})"
  have e: "L \<union> buffer_blocks ps = insert (p - 16, block_size 5) ?R" using assms(2) by (auto simp: buffer_blocks_def)
  have n: "(p - 16, block_size 5) \<notin> ?R" using L(2) assms(2) buffer_block_in by auto
  have p: "of_pool 5 p s" "p \<noteq> NULL" using L(3) assms(2) by auto
  note f = kfree_stocked [OF L(1) [unfolded e] _ n p]
  have "((\<lambda>_. 0) :: nat \<Rightarrow> nat)(5 := d, 1 := 1, 5 := d + 1) = (\<lambda>_. 0)(5 := Suc d, 1 := Suc 0)" by auto
  moreover have "of_pool 5 q (kfree p s)" if q: "q \<in> ps - {p}" for q
  proof (rule of_pool_kept [OF L(1) _ f(2,3)])
    show "(q - 16, block_size 5) \<in> ?R" using q buffer_block_in by blast
    show "of_pool 5 q s" using q L(3) by blast
  qed (auto simp: e NUM_POOLS_def)
  moreover have "L \<inter> buffer_blocks (ps - {p}) = {}" using L(2) by (auto simp: buffer_blocks_def)
  ultimately show "buffers_in L (ps - {p}) (Suc d) (kfree p s)"
    using f(1) L(3) unfolding buffers_in_def by (simp add: NUM_POOLS_def)
  show "live_same L s (kfree p s)" by (rule live_same_subset [OF f(2)]) (simp_all add: NUM_POOLS_def)
qed

text \<open>A driver that takes a block of the pool for 64 bytes and gives it back leaves the buffers alone.\<close>

lemma buffers_in_request:
  assumes "buffers_in L ps d s"
  shows "\<exists>p s'. kmalloc 48 s = (p, s') \<and> p \<noteq> NULL \<and> buffers_in L ps d (kfree p (STI s')) \<and> live_same L s (kfree p (STI s'))"
proof -
  note L = assms [unfolded buffers_in_def, THEN conjunct1] assms [unfolded buffers_in_def, THEN conjunct2, THEN conjunct1]
    assms [unfolded buffers_in_def, THEN conjunct2, THEN conjunct2]
  let ?R = "L \<union> buffer_blocks ps"
  from kmalloc_stocked [OF L(1) pool_for_sizes(2)] obtain p s' where
    k: "kmalloc 48 s = (p, s')" "p \<noteq> NULL" "(p - 16, block_size 1) \<notin> ?R" "of_pool 1 p s'"
      "stocked ((\<lambda>_. 0)(5 := d, 1 := 1, 1 := 0)) s' (insert (p - 16, block_size 1) ?R)"
      "live_same ?R s s'" "pools_at s' = pools_at s" by (auto simp: NUM_POOLS_def)
  have st: "stocked ((\<lambda>_. 0)(5 := d, 1 := 1, 1 := 0)) (STI s') (insert (p - 16, block_size 1) ?R)" using k(5) by simp
  have p: "of_pool 1 p (STI s')" using k(4) by (simp add: of_pool_def STI_def pool_ptr_def)
  note f = kfree_stocked [OF st _ k(3) p k(2)]
  have ls: "live_same ?R s (kfree p (STI s'))" "pools_at (kfree p (STI s')) = pools_at s"
    using k(6,7) f(2,3) by (auto simp: live_same_def STI_def NUM_POOLS_def)
  have "of_pool 5 q (kfree p (STI s'))" if "q \<in> ps" for q
    using of_pool_kept [OF L(1) subset_refl ls] L(3) that buffer_block_in by blast
  moreover have "((\<lambda>_. 0) :: nat \<Rightarrow> nat)(5 := d, 1 := 1, 1 := 0, 1 := 0 + 1) = (\<lambda>_. 0)(5 := d, 1 := Suc 0)" by auto
  ultimately have "buffers_in L ps d (kfree p (STI s'))" using f(1) L(2,3) unfolding buffers_in_def by (auto simp: NUM_POOLS_def)
  moreover have "live_same L s (kfree p (STI s'))" by (rule live_same_subset [OF ls(1)]) simp
  ultimately show ?thesis using k(1,2) by blast
qed

lemma buffers_take:
  assumes "buffers ps (Suc d) s"
  shows "\<exists>p s'. kmalloc 1024 s = (p, s') \<and> p \<noteq> NULL \<and> p \<notin> ps \<and> buffers (insert p ps) d s'"
  using assms buffers_in_take unfolding buffers_def by blast

lemma buffers_give:
  assumes "buffers ps d s" "p \<in> ps"
  shows "buffers (ps - {p}) (Suc d) (kfree p s)"
  using assms buffers_in_give unfolding buffers_def by blast

lemma buffers_request:
  assumes "buffers ps d s"
  shows "\<exists>p s'. kmalloc 48 s = (p, s') \<and> p \<noteq> NULL \<and> buffers ps d (kfree p (STI s'))"
  using assms buffers_in_request unfolding buffers_def by blast

end
