(* ===== verification/Block_Dev.thy ===== *)
theory Block_Dev
  imports Heap_Stock "HOL-Library.Monad_Syntax"
begin

text \<open>
  Block devices (\<open>kernel/block_dev.c\<close>), the partitions of a disk (\<open>kernel/mbr.c\<close>) and the table of file
  systems (\<open>kernel/vfs.c\<close>). The member \<open>read_block\<close> of a device is a function pointer: for a block
  number it gives the result of the call, the bytes it stores at the destination and the state of
  memory management after it, or no state when it never returns. Buffers are values; that they are
  allocated and released goes through the kernel heap.
\<close>

section \<open>Reading little-endian fields\<close>

definition byte :: "u8 list \<Rightarrow> nat \<Rightarrow> u8 option" where
  "byte bs i = (if i < length bs then Some (bs ! i) else None)"

definition le16 :: "u8 list \<Rightarrow> nat \<Rightarrow> u16 option" where
  "le16 bs i = do { a \<leftarrow> byte bs i; b \<leftarrow> byte bs (i + 1); Some (ucast a OR push_bit 8 (ucast b)) }"

definition le32 :: "u8 list \<Rightarrow> nat \<Rightarrow> u32 option" where
  "le32 bs i = do { a \<leftarrow> le16 bs i; b \<leftarrow> le16 bs (i + 2); Some (ucast a OR push_bit 16 (ucast b)) }"

definition le64 :: "u8 list \<Rightarrow> nat \<Rightarrow> u64 option" where
  "le64 bs i = do { a \<leftarrow> le32 bs i; b \<leftarrow> le32 bs (i + 4); Some (ucast a OR push_bit 32 (ucast b)) }"

definition slice :: "u8 list \<Rightarrow> nat \<Rightarrow> nat \<Rightarrow> u8 list option" where
  "slice bs i n = (if i + n \<le> length bs then Some (take n (drop i bs)) else None)"

lemma byte_Some [simp]: "i < length bs \<Longrightarrow> byte bs i = Some (bs ! i)"
  by (simp add: byte_def)

lemma le16_in: "i + 1 < length bs \<Longrightarrow> \<exists>w. le16 bs i = Some w"
  by (simp add: le16_def)

lemma le32_in: "i + 3 < length bs \<Longrightarrow> \<exists>w. le32 bs i = Some w"
  using le16_in [of i bs] le16_in [of "i + 2" bs] by (auto simp: le32_def)

section \<open>Devices\<close>

type_synonym reader = "u64 \<Rightarrow> kmem_st \<Rightarrow> (int \<times> u8 list \<times> kmem_st) option"

datatype block_dev_type = MASS_STORAGE | PARTITION

record block_dev =
  tot_length :: u64
  read_block :: reader
  blk_size :: u32
  dev_type :: block_dev_type
  dev_name :: string
  fs_type :: u8
  dev_next :: ptr

record blk_st =
  heap :: kmem_st
  devs :: "ptr \<Rightarrow> block_dev"
  dev_list_head :: ptr

definition blk_register :: "ptr \<Rightarrow> blk_st \<Rightarrow> int \<times> blk_st" where
  "blk_register dev s =
     (if dev = NULL then (-1, s)
      else let s = s\<lparr>devs := (devs s)(dev := (devs s dev)\<lparr>dev_next := dev_list_head s\<rparr>)\<rparr>
           in (0, s\<lparr>dev_list_head := dev\<rparr>))"

definition blk_get_head :: "blk_st \<Rightarrow> ptr" where
  "blk_get_head s = dev_list_head s"

definition blk_find_partiton_fstype :: "u8 \<Rightarrow> blk_st \<Rightarrow> ptr option" where
  "blk_find_partiton_fstype ft s =
     list_find (\<lambda>d. dev_next (devs s d)) NULL (\<lambda>d. dev_type (devs s d) = PARTITION \<and> fs_type (devs s d) = ft) (blk_get_head s)"

section \<open>Partitions\<close>

definition MBR_SIGNATURE :: u16 where "MBR_SIGNATURE = 0xAA55"

record MBR_partition =
  status :: u8
  part_type :: u8
  lba_start :: u32
  sector_count :: u32

text \<open>Entry \<open>i\<close> of the table behind the 446 bytes of bootstrap code.\<close>

definition mbr_partition :: "u8 list \<Rightarrow> nat \<Rightarrow> MBR_partition option" where
  "mbr_partition mbr i = do {
     st \<leftarrow> byte mbr (446 + 16 * i);
     ty \<leftarrow> byte mbr (446 + 16 * i + 4);
     lba \<leftarrow> le32 mbr (446 + 16 * i + 8);
     cnt \<leftarrow> le32 mbr (446 + 16 * i + 12);
     Some \<lparr>status = st, part_type = ty, lba_start = lba, sector_count = cnt\<rparr>
   }"

definition partition_read_block :: "block_dev \<Rightarrow> u32 \<Rightarrow> reader" where
  "partition_read_block par lba_offset blk_num s =
     (let real_blk = blk_num + ucast lba_offset in read_block par real_blk s)"

definition sizeof_MBR :: u64 where "sizeof_MBR = 512"
definition sizeof_partition_dev :: u64 where "sizeof_partition_dev = 64"

text \<open>The body of the loop over the four entries.\<close>

definition mbr_add :: "ptr \<Rightarrow> u8 list \<Rightarrow> nat \<Rightarrow> blk_st \<Rightarrow> blk_st option" where
  "mbr_add dev mbr i s = do {
     part \<leftarrow> mbr_partition mbr i;
     if part_type part = 0 then Some s
     else let (pdev, h) = kmalloc sizeof_partition_dev (heap s); s = s\<lparr>heap := h\<rparr>
          in if pdev = NULL then Some s
             else let s = s\<lparr>devs := (devs s)(pdev :=
                     \<lparr>tot_length = ucast (sector_count part), read_block = partition_read_block (devs s dev) (lba_start part),
                      blk_size = blk_size (devs s dev), dev_type = PARTITION, dev_name = ''PARTITION'', fs_type = part_type part,
                      dev_next = dev_next (devs s pdev)\<rparr>)\<rparr>
                  in Some (snd (blk_register pdev s))
   }"

primrec mbr_add_all :: "ptr \<Rightarrow> u8 list \<Rightarrow> nat list \<Rightarrow> blk_st \<Rightarrow> blk_st option" where
  "mbr_add_all dev mbr [] s = Some s"
| "mbr_add_all dev mbr (i # is) s = Option.bind (mbr_add dev mbr i s) (mbr_add_all dev mbr is)"

definition MBR_init :: "ptr \<Rightarrow> blk_st \<Rightarrow> blk_st option" where
  "MBR_init dev s =
     (if dev = NULL then Some s
      else let (mbr_at, h) = kmalloc sizeof_MBR (heap s); s = s\<lparr>heap := h\<rparr>
           in if mbr_at = NULL then Some s
              else do {
                (r, mbr, h) \<leftarrow> read_block (devs s dev) 0 (heap s);
                let s = s\<lparr>heap := h\<rparr>;
                if r \<noteq> 0 then Some (s\<lparr>heap := kfree mbr_at (heap s)\<rparr>)
                else do {
                  boot_sig \<leftarrow> le16 mbr 510;
                  if boot_sig \<noteq> MBR_SIGNATURE then Some (s\<lparr>heap := kfree mbr_at (heap s)\<rparr>)
                  else do {
                    s \<leftarrow> mbr_add_all dev mbr [0..<4] s;
                    Some (s\<lparr>heap := kfree mbr_at (heap s)\<rparr>)
                  }
                }
              })"

section \<open>File systems\<close>

text \<open>A driver registers a function that looks for its file system on a device; \<open>'sb\<close> are superblocks.\<close>

type_synonym 'sb fs_detect_cb = "block_dev \<Rightarrow> kmem_st \<Rightarrow> ('sb option \<times> kmem_st) option"

record 'sb vfs_st =
  driver_cbs :: "'sb fs_detect_cb list"
  driver_count :: nat

definition MAX_NUM_DRIVERS :: nat where "MAX_NUM_DRIVERS = 2"

definition fs_register :: "'sb fs_detect_cb \<Rightarrow> 'sb vfs_st \<Rightarrow> 'sb vfs_st" where
  "fs_register probe v =
     (if driver_count v \<ge> MAX_NUM_DRIVERS then v
      else v\<lparr>driver_cbs := (driver_cbs v)[driver_count v := probe], driver_count := driver_count v + 1\<rparr>)"

primrec probe_all :: "'sb fs_detect_cb list \<Rightarrow> block_dev \<Rightarrow> kmem_st \<Rightarrow> ('sb option \<times> kmem_st) option" where
  "probe_all [] dev s = Some (None, s)"
| "probe_all (cb # cbs) dev s = do {
     (sb, s) \<leftarrow> cb dev s;
     case sb of None \<Rightarrow> probe_all cbs dev s | Some sb \<Rightarrow> Some (Some sb, s)
   }"

definition fs_probe :: "block_dev \<Rightarrow> 'sb vfs_st \<Rightarrow> kmem_st \<Rightarrow> ('sb option \<times> kmem_st) option" where
  "fs_probe dev v s = probe_all (take (driver_count v) (driver_cbs v)) dev s"

section \<open>The contract of a disk\<close>

text \<open>
  What a file system relies on: reading sector \<open>n\<close> succeeds with the 512 bytes \<open>disk n\<close>. \<open>ready ps d s\<close>
  says that \<open>ps\<close> are the scratch buffers of 1024 bytes that are in use and that \<open>d\<close> more can be had;
  reading leaves that as it is although the driver allocates memory itself.
\<close>

locale sector_device =
  fixes rd :: reader and disk :: "u64 \<Rightarrow> u8 list" and ready :: "ptr set \<Rightarrow> nat \<Rightarrow> kmem_st \<Rightarrow> bool"
  assumes rd_ready: "ready ps d s \<Longrightarrow> \<exists>s'. rd n s = Some (0, disk n, s') \<and> ready ps d s'"
    and disk_length: "length (disk n) = 512"
    and buffer_take: "ready ps (Suc d) s \<Longrightarrow> \<exists>p s'. kmalloc 1024 s = (p, s') \<and> p \<noteq> NULL \<and> p \<notin> ps \<and> ready (insert p ps) d s'"
    and buffer_give: "ready ps d s \<Longrightarrow> p \<in> ps \<Longrightarrow> ready (ps - {p}) (Suc d) (kfree p s)"
begin

text \<open>Allocating a buffer, any code that keeps the contract, and releasing the buffer keep it too.\<close>

lemma buffer_back: "ready (insert p ps) d s \<Longrightarrow> p \<notin> ps \<Longrightarrow> ready ps (Suc d) (kfree p s)"
  using buffer_give [of "insert p ps" d s p] by simp

text \<open>A partition of a disk is a disk whose sectors are those from the start of the partition.\<close>

lemma partition_rd:
  assumes "read_block par = rd" "ready ps d s"
  shows "\<exists>s'. partition_read_block par lba n s = Some (0, disk (n + ucast lba), s') \<and> ready ps d s'"
  using rd_ready [OF assms(2)] assms(1) by (simp add: partition_read_block_def Let_def)

end

end
