(* ===== verification/Ext2.thy ===== *)
theory Ext2
  imports Block_Dev
begin

text \<open>
  The ext2 file system (\<open>kernel/ext2.c\<close>, the structures of \<open>include/kernel/ext2.h\<close> and
  \<open>include/kernel/vfs.h\<close>). Structures read from disk are byte lists with the packed layout of the
  headers. The results of \<open>kmalloc\<close> for buffers are used unchecked by the code; where that stores
  through a null pointer, a buffer is read outside its bounds or in a part never written, or a
  division is by zero, there is no successor state.
\<close>

section \<open>Structures\<close>

definition EXT2_SIGNATURE :: u16 where "EXT2_SIGNATURE = 0xEF53"
definition EXT2_ROOT_INODE :: u32 where "EXT2_ROOT_INODE = 2"
definition EXT2_TYPE :: u8 where "EXT2_TYPE = 0x83"
definition S_IFDIR :: u32 where "S_IFDIR = 0x4000"

record ext2_driver =
  drv_dev :: block_dev
  drv_sb :: "u8 list"
  block_size :: u32
  block_start :: u32

text \<open>A \<open>struct inode\<close> with its address, and the raw inode its \<open>priv_data\<close> points to with its own.\<close>

record vnode =
  i_at :: ptr
  ino_num :: u32
  i_size :: u32
  i_mode :: u32
  i_priv_at :: ptr
  i_priv :: "u8 list"

record superblock =
  sb_name :: string
  root_inode :: vnode
  sb_priv :: ext2_driver

record file_st =
  f_at :: ptr
  f_inode :: "vnode option"
  f_offset :: u64

definition sizeof_superblock :: u64 where "sizeof_superblock = 32"
definition sizeof_ext2_driver :: u64 where "sizeof_ext2_driver = 1040"
definition sizeof_inode :: u64 where "sizeof_inode = 48"
definition sizeof_file :: u64 where "sizeof_file = 40"
definition sizeof_ext2_group :: u32 where "sizeof_ext2_group = 32"

definition sb_log_block_size :: "u8 list \<Rightarrow> u32 option" where "sb_log_block_size sb = le32 sb 24"
definition sb_inodes_per_group :: "u8 list \<Rightarrow> u32 option" where "sb_inodes_per_group sb = le32 sb 40"
definition sb_magic :: "u8 list \<Rightarrow> u16 option" where "sb_magic sb = le16 sb 56"
definition sb_rev_level :: "u8 list \<Rightarrow> u32 option" where "sb_rev_level sb = le32 sb 76"
definition sb_inodes_size :: "u8 list \<Rightarrow> u32 option" where "sb_inodes_size sb = le32 sb 88"
definition bg_inode_table :: "u8 list \<Rightarrow> nat \<Rightarrow> u32 option" where "bg_inode_table buf i = le32 buf (32 * i + 8)"
definition raw_mode :: "u8 list \<Rightarrow> u16 option" where "raw_mode r = le16 r 0"
definition raw_size :: "u8 list \<Rightarrow> u32 option" where "raw_size r = le32 r 4"
definition raw_block :: "u8 list \<Rightarrow> nat \<Rightarrow> u32 option" where "raw_block r i = (if i < 15 then le32 r (40 + 4 * i) else None)"

section \<open>Blocks\<close>

text \<open>A buffer from the heap that the code goes on to write without looking at the pointer.\<close>

definition scratch :: "u64 \<Rightarrow> kmem_st \<Rightarrow> (ptr \<times> kmem_st) option" where
  "scratch n s = (let (p, s) = kmalloc n s in if p = NULL then None else Some (p, s))"

definition div_u32 :: "u32 \<Rightarrow> u32 \<Rightarrow> u32 option" where
  "div_u32 a b = (if b = 0 then None else Some (a div b))"

primrec read_sectors :: "block_dev \<Rightarrow> u64 \<Rightarrow> nat list \<Rightarrow> kmem_st \<Rightarrow> (u8 list \<times> kmem_st) option" where
  "read_sectors dev start [] s = Some ([], s)"
| "read_sectors dev start (i # is) s = do {
     (r, bs, s) \<leftarrow> read_block dev (start + of_nat i) s;
     if r \<noteq> 0 \<or> length bs \<noteq> unat (blk_size dev) then None
     else do {
       (rest, s) \<leftarrow> read_sectors dev start is s;
       Some (bs @ rest, s)
     }
   }"

definition ext2_read_block :: "ext2_driver \<Rightarrow> u32 \<Rightarrow> kmem_st \<Rightarrow> (u8 list \<times> kmem_st) option" where
  "ext2_read_block drv block_num s = do {
     sect_per_blk \<leftarrow> div_u32 (block_size drv) (blk_size (drv_dev drv));
     let start_sect = (ucast block_num * ucast sect_per_blk :: u64);
     read_sectors (drv_dev drv) start_sect [0..<unat sect_per_blk] s
   }"

section \<open>Inodes\<close>

definition ext2_read_inode :: "ext2_driver \<Rightarrow> u32 \<Rightarrow> kmem_st \<Rightarrow> (vnode \<times> kmem_st) option" where
  "ext2_read_inode drv inode_num s = do {
     let idx = inode_num - 1;
     ipg \<leftarrow> sb_inodes_per_group (drv_sb drv);
     group \<leftarrow> div_u32 idx ipg;
     let group_index = idx mod ipg;
     (bg_buf_at, s) \<leftarrow> scratch (ucast (block_size drv)) s;
     let descriptors_per_block = block_size drv div sizeof_ext2_group;
     bg_block_offset \<leftarrow> div_u32 group descriptors_per_block;
     let bg_index_in_block = group mod descriptors_per_block;
     (bg_buf, s) \<leftarrow> ext2_read_block drv (block_start drv + bg_block_offset) s;
     inode_table_block \<leftarrow> bg_inode_table bg_buf (unat bg_index_in_block);
     rev \<leftarrow> sb_rev_level (drv_sb drv);
     isz \<leftarrow> sb_inodes_size (drv_sb drv);
     let inode_size = (if rev \<ge> 1 then isz else 128);
     inodes_per_block \<leftarrow> div_u32 (block_size drv) inode_size;
     table_block_offset \<leftarrow> div_u32 group_index inodes_per_block;
     let index_in_block = group_index mod inodes_per_block;
     (inode_block_buf_at, s) \<leftarrow> scratch (ucast (block_size drv)) s;
     (inode_block_buf, s) \<leftarrow> ext2_read_block drv (inode_table_block + table_block_offset) s;
     raw_node \<leftarrow> slice inode_block_buf (unat (index_in_block * inode_size)) (unat inode_size);
     (vnode_at, s) \<leftarrow> scratch sizeof_inode s;
     sz \<leftarrow> raw_size raw_node;
     md \<leftarrow> raw_mode raw_node;
     (priv_at, s) \<leftarrow> scratch (ucast inode_size) s;
     let s = kfree bg_buf_at s;
     let s = kfree inode_block_buf_at s;
     Some (\<lparr>i_at = vnode_at, ino_num = inode_num, i_size = sz, i_mode = ucast md, i_priv_at = priv_at, i_priv = raw_node\<rparr>, s)
   }"

definition ext2_probe :: "superblock fs_detect_cb" where
  "ext2_probe dev s = do {
     (buf_at, s) \<leftarrow> scratch 1024 s;
     (r2, s2, s) \<leftarrow> read_block dev 2 s;
     (r3, s3, s) \<leftarrow> read_block dev 3 s;
     let sb = s2 @ s3;
     if r2 \<noteq> 0 \<or> r3 \<noteq> 0 \<or> length s2 \<noteq> 512 \<or> length s3 \<noteq> 512 then None
     else do {
       magic \<leftarrow> sb_magic sb;
       if magic \<noteq> EXT2_SIGNATURE then Some (None, kfree buf_at s)
       else do {
         (vsb_at, s) \<leftarrow> scratch sizeof_superblock s;
         (drv_at, s) \<leftarrow> scratch sizeof_ext2_driver s;
         log_size \<leftarrow> sb_log_block_size sb;
         let bsz = push_bit (unat log_size) 1024;
         let drv = \<lparr>drv_dev = dev, drv_sb = sb, block_size = bsz, block_start = (if bsz = 1024 then 2 else 1)\<rparr>;
         (root, s) \<leftarrow> ext2_read_inode drv EXT2_ROOT_INODE s;
         Some (Some \<lparr>sb_name = ''ext2'', root_inode = root, sb_priv = drv\<rparr>, kfree buf_at s)
       }
     }
   }"

definition ext2_init :: "superblock vfs_st \<Rightarrow> superblock vfs_st" where
  "ext2_init = fs_register ext2_probe"

section \<open>The map from blocks of a file to blocks of the volume\<close>

text \<open>Entry \<open>idx\<close> of an indirect block, read into the buffer at hand.\<close>

definition indirect_entry :: "ext2_driver \<Rightarrow> u32 \<Rightarrow> u32 \<Rightarrow> kmem_st \<Rightarrow> (u32 \<times> kmem_st) option" where
  "indirect_entry drv blk idx s = do {
     (block_buf, s) \<leftarrow> ext2_read_block drv blk s;
     e \<leftarrow> le32 block_buf (4 * unat idx);
     Some (e, s)
   }"

definition ext2_get_block_number :: "ext2_driver \<Rightarrow> vnode \<Rightarrow> u32 \<Rightarrow> kmem_st \<Rightarrow> (u32 \<times> kmem_st) option" where
  "ext2_get_block_number drv inode logic_blk s =
     (let raw_node = i_priv inode; p = block_size drv div 4
      in if logic_blk < 12 then map_option (\<lambda>b. (b, s)) (raw_block raw_node (unat logic_blk))
         else let logic_blk = logic_blk - 12
         in if logic_blk < p
            then do {
              b12 \<leftarrow> raw_block raw_node 12;
              if b12 = 0 then Some (0, s)
              else do {
                (buf_at, s) \<leftarrow> scratch (ucast (block_size drv)) s;
                (phys_block, s) \<leftarrow> indirect_entry drv b12 logic_blk s;
                Some (phys_block, kfree buf_at s)
              }
            }
            else let logic_blk = logic_blk - p
            in if logic_blk < p * p
               then do {
                 b13 \<leftarrow> raw_block raw_node 13;
                 if b13 = 0 then Some (0, s)
                 else do {
                   let idx_1 = logic_blk div p;
                   let idx_2 = logic_blk mod p;
                   (buf_at, s) \<leftarrow> scratch (ucast (block_size drv)) s;
                   (indirect_block, s) \<leftarrow> indirect_entry drv b13 idx_1 s;
                   if indirect_block = 0 then Some (0, kfree buf_at s)
                   else do {
                     (phys_block, s) \<leftarrow> indirect_entry drv indirect_block idx_2 s;
                     Some (phys_block, kfree buf_at s)
                   }
                 }
               }
               else do {
                 b14 \<leftarrow> raw_block raw_node 14;
                 if b14 = 0 then Some (0, s)
                 else do {
                   idx_1 \<leftarrow> div_u32 logic_blk (p * p);
                   let rem = logic_blk mod (p * p);
                   let idx_2 = rem div p;
                   let idx_3 = rem mod p;
                   (buf_at, s) \<leftarrow> scratch (ucast (block_size drv)) s;
                   (indirect_block_1, s) \<leftarrow> indirect_entry drv b14 idx_1 s;
                   if indirect_block_1 = 0 then Some (0, kfree buf_at s)
                   else do {
                     (indirect_block_2, s) \<leftarrow> indirect_entry drv indirect_block_1 idx_2 s;
                     if indirect_block_2 = 0 then Some (0, kfree buf_at s)
                     else do {
                       (phys_block, s) \<leftarrow> indirect_entry drv indirect_block_2 idx_3 s;
                       Some (phys_block, kfree buf_at s)
                     }
                   }
                 }
               })"

section \<open>Directories\<close>

text \<open>
  The callback gets the name and the inode of an entry, and \<open>p\<close>, whose value it may change; a result
  other than 0 ends the search. The first component of the result of the loops says that it did.
\<close>

type_synonym 'c readdir_cb = "u8 list \<Rightarrow> vnode \<Rightarrow> 'c \<Rightarrow> kmem_st \<Rightarrow> (int \<times> 'c \<times> kmem_st) option"

definition visit_dentry :: "'c readdir_cb \<Rightarrow> ext2_driver \<Rightarrow> u8 list \<Rightarrow> nat \<Rightarrow> 'c \<Rightarrow> kmem_st \<Rightarrow> (bool \<times> 'c \<times> kmem_st) option" where
  "visit_dentry cb drv buf offset p s = do {
     ino \<leftarrow> le32 buf offset;
     if ino = 0 then Some (False, p, s)
     else do {
       name_len \<leftarrow> byte buf (offset + 6);
       name \<leftarrow> slice buf (offset + 8) (unat name_len);
       (child, s) \<leftarrow> ext2_read_inode drv ino s;
       (r, p, s) \<leftarrow> cb name child p s;
       if r \<noteq> 0 then Some (True, p, s)
       else let s = kfree (i_priv_at child) s in Some (False, p, kfree (i_at child) s)
     }
   }"

partial_function (option) dentries ::
    "'c readdir_cb \<Rightarrow> ext2_driver \<Rightarrow> u8 list \<Rightarrow> u32 \<Rightarrow> u32 \<Rightarrow> 'c \<Rightarrow> kmem_st \<Rightarrow> (bool \<times> 'c \<times> kmem_st) option" where
  "dentries cb drv buf block_bytes offset p s =
     (if \<not> offset < block_bytes then Some (False, p, s)
      else do {
        rec_len \<leftarrow> le16 buf (unat offset + 4);
        if rec_len < 8 \<or> rec_len mod 4 \<noteq> 0 \<or> offset + ucast rec_len > block_bytes then Some (False, p, s)
        else do {
          (stop, p, s) \<leftarrow> visit_dentry cb drv buf (unat offset) p s;
          if stop then Some (True, p, s) else dentries cb drv buf block_bytes (offset + ucast rec_len) p s
        }
      })"

primrec dir_blocks :: "'c readdir_cb \<Rightarrow> ext2_driver \<Rightarrow> vnode \<Rightarrow> nat list \<Rightarrow> u32 \<Rightarrow> 'c \<Rightarrow> kmem_st \<Rightarrow> ('c \<times> kmem_st) option" where
  "dir_blocks cb drv inode [] bytes_left p s = Some (p, s)"
| "dir_blocks cb drv inode (blk # blks) bytes_left p s = do {
     (phys_block, s) \<leftarrow> ext2_get_block_number drv inode (of_nat blk) s;
     let block_bytes = min bytes_left (block_size drv);
     if phys_block = 0 then dir_blocks cb drv inode blks (bytes_left - block_bytes) p s
     else do {
       (buf, s) \<leftarrow> ext2_read_block drv phys_block s;
       (stop, p, s) \<leftarrow> dentries cb drv buf block_bytes 0 p s;
       if stop then Some (p, s) else dir_blocks cb drv inode blks (bytes_left - block_bytes) p s
     }
   }"

definition ext2_readdir :: "'c readdir_cb \<Rightarrow> ext2_driver \<Rightarrow> vnode \<Rightarrow> 'c \<Rightarrow> kmem_st \<Rightarrow> (int \<times> 'c \<times> kmem_st) option" where
  "ext2_readdir cb drv inode p s =
     (if i_mode inode AND S_IFDIR = 0 then Some (-1, p, s)
      else do {
        (block_buf_at, s) \<leftarrow> scratch (ucast (block_size drv)) s;
        let bytes_left = i_size inode;
        total_blocks \<leftarrow> div_u32 (bytes_left + block_size drv - 1) (block_size drv);
        (p, s) \<leftarrow> dir_blocks cb drv inode [0..<unat total_blocks] bytes_left p s;
        Some (0, p, kfree block_buf_at s)
      })"

section \<open>Files\<close>

definition ext2_open :: "vnode \<Rightarrow> kmem_st \<Rightarrow> file_st option \<times> kmem_st" where
  "ext2_open inode s =
     (let (f, s) = kmalloc sizeof_file s
      in if f = NULL then (None, s) else (Some \<lparr>f_at = f, f_inode = Some inode, f_offset = 0\<rparr>, s))"

text \<open>The loop of \<open>ext2_file_read\<close>: the bytes it stores one after the other, and the offset at the end.\<close>

partial_function (option) read_loop :: "ext2_driver \<Rightarrow> vnode \<Rightarrow> u64 \<Rightarrow> int \<Rightarrow> kmem_st \<Rightarrow> (u8 list \<times> u64 \<times> kmem_st) option" where
  "read_loop drv inode offset len s =
     (if \<not> len > 0 then Some ([], offset, s)
      else if block_size drv = 0 then None
      else do {
        let logical_block = (ucast (offset div ucast (block_size drv)) :: u32);
        let block_offset = (ucast (offset mod ucast (block_size drv)) :: u32);
        let to_read = min (of_int len) (block_size drv - block_offset);
        (phys_block, s) \<leftarrow> ext2_get_block_number drv inode logical_block s;
        (bs, s) \<leftarrow> (if phys_block = 0 then Some (replicate (unat to_read) 0, s)
                   else do {
                     (temp_block, s) \<leftarrow> ext2_read_block drv phys_block s;
                     bs \<leftarrow> slice temp_block (unat block_offset) (unat to_read);
                     Some (bs, s)
                   });
        (rest, offset, s) \<leftarrow> read_loop drv inode (offset + ucast to_read) (len - uint to_read) s;
        Some (bs @ rest, offset, s)
      })"

definition ext2_file_read :: "ext2_driver \<Rightarrow> file_st option \<Rightarrow> int \<Rightarrow> kmem_st \<Rightarrow> (int \<times> u8 list \<times> file_st option \<times> kmem_st) option" where
  "ext2_file_read drv fo len s =
     (case fo of
        None \<Rightarrow> Some (-1, [], fo, s)
      | Some f \<Rightarrow>
          (case f_inode f of
             None \<Rightarrow> Some (-1, [], fo, s)
           | Some inode \<Rightarrow>
               if f_offset f \<ge> ucast (i_size inode) then Some (0, [], fo, s)
               else do {
                 let len = (if f_offset f + of_int len > ucast (i_size inode)
                            then sint (ucast (ucast (i_size inode) - f_offset f) :: u32) else len);
                 (temp_block_at, s) \<leftarrow> scratch (ucast (block_size drv)) s;
                 (bs, offset, s) \<leftarrow> read_loop drv inode (f_offset f) len s;
                 Some (int (length bs), bs, Some (f\<lparr>f_offset := offset\<rparr>), kfree temp_block_at s)
               }))"

definition ext2_file_lseek :: "file_st \<Rightarrow> int \<Rightarrow> (int \<times> file_st) option" where
  "ext2_file_lseek f offset = do {
     inode \<leftarrow> f_inode f;
     if (of_int offset :: u32) > i_size inode then Some (-1, f) else Some (0, f\<lparr>f_offset := of_int offset\<rparr>)
   }"

definition ext2_file_close :: "file_st option \<Rightarrow> kmem_st \<Rightarrow> int \<times> kmem_st" where
  "ext2_file_close fo s = (0, case fo of Some f \<Rightarrow> kfree (f_at f) s | None \<Rightarrow> s)"

section \<open>What is on the volume\<close>

text \<open>
  The reference: blocks of 1024 bytes as the image of the system has them, a file's blocks through
  trees of indirect blocks with 256 entries each, and block 0 for a hole.
\<close>

definition volume_block :: "(u64 \<Rightarrow> u8 list) \<Rightarrow> u32 \<Rightarrow> u8 list" where
  "volume_block disk b = disk (2 * ucast b) @ disk (2 * ucast b + 1)"

definition entry :: "(u64 \<Rightarrow> u8 list) \<Rightarrow> u32 \<Rightarrow> nat \<Rightarrow> u32" where
  "entry disk b i = (case le32 (volume_block disk b) (4 * i) of Some w \<Rightarrow> w | None \<Rightarrow> 0)"

primrec block_tree :: "(u64 \<Rightarrow> u8 list) \<Rightarrow> nat \<Rightarrow> u32 \<Rightarrow> nat \<Rightarrow> u32" where
  "block_tree disk 0 b i = b"
| "block_tree disk (Suc n) b i =
     (if b = 0 then 0 else block_tree disk n (entry disk b (i div 256 ^ n)) (i mod 256 ^ n))"

lemma block_tree_levels:
  "block_tree disk 2 b i = (if b = 0 then 0 else let e = entry disk b (i div 256) in if e = 0 then 0 else entry disk e (i mod 256))"
  "block_tree disk 3 b i = (if b = 0 then 0 else let e = entry disk b (i div 65536) in if e = 0 then 0
     else let f = entry disk e (i mod 65536 div 256) in if f = 0 then 0 else entry disk f (i mod 65536 mod 256))"
  by (simp_all add: numeral_2_eq_2 numeral_3_eq_3 Let_def)

definition raw_entry :: "u8 list \<Rightarrow> nat \<Rightarrow> u32" where
  "raw_entry raw i = (case raw_block raw i of Some b \<Rightarrow> b | None \<Rightarrow> 0)"

definition block_map :: "(u64 \<Rightarrow> u8 list) \<Rightarrow> u8 list \<Rightarrow> nat \<Rightarrow> u32" where
  "block_map disk raw l =
     (if l < 12 then raw_entry raw l
      else if l < 12 + 256 then block_tree disk 1 (raw_entry raw 12) (l - 12)
      else if l < 12 + 256 + 256 ^ 2 then block_tree disk 2 (raw_entry raw 13) (l - 12 - 256)
      else block_tree disk 3 (raw_entry raw 14) (l - 12 - 256 - 256 ^ 2))"

definition file_byte :: "(u64 \<Rightarrow> u8 list) \<Rightarrow> u8 list \<Rightarrow> nat \<Rightarrow> u8" where
  "file_byte disk raw i =
     (let b = block_map disk raw (i div 1024) in if b = 0 then 0 else volume_block disk b ! (i mod 1024))"

definition file_bytes :: "(u64 \<Rightarrow> u8 list) \<Rightarrow> u8 list \<Rightarrow> nat \<Rightarrow> nat \<Rightarrow> u8 list" where
  "file_bytes disk raw i n = map (file_byte disk raw) [i..<i + n]"

text \<open>A driver for blocks of 1024 bytes on a device with sectors of 512.\<close>

definition kilo_driver :: "reader \<Rightarrow> ext2_driver \<Rightarrow> bool" where
  "kilo_driver rd drv \<longleftrightarrow> read_block (drv_dev drv) = rd \<and> blk_size (drv_dev drv) = 512 \<and> block_size drv = 1024"

lemma raw_block_in: "length raw \<ge> 100 \<Longrightarrow> i < 15 \<Longrightarrow> raw_block raw i = Some (raw_entry raw i)"
  using le32_in [of "40 + 4 * i" raw] by (auto simp: raw_block_def raw_entry_def)

lemma file_bytes_append: "file_bytes disk raw i (m + n) = file_bytes disk raw i m @ file_bytes disk raw (i + m) n"
  using upt_add_eq_append [of i "i + m" n] by (simp add: file_bytes_def add.assoc)

lemma file_bytes_length [simp]: "length (file_bytes disk raw i n) = n"
  by (simp add: file_bytes_def)

text \<open>Within one block a file's bytes are a slice of it, or zeros in a hole.\<close>

lemma file_bytes_block:
  assumes "i mod 1024 + n \<le> 1024" "\<And>b. length (volume_block disk b) = 1024"
  shows "block_map disk raw (i div 1024) = 0 \<Longrightarrow> file_bytes disk raw i n = replicate n 0"
    "block_map disk raw (i div 1024) = b \<Longrightarrow> b \<noteq> 0 \<Longrightarrow> slice (volume_block disk b) (i mod 1024) n = Some (file_bytes disk raw i n)"
proof -
  have j: "(i + k) div 1024 = i div 1024 \<and> (i + k) mod 1024 = i mod 1024 + k" if "k < n" for k
  proof -
    have "((i mod 1024 + k) + 1024 * (i div 1024)) div 1024 = i div 1024 \<and>
        ((i mod 1024 + k) + 1024 * (i div 1024)) mod 1024 = i mod 1024 + k"
      using assms(1) that by (subst div_mult_self2, simp, subst mod_mult_self2) simp
    moreover have "(i mod 1024 + k) + 1024 * (i div 1024) = i + k" using mult_div_mod_eq [of 1024 i] by linarith
    ultimately show ?thesis by metis
  qed
  show "file_bytes disk raw i n = replicate n 0" if "block_map disk raw (i div 1024) = 0"
    by (rule nth_equalityI) (use j that in \<open>simp_all add: file_bytes_def file_byte_def\<close>)
  show "slice (volume_block disk b) (i mod 1024) n = Some (file_bytes disk raw i n)"
    if "block_map disk raw (i div 1024) = b" "b \<noteq> 0"
  proof -
    have "take n (drop (i mod 1024) (volume_block disk b)) = file_bytes disk raw i n"
      by (rule nth_equalityI) (use j that assms in \<open>simp_all add: file_bytes_def file_byte_def\<close>)
    then show ?thesis using assms by (simp add: slice_def)
  qed
qed

context sector_device
begin

lemma volume_block_length [simp]: "length (volume_block disk b) = 1024"
  by (simp add: volume_block_def disk_length)

lemma read_block_ready:
  assumes "kilo_driver rd drv" "ready ps d s"
  shows "\<exists>s'. ext2_read_block drv b s = Some (volume_block disk b, s') \<and> ready ps d s'"
proof -
  obtain s1 where 1: "rd (2 * ucast b) s = Some (0, disk (2 * ucast b), s1)" "ready ps d s1" using rd_ready [OF assms(2)] by blast
  obtain s2 where 2: "rd (2 * ucast b + 1) s1 = Some (0, disk (2 * ucast b + 1), s2)" "ready ps d s2" using rd_ready [OF 1(2)] by blast
  have "[0..<2] = [0, Suc 0]" by (simp add: upt_rec)
  then have "ext2_read_block drv b s = Some (volume_block disk b, s2)"
    using 1(1) 2(1) assms(1)
    by (simp add: ext2_read_block_def kilo_driver_def div_u32_def disk_length volume_block_def mult.commute)
  then show ?thesis using 2(2) by blast
qed

lemma scratch_ready:
  "ready ps (Suc d) s \<Longrightarrow> \<exists>p s'. scratch 1024 s = Some (p, s') \<and> p \<notin> ps \<and> ready (insert p ps) d s'"
  using buffer_take [of ps d s] by (auto simp: scratch_def)

lemma entry_ready:
  assumes "kilo_driver rd drv" "ready ps d s" "idx < 256"
  shows "\<exists>s'. indirect_entry drv b idx s = Some (entry disk b (unat idx), s') \<and> ready ps d s'"
proof -
  obtain s' where s': "ext2_read_block drv b s = Some (volume_block disk b, s')" "ready ps d s'"
    using read_block_ready [OF assms(1,2)] by blast
  have "unat idx < 256" using assms(3) by (simp add: word_less_nat_alt)
  then obtain w where "le32 (volume_block disk b) (4 * unat idx) = Some w" using le32_in [of "4 * unat idx" "volume_block disk b"] by auto
  then show ?thesis using s' by (simp add: indirect_entry_def entry_def)
qed

lemma get_block_single:
  assumes "kilo_driver rd drv" "ready ps (Suc d) s" "length (i_priv inode) \<ge> 100" "12 \<le> l" "l < 268"
  shows "\<exists>s'. ext2_get_block_number drv inode l s = Some (block_tree disk 1 (raw_entry (i_priv inode) 12) (unat l - 12), s') \<and>
    ready ps (Suc d) s'"
proof -
  let ?b = "raw_entry (i_priv inode) 12"
  have l: "\<not> l < 12" "l - 12 < 256" "unat (l - 12) = unat l - 12" using assms(4,5) by unat_arith+
  have bs: "block_size drv = 1024" using assms(1) by (simp add: kilo_driver_def)
  note rb = raw_block_in [OF assms(3), of 12]
  show ?thesis
  proof (cases "?b = 0")
    case True
    then show ?thesis using l bs rb assms(2) by (simp add: ext2_get_block_number_def Let_def)
  next
    case False
    obtain p s1 where 1: "scratch 1024 s = Some (p, s1)" "p \<notin> ps" "ready (insert p ps) d s1" using scratch_ready [OF assms(2)] by blast
    obtain s2 where 2: "indirect_entry drv ?b (l - 12) s1 = Some (entry disk ?b (unat l - 12), s2)" "ready (insert p ps) d s2"
      using entry_ready [OF assms(1) 1(3) l(2)] l(3) by auto
    show ?thesis using l bs rb 1(1) 2(1) False buffer_back [OF 2(2) 1(2)] by (simp add: ext2_get_block_number_def Let_def)
  qed
qed

lemma get_block_double:
  assumes "kilo_driver rd drv" "ready ps (Suc d) s" "length (i_priv inode) \<ge> 100" "268 \<le> l" "l < 65804"
  shows "\<exists>s'. ext2_get_block_number drv inode l s = Some (block_tree disk 2 (raw_entry (i_priv inode) 13) (unat l - 268), s') \<and>
    ready ps (Suc d) s'"
proof -
  let ?b = "raw_entry (i_priv inode) 13" and ?l = "l - 268"
  have l: "\<not> l < 12" "\<not> l - 12 < 256" "?l < 65536" "unat ?l = unat l - 268" using assms(4,5) by unat_arith+
  have idx: "?l div 256 < 256" "?l mod 256 < 256" "unat (?l div 256) = (unat l - 268) div 256" "unat (?l mod 256) = (unat l - 268) mod 256"
    using l(3) by (simp_all add: word_less_nat_alt unat_div unat_mod l(4) word_mod_less_divisor)
  have bs: "block_size drv = 1024" using assms(1) by (simp add: kilo_driver_def)
  note rb = raw_block_in [OF assms(3), of 13]
  note u = ext2_get_block_number_def Let_def block_tree_levels
  show ?thesis
  proof (cases "?b = 0")
    case True
    then show ?thesis using l bs rb assms(2) by (simp add: u)
  next
    case False
    obtain p s1 where 1: "scratch 1024 s = Some (p, s1)" "p \<notin> ps" "ready (insert p ps) d s1" using scratch_ready [OF assms(2)] by blast
    let ?e = "entry disk ?b ((unat l - 268) div 256)"
    obtain s2 where 2: "indirect_entry drv ?b (?l div 256) s1 = Some (?e, s2)" "ready (insert p ps) d s2"
      using entry_ready [OF assms(1) 1(3) idx(1)] idx(3) by auto
    obtain s3 where 3: "indirect_entry drv ?e (?l mod 256) s2 = Some (entry disk ?e ((unat l - 268) mod 256), s3)" "ready (insert p ps) d s3"
      using entry_ready [OF assms(1) 2(2) idx(2)] idx(4) by auto
    show ?thesis
      using l bs rb 1(1) 2(1) 3(1) False buffer_back [OF 2(2) 1(2)] buffer_back [OF 3(2) 1(2)] by (cases "?e = 0") (simp_all add: u)
  qed
qed

text \<open>What the code computes beyond the doubly indirect blocks.\<close>

lemma get_block_triple:
  assumes "kilo_driver rd drv" "ready ps (Suc d) s" "length (i_priv inode) \<ge> 100" "65804 \<le> l" "l < 16777484"
  shows "\<exists>s'. ext2_get_block_number drv inode l s = Some (block_tree disk 3 (raw_entry (i_priv inode) 14) (unat l - 268), s') \<and>
    ready ps (Suc d) s'"
proof -
  let ?b = "raw_entry (i_priv inode) 14" and ?l = "l - 268" and ?n = "unat l - 268"
  have l: "\<not> l < 12" "\<not> l - 12 < 256" "\<not> ?l < 65536" "unat ?l = ?n" "?n < 16777216" using assms(4,5) by unat_arith+
  have idx: "?l div 65536 < 256" "?l mod 65536 div 256 < 256" "?l mod 65536 mod 256 < 256" "unat (?l div 65536) = ?n div 65536"
    "unat (?l mod 65536 div 256) = ?n mod 65536 div 256" "unat (?l mod 65536 mod 256) = ?n mod 65536 mod 256"
    using l(5) by (simp_all add: word_less_nat_alt unat_div unat_mod l(4) less_mult_imp_div_less)
  have bs: "block_size drv = 1024" using assms(1) by (simp add: kilo_driver_def)
  note rb = raw_block_in [OF assms(3), of 14]
  note u = ext2_get_block_number_def Let_def block_tree_levels div_u32_def
  show ?thesis
  proof (cases "?b = 0")
    case True
    then show ?thesis using l bs rb assms(2) by (simp add: u)
  next
    case False
    obtain p s1 where 1: "scratch 1024 s = Some (p, s1)" "p \<notin> ps" "ready (insert p ps) d s1" using scratch_ready [OF assms(2)] by blast
    let ?e = "entry disk ?b (?n div 65536)"
    obtain s2 where 2: "indirect_entry drv ?b (?l div 65536) s1 = Some (?e, s2)" "ready (insert p ps) d s2"
      using entry_ready [OF assms(1) 1(3) idx(1)] idx(4) by auto
    let ?f = "entry disk ?e (?n mod 65536 div 256)"
    obtain s3 where 3: "indirect_entry drv ?e (?l mod 65536 div 256) s2 = Some (?f, s3)" "ready (insert p ps) d s3"
      using entry_ready [OF assms(1) 2(2) idx(2)] idx(5) by auto
    obtain s4 where 4: "indirect_entry drv ?f (?l mod 65536 mod 256) s3 = Some (entry disk ?f (?n mod 65536 mod 256), s4)" "ready (insert p ps) d s4"
      using entry_ready [OF assms(1) 3(2) idx(3)] idx(6) by auto
    show ?thesis
      using l bs rb 1(1) 2(1) 3(1) 4(1) False buffer_back [OF 2(2) 1(2)] buffer_back [OF 3(2) 1(2)] buffer_back [OF 4(2) 1(2)]
      by (cases "?e = 0"; cases "?f = 0") (simp_all add: u)
  qed
qed

lemma get_block_ready:
  assumes "kilo_driver rd drv" "ready ps (Suc d) s" "length (i_priv inode) \<ge> 100" "l < 65804"
  shows "\<exists>s'. ext2_get_block_number drv inode l s = Some (block_map disk (i_priv inode) (unat l), s') \<and> ready ps (Suc d) s'"
proof -
  have "unat l < 65804" using assms(4) by unat_arith
  consider "unat l < 12" | "12 \<le> unat l" "unat l < 268" | "268 \<le> unat l" by linarith
  then show ?thesis
  proof cases
    case 1
    then have "l < 12" by unat_arith
    then show ?thesis using raw_block_in [OF assms(3), of "unat l"] 1 assms(2) by (simp add: ext2_get_block_number_def Let_def block_map_def)
  next
    case 2
    then have "12 \<le> l" "l < 268" by unat_arith+
    then show ?thesis using get_block_single [OF assms(1-3)] 2 by (simp add: block_map_def)
  next
    case 3
    then have "268 \<le> l" by unat_arith
    then show ?thesis using get_block_double [OF assms(1-3) _ assms(4)] 3 \<open>unat l < 65804\<close> by (simp add: block_map_def)
  qed
qed

text \<open>One round of the loop of \<open>ext2_file_read\<close>: to the end of the block or of the request.\<close>

lemma read_round:
  assumes "kilo_driver rd drv" "ready ps (Suc d) s" "length (i_priv inode) \<ge> 100" "a + n \<le> 65804 * 1024" "0 < n"
  defines "t \<equiv> min n (1024 - a mod 1024)"
  shows "\<exists>s'. read_loop drv inode (of_nat a) (int n) s = do {
      (rest, off, s) \<leftarrow> read_loop drv inode (of_nat (a + t)) (int (n - t)) s';
      Some (file_bytes disk (i_priv inode) a t @ rest, off, s) } \<and> ready ps (Suc d) s'"
proof -
  let ?raw = "i_priv inode"
  have bs: "block_size drv = 1024" using assms(1) by (simp add: kilo_driver_def)
  have n: "n < 2 ^ 31" "a < 2 ^ 31" using assms(4) by simp_all
  have uo: "unat (of_nat a :: u64) = a" using n(2) by (simp add: unsigned_of_nat take_bit_nat_eq_self)
  have lb: "unat (ucast ((of_nat a :: u64) div 1024) :: u32) = a div 1024"
    using n(2) by (simp add: unsigned_ucast_eq unat_div uo take_bit_nat_eq_self)
  have bo: "unat (ucast ((of_nat a :: u64) mod 1024) :: u32) = a mod 1024"
    by (simp add: unsigned_ucast_eq unat_mod uo take_bit_nat_eq_self)
  have un: "unat (of_nat n :: u32) = n" using n(1) by (simp add: unsigned_of_nat take_bit_nat_eq_self)
  have um: "unat (1024 - ucast ((of_nat a :: u64) mod 1024) :: u32) = 1024 - a mod 1024"
    by (subst unat_sub) (simp_all add: word_le_nat_alt bo)
  have ut: "unat (min (of_nat n) (1024 - ucast ((of_nat a :: u64) mod 1024)) :: u32) = t"
    unfolding t_def min_def word_le_nat_alt um by (simp add: un um)
  have t: "t \<le> n" "a mod 1024 + t \<le> 1024" "t \<le> 1024" by (auto simp: t_def)
  let ?l = "ucast ((of_nat a :: u64) div 1024) :: u32"
  let ?t = "min (of_nat n) (1024 - ucast ((of_nat a :: u64) mod 1024)) :: u32"
  have "?l < 65804" using assms(4,5) lb by (simp add: word_less_nat_alt less_mult_imp_div_less)
  then obtain s1 where 1: "ext2_get_block_number drv inode ?l s = Some (block_map disk ?raw (a div 1024), s1)" "ready ps (Suc d) s1"
    using get_block_ready [OF assms(1-3)] lb by metis
  have "(ucast ?t :: u64) = of_nat t"
    using t(3) ut by (simp add: word_unat_eq_iff unsigned_ucast_eq unsigned_of_nat take_bit_nat_eq_self)
  then have next_args: "of_nat a + ucast ?t = (of_nat (a + t) :: u64)" "int n - uint ?t = int (n - t)"
    using t(1) ut by (simp_all add: uint_nat of_nat_diff)
  note fb = file_bytes_block [OF t(2) volume_block_length, of ?raw]
  show ?thesis
  proof (cases "block_map disk ?raw (a div 1024) = 0")
    case True
    show ?thesis
      using 1 True fb(1) [OF True] assms(5) bs
      by (intro exI [of _ s1]) (subst read_loop.simps, simp add: Let_def ut next_args)
  next
    case False
    obtain s2 where 2: "ext2_read_block drv (block_map disk ?raw (a div 1024)) s1 = Some (volume_block disk (block_map disk ?raw (a div 1024)), s2)"
      "ready ps (Suc d) s2" using read_block_ready [OF assms(1) 1(2)] by blast
    show ?thesis
      using 1(1) 2 False fb(2) [OF refl False] assms(5) bs
      by (intro exI [of _ s2]) (subst read_loop.simps, simp add: Let_def ut bo next_args)
  qed
qed

lemma read_loop_ready:
  assumes "kilo_driver rd drv" "ready ps (Suc d) s" "length (i_priv inode) \<ge> 100" "a + n \<le> 65804 * 1024"
  shows "\<exists>s'. read_loop drv inode (of_nat a) (int n) s = Some (file_bytes disk (i_priv inode) a n, of_nat (a + n), s') \<and>
    ready ps (Suc d) s'"
  using assms(2,4)
proof (induction n arbitrary: a s rule: less_induct)
  case (less n)
  show ?case
  proof (cases "n = 0")
    case True
    then show ?thesis using less.prems by (subst read_loop.simps) (simp add: file_bytes_def)
  next
    case False
    let ?t = "min n (1024 - a mod 1024)"
    have t: "0 < ?t" "?t \<le> n" using False by simp_all
    obtain s1 where 1: "read_loop drv inode (of_nat a) (int n) s = do {
      (rest, off, s) \<leftarrow> read_loop drv inode (of_nat (a + ?t)) (int (n - ?t)) s1;
      Some (file_bytes disk (i_priv inode) a ?t @ rest, off, s) }" "ready ps (Suc d) s1"
      using read_round [OF assms(1) less.prems(1) assms(3) less.prems(2)] False by blast
    have "n - ?t < n" using t by simp
    moreover have "a + ?t + (n - ?t) \<le> 65804 * 1024" using less.prems(2) t(2) by linarith
    ultimately obtain s2 where 2: "read_loop drv inode (of_nat (a + ?t)) (int (n - ?t)) s1 =
        Some (file_bytes disk (i_priv inode) (a + ?t) (n - ?t), of_nat (a + ?t + (n - ?t)), s2)" "ready ps (Suc d) s2"
      using less.IH 1(2) by blast
    have "file_bytes disk (i_priv inode) a ?t @ file_bytes disk (i_priv inode) (a + ?t) (n - ?t) = file_bytes disk (i_priv inode) a n"
      using file_bytes_append [of disk "i_priv inode" a ?t "n - ?t"] t(2) by simp
    moreover have "a + ?t + (n - ?t) = a + n" using t(2) by simp
    ultimately show ?thesis using 1(1) 2 by simp
  qed
qed

lemma file_read_ready:
  assumes "kilo_driver rd drv" "ready ps (Suc (Suc d)) s" "f_inode f = Some inode" "length (i_priv inode) \<ge> 100"
    "i_size inode \<le> 67383296" "len < 2 ^ 31"
  defines "a \<equiv> unat (f_offset f)"
  defines "n \<equiv> min len (unat (i_size inode) - a)"
  shows "\<exists>s'. ext2_file_read drv (Some f) (int len) s =
      Some (int n, file_bytes disk (i_priv inode) a n, Some (f\<lparr>f_offset := of_nat (a + n)\<rparr>), s') \<and> ready ps (Suc (Suc d)) s'"
proof -
  let ?z = "unat (i_size inode)"
  have z: "?z \<le> 67383296" using assms(5) by (simp add: word_le_nat_alt)
  have uz: "unat (ucast (i_size inode) :: u64) = ?z" using z by (simp add: unsigned_ucast_eq take_bit_nat_eq_self)
  have fo: "f_offset f = of_nat a" by (simp add: a_def)
  show ?thesis
  proof (cases "?z \<le> a")
    case True
    then have "f_offset f \<ge> ucast (i_size inode)" by (simp add: word_le_nat_alt uz a_def)
    then show ?thesis using assms(2,3) True fo by (simp add: ext2_file_read_def n_def file_bytes_def)
  next
    case False
    then have ge: "\<not> f_offset f \<ge> ucast (i_size inode)" by (simp add: word_le_nat_alt uz a_def)
    have al: "unat (f_offset f + of_int (int len)) = a + len"
      using False z assms(6) by (simp add: unat_word_ariths a_def unsigned_of_nat take_bit_nat_eq_self)
    have "unat (ucast (i_size inode) - f_offset f :: u64) = ?z - a"
      using ge by (subst unat_sub) (simp_all add: uz a_def)
    then have "unat (ucast (ucast (i_size inode) - f_offset f :: u64) :: u32) = ?z - a"
      using z by (simp add: unsigned_ucast_eq take_bit_nat_eq_self)
    then have sz: "sint (ucast (ucast (i_size inode) - f_offset f :: u64) :: u32) = int (?z - a)"
      using z by (simp add: sint_uint uint_nat signed_take_bit_int_eq_self)
    have len: "(if f_offset f + of_int (int len) > ucast (i_size inode)
        then sint (ucast (ucast (i_size inode) - f_offset f :: u64) :: u32) else int len) = int n"
      unfolding sz word_less_nat_alt al uz n_def by auto
    obtain p s1 where 1: "scratch 1024 s = Some (p, s1)" "p \<notin> ps" "ready (insert p ps) (Suc d) s1" using scratch_ready [OF assms(2)] by blast
    have "a + n \<le> 65804 * 1024" using z False by (auto simp: n_def)
    then obtain s2 where 2: "read_loop drv inode (of_nat a) (int n) s1 = Some (file_bytes disk (i_priv inode) a n, of_nat (a + n), s2)"
      "ready (insert p ps) (Suc d) s2" using read_loop_ready [OF assms(1) 1(3) assms(4)] by blast
    have bs: "block_size drv = 1024" using assms(1) by (simp add: kilo_driver_def)
    have "ext2_file_read drv (Some f) (int len) s =
      Some (int n, file_bytes disk (i_priv inode) a n, Some (f\<lparr>f_offset := of_nat (a + n)\<rparr>), kfree p s2)"
      unfolding ext2_file_read_def option.case assms(3) Let_def len if_not_P [OF ge] using 1(1) 2(1) bs by (simp add: fo)
    then show ?thesis using buffer_back [OF 2(2) 1(2)] by blast
  qed
qed

end

end
