(* ===== verification/Ata.thy ===== *)
theory Ata
  imports Ext2 Keyboard
begin

text \<open>
  The driver of the hard disk (\<open>drivers/ata.c\<close>). Requests form a queue; the thread that finds it empty
  starts its request, every interrupt of the drive completes the first one, and the thread woken by
  it starts the next. The drive is an argument: its byte registers are read and written with \<open>pin\<close>
  and \<open>pout\<close>, and \<open>pinw\<close> reads a word of data.
\<close>

section \<open>Registers\<close>

definition REG_DATA :: u16 where "REG_DATA = 0"
definition REG_SEC_COUNT0 :: u16 where "REG_SEC_COUNT0 = 2"
definition REG_LBA0 :: u16 where "REG_LBA0 = 3"
definition REG_LBA1 :: u16 where "REG_LBA1 = 4"
definition REG_LBA2 :: u16 where "REG_LBA2 = 5"
definition REG_HDDEVSEL :: u16 where "REG_HDDEVSEL = 6"
definition REG_STATUS :: u16 where "REG_STATUS = 7"
definition REG_COMMAND :: u16 where "REG_COMMAND = 7"
definition CMD_IDENTIFY :: u8 where "CMD_IDENTIFY = 0xEC"
definition CMD_READ_PIO_EXT :: u8 where "CMD_READ_PIO_EXT = 0x24"
definition STATUS_BSY :: u8 where "STATUS_BSY = 0x80"
definition STATUS_DRQ :: u8 where "STATUS_DRQ = 0x08"
definition STATUS_ERR :: u8 where "STATUS_ERR = 0x01"

lemmas ata_regs = REG_DATA_def REG_SEC_COUNT0_def REG_LBA0_def REG_LBA1_def REG_LBA2_def REG_HDDEVSEL_def REG_STATUS_def
  REG_COMMAND_def CMD_IDENTIFY_def CMD_READ_PIO_EXT_def STATUS_BSY_def STATUS_DRQ_def STATUS_ERR_def

type_synonym 'd port_inw = "u16 \<Rightarrow> 'd \<Rightarrow> u16 \<times> 'd"

text \<open>\<open>rep insw\<close>: so many words from a port.\<close>

primrec insw :: "'d port_inw \<Rightarrow> u16 \<Rightarrow> nat \<Rightarrow> 'd \<Rightarrow> u16 list \<times> 'd" where
  "insw pinw port 0 d = ([], d)"
| "insw pinw port (Suc n) d = (let (w, d) = pinw port d; (ws, d) = insw pinw port n d in (w # ws, d))"

definition word_bytes :: "u16 list \<Rightarrow> u8 list" where
  "word_bytes ws = concat (map (\<lambda>w. [ucast w, ucast (drop_bit 8 w)]) ws)"

section \<open>Requests and devices\<close>

record ata_request =
  blk_num :: u64
  req_buffer :: ptr
  req_done :: int
  req_next :: ptr

record ata_block_dev =
  ata_base :: u16
  ata_master :: u16
  slave :: u8
  ata_irq :: u8
  req_head :: ptr
  req_tail :: ptr

text \<open>
  The kernel with the requests and devices by address, and the bytes stored at the destinations of
  requests. The wait queue of a request is the queue of its address.
\<close>

record ata_sys = kernel_st +
  reqs :: "ptr \<Rightarrow> ata_request"
  atas :: "ptr \<Rightarrow> ata_block_dev"
  dests :: "ptr \<Rightarrow> u8 list"

definition sizeof_ata_request :: u64 where "sizeof_ata_request = 48"
definition sizeof_ata_block_dev :: u64 where "sizeof_ata_block_dev = 72"

definition set_req :: "ptr \<Rightarrow> (ata_request \<Rightarrow> ata_request) \<Rightarrow> 'a ata_sys_scheme \<Rightarrow> 'a ata_sys_scheme" where
  "set_req r f k = k\<lparr>reqs := (reqs k)(r := f (reqs k r))\<rparr>"

definition set_ata :: "ptr \<Rightarrow> (ata_block_dev \<Rightarrow> ata_block_dev) \<Rightarrow> 'a ata_sys_scheme \<Rightarrow> 'a ata_sys_scheme" where
  "set_ata a f k = k\<lparr>atas := (atas k)(a := f (atas k a))\<rparr>"

section \<open>Starting a request\<close>

partial_function (option) wait_while :: "'d port_in \<Rightarrow> u16 \<Rightarrow> u8 \<Rightarrow> 'd \<Rightarrow> 'd option" where
  "wait_while pin port msk d =
     (let (st, d) = pin port d in if st AND msk \<noteq> 0 then wait_while pin port msk d else Some d)"

definition ata_delay :: "'d port_in \<Rightarrow> u16 \<Rightarrow> 'd \<Rightarrow> 'd" where
  "ata_delay pin base d = fold (\<lambda>_ d. snd (pin (base + REG_STATUS) d)) [0..<15] d"

definition ata_start_request :: "'d port_in \<Rightarrow> 'd port_out \<Rightarrow> ata_block_dev \<Rightarrow> ata_request \<Rightarrow> 'd \<Rightarrow> 'd option" where
  "ata_start_request pin pout a req d = do {
     let base = ata_base a;
     let lba = blk_num req;
     d \<leftarrow> wait_while pin (base + REG_STATUS) (STATUS_BSY OR STATUS_DRQ) d;
     let d = pout (base + REG_HDDEVSEL) (0x40 OR push_bit 4 (slave a)) d;
     let d = ata_delay pin base d;
     let d = pout (base + REG_SEC_COUNT0) 0 d;
     let d = pout (base + REG_SEC_COUNT0) 1 d;
     let d = pout (base + REG_LBA0) (ucast (drop_bit 24 lba AND 0xFF)) d;
     let d = pout (base + REG_LBA0) (ucast (lba AND 0xFF)) d;
     let d = pout (base + REG_LBA1) (ucast (drop_bit 32 lba AND 0xFF)) d;
     let d = pout (base + REG_LBA1) (ucast (drop_bit 8 lba AND 0xFF)) d;
     let d = pout (base + REG_LBA2) (ucast (drop_bit 40 lba AND 0xFF)) d;
     let d = pout (base + REG_LBA2) (ucast (drop_bit 16 lba AND 0xFF)) d;
     Some (pout (base + REG_COMMAND) CMD_READ_PIO_EXT d)
   }"

section \<open>Reading a block\<close>

text \<open>
  \<open>ata_read_block\<close> up to the call that blocks the thread, and from there on. A result \<open>Inl\<close> is the
  return value, \<open>Inr req\<close> says that the thread sleeps on its request.
\<close>

definition ata_sleep :: "ptr \<Rightarrow> ptr \<Rightarrow> 'a ata_sys_scheme \<Rightarrow> ((int + ptr) \<times> 'a ata_sys_scheme) option" where
  "ata_sleep req sp k = do {
     k \<leftarrow> PROC_block_on (Q_dev req) True sp k;
     Some (Inr req, k)
   }"

definition ata_finish ::
    "'d port_in \<Rightarrow> 'd port_out \<Rightarrow> ptr \<Rightarrow> ptr \<Rightarrow> 'a ata_sys_scheme \<times> 'd \<Rightarrow> ((int + ptr) \<times> 'a ata_sys_scheme \<times> 'd) option" where
  "ata_finish pin pout a req = (\<lambda>(k, d). do {
     let k = on_mm CLI (on_mm STI k);
     d \<leftarrow> (if req_head (atas k a) \<noteq> NULL \<and> req_head (atas k a) = req_next (reqs k req)
          then ata_start_request pin pout (atas k a) (reqs k (req_head (atas k a))) d else Some d);
     k \<leftarrow> run_mm (kfree req) (on_mm STI k);
     Some (Inl 0, k, d)
   })"

definition ata_wait ::
    "'d port_in \<Rightarrow> 'd port_out \<Rightarrow> ptr \<Rightarrow> ptr \<Rightarrow> ptr \<Rightarrow> 'a ata_sys_scheme \<times> 'd \<Rightarrow> ((int + ptr) \<times> 'a ata_sys_scheme \<times> 'd) option" where
  "ata_wait pin pout a req sp = (\<lambda>(k, d).
     let k = on_mm CLI k
     in if req_done (reqs k req) = 1 then ata_finish pin pout a req (k, d)
        else do {
          (r, k) \<leftarrow> ata_sleep req sp k;
          Some (r, k, d)
        })"

definition ata_read_block ::
    "'d port_in \<Rightarrow> 'd port_out \<Rightarrow> ptr \<Rightarrow> u64 \<Rightarrow> ptr \<Rightarrow> ptr \<Rightarrow> 'a ata_sys_scheme \<times> 'd \<Rightarrow> ((int + ptr) \<times> 'a ata_sys_scheme \<times> 'd) option" where
  "ata_read_block pin pout a blk dst sp = (\<lambda>(k, d). do {
     (req, k) \<leftarrow> call_mm (kmalloc sizeof_ata_request) k;
     if req = NULL then Some (Inl (-1), k, d)
     else do {
       let k = set_req req (\<lambda>_. \<lparr>blk_num = blk, req_buffer = dst, req_done = 0, req_next = NULL\<rparr>) k;
       let k = PROC_init_queue (Q_dev req) k;
       let k = on_mm CLI k;
       (k, d) \<leftarrow> (if req_head (atas k a) = NULL
                 then do {
                   let k = set_ata a (\<lambda>x. x\<lparr>req_head := req, req_tail := req\<rparr>) k;
                   d \<leftarrow> ata_start_request pin pout (atas k a) (reqs k req) d;
                   Some (k, d)
                 }
                 else let k = set_req (req_tail (atas k a)) (\<lambda>x. x\<lparr>req_next := req\<rparr>) k
                      in Some (set_ata a (\<lambda>x. x\<lparr>req_tail := req\<rparr>) k, d));
       ata_wait pin pout a req sp (k, d)
     }
   })"

text \<open>The interrupt handler.\<close>

definition ISR_ata_handler ::
    "'d port_in \<Rightarrow> 'd port_inw \<Rightarrow> ptr \<Rightarrow> 'a ata_sys_scheme \<times> 'd \<Rightarrow> ('a ata_sys_scheme \<times> 'd) option" where
  "ISR_ata_handler pin pinw a = (\<lambda>(k, d).
     let (st, d) = pin (ata_base (atas k a) + REG_STATUS) d
     in if st = 0 then Some (k, d)
        else if st AND STATUS_DRQ = 0 then Some (k, d)
        else let req = req_head (atas k a)
             in if req = NULL then Some (k, d)
                else if req_buffer (reqs k req) = NULL then Some (k, d)
                else do {
                  let (ws, d) = insw pinw (ata_base (atas k a) + REG_DATA) 256 d;
                  let k = k\<lparr>dests := (dests k)(req_buffer (reqs k req) := word_bytes ws)\<rparr>;
                  let k = set_req req (\<lambda>x. x\<lparr>req_done := 1\<rparr>) k;
                  let k = set_ata a (\<lambda>x. x\<lparr>req_head := req_next (reqs k req)\<rparr>) k;
                  let k = (if req_head (atas k a) = NULL then set_ata a (\<lambda>x. x\<lparr>req_tail := NULL\<rparr>) k else k);
                  k \<leftarrow> PROC_unblock_all (Q_dev req) k;
                  Some (k, d)
                })"

section \<open>Finding the drive\<close>

partial_function (option) wait_identify :: "'d port_in \<Rightarrow> u16 \<Rightarrow> 'd \<Rightarrow> (bool \<times> 'd) option" where
  "wait_identify pin port d =
     (let (st, d) = pin port d
      in if st AND STATUS_ERR \<noteq> 0 then Some (False, d)
         else if st AND STATUS_DRQ \<noteq> 0 then Some (True, d)
         else wait_identify pin port d)"

text \<open>The commands up to the identity data; \<open>None\<close> in the result for the early returns.\<close>

definition ata_identify ::
    "'d port_in \<Rightarrow> 'd port_out \<Rightarrow> 'd port_inw \<Rightarrow> u16 \<Rightarrow> 'd \<Rightarrow> (u16 list option \<times> 'd) option" where
  "ata_identify pin pout pinw base d = do {
     let (st, d) = pin (base + REG_STATUS) d;
     if st = 0xFF then Some (None, d)
     else do {
       let d = pout (base + REG_SEC_COUNT0) 0 d;
       let d = pout (base + REG_LBA0) 0 d;
       let d = pout (base + REG_LBA1) 0 d;
       let d = pout (base + REG_LBA2) 0 d;
       let d = pout (base + REG_COMMAND) CMD_IDENTIFY d;
       let (st, d) = pin (base + REG_STATUS) d;
       if st = 0 then Some (None, d)
       else do {
         d \<leftarrow> wait_while pin (base + REG_STATUS) STATUS_BSY d;
         let (mid, d) = pin (base + REG_LBA1) d;
         let (hi, d) = pin (base + REG_LBA2) d;
         if mid \<noteq> 0 \<or> hi \<noteq> 0 then Some (None, d)
         else do {
           (found, d) \<leftarrow> wait_identify pin (base + REG_STATUS) d;
           if \<not> found then Some (None, d)
           else let (identity, d) = insw pinw (base + REG_DATA) 256 d in Some (Some identity, d)
         }
       }
     }
   }"

text \<open>
  \<open>rd\<close> is \<open>ata_read_block\<close> for the new device as its callers see it, and \<open>h\<close> the interrupt handler. The
  result is the address of the device, NULL for none, and its driver data.
\<close>

definition ata_probe ::
    "'d port_in \<Rightarrow> 'd port_out \<Rightarrow> 'd port_inw \<Rightarrow> reader \<Rightarrow> isr \<Rightarrow> u16 \<Rightarrow> u16 \<Rightarrow> u8 \<Rightarrow> string \<Rightarrow> u8 \<Rightarrow> 'd \<Rightarrow> blk_st \<Rightarrow>
     (ptr \<times> ata_block_dev option \<times> 'd \<times> blk_st) option" where
  "ata_probe pin pout pinw rd h base master slv name irq d s = do {
     (identity, d) \<leftarrow> ata_identify pin pout pinw base d;
     case identity of
       None \<Rightarrow> Some (NULL, None, d, s)
     | Some identity \<Rightarrow>
         if identity ! 83 AND push_bit 10 1 = 0 then Some (NULL, None, d, s)
         else do {
           total_sectors \<leftarrow> le64 (word_bytes identity) 200;
           let (a, m) = kmalloc sizeof_ata_block_dev (heap s);
           let s = s\<lparr>heap := m\<rparr>;
           if a = NULL then Some (NULL, None, d, s)
           else do {
             let dev = \<lparr>tot_length = total_sectors, read_block = rd, blk_size = 512, dev_type = MASS_STORAGE,
                        dev_name = name, fs_type = 0, dev_next = NULL\<rparr>;
             let s = s\<lparr>devs := (devs s)(a := dev)\<rparr>;
             let s = s\<lparr>heap := register_interrupt (uint irq) 0 TYPE_INTRGATE 0 h a (heap s)\<rparr>;
             let s = snd (blk_register a s);
             Some (a, Some \<lparr>ata_base = base, ata_master = master, slave = slv, ata_irq = irq, req_head = NULL, req_tail = NULL\<rparr>, d, s)
           }
         }
   }"

section \<open>What callers see\<close>

text \<open>The sectors of a disk image, given by its bytes.\<close>

definition sector :: "(nat \<Rightarrow> u8) \<Rightarrow> u64 \<Rightarrow> u8 list" where
  "sector img n = map (\<lambda>i. img (512 * unat n + i)) [0..<512]"

text \<open>
  \<open>ata_read_block\<close> to a caller whose request the drive answers: the allocation of the request, the
  early return without one, and its release with interrupts on.
\<close>

definition ata_transfer :: "(nat \<Rightarrow> u8) \<Rightarrow> reader" where
  "ata_transfer img n s =
     (let (req, s) = kmalloc sizeof_ata_request s
      in if req = NULL then Some (-1, [], s) else Some (0, sector img n, kfree req (STI s)))"

interpretation hd: sector_device "ata_transfer img" "sector img" buffers for img
proof unfold_locales
  show "\<exists>s'. ata_transfer img n s = Some (0, sector img n, s') \<and> buffers ps d s'" if "buffers ps d s" for ps d s n
    using buffers_request [OF that] by (auto simp: ata_transfer_def sizeof_ata_request_def)
  show "length (sector img n) = 512" for n by (simp add: sector_def)
  show "\<exists>p s'. kmalloc 1024 s = (p, s') \<and> p \<noteq> NULL \<and> p \<notin> ps \<and> buffers (insert p ps) d s'" if "buffers ps (Suc d) s" for ps d s
    by (rule buffers_take [OF that])
  show "buffers (ps - {p}) (Suc d) (kfree p s)" if "buffers ps d s" "p \<in> ps" for ps d s p
    by (rule buffers_give [OF that])
qed

text \<open>The device \<open>ata_probe\<close> registers for a drive, and a partition of it, which is a disk again.\<close>

definition ata_device :: "(nat \<Rightarrow> u8) \<Rightarrow> u64 \<Rightarrow> string \<Rightarrow> block_dev" where
  "ata_device img n name = \<lparr>tot_length = n, read_block = ata_transfer img, blk_size = 512, dev_type = MASS_STORAGE,
     dev_name = name, fs_type = 0, dev_next = NULL\<rparr>"

interpretation pt: sector_device "partition_read_block (ata_device img n name) lba" "\<lambda>b. sector img (b + ucast lba)" buffers
  for img n name lba
  by unfold_locales
    (use hd.partition_rd [of "ata_device img n name"] hd.disk_length buffers_take buffers_give in \<open>auto simp: ata_device_def\<close>)

end
