(* ===== verification/File_System.thy ===== *)
theory File_System
  imports Ata
begin

text \<open>
  The storage stack put together: an ext2 volume with blocks of 1024 bytes, as the disk image of the
  system has it, in a partition of a disk behind the ATA driver. The volume's contents are given by
  the bytes \<open>img\<close> of the disk and the first sector \<open>lba\<close> of the partition.
\<close>

definition volume :: "(nat \<Rightarrow> u8) \<Rightarrow> u32 \<Rightarrow> u64 \<Rightarrow> u8 list" where
  "volume img lba b = sector img (b + ucast lba)"

text \<open>A driver whose device is a partition of the disk.\<close>

definition mounted :: "(nat \<Rightarrow> u8) \<Rightarrow> u32 \<Rightarrow> ext2_driver \<Rightarrow> bool" where
  "mounted img lba drv \<longleftrightarrow> (\<exists>n name. kilo_driver (partition_read_block (ata_device img n name) lba) drv)"

lemma mountedE:
  assumes "mounted img lba drv"
  obtains n name where "kilo_driver (partition_read_block (ata_device img n name) lba) drv"
  using assms by (auto simp: mounted_def)

lemma volume_eq: "volume img lba = (\<lambda>b. sector img (b + ucast lba))"
  by (rule ext) (simp add: volume_def)

lemma file_read_mounted:
  assumes "mounted img lba drv" "buffers ps (Suc (Suc d)) s" "f_inode f = Some inode" "100 \<le> length (i_priv inode)"
    "i_size inode \<le> 67383296" "len < 2 ^ 31"
  defines "a \<equiv> unat (f_offset f)"
  defines "n \<equiv> min len (unat (i_size inode) - a)"
  shows "\<exists>s'. ext2_file_read drv (Some f) (int len) s =
      Some (int n, file_bytes (volume img lba) (i_priv inode) a n, Some (f\<lparr>f_offset := of_nat (a + n)\<rparr>), s') \<and>
      buffers ps (Suc (Suc d)) s'"
  unfolding a_def n_def using assms(1) by (rule mountedE) (unfold volume_eq, rule pt.file_read_ready [OF _ assms(2-6)])

section \<open>Properties\<close>

text \<open>
  C5: The map from blocks of a file to blocks of the volume agrees with the tree of indirect blocks for
  every block the direct, singly and doubly indirect pointers reach, holes included, and the scratch
  buffer it allocates is given back.
\<close>

theorem get_block_number_correct:
  assumes "mounted img lba drv" "buffers ps (Suc d) s" "100 \<le> length (i_priv inode)" "l < 65804"
  shows "\<exists>s'. ext2_get_block_number drv inode l s = Some (block_map (volume img lba) (i_priv inode) (unat l), s') \<and>
    buffers ps (Suc d) s'"
  using assms(1) by (rule mountedE) (unfold volume_eq, rule pt.get_block_ready [OF _ assms(2-4)])

text \<open>
  C40: Beyond the doubly indirect blocks the code forgets to subtract their number: it returns the block
  that belongs to the position 65536 blocks further on in the file.
\<close>

theorem get_block_number_triple:
  assumes "mounted img lba drv" "buffers ps (Suc d) s" "100 \<le> length (i_priv inode)" "65804 \<le> l" "l < 16777484"
  shows "\<exists>s'. ext2_get_block_number drv inode l s = Some (block_map (volume img lba) (i_priv inode) (unat l + 65536), s') \<and>
    buffers ps (Suc d) s'"
proof -
  have "65804 \<le> unat l" using assms(4) by (simp add: word_le_nat_alt)
  then have "block_map (volume img lba) (i_priv inode) (unat l + 65536) = block_tree (volume img lba) 3 (raw_entry (i_priv inode) 14) (unat l - 268)"
    by (simp add: block_map_def)
  then show ?thesis using assms(1) by (elim mountedE) (unfold volume_eq, simp, rule pt.get_block_triple [OF _ assms(2-5)])
qed

text \<open>
  C1: Reading a file of at most 65804 blocks: the call stores exactly the bytes of the file from the current
  offset on, as many as asked for but not beyond the end, across block boundaries and with zeros for
  holes, returns their number and advances the offset by it; both scratch buffers are given back.
\<close>

theorem file_read_correct:
  assumes "mounted img lba drv" "buffers ps (Suc (Suc d)) s" "f_inode f = Some inode" "100 \<le> length (i_priv inode)"
    "i_size inode \<le> 67383296" "len < 2 ^ 31"
  shows "let a = unat (f_offset f); n = min len (unat (i_size inode) - a) in
    \<exists>s'. ext2_file_read drv (Some f) (int len) s =
      Some (int n, file_bytes (volume img lba) (i_priv inode) a n, Some (f\<lparr>f_offset := of_nat (a + n)\<rparr>), s') \<and>
      buffers ps (Suc (Suc d)) s'"
  unfolding Let_def by (rule file_read_mounted [OF assms])

section \<open>A concrete volume\<close>

text \<open>A heap with three buffers and two small blocks, and a disk whose byte at offset \<open>i\<close> is \<open>i mod 251\<close>.\<close>

definition storage_heap :: kmem_st where
  "storage_heap = kmem_example\<lparr>kernel_va := VA_KHEAP_BASE + 0x3000,
     pools := pools_init[1 := \<lparr>max_size = 64, avail_blocks = 2, pool_head = VA_KHEAP_BASE + 0x800\<rparr>,
                         5 := \<lparr>max_size = 2048, avail_blocks = 3, pool_head = VA_KHEAP_BASE + 0x1000\<rparr>],
     kheap := (\<lambda>_. 0)(VA_KHEAP_BASE + 0x800 := VA_KHEAP_BASE + 0x840, VA_KHEAP_BASE + 0x1000 := VA_KHEAP_BASE + 0x1800, VA_KHEAP_BASE + 0x1800 := VA_KHEAP_BASE + 0x2000)\<rparr>"

definition pattern :: "nat \<Rightarrow> u8" where
  "pattern i = of_nat (i mod 251)"

definition example_driver :: ext2_driver where
  "example_driver = \<lparr>drv_dev = (ata_device pattern 30720 ''disk'')\<lparr>read_block := partition_read_block (ata_device pattern 30720 ''disk'') 2048\<rparr>,
     drv_sb = [], block_size = 1024, block_start = 2\<rparr>"

text \<open>A file of 10 bytes in block 5.\<close>

definition example_inode :: vnode where
  "example_inode = \<lparr>i_at = 0x100, ino_num = 11, i_size = 10, i_mode = 0x8000, i_priv_at = 0x200, i_priv = (replicate 128 0)[40 := 5]\<rparr>"

lemma storage_heap_fields:
  "pools storage_heap = [\<lparr>max_size = 32, avail_blocks = 0, pool_head = NULL\<rparr>, \<lparr>max_size = 64, avail_blocks = 2, pool_head = 0x10000000800\<rparr>,
     \<lparr>max_size = 128, avail_blocks = 0, pool_head = NULL\<rparr>, \<lparr>max_size = 512, avail_blocks = 0, pool_head = NULL\<rparr>,
     \<lparr>max_size = 1024, avail_blocks = 0, pool_head = NULL\<rparr>, \<lparr>max_size = 2048, avail_blocks = 3, pool_head = 0x10000001000\<rparr>]"
  "pools_at storage_heap = 0x20000" "kernel_va storage_heap = 0x10000003000" "kheap storage_heap = (\<lambda>_. 0)(0x10000000800 := 0x10000000840, 0x10000001000 := 0x10000001800, 0x10000001800 := 0x10000002000)"
  "\<not> halted storage_heap"
  by (simp_all add: storage_heap_def kmem_example_def vm_st.defs kmem_st.defs VA_KHEAP_BASE_def vm_example_def frames_st.defs
      pools_init_def pool_sizes_def pf_example_def)

definition storage_free :: "nat \<Rightarrow> ptr list" where
  "storage_free i = (if i = 1 then [0x10000000800, 0x10000000840] else if i = 5 then [0x10000001000, 0x10000001800, 0x10000002000] else [])"

text \<open>There may be a kernel stack among the blocks in use.\<close>

lemma storage_heap_ok:
  assumes "L \<subseteq> {(0x8000, 0x2000)}"
  shows "heap_ok storage_heap storage_free L"
proof -
  have ex: "(\<exists>i < NUM_POOLS. P i) \<longleftrightarrow> P 0 \<or> P 1 \<or> P 2 \<or> P 3 \<or> P 4 \<or> P 5" for P
  proof
    show "P 0 \<or> P 1 \<or> P 2 \<or> P 3 \<or> P 4 \<or> P 5" if "\<exists>i < NUM_POOLS. P i" using that by (blast elim: pool_cases)
    show "\<exists>i < NUM_POOLS. P i" if "P 0 \<or> P 1 \<or> P 2 \<or> P 3 \<or> P 4 \<or> P 5"
      using that unfolding NUM_POOLS_def by (elim disjE) (rule exI, erule conjI [rotated], simp)+
  qed
  have r: "free_regions storage_free = {(0x10000000800, 64), (0x10000000840, 64), (0x10000001000, 2048), (0x10000001800, 2048), (0x10000002000, 2048)}"
    unfolding set_eq_iff split_paired_All free_regions_mem ex
    by (auto simp: storage_free_def Kmalloc.block_size_def pool_sizes_def)
  have "heap_lists storage_heap storage_free L 0x10000003000"
  proof (rule heap_listsI)
    show "llist (kheap storage_heap) NULL (pool_head (pools storage_heap ! i)) (storage_free i)" if "i < NUM_POOLS" for i
      using that by (elim pool_cases) (simp_all add: storage_heap_fields storage_free_def)
    show "disjoint_family_on span (free_regions storage_free \<union> L)"
    proof (rule disjoint_family_on_mono)
      show "free_regions storage_free \<union> L \<subseteq> insert (0x8000, 0x2000) (free_regions storage_free)" using assms by blast
      show "disjoint_family_on span (insert (0x8000, 0x2000) (free_regions storage_free))"
        by (simp add: r disjoint_insert) (auto simp: disjoint_family_on_def span_def)
    qed
  qed (use assms in \<open>auto simp: r storage_heap_fields pool_sizes_def header_ok_def\<close>)
  moreover have "avail_blocks (pools storage_heap ! i) = int (length (storage_free i))" if "i < NUM_POOLS" for i
    using that by (elim pool_cases) (simp_all add: storage_heap_fields storage_free_def)
  ultimately show ?thesis by (simp add: heap_ok_def storage_heap_fields)
qed

lemma storage_buffers: "buffers {} (Suc (Suc (Suc 0))) storage_heap"
proof -
  have "stocked ((\<lambda>_. 0)(5 := Suc (Suc (Suc 0)), 1 := 1)) storage_heap {}"
    using storage_heap_ok [of "{}"] unfolding stocked_def by (auto simp: storage_heap_fields storage_free_def intro!: exI [of _ storage_free])
  then show ?thesis by (auto simp: buffers_def buffers_in_def buffer_blocks_def)
qed

lemma example_mounted: "mounted pattern 2048 example_driver"
  unfolding mounted_def by (intro exI [of _ 30720] exI [of _ "''disk''"]) (simp add: kilo_driver_def example_driver_def ata_device_def)

lemma example_inode_fields:
  "raw_entry (i_priv example_inode) 0 = 5" "raw_entry (i_priv example_inode) 14 = 0" "length (i_priv example_inode) = 128"
  "i_size example_inode = 10"
  by (simp_all add: raw_entry_def raw_block_def le32_def le16_def example_inode_def)

theorem get_block_number_correct_witness:
  "\<exists>s'. ext2_get_block_number example_driver example_inode 0 storage_heap = Some (5, s')"
  using get_block_number_correct [OF example_mounted storage_buffers, of example_inode 0] example_inode_fields
  by (auto simp: block_map_def)

theorem get_block_number_triple_witness:
  "\<exists>s'. ext2_get_block_number example_driver example_inode 65804 storage_heap = Some (0, s')"
  using get_block_number_triple [OF example_mounted storage_buffers, of example_inode 65804] example_inode_fields
  by (auto simp: block_map_def block_tree_levels)

theorem file_read_correct_witness:
  "\<exists>s'. ext2_file_read example_driver (Some \<lparr>f_at = 0x300, f_inode = Some example_inode, f_offset = 7\<rparr>) 100 storage_heap =
     Some (3, file_bytes (volume pattern 2048) (i_priv example_inode) 7 3, Some \<lparr>f_at = 0x300, f_inode = Some example_inode, f_offset = 10\<rparr>, s')"
  using file_read_correct [OF example_mounted storage_buffers,
      of "\<lparr>f_at = 0x300, f_inode = Some example_inode, f_offset = 7\<rparr>" example_inode 100] example_inode_fields
  by (auto simp: Let_def)

end
