(* ===== verification/Klibc_String.thy ===== *)
theory Klibc_String
  imports Prelude
begin

text \<open>
  The memory and string functions of \<open>klibc/string.c\<close> over a byte-addressed memory. Loops with a
  count run over the offsets, searches for a terminator are partial functions: on memory without
  one they do not return.
\<close>

section \<open>Model\<close>

type_synonym bytes = "ptr \<Rightarrow> u8"

definition memset :: "ptr \<Rightarrow> u8 \<Rightarrow> u64 \<Rightarrow> bytes \<Rightarrow> ptr \<times> bytes" where
  "memset s c n m = (s, fold (\<lambda>i m. m(s + of_nat i := c)) [0..<unat n] m)"

definition copy_byte :: "ptr \<Rightarrow> ptr \<Rightarrow> nat \<Rightarrow> bytes \<Rightarrow> bytes" where
  "copy_byte dest src i m = m(dest + of_nat i := m (src + of_nat i))"

definition memcpy :: "ptr \<Rightarrow> ptr \<Rightarrow> u64 \<Rightarrow> bytes \<Rightarrow> ptr \<times> bytes" where
  "memcpy dest src n m = (dest, fold (copy_byte dest src) [0..<unat n] m)"

definition memmove :: "ptr \<Rightarrow> ptr \<Rightarrow> u64 \<Rightarrow> bytes \<Rightarrow> ptr \<times> bytes" where
  "memmove dest src n m =
     (dest, if dest < src
            then fold (copy_byte dest src) [0..<unat n] m
            else fold (copy_byte dest src) (rev [0..<unat n]) m)"

partial_function (option) strlen_from :: "ptr \<Rightarrow> u64 \<Rightarrow> bytes \<Rightarrow> u64 option" where
  "strlen_from s len m = (if m (s + len) \<noteq> 0 then strlen_from s (len + 1) m else Some len)"

definition strlen :: "ptr \<Rightarrow> bytes \<Rightarrow> u64 option" where
  "strlen s m = strlen_from s 0 m"

text \<open>The two loops of \<open>strncpy\<close>: while the source has bytes, and the padding with zeroes.\<close>

fun strncpy_copy :: "nat \<Rightarrow> nat \<Rightarrow> ptr \<Rightarrow> ptr \<Rightarrow> bytes \<Rightarrow> nat \<times> bytes" where
  "strncpy_copy 0 i dest src m = (i, m)"
| "strncpy_copy (Suc k) i dest src m =
     (if m (src + of_nat i) \<noteq> 0
      then strncpy_copy k (Suc i) dest src (m(dest + of_nat i := m (src + of_nat i)))
      else (i, m))"

definition strncpy :: "ptr \<Rightarrow> ptr \<Rightarrow> u64 \<Rightarrow> bytes \<Rightarrow> ptr \<times> bytes" where
  "strncpy dest src n m =
     (let (i, m) = strncpy_copy (unat n) 0 dest src m
      in (dest, fold (\<lambda>i m. m(dest + of_nat i := 0)) [i..<unat n] m))"

partial_function (option) strcmp :: "ptr \<Rightarrow> ptr \<Rightarrow> bytes \<Rightarrow> int option" where
  "strcmp str1 str2 m =
     (if m str1 \<noteq> 0 \<and> m str1 = m str2 then strcmp (str1 + 1) (str2 + 1) m
      else Some (uint (m str1) - uint (m str2)))"

partial_function (option) strchr :: "ptr \<Rightarrow> u8 \<Rightarrow> bytes \<Rightarrow> ptr option" where
  "strchr sptr uc m =
     (if m sptr \<noteq> uc \<and> m sptr \<noteq> 0 then strchr (sptr + 1) uc m
      else Some (if m sptr = uc then sptr else NULL))"

section \<open>Ranges and strings\<close>

text \<open>The byte at an address that is \<open>i\<close> places into a range, with addresses taken modulo \<open>2^64\<close>.\<close>

definition in_range :: "ptr \<Rightarrow> nat \<Rightarrow> ptr \<Rightarrow> bool" where
  "in_range p n a \<longleftrightarrow> unat (a - p) < n"

lemma offset_unat: "i < 18446744073709551616 \<Longrightarrow> unat (p + of_nat i - (p::u64)) = i"
  by (simp add: unat_of_nat)

lemma unat_offset: "unat (p::u64) + i < 18446744073709551616 \<Longrightarrow> unat (p + of_nat i) = unat p + i"
  by (simp add: unat_word_ariths unat_of_nat)

lemma offset_inj:
  "i < 18446744073709551616 \<Longrightarrow> j < 18446744073709551616 \<Longrightarrow> (p::u64) + of_nat i = p + of_nat j \<longleftrightarrow> i = j"
  by (metis offset_unat)

lemma offset_eq: "(a::u64) = p + of_nat (unat (a - p))"
  by simp

lemma of_nat_eq_offset: "i < 18446744073709551616 \<Longrightarrow> (a::u64) = p + of_nat i \<longleftrightarrow> unat (a - p) = i"
  using offset_unat [of i p] offset_eq [of a p] by metis

lemma offset_neq:
  "unat p + i < 18446744073709551616 \<Longrightarrow> unat q + j < 18446744073709551616 \<Longrightarrow> unat p + i \<noteq> unat q + j \<Longrightarrow>
   (p::u64) + of_nat i \<noteq> q + of_nat j"
  by (metis unat_offset)

definition holds_string :: "bytes \<Rightarrow> ptr \<Rightarrow> u8 list \<Rightarrow> bool" where
  "holds_string m p xs \<longleftrightarrow> length xs < 18446744073709551616 \<and> 0 \<notin> set xs \<and>
     (\<forall>i < length xs. m (p + of_nat i) = xs ! i) \<and> m (p + of_nat (length xs)) = 0"

lemma holds_string_Nil [simp]: "holds_string m p [] \<longleftrightarrow> m p = 0"
  by (simp add: holds_string_def)

lemma holds_string_Cons:
  assumes "holds_string m p (x # xs)" shows "m p = x" "x \<noteq> 0" "holds_string m (p + 1) xs"
proof -
  have h: "Suc (length xs) < 18446744073709551616" "0 \<notin> set (x # xs)" "\<forall>i < Suc (length xs). m (p + of_nat i) = (x # xs) ! i"
    "m (p + of_nat (Suc (length xs))) = 0" using assms by (auto simp: holds_string_def)
  show "m p = x" using h(3) [rule_format, of 0] by simp
  show "x \<noteq> 0" using h(2) by auto
  have "m (p + 1 + of_nat i) = xs ! i" if "i < length xs" for i
    using h(3) [rule_format, of "Suc i"] that by (simp add: add.assoc)
  moreover have "m (p + 1 + of_nat (length xs)) = 0" using h(4) by (simp add: add.assoc)
  ultimately show "holds_string m (p + 1) xs" using h(1,2) by (simp add: holds_string_def)
qed

lemma holds_string_Cons_iff:
  assumes "Suc (length xs) < 18446744073709551616"
  shows "holds_string m p (x # xs) \<longleftrightarrow> m p = x \<and> x \<noteq> 0 \<and> holds_string m (p + 1) xs"
proof
  assume "m p = x \<and> x \<noteq> 0 \<and> holds_string m (p + 1) xs"
  moreover from this have "m (p + of_nat i) = (x # xs) ! i" if "i < Suc (length xs)" for i
    using that by (cases i) (auto simp: holds_string_def add.assoc)
  ultimately show "holds_string m p (x # xs)" using assms by (auto simp: holds_string_def add.assoc)
qed (use holds_string_Cons in blast)

section \<open>Copying\<close>

lemma copy_byte_apply: "copy_byte dest src i m a = (if a = dest + of_nat i then m (src + of_nat i) else m a)"
  by (simp add: copy_byte_def)

lemma set_fold:
  assumes "n \<le> 18446744073709551616"
  shows "fold (\<lambda>i m. m(s + of_nat i := c)) [k..<n] m (a::u64) = (if k \<le> unat (a - s) \<and> unat (a - s) < n then c else m a)"
  using assms
proof (induction n)
  case (Suc n)
  show ?case
  proof (cases "k \<le> n")
    case True
    then show ?thesis using Suc of_nat_eq_offset [of n a s] by (auto simp: less_Suc_eq)
  qed (use Suc in auto)
qed simp

text \<open>Copying upwards is right when no byte is overwritten before it is read.\<close>

definition ahead :: "ptr \<Rightarrow> ptr \<Rightarrow> nat \<Rightarrow> bool" where
  "ahead dest src n \<longleftrightarrow> (\<forall>i j. i < j \<longrightarrow> j < n \<longrightarrow> dest + of_nat i \<noteq> src + of_nat j)"

lemma copy_up:
  assumes "n \<le> 18446744073709551616" "ahead dest src n"
  shows "fold (copy_byte dest src) [0..<n] m a =
    (if in_range dest n a then m (src + (a - dest)) else m a)"
  using assms
proof (induction n arbitrary: a)
  case (Suc n)
  have ah: "ahead dest src n" using Suc.prems(2) by (simp add: ahead_def)
  define f where "f = fold (copy_byte dest src) [0..<n] m"
  have f: "f b = (if in_range dest n b then m (src + (b - dest)) else m b)" for b
    unfolding f_def using Suc.IH [OF _ ah] Suc.prems(1) by simp
  have "\<not> in_range dest n (src + of_nat n)"
  proof
    assume "in_range dest n (src + of_nat n)"
    then have "unat (src + of_nat n - dest) < n" by (simp add: in_range_def)
    then have "dest + of_nat (unat (src + of_nat n - dest)) \<noteq> src + of_nat n"
      using Suc.prems(2) unfolding ahead_def by blast
    then show False by simp
  qed
  then have g: "f (src + of_nat n) = m (src + of_nat n)" by (simp add: f)
  have step: "fold (copy_byte dest src) [0..<Suc n] m = copy_byte dest src n f" by (simp add: f_def)
  show ?case
    unfolding step using g f [of a] Suc.prems(1) of_nat_eq_offset [of n a dest]
    by (auto simp: in_range_def less_Suc_eq copy_byte_apply)
qed (simp add: in_range_def)

text \<open>Copying downwards, the mirror image.\<close>

definition behind :: "ptr \<Rightarrow> ptr \<Rightarrow> nat \<Rightarrow> bool" where
  "behind dest src n \<longleftrightarrow> (\<forall>i j. j < i \<longrightarrow> i < n \<longrightarrow> dest + of_nat i \<noteq> src + of_nat j)"

lemma copy_down:
  assumes "n \<le> 18446744073709551616" "behind dest src n"
  shows "fold (copy_byte dest src) (rev [0..<n]) m a =
    (if in_range dest n a then m (src + (a - dest)) else m a)"
  using assms
proof (induction n arbitrary: m a)
  case (Suc n)
  have be: "behind dest src n" using Suc.prems(2) by (simp add: behind_def)
  let ?m = "m(dest + of_nat n := m (src + of_nat n))"
  have keep: "?m (src + (a - dest)) = m (src + (a - dest))" if "in_range dest n a"
  proof -
    have "dest + of_nat n \<noteq> src + of_nat (unat (a - dest))"
      using Suc.prems(2) that unfolding behind_def in_range_def by blast
    then show ?thesis by simp
  qed
  show ?case
    using Suc.IH [OF _ be, where m = ?m and a = a] Suc.prems(1) of_nat_eq_offset [of n a dest] keep
    by (auto simp: in_range_def less_Suc_eq copy_byte_def)
qed (simp add: in_range_def)

lemma ahead_below:
  assumes "dest < src" "unat dest + n \<le> 18446744073709551616" "unat src + n \<le> 18446744073709551616"
  shows "ahead dest src n"
  unfolding ahead_def
proof (intro allI impI notI)
  fix i j assume ij: "i < j" "j < n" "dest + of_nat i = src + of_nat j"
  then show False using offset_neq [of dest i src j] assms by (simp add: unat_less_iff)
qed

lemma behind_above:
  assumes "\<not> dest < src" "unat dest + n \<le> 18446744073709551616" "unat src + n \<le> 18446744073709551616"
  shows "behind dest src n"
  unfolding behind_def
proof (intro allI impI notI)
  fix i j assume ij: "j < i" "i < n" "dest + of_nat i = src + of_nat j"
  then show False using offset_neq [of dest i src j] assms by (simp add: unat_less_iff)
qed

section \<open>Properties\<close>

text \<open>
  \<open>memmove\<close> copies correctly whatever the overlap: for ranges that do not run past the end of the
  address space, every byte of the destination gets the byte the source had before the call, and no
  other byte changes.
\<close>

theorem memmove_correct:
  assumes "unat dest + unat n \<le> 2 ^ 64" "unat src + unat n \<le> 2 ^ 64"
  shows "memmove dest src n m = (dest, \<lambda>a. if in_range dest (unat n) a then m (src + (a - dest)) else m a)"
  using copy_up [of "unat n" dest src m] copy_down [of "unat n" dest src m] assms
    ahead_below [of dest src "unat n"] behind_above [of dest src "unat n"]
  by (auto simp: memmove_def fun_eq_iff)

text \<open>
  On disjoint ranges \<open>memcpy\<close> and \<open>memmove\<close> agree, so the faster loop may be used there.
\<close>

theorem memcpy_memmove:
  assumes "unat dest + unat n \<le> 2 ^ 64" "unat src + unat n \<le> 2 ^ 64"
    "unat dest + unat n \<le> unat src \<or> unat src + unat n \<le> unat dest"
  shows "memcpy dest src n m = memmove dest src n m"
proof -
  have "ahead dest src (unat n)"
    unfolding ahead_def
  proof (intro allI impI notI)
    fix i j assume ij: "i < j" "j < unat n" "dest + of_nat i = src + of_nat j"
    then show False using offset_neq [of dest i src j] assms by auto
  qed
  then show ?thesis
    using copy_up [of "unat n" dest src m] copy_down [of "unat n" dest src m] assms
      ahead_below [of dest src "unat n"] behind_above [of dest src "unat n"]
    by (auto simp: memcpy_def memmove_def fun_eq_iff)
qed

text \<open>
  The string functions on terminated strings all return: \<open>strlen\<close> gives the number of bytes
  before the terminator, \<open>strcmp\<close> gives zero exactly for equal strings and otherwise the difference of
  the first bytes that differ, and \<open>strchr\<close> the first occurrence of a byte, or NULL.
\<close>

fun first_diff :: "u8 list \<Rightarrow> u8 list \<Rightarrow> int" where
  "first_diff [] [] = 0"
| "first_diff (x # xs) [] = uint x"
| "first_diff [] (y # ys) = - uint y"
| "first_diff (x # xs) (y # ys) = (if x = y then first_diff xs ys else uint x - uint y)"

lemma first_diff_eq: "0 \<notin> set xs \<Longrightarrow> 0 \<notin> set ys \<Longrightarrow> first_diff xs ys = 0 \<longleftrightarrow> xs = ys"
  by (induction xs ys rule: first_diff.induct) (auto simp: uint_0_iff simp flip: word_uint_eq_iff)

lemma strlen_from_list: "holds_string m (s + len) xs \<Longrightarrow> strlen_from s len m = Some (len + of_nat (length xs))"
proof (induction xs arbitrary: len)
  case Nil
  then show ?case by (simp add: strlen_from.simps)
next
  case (Cons x xs)
  note h = holds_string_Cons [OF Cons.prems]
  then have "strlen_from s (len + 1) m = Some (len + 1 + of_nat (length xs))"
    using Cons.IH [of "len + 1"] by (simp add: add.assoc)
  then show ?case using h by (subst strlen_from.simps) (simp add: add.assoc)
qed

lemma strcmp_list:
  "holds_string m p xs \<Longrightarrow> holds_string m q ys \<Longrightarrow> strcmp p q m = Some (first_diff xs ys)"
proof (induction xs ys arbitrary: p q rule: first_diff.induct)
  case (4 x xs y ys)
  note h = holds_string_Cons [OF 4(2)] holds_string_Cons [OF 4(3)]
  show ?case using h 4(1) [OF _ h(3) h(6)] by (subst strcmp.simps) auto
qed (auto simp: strcmp.simps dest: holds_string_Cons)

lemma strchr_list:
  "holds_string m p xs \<Longrightarrow> c \<noteq> 0 \<Longrightarrow>
   strchr p c m = Some (case first_index (\<lambda>x. x = c) xs of Some i \<Rightarrow> p + of_nat i | None \<Rightarrow> NULL)"
proof (induction xs arbitrary: p)
  case Nil
  then show ?case by (simp add: strchr.simps)
next
  case (Cons x xs)
  note h = holds_string_Cons [OF Cons.prems(1)]
  show ?case
    using h Cons.IH [OF h(3) Cons.prems(2)]
    by (subst strchr.simps) (auto simp: add.assoc split: option.splits)
qed

theorem string_functions_correct:
  assumes "holds_string m p xs" "holds_string m q ys" "c \<noteq> 0"
  shows "strlen p m = Some (of_nat (length xs)) \<and>
    strcmp p q m = Some (first_diff xs ys) \<and> (first_diff xs ys = 0 \<longleftrightarrow> xs = ys) \<and>
    strchr p c m = Some (case first_index (\<lambda>x. x = c) xs of Some i \<Rightarrow> p + of_nat i | None \<Rightarrow> NULL)"
  using strlen_from_list [of m p 0 xs] strcmp_list [OF assms(1,2)] strchr_list [OF assms(1,3)]
    first_diff_eq [of xs ys] assms by (auto simp: strlen_def holds_string_def)

text \<open>A string copied to an overlapping place, and two strings to compare.\<close>

definition bytes_example :: bytes where
  "bytes_example = (\<lambda>_. 0)(0x1000 := 0x61, 0x1001 := 0x62, 0x1002 := 0x63, 0x2000 := 0x61, 0x2001 := 0x64)"

lemma bytes_example_strings:
  "holds_string bytes_example 0x1000 [0x61, 0x62, 0x63]" "holds_string bytes_example 0x2000 [0x61, 0x64]"
  by (simp_all add: holds_string_Cons_iff) (simp_all add: bytes_example_def)

theorem memmove_correct_witness:
  "map (snd (memmove 0x1001 0x1000 3 bytes_example)) [0x1001, 0x1002, 0x1003] = [0x61, 0x62, 0x63]"
  using memmove_correct [of "0x1001" 3 "0x1000" bytes_example] by (simp add: in_range_def bytes_example_def)

theorem memcpy_memmove_witness: "memcpy 0x3000 0x1000 3 bytes_example = memmove 0x3000 0x1000 3 bytes_example"
  using memcpy_memmove [of "0x3000" 3 "0x1000" bytes_example] by simp

theorem string_functions_correct_witness:
  "strlen 0x1000 bytes_example = Some 3 \<and> strcmp 0x1000 0x2000 bytes_example = Some (-2) \<and>
   strchr 0x1000 0x63 bytes_example = Some 0x1002"
  using string_functions_correct [OF bytes_example_strings, of "0x63"] by simp

end
