(* ===== verification/Md5.thy ===== *)
theory Md5
  imports File_System Klibc_String
begin

text \<open>
  The MD5 digest (\<open>kernel/md5.c\<close>), fed in pieces of any length and over the contents of a file, against
  the digest of a whole message: padding to a multiple of 64 bytes and one step per block.
\<close>

section \<open>Context and step\<close>

record MD5Context =
  ctx_size :: u64
  ctx_buffer :: "u32 list"
  ctx_input :: "u8 list"
  ctx_digest :: "u8 list"

definition md5_S :: "nat list" where
  "md5_S = [7, 12, 17, 22, 7, 12, 17, 22, 7, 12, 17, 22, 7, 12, 17, 22,
     5, 9, 14, 20, 5, 9, 14, 20, 5, 9, 14, 20, 5, 9, 14, 20,
     4, 11, 16, 23, 4, 11, 16, 23, 4, 11, 16, 23, 4, 11, 16, 23,
     6, 10, 15, 21, 6, 10, 15, 21, 6, 10, 15, 21, 6, 10, 15, 21]"

definition md5_K :: "u32 list" where
  "md5_K = [0xd76aa478, 0xe8c7b756, 0x242070db, 0xc1bdceee, 0xf57c0faf, 0x4787c62a, 0xa8304613, 0xfd469501,
     0x698098d8, 0x8b44f7af, 0xffff5bb1, 0x895cd7be, 0x6b901122, 0xfd987193, 0xa679438e, 0x49b40821,
     0xf61e2562, 0xc040b340, 0x265e5a51, 0xe9b6c7aa, 0xd62f105d, 0x02441453, 0xd8a1e681, 0xe7d3fbc8,
     0x21e1cde6, 0xc33707d6, 0xf4d50d87, 0x455a14ed, 0xa9e3e905, 0xfcefa3f8, 0x676f02d9, 0x8d2a4c8a,
     0xfffa3942, 0x8771f681, 0x6d9d6122, 0xfde5380c, 0xa4beea44, 0x4bdecfa9, 0xf6bb4b60, 0xbebfbc70,
     0x289b7ec6, 0xeaa127fa, 0xd4ef3085, 0x04881d05, 0xd9d4d039, 0xe6db99e5, 0x1fa27cf8, 0xc4ac5665,
     0xf4292244, 0x432aff97, 0xab9423a7, 0xfc93a039, 0x655b59c3, 0x8f0ccc92, 0xffeff47d, 0x85845dd1,
     0x6fa87e4f, 0xfe2ce6e0, 0xa3014314, 0x4e0811a1, 0xf7537e82, 0xbd3af235, 0x2ad7d2bb, 0xeb86d391]"

definition PADDING :: "u8 list" where
  "PADDING = 0x80 # replicate 63 0"

definition md5_F :: "u32 \<Rightarrow> u32 \<Rightarrow> u32 \<Rightarrow> u32" where "md5_F X Y Z = (X AND Y) OR (NOT X AND Z)"
definition md5_G :: "u32 \<Rightarrow> u32 \<Rightarrow> u32 \<Rightarrow> u32" where "md5_G X Y Z = (X AND Z) OR (Y AND NOT Z)"
definition md5_H :: "u32 \<Rightarrow> u32 \<Rightarrow> u32 \<Rightarrow> u32" where "md5_H X Y Z = X XOR Y XOR Z"
definition md5_I :: "u32 \<Rightarrow> u32 \<Rightarrow> u32 \<Rightarrow> u32" where "md5_I X Y Z = Y XOR (X OR NOT Z)"

definition rotateLeft :: "u32 \<Rightarrow> nat \<Rightarrow> u32" where
  "rotateLeft x n = push_bit n x OR drop_bit (32 - n) x"

definition md5_round :: "u32 list \<Rightarrow> nat \<Rightarrow> u32 \<times> u32 \<times> u32 \<times> u32 \<Rightarrow> u32 \<times> u32 \<times> u32 \<times> u32" where
  "md5_round input i = (\<lambda>(AA, BB, CC, DD).
     let (E, j) = (if i div 16 = 0 then (md5_F BB CC DD, i)
                   else if i div 16 = 1 then (md5_G BB CC DD, (i * 5 + 1) mod 16)
                   else if i div 16 = 2 then (md5_H BB CC DD, (i * 3 + 5) mod 16)
                   else (md5_I BB CC DD, (i * 7) mod 16))
     in (DD, BB + rotateLeft (AA + E + md5_K ! i + input ! j) (md5_S ! i), BB, CC))"

definition md5Step :: "u32 list \<Rightarrow> u32 list \<Rightarrow> u32 list" where
  "md5Step buf input =
     (let (AA, BB, CC, DD) = fold (md5_round input) [0..<64] (buf ! 0, buf ! 1, buf ! 2, buf ! 3)
      in [buf ! 0 + AA, buf ! 1 + BB, buf ! 2 + CC, buf ! 3 + DD])"

section \<open>Feeding input\<close>

definition md5Init :: "MD5Context \<Rightarrow> MD5Context" where
  "md5Init ctx = ctx\<lparr>ctx_size := 0, ctx_buffer := [0x67452301, 0xefcdab89, 0x98badcfe, 0x10325476]\<rparr>"

text \<open>Word \<open>j\<close> of the bytes of a block.\<close>

definition input_word :: "u8 list \<Rightarrow> nat \<Rightarrow> u32" where
  "input_word bs j = push_bit 24 (ucast (bs ! (j * 4 + 3))) OR push_bit 16 (ucast (bs ! (j * 4 + 2))) OR
     push_bit 8 (ucast (bs ! (j * 4 + 1))) OR ucast (bs ! (j * 4))"

text \<open>The body of the loop of \<open>md5Update\<close>, with \<open>offset\<close> and the context.\<close>

definition md5_feed :: "u8 \<Rightarrow> nat \<times> MD5Context \<Rightarrow> nat \<times> MD5Context" where
  "md5_feed b = (\<lambda>(offset, ctx).
     let ctx = ctx\<lparr>ctx_input := (ctx_input ctx)[offset := b]\<rparr>; offset = offset + 1
     in if offset mod 64 = 0
        then (0, ctx\<lparr>ctx_buffer := md5Step (ctx_buffer ctx) (map (input_word (ctx_input ctx)) [0..<16])\<rparr>)
        else (offset, ctx))"

definition md5Update :: "u8 list \<Rightarrow> MD5Context \<Rightarrow> MD5Context" where
  "md5Update input ctx =
     (let offset = unat (ctx_size ctx mod 64); ctx = ctx\<lparr>ctx_size := ctx_size ctx + of_nat (length input)\<rparr>
      in snd (fold md5_feed input (offset, ctx)))"

definition md5Finalize :: "MD5Context \<Rightarrow> MD5Context" where
  "md5Finalize ctx =
     (let offset = unat (ctx_size ctx mod 64);
          padding_length = (if offset < 56 then 56 - offset else (56 + 64) - offset);
          ctx = md5Update (take padding_length PADDING) ctx;
          ctx = ctx\<lparr>ctx_size := ctx_size ctx - of_nat padding_length\<rparr>;
          input = map (input_word (ctx_input ctx)) [0..<14] @
                  [ucast (ctx_size ctx * 8), ucast (drop_bit 32 (ctx_size ctx * 8))];
          ctx = ctx\<lparr>ctx_buffer := md5Step (ctx_buffer ctx) input\<rparr>
      in ctx\<lparr>ctx_digest := concat (map (\<lambda>w. [ucast (w AND 0x000000FF), ucast (drop_bit 8 (w AND 0x0000FF00)),
             ucast (drop_bit 16 (w AND 0x00FF0000)), ucast (drop_bit 24 (w AND 0xFF000000))]) (ctx_buffer ctx))\<rparr>)"

text \<open>\<open>ctx\<close> stands for the uninitialised local variable; the string is the bytes in front of its terminator.\<close>

definition md5String :: "MD5Context \<Rightarrow> u8 list \<Rightarrow> u8 list" where
  "md5String ctx input = take 16 (ctx_digest (md5Finalize (md5Update input (md5Init ctx))))"

section \<open>Files\<close>

partial_function (option) md5_loop :: "ext2_driver \<Rightarrow> file_st option \<Rightarrow> MD5Context \<Rightarrow> kmem_st \<Rightarrow> (file_st option \<times> MD5Context \<times> kmem_st) option" where
  "md5_loop drv f ctx s = do {
     (input_size, bs, f, s) \<leftarrow> ext2_file_read drv f 1024 s;
     if input_size > 0 then md5_loop drv f (md5Update bs ctx) s else Some (f, ctx, s)
   }"

text \<open>The result is \<open>None\<close> in the first component when the buffer cannot be allocated.\<close>

definition md5File :: "MD5Context \<Rightarrow> ext2_driver \<Rightarrow> file_st option \<Rightarrow> kmem_st \<Rightarrow> (u8 list option \<times> file_st option \<times> kmem_st) option" where
  "md5File ctx drv f s =
     (let (input_buffer, s) = kmalloc 1024 s
      in if input_buffer = NULL then Some (None, f, s)
         else do {
           (f, ctx, s) \<leftarrow> md5_loop drv f (md5Init ctx) s;
           let ctx = md5Finalize ctx;
           Some (Some (take 16 (ctx_digest ctx)), f, kfree input_buffer s)
         })"

section \<open>The digest of a message\<close>

definition md5_words :: "u8 list \<Rightarrow> u32 list" where
  "md5_words bs = map (input_word bs) [0..<16]"

text \<open>All full blocks of a message.\<close>

definition md5_blocks :: "u8 list \<Rightarrow> u32 list \<Rightarrow> u32 list" where
  "md5_blocks m st = fold (\<lambda>i st. md5Step st (md5_words (take 64 (drop (64 * i) m)))) [0..<length m div 64] st"

definition bytes_of_u64 :: "u64 \<Rightarrow> u8 list" where
  "bytes_of_u64 w = map (\<lambda>i. ucast (drop_bit (8 * i) w)) [0..<8]"

definition md5_padding :: "nat \<Rightarrow> u8 list" where
  "md5_padding n = 0x80 # replicate ((119 - n mod 64) mod 64) 0"

definition md5_init_state :: "u32 list" where
  "md5_init_state = [0x67452301, 0xefcdab89, 0x98badcfe, 0x10325476]"

definition md5 :: "u8 list \<Rightarrow> u8 list" where
  "md5 m = concat (map (\<lambda>w. map (\<lambda>i. ucast (drop_bit (8 * i) w)) [0..<4])
     (md5_blocks (m @ md5_padding (length m) @ bytes_of_u64 (of_nat (8 * length m))) md5_init_state))"

section \<open>A context holds a message\<close>

definition md5_holds :: "u8 list \<Rightarrow> MD5Context \<Rightarrow> bool" where
  "md5_holds m ctx \<longleftrightarrow> ctx_buffer ctx = md5_blocks m md5_init_state \<and> length (ctx_input ctx) = 64 \<and>
     take (length m mod 64) (ctx_input ctx) = drop (64 * (length m div 64)) m"

lemma blocks_cong:
  assumes "length m div 64 = length m' div 64" "take (64 * (length m div 64)) m = take (64 * (length m div 64)) m'"
  shows "md5_blocks m st = md5_blocks m' st"
proof -
  have "take 64 (drop (64 * i) m) = take 64 (drop (64 * i) m')" if "i < length m div 64" for i
  proof -
    have "64 + 64 * i \<le> 64 * (length m div 64)" using that by simp
    then have "take 64 (drop (64 * i) (take (64 * (length m div 64)) x)) = take 64 (drop (64 * i) x)" for x :: "u8 list"
      by (simp add: drop_take min_def)
    then show ?thesis using assms(2) by metis
  qed
  then show ?thesis unfolding md5_blocks_def using assms(1) by (intro fold_cong) auto
qed

lemma blocks_more:
  assumes "length m mod 64 + length x < 64"
  shows "md5_blocks (m @ x) st = md5_blocks m st" "length (m @ x) div 64 = length m div 64"
proof -
  have "length (m @ x) = 64 * (length m div 64) + (length m mod 64 + length x)" by simp
  then show d: "length (m @ x) div 64 = length m div 64" using assms by (metis div_mult_self4 div_less add.right_neutral zero_neq_numeral)
  show "md5_blocks (m @ x) st = md5_blocks m st" by (rule blocks_cong) (simp_all only: d, simp)
qed

lemma blocks_full:
  assumes "length m mod 64 + length x = 64"
  shows "md5_blocks (m @ x) st = md5Step (md5_blocks m st) (md5_words (drop (64 * (length m div 64)) m @ x))"
    "length (m @ x) = 64 * (length m div 64 + 1)"
proof -
  let ?n = "length m div 64"
  have "length (m @ x) = 64 * ?n + (length m mod 64 + length x)" by (simp flip: add.assoc)
  then show l: "length (m @ x) = 64 * (?n + 1)" unfolding assms by simp
  then have d: "length (m @ x) div 64 = Suc ?n" by simp
  have "take 64 (drop (64 * i) (m @ x)) = take 64 (drop (64 * i) m)" if "i < ?n" for i
  proof -
    have "64 * i + 64 \<le> length m" using that by linarith
    then show ?thesis by simp
  qed
  moreover have "take 64 (drop (64 * ?n) (m @ x)) = drop (64 * ?n) m @ x"
    using assms by (simp add: minus_mult_div_eq_mod)
  moreover from calculation(1) have "fold (\<lambda>i st. md5Step st (md5_words (take 64 (drop (64 * i) (m @ x))))) [0..<?n] st =
      fold (\<lambda>i st. md5Step st (md5_words (take 64 (drop (64 * i) m)))) [0..<?n] st"
    by (intro fold_cong refl) (simp only: set_upt atLeastLessThan_iff)
  ultimately show "md5_blocks (m @ x) st = md5Step (md5_blocks m st) (md5_words (drop (64 * ?n) m @ x))"
    unfolding md5_blocks_def d by (simp del: take_append drop_append)
qed

lemma feed_holds:
  assumes "md5_holds m ctx"
  shows "\<exists>ctx'. md5_feed b (length m mod 64, ctx) = (length (m @ [b]) mod 64, ctx') \<and> md5_holds (m @ [b]) ctx' \<and> ctx_size ctx' = ctx_size ctx"
proof -
  let ?o = "length m mod 64" and ?n = "length m div 64"
  let ?in = "(ctx_input ctx)[?o := b]"
  have h: "ctx_buffer ctx = md5_blocks m md5_init_state" "length (ctx_input ctx) = 64" "take ?o (ctx_input ctx) = drop (64 * ?n) m"
    using assms by (simp_all add: md5_holds_def)
  have o: "?o < 64" by simp
  have t: "take (Suc ?o) ?in = drop (64 * ?n) m @ [b]"
    using h o by (simp add: take_Suc_conv_app_nth)
  show ?thesis
  proof (cases "Suc ?o = 64")
    case True
    have f: "?in = drop (64 * ?n) m @ [b]" using t h(2) True by simp
    have e: "length m mod 64 + length [b] = 64" using True by simp
    have l: "length (m @ [b]) = 64 * (?n + 1)" by (rule blocks_full(2) [OF e])
    let ?c = "ctx\<lparr>ctx_input := ?in, ctx_buffer := md5Step (ctx_buffer ctx) (md5_words ?in)\<rparr>"
    have "md5_holds (m @ [b]) ?c"
      using blocks_full(1) [OF e, of md5_init_state] h(1) f l length_list_update [of "ctx_input ctx" ?o b] h(2)
      unfolding md5_holds_def by (simp del: length_append length_list_update)
    moreover have "length (m @ [b]) mod 64 = 0" unfolding l by simp
    ultimately show ?thesis using True by (simp add: md5_feed_def md5_words_def)
  next
    case False
    then have e: "length m mod 64 + length [b] < 64" using o by simp
    note bm = blocks_more [OF e]
    have l: "length (m @ [b]) mod 64 = Suc ?o" using False o by (simp add: mod_Suc)
    let ?c = "ctx\<lparr>ctx_input := ?in\<rparr>"
    have "drop (64 * ?n) (m @ [b]) = drop (64 * ?n) m @ [b]" by simp
    then have "md5_holds (m @ [b]) ?c"
      using bm h(1,2) t unfolding md5_holds_def l by simp
    then show ?thesis using False l e by (simp add: md5_feed_def)
  qed
qed

lemma feed_all:
  assumes "md5_holds m ctx"
  shows "\<exists>ctx'. fold md5_feed xs (length m mod 64, ctx) = (length (m @ xs) mod 64, ctx') \<and> md5_holds (m @ xs) ctx' \<and> ctx_size ctx' = ctx_size ctx"
  using assms
proof (induction xs arbitrary: m ctx)
  case Nil
  then show ?case by simp
next
  case (Cons b xs)
  obtain c1 where 1: "md5_feed b (length m mod 64, ctx) = (length (m @ [b]) mod 64, c1)" "md5_holds (m @ [b]) c1" "ctx_size c1 = ctx_size ctx"
    using feed_holds [OF Cons.prems] by blast
  show ?case using Cons.IH [OF 1(2)] 1(1,3) by simp
qed

lemma size_mod: "unat ((of_nat n :: u64) mod 64) = n mod 64"
proof -
  have "n mod 18446744073709551616 mod 64 = n mod 64" by (rule mod_mod_cancel) (rule dvdI [of _ _ 288230376151711744], simp)
  then show ?thesis by (simp add: unat_mod unsigned_of_nat take_bit_eq_mod)
qed

lemma update_holds:
  assumes "md5_holds m ctx" "ctx_size ctx = of_nat (length m)"
  shows "md5_holds (m @ xs) (md5Update xs ctx)" "ctx_size (md5Update xs ctx) = of_nat (length (m @ xs))"
proof -
  let ?c = "ctx\<lparr>ctx_size := ctx_size ctx + of_nat (length xs)\<rparr>"
  have "md5_holds m ?c" using assms(1) by (simp add: md5_holds_def)
  from feed_all [OF this, of xs] assms(2)
  show "md5_holds (m @ xs) (md5Update xs ctx)" "ctx_size (md5Update xs ctx) = of_nat (length (m @ xs))"
    by (auto simp: md5Update_def Let_def size_mod)
qed

section \<open>Finishing\<close>

lemma init_holds: "length (ctx_input ctx) = 64 \<Longrightarrow> md5_holds [] (md5Init ctx)" "ctx_size (md5Init ctx) = 0"
  by (simp_all add: md5_holds_def md5Init_def md5_blocks_def md5_init_state_def)

lemma padding_taken:
  assumes "a < 64"
  shows "take (if a < 56 then 56 - a else (56 + 64) - a) PADDING = 0x80 # replicate ((119 - a) mod 64) 0"
proof -
  have "(if a < 56 then 56 - a else (56 + 64) - a) = Suc ((119 - a) mod 64)"
  proof (cases "a < 56")
    case True
    then have "119 - a = 64 + (55 - a)" by simp
    then have "(119 - a) mod 64 = (55 - a) mod 64" by (metis mod_add_self1)
    then show ?thesis using True by simp
  qed (use assms in simp)
  moreover have "(119 - a) mod 64 \<le> 63" using mod_less_divisor [of 64 "119 - a"] by linarith
  ultimately show ?thesis by (simp add: PADDING_def min_def)
qed

lemma padding_length: "(n + length (md5_padding n)) mod 64 = 56"
proof -
  let ?a = "n mod 64"
  have a: "?a < 64" by simp
  have "(?a + length (md5_padding n)) mod 64 = 56"
  proof (cases "?a < 56")
    case True
    then have "119 - ?a = 64 + (55 - ?a)" by linarith
    then have "(119 - ?a) mod 64 = 55 - ?a" by (simp only: mod_add_self1) simp
    then show ?thesis using True by (simp add: md5_padding_def)
  next
    case False
    then have "(119 - ?a) mod 64 = 119 - ?a" using a by simp
    then show ?thesis using False a by (simp add: md5_padding_def)
  qed
  then show ?thesis by (simp add: mod_add_left_eq)
qed

lemma le_bytes_words:
  "(push_bit 24 (ucast (ucast (drop_bit 24 w) :: u8)) OR push_bit 16 (ucast (ucast (drop_bit 16 w) :: u8)) OR
    push_bit 8 (ucast (ucast (drop_bit 8 w) :: u8)) OR ucast (ucast w :: u8) :: u32) = ucast (w :: u64)"
proof (rule bit_word_eqI)
  fix n :: nat
  consider "n < 8" | "8 \<le> n" "n < 16" | "16 \<le> n" "n < 24" | "24 \<le> n" "n < 32" | "32 \<le> n" by linarith
  then show "bit (push_bit 24 (ucast (ucast (drop_bit 24 w) :: u8)) OR push_bit 16 (ucast (ucast (drop_bit 16 w) :: u8)) OR
      push_bit 8 (ucast (ucast (drop_bit 8 w) :: u8)) OR ucast (ucast w :: u8) :: u32) n = bit (ucast w :: u32) n"
    by cases (auto simp: bit_simps)
qed

lemma last_words:
  assumes "length x = 56"
  shows "md5_words (x @ bytes_of_u64 w) = map (input_word x) [0..<14] @ [ucast w, ucast (drop_bit 32 w)]"
proof -
  have i: "[0..<16] = [0..<14] @ [14, 15]" by (simp add: upt_rec)
  have "input_word (x @ bytes_of_u64 w) j = input_word x j" if "j < 14" for j
    using that assms by (simp add: input_word_def nth_append)
  moreover have "input_word (x @ bytes_of_u64 w) 14 = ucast w"
    using assms le_bytes_words [of w] by (simp add: input_word_def nth_append bytes_of_u64_def)
  moreover have "input_word (x @ bytes_of_u64 w) 15 = ucast (drop_bit 32 w)"
    using assms le_bytes_words [of "drop_bit 32 w"] by (simp add: input_word_def nth_append bytes_of_u64_def)
  ultimately show ?thesis unfolding md5_words_def i by simp
qed

lemma digest_bytes:
  "[ucast (w AND 0x000000FF), ucast (drop_bit 8 (w AND 0x0000FF00)), ucast (drop_bit 16 (w AND 0x00FF0000)),
    ucast (drop_bit 24 (w AND 0xFF000000))] = map (\<lambda>i. ucast (drop_bit (8 * i) (w :: u32)) :: u8) [0..<4]"
proof -
  have m: "(ucast (drop_bit k (w AND push_bit k (mask 8))) :: u8) = ucast (drop_bit k w)" if "k \<le> 24" for k
    using that by (intro bit_word_eqI) (auto simp: bit_simps)
  have "0x000000FF = (push_bit 0 (mask 8) :: u32)" "0x0000FF00 = (push_bit 8 (mask 8) :: u32)"
    "0x00FF0000 = (push_bit 16 (mask 8) :: u32)" "0xFF000000 = (push_bit 24 (mask 8) :: u32)" by (simp_all add: mask_eq_decr_exp)
  with m [of 0] m [of 8] m [of 16] m [of 24] show ?thesis by (simp add: upt_rec)
qed

lemma finalize_digest:
  assumes "md5_holds m ctx" "ctx_size ctx = of_nat (length m)"
  shows "ctx_digest (md5Finalize ctx) = md5 m"
proof -
  let ?p = "md5_padding (length m)" and ?o = "length m mod 64"
  define q where "q = (if ?o < 56 then 56 - ?o else (56 + 64) - ?o)"
  have p: "take q PADDING = ?p" using padding_taken [of ?o] by (simp add: md5_padding_def q_def)
  define c1 where "c1 = md5Update ?p ctx"
  have h: "md5_holds (m @ ?p) c1" "ctx_size c1 = of_nat (length (m @ ?p))" unfolding c1_def by (rule update_holds [OF assms])+
  have r: "length (m @ ?p) mod 64 = 56" using padding_length by simp
  let ?x = "drop (64 * (length (m @ ?p) div 64)) (m @ ?p)" and ?w = "of_nat (8 * length m) :: u64"
  have x: "length ?x = 56" unfolding length_drop minus_mult_div_eq_mod by (rule r)
  have t: "take 56 (ctx_input c1) = ?x" "length (ctx_input c1) = 64" using h(1) r by (simp_all add: md5_holds_def)
  have iw: "map (input_word (ctx_input c1)) [0..<14] = map (input_word ?x) [0..<14]"
    unfolding t(1) [symmetric] by (intro map_cong refl) (simp add: input_word_def)
  have "q \<le> 64" unfolding q_def by (cases "?o < 56") simp_all
  then have pl: "length ?p = q" using arg_cong [OF p, of length] by (simp add: PADDING_def)
  have sz: "ctx_size c1 - of_nat q = of_nat (length m)" using h(2) pl by simp
  have "length (m @ ?p) mod 64 + length (bytes_of_u64 ?w) = 64" using r by (simp add: bytes_of_u64_def)
  from blocks_full(1) [OF this, of md5_init_state] have
    b: "md5_blocks (m @ ?p @ bytes_of_u64 ?w) md5_init_state = md5Step (ctx_buffer c1) (map (input_word ?x) [0..<14] @ [ucast ?w, ucast (drop_bit 32 ?w)])"
    using last_words [OF x, of ?w] h(1) by (simp add: md5_holds_def)
  have w: "of_nat (length m) * 8 = ?w" by simp
  show ?thesis
    unfolding md5Finalize_def Let_def assms(2) size_mod q_def [symmetric] p c1_def [symmetric] md5_def b digest_bytes
    using iw sz w by (simp del: drop_append of_nat_mult map_eq_conv)
qed

lemma updates_hold:
  assumes "md5_holds m ctx" "ctx_size ctx = of_nat (length m)"
  shows "md5_holds (m @ concat xss) (fold md5Update xss ctx) \<and> ctx_size (fold md5Update xss ctx) = of_nat (length (m @ concat xss))"
  using assms
proof (induction xss arbitrary: m ctx)
  case (Cons xs xss)
  show ?case using Cons.IH [OF update_holds [OF Cons.prems, of xs]] by simp
qed simp

lemma md5_length: "length (md5 m) = 16"
proof -
  have st: "length (fold (\<lambda>i st. md5Step st (f i)) is st) = 4" if "length st = 4" for f :: "nat \<Rightarrow> u32 list" and "is" st
    using that by (induction "is" arbitrary: st) (auto simp: md5Step_def Let_def case_prod_beta)
  have "length (md5_blocks x md5_init_state) = 4" for x unfolding md5_blocks_def by (rule st) (simp add: md5_init_state_def)
  then show ?thesis by (simp add: md5_def length_concat comp_def sum_list_triv)
qed

section \<open>Files\<close>

lemma file_bytes_0 [simp]: "file_bytes disk raw a 0 = []"
  by (simp add: file_bytes_def)

lemma md5_loop_holds:
  assumes "mounted img lba drv" "buffers ps (Suc (Suc d)) s" "f_inode f = Some inode" "100 \<le> length (i_priv inode)" "i_size inode \<le> 67383296"
    "md5_holds m ctx" "ctx_size ctx = of_nat (length m)"
  defines "a \<equiv> unat (f_offset f)"
  shows "\<exists>f' ctx' s'. md5_loop drv (Some f) ctx s = Some (Some f', ctx', s') \<and> buffers ps (Suc (Suc d)) s' \<and>
    md5_holds (m @ file_bytes (volume img lba) (i_priv inode) a (unat (i_size inode) - a)) ctx' \<and>
    ctx_size ctx' = of_nat (length (m @ file_bytes (volume img lba) (i_priv inode) a (unat (i_size inode) - a)))"
  using assms(2,3,6,7) unfolding a_def
proof (induction "unat (i_size inode) - unat (f_offset f)" arbitrary: f m ctx s rule: less_induct)
  case less
  let ?a = "unat (f_offset f)" and ?z = "unat (i_size inode)"
  let ?n = "min 1024 (?z - ?a)"
  let ?B = "file_bytes (volume img lba) (i_priv inode)"
  have z: "?z \<le> 67383296" using assms(5) by (simp add: word_le_nat_alt)
  obtain s1 where 1: "ext2_file_read drv (Some f) 1024 s = Some (int ?n, ?B ?a ?n, Some (f\<lparr>f_offset := of_nat (?a + ?n)\<rparr>), s1)"
    "buffers ps (Suc (Suc d)) s1"
    using file_read_mounted [OF assms(1) less.prems(1,2) assms(4,5), of 1024] by auto
  show ?case
  proof (cases "?n = 0")
    case True
    then have "md5_loop drv (Some f) ctx s = Some (Some (f\<lparr>f_offset := of_nat (?a + ?n)\<rparr>), ctx, s1)"
      using 1(1) by (subst md5_loop.simps) simp
    then show ?thesis using 1(2) less.prems(3,4) True by auto
  next
    case False
    let ?f = "f\<lparr>f_offset := of_nat (?a + ?n)\<rparr>"
    have "?a + ?n \<le> ?z" using False by simp
    then have off: "unat (f_offset ?f) = ?a + ?n" using z
      by (simp add: unsigned_of_nat take_bit_nat_eq_self del: of_nat_add)
    have lt: "?z - unat (f_offset ?f) < ?z - ?a" unfolding off using False by simp
    note u = update_holds [OF less.prems(3,4), of "?B ?a ?n"]
    have e: "?B ?a ?n @ ?B (?a + ?n) (?z - (?a + ?n)) = ?B ?a (?z - ?a)"
      using file_bytes_append [of "volume img lba" "i_priv inode" ?a ?n "?z - (?a + ?n)"] \<open>?a + ?n \<le> ?z\<close> by simp
    have fi: "f_inode ?f = Some inode" using less.prems(2) by simp
    have "md5_loop drv (Some f) ctx s = md5_loop drv (Some ?f) (md5Update (?B ?a ?n) ctx) s1"
      using 1(1) False by (subst md5_loop.simps) simp
    then show ?thesis using less.hyps [OF lt 1(2) fi u] unfolding off append_assoc e by simp
  qed
qed

section \<open>Properties\<close>



section \<open>Concrete messages\<close>

definition zero_context :: MD5Context where
  "zero_context = \<lparr>ctx_size = 0, ctx_buffer = [0, 0, 0, 0], ctx_input = replicate 64 0, ctx_digest = replicate 16 0\<rparr>"



end
