(* ===== verification/Disk_Queue.thy ===== *)
theory Disk_Queue
  imports File_System Mutual_Exclusion
begin

text \<open>
  The request queue of the disk driver under concurrency: threads submit reads, the drive interrupts,
  woken threads start the next request and return, in any order and with anything else the scheduler
  does in between. What the driver relies on of the drive is stated as a contract for its registers.
\<close>

section \<open>The contract of a drive\<close>

text \<open>
  What a drive is doing: nothing, looking for a sector, or handing out its words; and its registers
  for the 48 bit address, each of which remembers the last two bytes written to it.
\<close>

datatype phase = Idle | Busy u64 | Data u64 nat

type_synonym lba_regs = "u16 \<Rightarrow> u8 \<times> u8"

definition lba_of :: "lba_regs \<Rightarrow> u64" where
  "lba_of g = ucast (fst (g REG_LBA0)) OR push_bit 8 (ucast (fst (g REG_LBA1))) OR push_bit 16 (ucast (fst (g REG_LBA2))) OR
     push_bit 24 (ucast (snd (g REG_LBA0))) OR push_bit 32 (ucast (snd (g REG_LBA1))) OR push_bit 40 (ucast (snd (g REG_LBA2)))"

definition sector_word :: "(nat \<Rightarrow> u8) \<Rightarrow> u64 \<Rightarrow> nat \<Rightarrow> u16" where
  "sector_word img l i = ucast (sector img l ! (2 * i)) OR push_bit 8 (ucast (sector img l ! (2 * i + 1)))"

definition status_fits :: "phase \<Rightarrow> u8 \<Rightarrow> bool" where
  "status_fits p st \<longleftrightarrow> (case p of Idle \<Rightarrow> st AND (STATUS_BSY OR STATUS_DRQ) = 0 | Busy l \<Rightarrow> st AND STATUS_DRQ = 0 | Data l i \<Rightarrow> st AND STATUS_DRQ \<noteq> 0)"

definition lba48_drive ::
    "'d port_in \<Rightarrow> 'd port_out \<Rightarrow> 'd port_inw \<Rightarrow> u16 \<Rightarrow> (nat \<Rightarrow> u8) \<Rightarrow> ('d \<Rightarrow> phase) \<Rightarrow> ('d \<Rightarrow> lba_regs) \<Rightarrow> bool" where
  "lba48_drive pin pout pinw base img ph rg \<longleftrightarrow>
     (\<forall>d. status_fits (ph d) (fst (pin (base + REG_STATUS) d)) \<and>
        ph (snd (pin (base + REG_STATUS) d)) = ph d \<and> rg (snd (pin (base + REG_STATUS) d)) = rg d) \<and>
     (\<forall>d r v. r \<in> {REG_SEC_COUNT0, REG_LBA0, REG_LBA1, REG_LBA2} \<longrightarrow>
        ph (pout (base + r) v d) = ph d \<and> rg (pout (base + r) v d) = (rg d)(r := (v, fst (rg d r)))) \<and>
     (\<forall>d v. ph (pout (base + REG_HDDEVSEL) v d) = ph d \<and> rg (pout (base + REG_HDDEVSEL) v d) = rg d) \<and>
     (\<forall>d. ph d = Idle \<longrightarrow> rg d REG_SEC_COUNT0 = (1, 0) \<longrightarrow> ph (pout (base + REG_COMMAND) CMD_READ_PIO_EXT d) = Busy (lba_of (rg d))) \<and>
     (\<forall>d l i. ph d = Data l i \<longrightarrow> i < 256 \<longrightarrow> fst (pinw (base + REG_DATA) d) = sector_word img l i \<and>
        ph (snd (pinw (base + REG_DATA) d)) = (if Suc i = 256 then Idle else Data l (Suc i)))"

lemma driveD:
  assumes "lba48_drive pin pout pinw base img ph rg"
  shows "status_fits (ph d) (fst (pin (base + REG_STATUS) d))" "ph (snd (pin (base + REG_STATUS) d)) = ph d"
    "rg (snd (pin (base + REG_STATUS) d)) = rg d"
    "r \<in> {REG_SEC_COUNT0, REG_LBA0, REG_LBA1, REG_LBA2} \<Longrightarrow> ph (pout (base + r) v d) = ph d"
    "r \<in> {REG_SEC_COUNT0, REG_LBA0, REG_LBA1, REG_LBA2} \<Longrightarrow> rg (pout (base + r) v d) = (rg d)(r := (v, fst (rg d r)))"
    "ph (pout (base + REG_HDDEVSEL) v d) = ph d" "rg (pout (base + REG_HDDEVSEL) v d) = rg d"
    "ph d = Idle \<Longrightarrow> rg d REG_SEC_COUNT0 = (1, 0) \<Longrightarrow> ph (pout (base + REG_COMMAND) CMD_READ_PIO_EXT d) = Busy (lba_of (rg d))"
    "ph d = Data l i \<Longrightarrow> i < 256 \<Longrightarrow> fst (pinw (base + REG_DATA) d) = sector_word img l i"
    "ph d = Data l i \<Longrightarrow> i < 256 \<Longrightarrow> ph (snd (pinw (base + REG_DATA) d)) = (if Suc i = 256 then Idle else Data l (Suc i))"
  using assms unfolding lba48_drive_def by blast+

section \<open>Commands\<close>

text \<open>The registers as the driver writes them spell the low 48 bits of the block number.\<close>

lemma lba_bytes:
  "lba_of (g(REG_LBA0 := (ucast (lba AND 0xFF), ucast (drop_bit 24 lba AND 0xFF)),
             REG_LBA1 := (ucast (drop_bit 8 lba AND 0xFF), ucast (drop_bit 32 lba AND 0xFF)),
             REG_LBA2 := (ucast (drop_bit 16 lba AND 0xFF), ucast (drop_bit 40 lba AND 0xFF)))) = take_bit 48 lba"
proof (rule bit_word_eqI)
  fix n :: nat
  assume n: "n < LENGTH(64)"
  have m: "(0xFF :: u64) = mask 8" by (simp add: mask_eq_exp_minus_1)
  consider "n < 8" | "8 \<le> n" "n < 16" | "16 \<le> n" "n < 24" | "24 \<le> n" "n < 32" | "32 \<le> n" "n < 40" | "40 \<le> n" "n < 48" | "48 \<le> n"
    by linarith
  then show "bit (lba_of (g(REG_LBA0 := (ucast (lba AND 0xFF), ucast (drop_bit 24 lba AND 0xFF)),
             REG_LBA1 := (ucast (drop_bit 8 lba AND 0xFF), ucast (drop_bit 32 lba AND 0xFF)),
             REG_LBA2 := (ucast (drop_bit 16 lba AND 0xFF), ucast (drop_bit 40 lba AND 0xFF))))) n = bit (take_bit 48 lba) n"
    unfolding m using n by cases (simp_all add: lba_of_def ata_regs bit_simps less_diff_conv2)
qed

lemma status_idle:
  assumes "lba48_drive pin pout pinw base img ph rg" "ph d = Idle"
  shows "\<exists>d'. wait_while pin (base + REG_STATUS) (STATUS_BSY OR STATUS_DRQ) d = Some d' \<and> ph d' = Idle"
  using driveD(1,2) [OF assms(1), of d] assms(2) by (subst wait_while.simps) (auto simp: status_fits_def split: prod.splits)

lemma delay_keeps:
  assumes "lba48_drive pin pout pinw base img ph rg"
  shows "ph (ata_delay pin base d) = ph d" "rg (ata_delay pin base d) = rg d"
proof -
  have "ph (fold (\<lambda>_ d. snd (pin (base + REG_STATUS) d)) xs d) = ph d \<and> rg (fold (\<lambda>_ d. snd (pin (base + REG_STATUS) d)) xs d) = rg d"
    for xs :: "nat list" by (induction xs arbitrary: d) (simp_all add: driveD [OF assms])
  then show "ph (ata_delay pin base d) = ph d" "rg (ata_delay pin base d) = rg d" by (simp_all add: ata_delay_def)
qed

lemma start_request:
  assumes "lba48_drive pin pout pinw (ata_base a) img ph rg" "ph d = Idle"
  shows "\<exists>d'. ata_start_request pin pout a req d = Some d' \<and> ph d' = Busy (take_bit 48 (blk_num req))"
proof -
  note dr = driveD [OF assms(1)]
  obtain d0 where d0: "wait_while pin (ata_base a + REG_STATUS) (STATUS_BSY OR STATUS_DRQ) d = Some d0" "ph d0 = Idle"
    using status_idle [OF assms] by blast
  define put where "put = (\<lambda>r v d. pout (ata_base a + r) v d)"
  define d1 where "d1 = ata_delay pin (ata_base a) (put REG_HDDEVSEL (0x40 OR push_bit 4 (slave a)) d0)"
  define lba where "lba = blk_num req"
  define d2 where "d2 = put REG_LBA2 (ucast (drop_bit 16 lba AND 0xFF)) (put REG_LBA2 (ucast (drop_bit 40 lba AND 0xFF))
    (put REG_LBA1 (ucast (drop_bit 8 lba AND 0xFF)) (put REG_LBA1 (ucast (drop_bit 32 lba AND 0xFF))
    (put REG_LBA0 (ucast (lba AND 0xFF)) (put REG_LBA0 (ucast (drop_bit 24 lba AND 0xFF))
    (put REG_SEC_COUNT0 1 (put REG_SEC_COUNT0 0 d1)))))))"
  have "ph d1 = Idle" using d0(2) dr(6) delay_keeps [OF assms(1)] by (simp add: d1_def put_def)
  then have i: "ph d2 = Idle" using dr(4) by (simp add: d2_def put_def)
  have g: "rg d2 = (rg d1)(REG_SEC_COUNT0 := (1, 0), REG_LBA0 := (ucast (lba AND 0xFF), ucast (drop_bit 24 lba AND 0xFF)),
             REG_LBA1 := (ucast (drop_bit 8 lba AND 0xFF), ucast (drop_bit 32 lba AND 0xFF)),
             REG_LBA2 := (ucast (drop_bit 16 lba AND 0xFF), ucast (drop_bit 40 lba AND 0xFF)))"
    unfolding d2_def put_def using dr(5) by (simp add: ata_regs fun_upd_def fun_eq_iff)
  have "rg d2 REG_SEC_COUNT0 = (1, 0)" unfolding g by (simp add: ata_regs)
  then have "ph (put REG_COMMAND CMD_READ_PIO_EXT d2) = Busy (take_bit 48 lba)"
    using dr(8) [OF i] lba_bytes g by (simp add: put_def)
  moreover have "ata_start_request pin pout a req d = Some (put REG_COMMAND CMD_READ_PIO_EXT d2)"
    using d0(1) by (simp add: ata_start_request_def Let_def d2_def d1_def lba_def put_def)
  ultimately show ?thesis by (simp add: lba_def)
qed

section \<open>Data\<close>

lemma insw_data:
  assumes "lba48_drive pin pout pinw base img ph rg" "ph d = Data l i" "i + n \<le> 256"
  shows "fst (insw pinw (base + REG_DATA) n d) = map (sector_word img l) [i..<i + n] \<and>
    (n \<noteq> 0 \<longrightarrow> ph (snd (insw pinw (base + REG_DATA) n d)) = (if i + n = 256 then Idle else Data l (i + n)))"
  using assms(2,3)
proof (induction n arbitrary: i d)
  case (Suc n)
  note dr = driveD(9,10) [OF assms(1) Suc.prems(1)]
  let ?d = "snd (pinw (base + REG_DATA) d)"
  show ?case
  proof (cases "n = 0")
    case True
    then show ?thesis using dr Suc.prems by (auto simp: case_prod_beta Let_def)
  next
    case False
    then have "ph ?d = Data l (Suc i)" using dr(2) Suc.prems(2) by simp
    from Suc.IH [OF this] show ?thesis using dr(1) False Suc.prems(2) by (simp add: case_prod_beta Let_def upt_conv_Cons del: upt_Suc)
  qed
qed simp

lemma word_bytes_sector: "word_bytes (map (sector_word img l) [0..<256]) = sector img l"
proof -
  have b: "[ucast (sector_word img l i), ucast (drop_bit 8 (sector_word img l i))] = [sector img l ! (2 * i), sector img l ! (2 * i + 1)]" for i
    unfolding list.inject sector_word_def
    by (intro conjI bit_word_eqI) (auto simp: bit_simps dest: bit_imp_le_length)
  have e: "concat (map (\<lambda>i. [xs ! (2 * i), xs ! (2 * i + 1)]) [0..<n]) = take (2 * n) xs" if "2 * n \<le> length xs" for xs :: "u8 list" and n
    using that by (induction n) (auto simp: take_Suc_conv_app_nth)
  have "length (sector img l) = 512" by (simp add: sector_def)
  then show ?thesis using e [of 256 "sector img l"] b by (simp add: word_bytes_def comp_def)
qed

section \<open>The queue\<close>

definition req_links :: "'a ata_sys_scheme \<Rightarrow> ptr \<Rightarrow> ptr" where
  "req_links k = (\<lambda>r. req_next (reqs k r))"

text \<open>
  A run of the driver for the device at \<open>a\<close>: the kernel, the drive, and the requests of threads that
  are inside \<open>ata_read_block\<close>. \<open>S\<close> are the kernel stacks. Callers give their own buffer each.
\<close>

type_synonym ('a, 'd) disk_run = "'a ata_sys_scheme \<times> 'd \<times> ptr set"

inductive disk_step ::
    "'d port_in \<Rightarrow> 'd port_out \<Rightarrow> 'd port_inw \<Rightarrow> ptr \<Rightarrow> ('d \<Rightarrow> phase) \<Rightarrow> (ptr \<times> nat) set \<Rightarrow> ('a, 'd) disk_run \<Rightarrow> ('a, 'd) disk_run \<Rightarrow> bool"
  for pin pout pinw a ph S where
  submit: "room sizeof_ata_request (mm k) \<Longrightarrow> on_stack S sp \<Longrightarrow> dst \<noteq> NULL \<Longrightarrow> dst \<notin> (\<lambda>r. req_buffer (reqs k r)) ` live \<Longrightarrow>
     ata_read_block pin pout a blk dst sp (k, d) = Some (res, k', d') \<Longrightarrow>
     disk_step pin pout pinw a ph S (k, d, live) (k', d', case res of Inl _ \<Rightarrow> live | Inr req \<Rightarrow> insert req live)"
| interrupt: "ISR_ata_handler pin pinw a (k, d) = Some (k', d') \<Longrightarrow> disk_step pin pout pinw a ph S (k, d, live) (k', d', live)"
| resume: "req \<in> live \<Longrightarrow> on_stack S sp \<Longrightarrow> ata_wait pin pout a req sp (k, d) = Some (res, k', d') \<Longrightarrow>
     disk_step pin pout pinw a ph S (k, d, live) (k', d', case res of Inl _ \<Rightarrow> live - {req} | Inr _ \<Rightarrow> live)"
| seek: "ph d = Busy l \<Longrightarrow> ph d' = Data l 0 \<Longrightarrow> disk_step pin pout pinw a ph S (k, d, live) (k, d', live)"
| yield: "on_stack S sp \<Longrightarrow> disk_step pin pout pinw a ph S (k, d, live) (yield sp k, d, live)"
| block: "on_stack S sp \<Longrightarrow> PROC_block_on q e sp k = Some k' \<Longrightarrow> disk_step pin pout pinw a ph S (k, d, live) (k', d, live)"
| wake: "PROC_unblock_one q k = Some (p, k') \<Longrightarrow> disk_step pin pout pinw a ph S (k, d, live) (k', d, live)"

text \<open>
  The invariant. The queue is a list \<open>rs\<close> of live requests that are not done. The requests that are
  done have their sector in their buffer, and at most one of them has a successor. The drive is at
  work for the first request of the queue, or idle; then the request that was done last has that
  first request as its successor, and its thread will start it.
\<close>

definition works_for :: "phase \<Rightarrow> u64 \<Rightarrow> bool" where
  "works_for p blk \<longleftrightarrow> p = Busy (take_bit 48 blk) \<or> p = Data (take_bit 48 blk) 0"

definition queue_inv :: "ptr \<Rightarrow> (nat \<Rightarrow> u8) \<Rightarrow> phase \<Rightarrow> ptr set \<Rightarrow> ptr list \<Rightarrow> 'a ata_sys_scheme \<Rightarrow> bool" where
  "queue_inv a img p live rs k \<longleftrightarrow>
     llist (req_links k) NULL (req_head (atas k a)) rs \<and> (rs \<noteq> [] \<longrightarrow> req_tail (atas k a) = last rs) \<and>
     NULL \<notin> live \<and> set rs \<subseteq> live \<and> inj_on (\<lambda>r. req_buffer (reqs k r)) live \<and> (\<forall>r \<in> live. req_buffer (reqs k r) \<noteq> NULL) \<and>
     (\<forall>r \<in> set rs. req_done (reqs k r) = 0) \<and>
     (\<forall>r \<in> live - set rs. req_done (reqs k r) = 1 \<and>
        dests k (req_buffer (reqs k r)) = sector img (take_bit 48 (blk_num (reqs k r))) \<and>
        (req_next (reqs k r) = NULL \<or> p = Idle \<and> rs \<noteq> [] \<and> req_next (reqs k r) = hd rs)) \<and>
     (\<forall>r \<in> live - set rs. \<forall>r' \<in> live - set rs. req_next (reqs k r) \<noteq> NULL \<longrightarrow> req_next (reqs k r') \<noteq> NULL \<longrightarrow> r = r') \<and>
     (if rs = [] then p = Idle
      else works_for p (blk_num (reqs k (hd rs))) \<or> p = Idle \<and> (\<exists>c \<in> live - set rs. req_next (reqs k c) = hd rs))"

definition disk_inv :: "ptr \<Rightarrow> (nat \<Rightarrow> u8) \<Rightarrow> u16 \<Rightarrow> ('d \<Rightarrow> phase) \<Rightarrow> (ptr \<times> nat) set \<Rightarrow> ('a, 'd) disk_run \<Rightarrow> bool" where
  "disk_inv a img base ph S = (\<lambda>(k, d, live). ata_base (atas k a) = base \<and>
     (\<exists>rs L. queue_inv a img (ph d) live rs k \<and> heap_live (mm k) L \<and> S \<subseteq> L \<and> (\<forall>r \<in> live. \<exists>n. (r - 16, n) \<in> L - S)))"

lemma queue_invD:
  assumes "queue_inv a img p live rs k"
  shows "llist (req_links k) NULL (req_head (atas k a)) rs" "rs \<noteq> [] \<Longrightarrow> req_tail (atas k a) = last rs" "NULL \<notin> live" "set rs \<subseteq> live"
    "inj_on (\<lambda>r. req_buffer (reqs k r)) live" "r \<in> live \<Longrightarrow> req_buffer (reqs k r) \<noteq> NULL" "r \<in> set rs \<Longrightarrow> req_done (reqs k r) = 0"
    "r \<in> live - set rs \<Longrightarrow> req_done (reqs k r) = 1 \<and> dests k (req_buffer (reqs k r)) = sector img (take_bit 48 (blk_num (reqs k r)))"
    "r \<in> live - set rs \<Longrightarrow> req_next (reqs k r) \<noteq> NULL \<Longrightarrow> p = Idle \<and> rs \<noteq> [] \<and> req_next (reqs k r) = hd rs"
    "r \<in> live - set rs \<Longrightarrow> r' \<in> live - set rs \<Longrightarrow> req_next (reqs k r) \<noteq> NULL \<Longrightarrow> req_next (reqs k r') \<noteq> NULL \<Longrightarrow> r = r'"
    "rs = [] \<Longrightarrow> p = Idle"
    "rs \<noteq> [] \<Longrightarrow> works_for p (blk_num (reqs k (hd rs))) \<or> p = Idle \<and> (\<exists>c \<in> live - set rs. req_next (reqs k c) = hd rs)"
proof -
  note q = assms [unfolded queue_inv_def]
  show "llist (req_links k) NULL (req_head (atas k a)) rs" "rs \<noteq> [] \<Longrightarrow> req_tail (atas k a) = last rs" "NULL \<notin> live" "set rs \<subseteq> live"
    "inj_on (\<lambda>r. req_buffer (reqs k r)) live" using q by blast+
  show "r \<in> live \<Longrightarrow> req_buffer (reqs k r) \<noteq> NULL" "r \<in> set rs \<Longrightarrow> req_done (reqs k r) = 0"
    "r \<in> live - set rs \<Longrightarrow> req_done (reqs k r) = 1 \<and> dests k (req_buffer (reqs k r)) = sector img (take_bit 48 (blk_num (reqs k r)))"
    "r \<in> live - set rs \<Longrightarrow> req_next (reqs k r) \<noteq> NULL \<Longrightarrow> p = Idle \<and> rs \<noteq> [] \<and> req_next (reqs k r) = hd rs"
    "r \<in> live - set rs \<Longrightarrow> r' \<in> live - set rs \<Longrightarrow> req_next (reqs k r) \<noteq> NULL \<Longrightarrow> req_next (reqs k r') \<noteq> NULL \<Longrightarrow> r = r'"
    using q by blast+
  have "if rs = [] then p = Idle
      else works_for p (blk_num (reqs k (hd rs))) \<or> p = Idle \<and> (\<exists>c \<in> live - set rs. req_next (reqs k c) = hd rs)" using q by blast
  then show "rs = [] \<Longrightarrow> p = Idle"
    "rs \<noteq> [] \<Longrightarrow> works_for p (blk_num (reqs k (hd rs))) \<or> p = Idle \<and> (\<exists>c \<in> live - set rs. req_next (reqs k c) = hd rs)"
    by simp_all
qed

lemma queue_invI:
  assumes "llist (req_links k) NULL (req_head (atas k a)) rs" "rs \<noteq> [] \<Longrightarrow> req_tail (atas k a) = last rs" "NULL \<notin> live" "set rs \<subseteq> live"
    "inj_on (\<lambda>r. req_buffer (reqs k r)) live" "\<And>r. r \<in> live \<Longrightarrow> req_buffer (reqs k r) \<noteq> NULL" "\<And>r. r \<in> set rs \<Longrightarrow> req_done (reqs k r) = 0"
    "\<And>r. r \<in> live - set rs \<Longrightarrow> req_done (reqs k r) = 1 \<and> dests k (req_buffer (reqs k r)) = sector img (take_bit 48 (blk_num (reqs k r)))"
    "\<And>r. r \<in> live - set rs \<Longrightarrow> req_next (reqs k r) \<noteq> NULL \<Longrightarrow> p = Idle \<and> rs \<noteq> [] \<and> req_next (reqs k r) = hd rs"
    "\<And>r r'. r \<in> live - set rs \<Longrightarrow> r' \<in> live - set rs \<Longrightarrow> req_next (reqs k r) \<noteq> NULL \<Longrightarrow> req_next (reqs k r') \<noteq> NULL \<Longrightarrow> r = r'"
    "rs = [] \<Longrightarrow> p = Idle"
    "rs \<noteq> [] \<Longrightarrow> works_for p (blk_num (reqs k (hd rs))) \<or> p = Idle \<and> (\<exists>c \<in> live - set rs. req_next (reqs k c) = hd rs)"
  shows "queue_inv a img p live rs k"
proof -
  have 1: "\<forall>r \<in> live - set rs. req_done (reqs k r) = 1 \<and> dests k (req_buffer (reqs k r)) = sector img (take_bit 48 (blk_num (reqs k r))) \<and>
      (req_next (reqs k r) = NULL \<or> p = Idle \<and> rs \<noteq> [] \<and> req_next (reqs k r) = hd rs)" using assms(8,9) by blast
  have 2: "\<forall>r \<in> live - set rs. \<forall>r' \<in> live - set rs. req_next (reqs k r) \<noteq> NULL \<longrightarrow> req_next (reqs k r') \<noteq> NULL \<longrightarrow> r = r'"
    using assms(10) by blast
  have 3: "if rs = [] then p = Idle
      else works_for p (blk_num (reqs k (hd rs))) \<or> p = Idle \<and> (\<exists>c \<in> live - set rs. req_next (reqs k c) = hd rs)" using assms(11,12) by simp
  show ?thesis unfolding queue_inv_def by (intro conjI 1 2 3 assms(1,3-5)) (use assms(2,6,7) in simp_all)
qed

text \<open>What matters of the kernel.\<close>

lemma queue_inv_cong:
  "reqs k' = reqs k \<Longrightarrow> atas k' = atas k \<Longrightarrow> dests k' = dests k \<Longrightarrow> queue_inv a img p live rs k' = queue_inv a img p live rs k"
  by (simp add: queue_inv_def req_links_def)

definition quiet :: "(ptr \<times> nat) set \<Rightarrow> 'a ata_sys_scheme \<Rightarrow> 'a ata_sys_scheme \<Rightarrow> bool" where
  "quiet S k k' \<longleftrightarrow> reqs k' = reqs k \<and> atas k' = atas k \<and> dests k' = dests k \<and>
     (\<forall>L. heap_live (mm k) L \<longrightarrow> S \<subseteq> L \<longrightarrow> heap_live (mm k') L)"

lemma quiet_trans: "quiet S k k1 \<Longrightarrow> quiet S k1 k2 \<Longrightarrow> quiet S k k2"
  by (simp add: quiet_def)

lemma quiet_inv: "quiet S k k' \<Longrightarrow> disk_inv a img base ph S (k, d, live) \<Longrightarrow> disk_inv a img base ph S (k', d, live)"
  using queue_inv_cong [of k' k] unfolding disk_inv_def split quiet_def by metis

lemma more_same:
  "kernel_st.more k' = kernel_st.more k \<Longrightarrow> reqs k' = reqs k \<and> atas k' = atas k \<and> dests k' = dests k" for k :: "'a ata_sys_scheme"
  by (cases k; cases k') simp

lemma quiet_mm: "heap_of (g (mm k)) = heap_of (mm k) \<Longrightarrow> quiet S k (on_mm g k)"
  using heap_live_cong [of "g (mm k)" "mm k"] by (simp add: quiet_def on_mm_def)

lemma quiet_core: "core k' = core k \<Longrightarrow> quiet S k k'"
  using more_same [OF coreD(13) [of k' k]] by (simp add: quiet_def coreD(1) [of k' k])

lemma quiet_stack:
  assumes "stack_write sp k k'" "on_stack S sp"
  shows "quiet S k k'"
proof -
  have "heap_live (mm k') L" if "heap_live (mm k) L" "S \<subseteq> L" for L
    using calm_stack [OF assms] that by (simp add: calm_def)
  then show ?thesis using assms(1) more_same [OF bareD(10)] unfolding stack_write_def quiet_def by blast
qed

lemma quiet_block: "PROC_block_on q e sp k = Some k' \<Longrightarrow> on_stack S sp \<Longrightarrow> quiet S k k'"
  using block_on_stack quiet_stack by (fastforce simp: quiet_def)

lemma quiet_irq: "quiet S k (on_mm CLI k)" "quiet S k (on_mm STI k)"
  by (rule quiet_mm, simp)+

section \<open>Every step keeps the invariant\<close>

lemma seek_queue:
  assumes "queue_inv a img (Busy l) live rs k"
  shows "queue_inv a img (Data l 0) live rs k"
proof -
  note q = queue_invD [OF assms]
  have ne: "rs \<noteq> []" using q(11) by auto
  then have w: "works_for (Busy l) (blk_num (reqs k (hd rs)))" using q(12) by auto
  show ?thesis by (rule queue_invI [OF q(1-8)]) (use q(9,10) ne w in \<open>auto simp: works_for_def\<close>)
qed

text \<open>A new request at the end of the queue, or as the only one with the drive put to work.\<close>

lemma enqueue_queue:
  assumes "queue_inv a img p live rs k" "req \<notin> live" "req \<noteq> NULL" "req_buffer x \<noteq> NULL" "req_buffer x \<notin> (\<lambda>r. req_buffer (reqs k r)) ` live"
    "req_done x = 0" "req_next x = NULL" "rs = [] \<Longrightarrow> works_for p' (blk_num x)" "rs \<noteq> [] \<Longrightarrow> p' = p"
    "reqs k' = (if rs = [] then (reqs k)(req := x) else (reqs k)(req := x, last rs := (reqs k (last rs))\<lparr>req_next := req\<rparr>))"
    "req_head (atas k' a) = (if rs = [] then req else req_head (atas k a))" "req_tail (atas k' a) = req" "dests k' = dests k"
  shows "queue_inv a img p' (insert req live) (rs @ [req]) k'"
proof -
  note q = queue_invD [OF assms(1)]
  have nr: "req \<notin> set rs" using q(4) assms(2) by blast
  have lst: "rs \<noteq> [] \<Longrightarrow> last rs \<in> set rs" "rs \<noteq> [] \<Longrightarrow> last rs \<noteq> req" using nr last_in_set by metis+
  have f: "req_buffer (reqs k' r) = (if r = req then req_buffer x else req_buffer (reqs k r))" "blk_num (reqs k' r) = (if r = req then blk_num x else blk_num (reqs k r))"
    "req_done (reqs k' r) = (if r = req then 0 else req_done (reqs k r))"
    "r \<noteq> last rs \<Longrightarrow> req_next (reqs k' r) = (if r = req then NULL else req_next (reqs k r))" for r
    using lst(2) assms(6,7) by (auto simp: assms(10))
  have l: "llist (req_links k') NULL (req_head (atas k' a)) (rs @ [req])"
  proof (cases "rs = []")
    case True
    then show ?thesis using assms(3,7) by (simp add: assms(10,11) req_links_def)
  next
    case False
    have "req_links k' = ((req_links k)(req := NULL))(last rs := req)" using False lst(2) assms(7) by (auto simp: req_links_def assms(10))
    then show ?thesis using llist_snoc [OF q(1) False nr assms(3)] False by (simp add: assms(11))
  qed
  have dn: "r \<in> live - set rs" "r \<noteq> req" "rs \<noteq> [] \<Longrightarrow> r \<noteq> last rs" if "r \<in> insert req live - set (rs @ [req])" for r
    using that lst(1) by auto
  have nx: "req_next (reqs k' r) = req_next (reqs k r)" if "r \<in> insert req live - set (rs @ [req])" for r
    using dn [OF that] f(4) [of r] by (cases "rs = []") (auto simp: assms(10))
  show ?thesis
  proof (rule queue_invI [OF l])
    show "inj_on (\<lambda>r. req_buffer (reqs k' r)) (insert req live)"
    proof (rule inj_onI)
      fix r r' assume r: "r \<in> insert req live" "r' \<in> insert req live" "req_buffer (reqs k' r) = req_buffer (reqs k' r')"
      show "r = r'"
      proof (cases "r = req \<or> r' = req")
        case True
        then show ?thesis using r assms(5) by (force simp: f split: if_splits)
      next
        case False
        then show ?thesis using r inj_onD [OF q(5), of r r'] by (simp add: f)
      qed
    qed
    fix r assume r: "r \<in> insert req live - set (rs @ [req])"
    show "req_done (reqs k' r) = 1 \<and> dests k' (req_buffer (reqs k' r)) = sector img (take_bit 48 (blk_num (reqs k' r)))"
      using q(8) [OF dn(1) [OF r]] dn(2) [OF r] by (simp add: f assms(13))
    show "p' = Idle \<and> rs @ [req] \<noteq> [] \<and> req_next (reqs k' r) = hd (rs @ [req])" if "req_next (reqs k' r) \<noteq> NULL"
      using q(9) [OF dn(1) [OF r]] that assms(9) by (simp add: nx [OF r])
    fix r' assume r': "r' \<in> insert req live - set (rs @ [req])"
    show "r = r'" if "req_next (reqs k' r) \<noteq> NULL" "req_next (reqs k' r') \<noteq> NULL"
      using q(10) [OF dn(1) [OF r] dn(1) [OF r']] that by (simp add: nx [OF r] nx [OF r'])
  next
    show "works_for p' (blk_num (reqs k' (hd (rs @ [req])))) \<or>
        p' = Idle \<and> (\<exists>c \<in> insert req live - set (rs @ [req]). req_next (reqs k' c) = hd (rs @ [req]))"
    proof (cases "rs = []")
      case True
      then show ?thesis using assms(8) by (simp add: f)
    next
      case False
      then have h: "hd rs \<noteq> req" "hd rs \<in> set rs" using nr by auto
      have "\<exists>c \<in> insert req live - set (rs @ [req]). req_next (reqs k' c) = hd rs" if "c \<in> live - set rs" "req_next (reqs k c) = hd rs" for c
      proof -
        have "c \<in> insert req live - set (rs @ [req])" using that(1) assms(2) by auto
        then show ?thesis using nx that(2) by metis
      qed
      then show ?thesis using q(12) [OF False] False h assms(9) by (auto simp: f)
    qed
    show "req_tail (atas k' a) = last (rs @ [req])" "NULL \<notin> insert req live" using q(3) assms(3,12) by simp_all
    show "set (rs @ [req]) \<subseteq> insert req live" using q(4) by auto
    show "req_buffer (reqs k' r) \<noteq> NULL" if "r \<in> insert req live" for r using q(6) [of r] assms(4) that by (auto simp: f)
    show "req_done (reqs k' r) = 0" if "r \<in> set (rs @ [req])" for r using q(7) [of r] that by (auto simp: f)
  qed simp
qed

text \<open>The drive has delivered the sector of the first request, which leaves the queue.\<close>

lemma complete_queue:
  assumes "queue_inv a img p live (r # rs) k" "works_for p (blk_num (reqs k r))"
    "reqs k' = (reqs k)(r := (reqs k r)\<lparr>req_done := 1\<rparr>)" "req_head (atas k' a) = req_next (reqs k r)"
    "rs \<noteq> [] \<Longrightarrow> req_tail (atas k' a) = req_tail (atas k a)"
    "dests k' = (dests k)(req_buffer (reqs k r) := sector img (take_bit 48 (blk_num (reqs k r))))"
  shows "queue_inv a img Idle live rs k'"
proof -
  note q = queue_invD [OF assms(1)]
  have r: "r \<in> live" "r \<notin> set rs" using q(4) llist_distinct [OF q(1)] by auto
  have ne: "p \<noteq> Idle" using assms(2) by (auto simp: works_for_def)
  have f: "req_buffer (reqs k' x) = req_buffer (reqs k x)" "blk_num (reqs k' x) = blk_num (reqs k x)" "req_next (reqs k' x) = req_next (reqs k x)"
    "req_done (reqs k' x) = (if x = r then 1 else req_done (reqs k x))" for x by (simp_all add: assms(3))
  have l: "llist (req_links k') NULL (req_head (atas k' a)) rs" "req_next (reqs k r) = (if rs = [] then NULL else hd rs)"
    using q(1) by (auto simp: req_links_def f assms(4) llist_def dest: lpath_hd)
  have old: "x \<in> live - set (r # rs)" if "x \<in> live - set rs" "x \<noteq> r" for x using that by auto
  have nx: "req_next (reqs k x) = NULL" if "x \<in> live - set rs" "x \<noteq> r" for x using q(9) [OF old [OF that]] ne by blast
  show ?thesis
  proof (rule queue_invI [OF l(1)])
    show "req_tail (atas k' a) = last rs" if "rs \<noteq> []" using assms(5) [OF that] q(2) that by simp
    show "inj_on (\<lambda>r. req_buffer (reqs k' r)) live" using q(5) by (simp add: f)
    show "req_done (reqs k' x) = 0" if "x \<in> set rs" for x using q(7) [of x] that r(2) by (auto simp: f)
    show "req_buffer (reqs k' x) \<noteq> NULL" if "x \<in> live" for x using q(6) [OF that] by (simp add: f)
    fix x assume x: "x \<in> live - set rs"
    show "req_done (reqs k' x) = 1 \<and> dests k' (req_buffer (reqs k' x)) = sector img (take_bit 48 (blk_num (reqs k' x)))"
    proof (cases "x = r")
      case False
      then have "req_buffer (reqs k x) \<noteq> req_buffer (reqs k r)" using inj_onD [OF q(5), of x r] x r(1) by auto
      then show ?thesis using q(8) [OF old [OF x False]] False by (simp add: f assms(6))
    qed (simp add: f assms(6))
    show "Idle = Idle \<and> rs \<noteq> [] \<and> req_next (reqs k' x) = hd rs" if "req_next (reqs k' x) \<noteq> NULL"
      using that nx [OF x] l(2) by (cases "x = r") (auto simp: f split: if_splits)
    show "x = y" if "y \<in> live - set rs" "req_next (reqs k' x) \<noteq> NULL" "req_next (reqs k' y) \<noteq> NULL" for y
      using that nx [OF x] nx [OF that(1)] by (cases "x = r"; cases "y = r") (auto simp: f)
  next
    show "works_for Idle (blk_num (reqs k' (hd rs))) \<or> Idle = Idle \<and> (\<exists>c \<in> live - set rs. req_next (reqs k' c) = hd rs)" if "rs \<noteq> []"
      using l(2) that r by (auto simp: f)
  qed (use q(3,4) in auto)
qed

text \<open>A request that is done goes away; if it has a successor, that is the first of the queue and is started.\<close>

lemma retire_queue:
  assumes "queue_inv a img p live rs k" "c \<in> live - set rs" "if req_next (reqs k c) = NULL then p' = p else works_for p' (blk_num (reqs k (hd rs)))"
  shows "queue_inv a img p' (live - {c}) rs k"
proof -
  note q = queue_invD [OF assms(1)]
  have nx: "req_next (reqs k x) = NULL" if "x \<in> live - {c} - set rs" "req_next (reqs k c) \<noteq> NULL" for x
    using q(10) [of x c] that assms(2) by auto
  show ?thesis
  proof (rule queue_invI [OF q(1,2)])
    show "inj_on (\<lambda>r. req_buffer (reqs k r)) (live - {c})" using q(5) by (rule inj_on_subset) auto
    fix x assume x: "x \<in> live - {c} - set rs"
    show "req_done (reqs k x) = 1 \<and> dests k (req_buffer (reqs k x)) = sector img (take_bit 48 (blk_num (reqs k x)))" using q(8) [of x] x by auto
    show "p' = Idle \<and> rs \<noteq> [] \<and> req_next (reqs k x) = hd rs" if "req_next (reqs k x) \<noteq> NULL"
      using q(9) [of x] x that nx [OF x] assms(3) by (auto split: if_splits)
    show "x = y" if "y \<in> live - {c} - set rs" "req_next (reqs k x) \<noteq> NULL" "req_next (reqs k y) \<noteq> NULL" for y
      using q(10) [of x y] x that by auto
  next
    show "p' = Idle" if "rs = []" using q(9) [OF assms(2)] q(11) assms(3) that by (auto split: if_splits)
    show "works_for p' (blk_num (reqs k (hd rs))) \<or> p' = Idle \<and> (\<exists>d \<in> live - {c} - set rs. req_next (reqs k d) = hd rs)" if ne: "rs \<noteq> []"
    proof (cases "req_next (reqs k c) = NULL")
      case True
      have "hd rs \<noteq> NULL" using q(3,4) hd_in_set [OF ne] by auto
      then show ?thesis using q(12) [OF ne] assms(3) True by auto
    qed (use assms(3) in simp)
  qed (use q(3,4,6,7) assms(2) in auto)
qed

lemma disk_invI:
  assumes "ata_base (atas k a) = base" "queue_inv a img (ph d) live rs k" "heap_live (mm k) L" "S \<subseteq> L" "\<And>r. r \<in> live \<Longrightarrow> \<exists>n. (r - 16, n) \<in> L - S"
  shows "disk_inv a img base ph S (k, d, live)"
  unfolding disk_inv_def split using assms by blast

lemma disk_invE:
  assumes "disk_inv a img base ph S (k, d, live)"
  obtains rs L where "ata_base (atas k a) = base" "queue_inv a img (ph d) live rs k" "heap_live (mm k) L" "S \<subseteq> L"
    "\<And>r. r \<in> live \<Longrightarrow> \<exists>n. (r - 16, n) \<in> L - S"
  using assms unfolding disk_inv_def split by blast

text \<open>What the threads inside have asked for stays the same.\<close>

definition keeps :: "ptr set \<Rightarrow> 'a ata_sys_scheme \<Rightarrow> 'a ata_sys_scheme \<Rightarrow> bool" where
  "keeps live k k' \<longleftrightarrow> (\<forall>r \<in> live. blk_num (reqs k' r) = blk_num (reqs k r) \<and> req_buffer (reqs k' r) = req_buffer (reqs k r))"

lemma quiet_keeps: "quiet S k k' \<Longrightarrow> keeps live k k'"
  by (simp add: quiet_def keeps_def)

lemma wait_blocks:
  assumes "ata_wait pin pout a req sp (k, d) = Some (res, k', d')" "req_done (reqs k req) \<noteq> 1" "on_stack S sp"
  shows "res = Inr req" "d' = d" "quiet S k k'"
proof -
  have "reqs (on_mm CLI k) = reqs k" by (simp add: on_mm_def)
  then obtain b: "PROC_block_on (Q_dev req) True sp (on_mm CLI k) = Some k'" "res = Inr req" "d' = d"
    using assms(1,2) by (auto simp: ata_wait_def ata_sleep_def Let_def bind_eq_Some_conv)
  then show "res = Inr req" "d' = d" "quiet S k k'" using quiet_trans [OF quiet_irq(1) quiet_block [OF b(1) assms(3)]] by simp_all
qed

text \<open>The state in which a new request has been queued.\<close>

lemma submit_queued:
  assumes "lba48_drive pin pout pinw base img ph rg" "queue_inv a img (ph d) live rs k" "ata_base (atas k a) = base"
    "req \<notin> live" "req \<noteq> NULL" "dst \<noteq> NULL" "dst \<notin> (\<lambda>r. req_buffer (reqs k r)) ` live"
    "reqs k1 = (reqs k)(req := \<lparr>blk_num = blk, req_buffer = dst, req_done = 0, req_next = NULL\<rparr>)" "atas k1 = atas k" "dests k1 = dests k"
    "(if req_head (atas k1 a) = NULL
      then do {
        let k = set_ata a (\<lambda>x. x\<lparr>req_head := req, req_tail := req\<rparr>) k1;
        d \<leftarrow> ata_start_request pin pout (atas k a) (reqs k req) d;
        Some (k, d)
      }
      else let k = set_req (req_tail (atas k1 a)) (\<lambda>x. x\<lparr>req_next := req\<rparr>) k1
           in Some (set_ata a (\<lambda>x. x\<lparr>req_tail := req\<rparr>) k, d)) = Some (k', d')"
  shows "queue_inv a img (ph d') (insert req live) (rs @ [req]) k'" "ata_base (atas k' a) = base" "mm k' = mm k1" "req_done (reqs k' req) = 0"
    "blk_num (reqs k' r) = (if r = req then blk else blk_num (reqs k r))" "req_buffer (reqs k' r) = (if r = req then dst else req_buffer (reqs k r))"
proof -
  note q = queue_invD [OF assms(2)]
  let ?x = "\<lparr>blk_num = blk, req_buffer = dst, req_done = 0, req_next = NULL\<rparr>"
  have h: "req_head (atas k a) = NULL \<longleftrightarrow> rs = []" using q(1) by (cases rs) auto
  have nr: "req \<notin> set rs" using q(4) assms(4) by blast
  have "queue_inv a img (ph d') (insert req live) (rs @ [req]) k' \<and> ata_base (atas k' a) = base \<and> mm k' = mm k1 \<and> req_done (reqs k' req) = 0 \<and>
    (\<forall>r. blk_num (reqs k' r) = (if r = req then blk else blk_num (reqs k r)) \<and> req_buffer (reqs k' r) = (if r = req then dst else req_buffer (reqs k r)))"
  proof (cases "rs = []")
    case True
    let ?k = "set_ata a (\<lambda>x. x\<lparr>req_head := req, req_tail := req\<rparr>) k1"
    have b: "ata_base (atas ?k a) = base" using assms(3,9) by (simp add: set_ata_def)
    have dr: "lba48_drive pin pout pinw (ata_base (atas ?k a)) img ph rg" using assms(1) b by simp
    have k': "k' = ?k" "ata_start_request pin pout (atas ?k a) (reqs ?k req) d = Some d'"
      using assms(11) h True assms(9) by (auto simp: Let_def bind_eq_Some_conv)
    have "ph d' = Busy (take_bit 48 blk)"
      using start_request [OF dr q(11) [OF True], of "reqs ?k req"] k'(2) assms(8) by (simp add: set_ata_def)
    then show ?thesis
      using enqueue_queue [OF assms(2,4,5), of ?x "ph d'" k'] True assms(6-10) b k'(1)
      by (simp add: set_ata_def works_for_def)
  next
    case False
    let ?k = "set_ata a (\<lambda>x. x\<lparr>req_tail := req\<rparr>) (set_req (req_tail (atas k1 a)) (\<lambda>x. x\<lparr>req_next := req\<rparr>) k1)"
    have k': "k' = ?k" "d' = d" using assms(11) h False assms(9) by (auto simp: Let_def)
    have t: "req_tail (atas k a) = last rs" "last rs \<noteq> req" using q(2) [OF False] nr last_in_set [OF False] by auto
    have "queue_inv a img (ph d') (insert req live) (rs @ [req]) k'"
      by (rule enqueue_queue [OF assms(2,4,5), of ?x])
        (use False assms(6-10) t k' in \<open>simp_all add: set_ata_def set_req_def\<close>)
    then show ?thesis using assms(3,8,9) t k' by (simp add: set_ata_def set_req_def)
  qed
  then show "queue_inv a img (ph d') (insert req live) (rs @ [req]) k'" "ata_base (atas k' a) = base" "mm k' = mm k1" "req_done (reqs k' req) = 0"
    "blk_num (reqs k' r) = (if r = req then blk else blk_num (reqs k r))" "req_buffer (reqs k' r) = (if r = req then dst else req_buffer (reqs k r))"
    by blast+
qed

lemma submit_inv:
  assumes "lba48_drive pin pout pinw base img ph rg" "disk_inv a img base ph S (k, d, live)" "room sizeof_ata_request (mm k)" "on_stack S sp"
    "dst \<noteq> NULL" "dst \<notin> (\<lambda>r. req_buffer (reqs k r)) ` live" "ata_read_block pin pout a blk dst sp (k, d) = Some (res, k', d')"
  shows "disk_inv a img base ph S (k', d', case res of Inl _ \<Rightarrow> live | Inr req \<Rightarrow> insert req live)"
    "res = Inr req \<Longrightarrow> req \<notin> live \<and> blk_num (reqs k' req) = blk \<and> req_buffer (reqs k' req) = dst" "keeps live k k'"
proof -
  have "disk_inv a img base ph S (k', d', case res of Inl _ \<Rightarrow> live | Inr req \<Rightarrow> insert req live) \<and> keeps live k k' \<and>
    (\<forall>req. res = Inr req \<longrightarrow> req \<notin> live \<and> blk_num (reqs k' req) = blk \<and> req_buffer (reqs k' req) = dst)"
    using assms(2)
  proof (rule disk_invE, goal_cases)
    case (1 rs L)
    obtain p m1 where a: "kmalloc sizeof_ata_request (mm k) = (p, m1)" by fastforce
    have z: "sizeof_ata_request \<noteq> 0" by (simp add: sizeof_ata_request_def)
    have nh: "\<not> halted m1" using assms(7) a by (auto simp: ata_read_block_def call_mm_def split: if_splits)
    show ?case
    proof (cases "p = NULL")
      case True
      then have r: "res = Inl (-1)" "k' = k\<lparr>mm := m1\<rparr>" "d' = d" using assms(7) a nh by (auto simp: ata_read_block_def call_mm_def)
      have "heap_live m1 L" using kh.malloc_none [OF 1(3) assms(3) z] a True by simp
      then show ?thesis using 1 queue_inv_cong [of k' k] r by (simp add: disk_invI keeps_def)
    next
      case False
      obtain n where n: "heap_live m1 (insert (p - 16, n) L)" "(p - 16, n) \<notin> L" using kh.malloc_some [OF 1(3) assms(3) z a False] by blast
      have pn: "p \<notin> live"
      proof
        assume "p \<in> live"
        then obtain n' where "(p - 16, n') \<in> L" using 1(5) by blast
        then show False using heap_live_apart [OF n(1), of "p - 16" n n'] n(2) by simp
      qed
      define k1 where "k1 = on_mm CLI (PROC_init_queue (Q_dev p)
        (set_req p (\<lambda>_. \<lparr>blk_num = blk, req_buffer = dst, req_done = 0, req_next = NULL\<rparr>) (k\<lparr>mm := m1\<rparr>)))"
      have k1: "reqs k1 = (reqs k)(p := \<lparr>blk_num = blk, req_buffer = dst, req_done = 0, req_next = NULL\<rparr>)" "atas k1 = atas k" "dests k1 = dests k" "mm k1 = CLI m1"
        by (simp_all add: k1_def set_req_def on_mm_def PROC_init_queue_def)
      obtain k2 d2 where 2: "(if req_head (atas k1 a) = NULL
        then do {
          let k = set_ata a (\<lambda>x. x\<lparr>req_head := p, req_tail := p\<rparr>) k1;
          d \<leftarrow> ata_start_request pin pout (atas k a) (reqs k p) d;
          Some (k, d)
        }
        else let k = set_req (req_tail (atas k1 a)) (\<lambda>x. x\<lparr>req_next := p\<rparr>) k1
             in Some (set_ata a (\<lambda>x. x\<lparr>req_tail := p\<rparr>) k, d)) = Some (k2, d2)" "ata_wait pin pout a p sp (k2, d2) = Some (res, k', d')"
        using assms(7) a nh False by (auto simp: ata_read_block_def call_mm_def k1_def Let_def bind_eq_Some_conv split: if_splits)
      note s = submit_queued [OF assms(1) 1(2,1) pn False assms(5,6) k1(1-3) 2(1)]
      have "heap_live (mm k2) (insert (p - 16, n) L)" using n(1) heap_live_cong [of "CLI m1" m1] s(3) k1(4) by simp
      then have "disk_inv a img base ph S (k2, d2, insert p live)"
        by (rule disk_invI [where ph = ph and d = d2, OF s(2,1)]) (use 1(4,5) n(2) in auto)
      then have w: "disk_inv a img base ph S (k', d', insert p live)" "res = Inr p" "reqs k' = reqs k2"
        using quiet_inv [of S k2 k'] wait_blocks [OF 2(2) _ assms(4)] s(4) by (simp_all add: quiet_def)
      have "keeps live k k'" using s(5,6) pn w(3) by (auto simp: keeps_def)
      then show ?thesis using w pn s(5,6) by simp
    qed
  qed
  then show "disk_inv a img base ph S (k', d', case res of Inl _ \<Rightarrow> live | Inr req \<Rightarrow> insert req live)"
    "res = Inr req \<Longrightarrow> req \<notin> live \<and> blk_num (reqs k' req) = blk \<and> req_buffer (reqs k' req) = dst" "keeps live k k'" by blast+
qed

lemma and_drq: "st AND (STATUS_BSY OR STATUS_DRQ) = 0 \<Longrightarrow> st AND STATUS_DRQ = 0" for st :: u8
  by (metis and.assoc and.commute and.left_idem bit.conj_zero_left or_eq_0_iff bit.conj_disj_distrib)

lemma interrupt_inv:
  assumes "lba48_drive pin pout pinw base img ph rg" "disk_inv a img base ph S (k, d, live)" "ISR_ata_handler pin pinw a (k, d) = Some (k', d')"
  shows "disk_inv a img base ph S (k', d', live) \<and> keeps live k k'"
  using assms(2)
proof (rule disk_invE, goal_cases)
  case (1 rs L)
  note dr = driveD(1,2) [OF assms(1), of d] and q = queue_invD [OF 1(2)]
  obtain st d1 where p: "pin (base + REG_STATUS) d = (st, d1)" by fastforce
  then have d1: "ph d1 = ph d" "status_fits (ph d) st" using dr(1,2) by simp_all
  have none: "disk_inv a img base ph S (k, d1, live)" by (rule disk_invI [where ph = ph and d = d1, OF 1(1) _ 1(3-5)]) (use 1(2) d1(1) in simp)
  show ?case
  proof (cases "\<exists>l i. ph d = Data l i")
    case False
    then have "st AND STATUS_DRQ = 0" using d1(2) and_drq [of st] by (auto simp: status_fits_def split: phase.splits)
    then have "k' = k" "d' = d1" using assms(3) p 1(1) by (auto simp: ISR_ata_handler_def Let_def split: if_splits)
    then show ?thesis using none by (simp add: keeps_def)
  next
    case True
    then have ne: "rs \<noteq> []" using q(11) by auto
    then obtain r rs' where rs: "rs = r # rs'" by (cases rs) auto
    have w: "ph d = Data (take_bit 48 (blk_num (reqs k r))) 0" using q(12) [OF ne] True rs by (auto simp: works_for_def)
    have hd: "req_head (atas k a) = r" "r \<noteq> NULL" "req_buffer (reqs k r) \<noteq> NULL" using q(1,3,4,6) rs by auto
    have st: "st \<noteq> 0" "st AND STATUS_DRQ \<noteq> 0" using d1(2) w by (auto simp: status_fits_def)
    obtain ws d2 where i: "insw pinw (base + REG_DATA) 256 d1 = (ws, d2)" by fastforce
    have ws: "word_bytes ws = sector img (take_bit 48 (blk_num (reqs k r)))" "ph d2 = Idle"
      using insw_data [OF assms(1), of d1 _ 0 256] d1(1) w i word_bytes_sector by auto
    define k1 where "k1 = set_req r (\<lambda>x. x\<lparr>req_done := 1\<rparr>) (k\<lparr>dests := (dests k)(req_buffer (reqs k r) := word_bytes ws)\<rparr>)"
    define k2 where "k2 = set_ata a (\<lambda>x. x\<lparr>req_head := req_next (reqs k1 r)\<rparr>) k1"
    define k3 where "k3 = (if req_head (atas k2 a) = NULL then set_ata a (\<lambda>x. x\<lparr>req_tail := NULL\<rparr>) k2 else k2)"
    have u: "PROC_unblock_all (Q_dev r) k3 = Some k'" "d' = d2"
      using assms(3) p st hd i 1(1)
      by (auto simp: ISR_ata_handler_def Let_def k1_def k2_def k3_def bind_eq_Some_conv split: if_splits)
    have f: "reqs k3 = (reqs k)(r := (reqs k r)\<lparr>req_done := 1\<rparr>)" "req_head (atas k3 a) = req_next (reqs k r)" "mm k3 = mm k"
      "ata_base (atas k3 a) = base" "dests k3 = (dests k)(req_buffer (reqs k r) := sector img (take_bit 48 (blk_num (reqs k r))))"
      "req_next (reqs k r) \<noteq> NULL \<Longrightarrow> req_tail (atas k3 a) = req_tail (atas k a)"
      using ws(1) 1(1) by (simp_all add: k3_def k2_def k1_def set_ata_def set_req_def)
    have "rs' \<noteq> [] \<Longrightarrow> req_next (reqs k r) \<noteq> NULL" using q(1) rs by (cases rs') (auto simp: req_links_def)
    then have "queue_inv a img Idle live rs' k3"
      by (intro complete_queue [OF 1(2) [unfolded rs] _ f(1,2) _ f(5)]) (use w f(6) in \<open>simp_all add: works_for_def\<close>)
    then have "disk_inv a img base ph S (k3, d2, live)"
      by (intro disk_invI [where ph = ph and d = d2, OF f(4)]) (use 1(3-5) f(3) ws(2) in simp_all)
    moreover have k: "quiet S k3 k'" by (rule quiet_core [OF core_unblock_all [OF u(1)]])
    moreover have "keeps live k k'" using k f(1) by (simp add: quiet_def keeps_def)
    ultimately show ?thesis using quiet_inv [OF k] u(2) by metis
  qed
qed

text \<open>A thread that goes on behind its call to sleep.\<close>

lemma finish_inv:
  assumes "lba48_drive pin pout pinw base img ph rg" "disk_inv a img base ph S (k, d, live)" "req \<in> live" "req_done (reqs k req) = 1"
    "ata_finish pin pout a req (k, d) = Some (res, k', d')"
  shows "res = Inl 0" "disk_inv a img base ph S (k', d', live - {req})" "dests k' = dests k" "reqs k' = reqs k"
proof -
  have "res = Inl 0 \<and> disk_inv a img base ph S (k', d', live - {req}) \<and> dests k' = dests k \<and> reqs k' = reqs k"
    using assms(2)
  proof (rule disk_invE, goal_cases)
    case (1 rs L)
    note q = queue_invD [OF 1(2)]
    define k0 where "k0 = on_mm STI (on_mm CLI (on_mm STI k))"
    have k: "reqs k0 = reqs k" "atas k0 = atas k" "dests k0 = dests k" "heap_of (mm k0) = heap_of (mm k)" by (simp_all add: k0_def on_mm_def)
    have cin: "req \<in> live - set rs" using q(7) [of req] assms(3,4) by auto
    let ?go = "req_head (atas k a) \<noteq> NULL \<and> req_head (atas k a) = req_next (reqs k req)"
    have nxt: "req_next (reqs k req) \<noteq> NULL \<Longrightarrow> ph d = Idle \<and> rs \<noteq> [] \<and> req_next (reqs k req) = req_head (atas k a)"
      using q(9) [OF cin] q(1) by (cases rs) auto
    have hd: "rs \<noteq> [] \<Longrightarrow> req_head (atas k a) = hd rs" using q(1) by (cases rs) auto
    obtain d1 where d1: "(if ?go then ata_start_request pin pout (atas k a) (reqs k (req_head (atas k a))) d else Some d) = Some d1"
      "k' = k0\<lparr>mm := kfree req (mm k0)\<rparr>" "d' = d1" "res = Inl 0"
    proof (atomize_elim, goal_cases)
      case 1
      have r: "reqs (on_mm CLI (on_mm STI k)) = reqs k" "atas (on_mm CLI (on_mm STI k)) = atas k" by (simp_all add: on_mm_def)
      show ?case using assms(5) unfolding ata_finish_def split Let_def r k0_def [symmetric] run_mm_def
        by (auto simp: bind_eq_Some_conv split: if_splits)
    qed
    have dr: "lba48_drive pin pout pinw (ata_base (atas k a)) img ph rg" using assms(1) 1(1) by simp
    have "if req_next (reqs k req) = NULL then ph d1 = ph d else works_for (ph d1) (blk_num (reqs k (hd rs)))"
    proof (cases "req_next (reqs k req) = NULL")
      case False
      note n = nxt [OF False]
      then have "ata_start_request pin pout (atas k a) (reqs k (hd rs)) d = Some d1" using d1(1) False hd by simp
      then show ?thesis using start_request [OF dr, of d "reqs k (hd rs)"] n False by (simp add: works_for_def)
    qed (use d1(1) in auto)
    from retire_queue [OF 1(2) cin this] have qi: "queue_inv a img (ph d1) (live - {req}) rs k'"
      using queue_inv_cong [of k' k] k(1-3) d1(2) by simp
    obtain n where n: "(req - 16, n) \<in> L - S" using 1(5) [OF assms(3)] by blast
    have "heap_live (mm k0) L" using 1(3) heap_live_cong [OF k(4)] by simp
    then have hl: "heap_live (mm k') (L - {(req - 16, n)})" using kh.release_ok [of _ L "req - 16" n] n d1(2) by simp
    have "disk_inv a img base ph S (k', d1, live - {req})"
    proof (rule disk_invI [where ph = ph and d = d1, OF _ qi hl])
      show "ata_base (atas k' a) = base" using 1(1) d1(2) k(2) by simp
      show "S \<subseteq> L - {(req - 16, n)}" using 1(4) n by blast
      show "\<exists>n'. (r - 16, n') \<in> L - {(req - 16, n)} - S" if "r \<in> live - {req}" for r using 1(5) [of r] that by auto
    qed
    then show ?case using d1(2-4) k by simp
  qed
  then show "res = Inl 0" "disk_inv a img base ph S (k', d', live - {req})" "dests k' = dests k" "reqs k' = reqs k" by simp_all
qed

lemma woken_inv:
  assumes "lba48_drive pin pout pinw base img ph rg" "disk_inv a img base ph S (k, d, live)" "req \<in> live" "on_stack S sp"
    "ata_wait pin pout a req sp (k, d) = Some (res, k', d')"
  shows "disk_inv a img base ph S (k', d', case res of Inl _ \<Rightarrow> live - {req} | Inr _ \<Rightarrow> live)" "keeps live k k'"
    "res = Inl v \<Longrightarrow> v = 0 \<and> req_done (reqs k req) = 1 \<and> dests k' = dests k"
proof -
  have "disk_inv a img base ph S (k', d', case res of Inl _ \<Rightarrow> live - {req} | Inr _ \<Rightarrow> live) \<and> keeps live k k' \<and>
    (res = Inl v \<longrightarrow> v = 0 \<and> req_done (reqs k req) = 1 \<and> dests k' = dests k)"
  proof (cases "req_done (reqs k req) = 1")
    case True
    have k: "reqs (on_mm CLI k) = reqs k" "dests (on_mm CLI k) = dests k" by (simp_all add: on_mm_def)
    then have "ata_finish pin pout a req (on_mm CLI k, d) = Some (res, k', d')" using assms(5) True by (simp add: ata_wait_def Let_def)
    note f = finish_inv [OF assms(1) quiet_inv [OF quiet_irq(1) assms(2)] assms(3) _ this]
    have "req_done (reqs (on_mm CLI k) req) = 1" using True k by simp
    then show ?thesis using f k True by (simp add: keeps_def)
  next
    case False
    note w = wait_blocks [OF assms(5) this assms(4)]
    show ?thesis using w(1,2) quiet_inv [OF w(3) assms(2)] quiet_keeps [OF w(3)] by simp
  qed
  then show "disk_inv a img base ph S (k', d', case res of Inl _ \<Rightarrow> live - {req} | Inr _ \<Rightarrow> live)" "keeps live k k'"
    "res = Inl v \<Longrightarrow> v = 0 \<and> req_done (reqs k req) = 1 \<and> dests k' = dests k" by blast+
qed

lemma quiet_step: "quiet S k k' \<Longrightarrow> disk_inv a img base ph S (k, d, live) \<Longrightarrow> disk_inv a img base ph S (k', d, live) \<and> keeps live k k'"
  by (rule conjI [OF quiet_inv quiet_keeps])

lemma disk_step_keeps:
  assumes "lba48_drive pin pout pinw base img ph rg" "disk_step pin pout pinw a ph S c c'" "disk_inv a img base ph S c"
  shows "disk_inv a img base ph S c' \<and> keeps (snd (snd c)) (fst c) (fst c')"
  using assms(2,3)
proof (induction rule: disk_step.induct)
  case (submit k sp dst live blk d res k' d')
  note i = submit_inv [OF assms(1) submit.prems submit.hyps(1-5)]
  show ?case unfolding fst_conv snd_conv by (rule conjI [OF i(1,3)])
next
  case (interrupt k d k' d' live)
  then show ?case using interrupt_inv [OF assms(1), of a S k d live k' d'] by simp
next
  case (resume req live sp k d res k' d')
  then show ?case using woken_inv [OF assms(1), of a S k d live req sp res k' d'] by simp
next
  case (seek d l d' k live)
  from seek.prems show ?case
  proof (rule disk_invE, goal_cases)
    case (1 rs L)
    then have "disk_inv a img base ph S (k, d', live)"
      using seek_queue [of a img l live rs k] seek.hyps by (intro disk_invI [where ph = ph and d = d']) simp_all
    then show ?case by (simp add: keeps_def)
  qed
next
  case (yield sp k d live)
  then show ?case using quiet_step [OF quiet_stack [OF yield_stack yield.hyps]] by simp
next
  case (block sp q e k k' d live)
  then show ?case using quiet_step [OF quiet_block [OF block.hyps(2,1)]] by simp
next
  case (wake q k p k' d live)
  then show ?case using quiet_step [OF quiet_core [OF core_unblock_one [OF wake.hyps]]] by simp
qed

lemmas disk_step_inv = disk_step_keeps [THEN conjunct1]

lemma disk_run_inv:
  assumes "lba48_drive pin pout pinw base img ph rg" "(disk_step pin pout pinw a ph S)\<^sup>*\<^sup>* c c'" "disk_inv a img base ph S c"
  shows "disk_inv a img base ph S c'"
  using assms(2,3) by (induction rule: rtranclp_induct) (use disk_step_inv [OF assms(1)] in blast)+

text \<open>While a request stays in use, what it asks for stays the same.\<close>

lemma request_kept:
  assumes "lba48_drive pin pout pinw base img ph rg" "(\<lambda>c c'. disk_step pin pout pinw a ph S c c' \<and> req \<in> snd (snd c'))\<^sup>*\<^sup>* c c'"
    "disk_inv a img base ph S c" "req \<in> snd (snd c)"
  shows "disk_inv a img base ph S c' \<and> req \<in> snd (snd c') \<and> keeps {req} (fst c) (fst c')"
  using assms(2)
proof (induction rule: rtranclp_induct)
  case base
  then show ?case using assms(3,4) by (simp add: keeps_def)
next
  case (step c1 c2)
  then show ?case using disk_step_keeps [OF assms(1), of a S c1 c2] by (simp add: keeps_def)
qed

section \<open>A read on an idle disk\<close>

lemma threads_init_queue:
  assumes "threads_ok k r W Q" "q \<noteq> Q_NULL"
  shows "threads_ok (PROC_init_queue q k) r (W(q := [])) (insert q Q)"
proof (rule threads_okI)
  note d = threads_okD [OF assms(1)]
  have k: "thr (PROC_init_queue q k) = thr k" "halted (mm (PROC_init_queue q k)) = halted (mm k)"
    by (cases q; simp add: PROC_init_queue_def setp_def setm_def)+
  have h: "Head (PROC_init_queue q k) = Head k" "Tail (PROC_init_queue q k) = Tail k" "Current (PROC_init_queue q k) = Current k"
    "Count (PROC_init_queue q k) = Count k" by (cases q; simp add: PROC_init_queue_def setp_def setm_def)+
  show "k_serves (PROC_init_queue q k) r" using d(1) unfolding k_serves_def rr_serves_def rr_ring_def k h .
  show "queue_holds (PROC_init_queue q k) q' ((W(q := [])) q')" if "q' \<in> insert q Q" for q'
    using d(5) [of q'] that assms(2) k(1) by (auto simp: queue_holds_def PROC_init_queue_def get_set_queue)
  show "set ((W(q := [])) q1) \<inter> set ((W(q := [])) q2) = {}" if "q1 \<in> insert q Q" "q2 \<in> insert q Q" "q1 \<noteq> q2" for q1 q2
    using d(9) [of q1 q2] that by auto
qed (use threads_okD(2,7) [OF assms(1)] assms(2) in auto)

lemma queue_frame: "prc k' = prc k \<Longrightarrow> mtx k' = mtx k \<Longrightarrow> dvq k' = dvq k \<Longrightarrow> get_queue q k' = get_queue q k"
  by (cases q) simp_all

lemma submit_idle:
  assumes "lba48_drive pin pout pinw (ata_base (atas k a)) img ph rg" "req_head (atas k a) = NULL" "ph d = Idle"
    "kmalloc sizeof_ata_request (mm k) = (p, m)" "p \<noteq> NULL" "\<not> halted m"
    "threads_ok k r W Q" "curr_proc k \<in> set r" "multitask_started k" "main_thread k \<noteq> NULL"
  shows "\<exists>k' d' r'. ata_read_block pin pout a blk dst sp (k, d) = Some (Inr p, k', d') \<and> ph d' = Busy (take_bit 48 blk) \<and>
    req_head (atas k' a) = p \<and> reqs k' p = \<lparr>blk_num = blk, req_buffer = dst, req_done = 0, req_next = NULL\<rparr> \<and>
    threads_ok k' r' (W(Q_dev p := [curr_proc k])) (insert (Q_dev p) Q)"
proof -
  let ?x = "\<lparr>blk_num = blk, req_buffer = dst, req_done = 0, req_next = NULL\<rparr>"
  define k0 where "k0 = set_req p (\<lambda>_. ?x) (k\<lparr>mm := m\<rparr>)"
  define k1 where "k1 = on_mm CLI (PROC_init_queue (Q_dev p) k0)"
  define k2 where "k2 = set_ata a (\<lambda>x. x\<lparr>req_head := p, req_tail := p\<rparr>) k1"
  have nh: "\<not> halted (mm k)" using threads_okD(1) [OF assms(7)] by (simp add: k_serves_def)
  have "get_queue q k0 = get_queue q k" for q by (rule queue_frame) (simp_all add: k0_def set_req_def)
  then have s0: "same_places k k0" using nh assms(6) by (simp add: same_places_def k0_def set_req_def)
  have "get_queue q (on_mm CLI k2) = get_queue q (PROC_init_queue (Q_dev p) k0)" for q
    by (rule queue_frame) (simp_all add: k2_def k1_def set_ata_def on_mm_def)
  then have s2: "same_places (PROC_init_queue (Q_dev p) k0) (on_mm CLI k2)" by (simp add: same_places_def k2_def k1_def set_ata_def on_mm_def)
  have "threads_ok k0 r W Q" using assms(7) threads_ok_same [OF s0] by simp
  from threads_init_queue [OF this, of "Q_dev p"] have ok: "threads_ok (on_mm CLI k2) r (W(Q_dev p := [])) (insert (Q_dev p) Q)"
    using threads_ok_same [OF s2] by simp
  have f: "curr_proc (on_mm CLI k2) = curr_proc k" "multitask_started (on_mm CLI k2)" "main_thread (on_mm CLI k2) = main_thread k"
    "reqs (on_mm CLI k2) = (reqs k)(p := ?x)" "req_head (atas (on_mm CLI k2) a) = p" "atas k1 = atas k" "atas k2 a = (atas k a)\<lparr>req_head := p, req_tail := p\<rparr>" "reqs k2 p = ?x"
    using assms(9) by (simp_all add: k2_def k1_def k0_def set_ata_def set_req_def on_mm_def PROC_init_queue_def)
  obtain k' where k': "PROC_block_on (Q_dev p) True sp (on_mm CLI k2) = Some k'" "bare k' = bare (on_mm CLI k2)"
    "\<exists>r'. threads_ok k' r' (W(Q_dev p := [curr_proc k])) (insert (Q_dev p) Q)"
    using threads_block_on [OF ok, of "Q_dev p" True sp] assms(8,10) f(1-3) by (auto simp: Let_def)
  have more: "reqs k' = (reqs k)(p := ?x)" "req_head (atas k' a) = p" using more_same [OF bareD(10) [OF k'(2)]] f(4,5) by simp_all
  have dr: "lba48_drive pin pout pinw (ata_base (atas k2 a)) img ph rg" using assms(1) f(7) by simp
  obtain d' where d': "ata_start_request pin pout (atas k2 a) ?x d = Some d'" "ph d' = Busy (take_bit 48 blk)"
    using start_request [OF dr assms(3), of ?x] by auto
  have w: "ata_wait pin pout a p sp (k2, d') = Some (Inr p, k', d')"
    using k'(1) f(4) by (simp add: ata_wait_def ata_sleep_def Let_def)
  have h: "req_head (atas k1 a) = NULL" using assms(2) f(6) by simp
  have "ata_read_block pin pout a blk dst sp (k, d) = Some (Inr p, k', d')"
    unfolding ata_read_block_def split Let_def call_mm_def assms(4) using assms(5,6) h d'(1) w f(8)
    by (simp add: k0_def [symmetric] k1_def [symmetric] k2_def [symmetric])
  then show ?thesis using d'(2) more k'(3) by auto
qed

lemma interrupt_served:
  assumes "lba48_drive pin pout pinw (ata_base (atas k a)) img ph rg" "ph d = Data l 0" "req_head (atas k a) = p" "p \<noteq> NULL"
    "req_buffer (reqs k p) \<noteq> NULL" "threads_ok k r W Q" "Q_dev p \<in> Q"
  shows "\<exists>k' d'. ISR_ata_handler pin pinw a (k, d) = Some (k', d') \<and> req_done (reqs k' p) = 1 \<and> \<not> halted (mm k')"
proof -
  obtain st d1 where p: "pin (ata_base (atas k a) + REG_STATUS) d = (st, d1)" by fastforce
  then have st: "st AND STATUS_DRQ \<noteq> 0" using driveD(1) [OF assms(1), of d] assms(2) by (simp add: status_fits_def)
  obtain ws d2 where i: "insw pinw (ata_base (atas k a) + REG_DATA) 256 d1 = (ws, d2)" by fastforce
  define k1 where "k1 = set_req p (\<lambda>x. x\<lparr>req_done := 1\<rparr>) (k\<lparr>dests := (dests k)(req_buffer (reqs k p) := word_bytes ws)\<rparr>)"
  define k2 where "k2 = set_ata a (\<lambda>x. x\<lparr>req_head := req_next (reqs k1 p)\<rparr>) k1"
  define k3 where "k3 = (if req_head (atas k2 a) = NULL then set_ata a (\<lambda>x. x\<lparr>req_tail := NULL\<rparr>) k2 else k2)"
  have "get_queue q k3 = get_queue q k" for q by (rule queue_frame) (simp_all add: k3_def k2_def k1_def set_ata_def set_req_def)
  then have s: "same_places k k3" by (simp add: same_places_def k3_def k2_def k1_def set_ata_def set_req_def)
  obtain k' r' where u: "PROC_unblock_all (Q_dev p) k3 = Some k'" "core k' = core k3" "threads_ok k' r' (W(Q_dev p := [])) Q"
    using threads_unblock_all [of k3 r W Q "Q_dev p"] threads_ok_same [OF s] assms(6,7) by auto
  have "ISR_ata_handler pin pinw a (k, d) = Some (k', d2)"
    unfolding ISR_ata_handler_def split p assms(3) using st assms(4,5) i u(1)
    by (auto simp: k1_def [symmetric] k2_def [symmetric] k3_def Let_def)
  moreover have "req_done (reqs k' p) = 1" using more_same [OF coreD(13) [OF u(2)]] by (simp add: k3_def k2_def k1_def set_ata_def set_req_def)
  moreover have "\<not> halted (mm k')" using threads_okD(1) [OF u(3)] by (simp add: k_serves_def)
  ultimately show ?thesis by blast
qed

text \<open>A thread whose request is done returns.\<close>

lemma done_returns:
  assumes "lba48_drive pin pout pinw base img ph rg" "disk_inv a img base ph S (k, d, live)" "r \<in> live" "req_done (reqs k r) = 1" "\<not> halted (mm k)"
  shows "\<exists>k' d'. ata_wait pin pout a r sp (k, d) = Some (Inl 0, k', d')"
  using assms(2)
proof (rule disk_invE, goal_cases)
  case (1 rs L)
  note q = queue_invD [OF 1(2)]
  have r: "r \<in> live - set rs" using q(7) [of r] assms(3,4) by auto
  have dr: "lba48_drive pin pout pinw (ata_base (atas k a)) img ph rg" using assms(1) 1(1) by simp
  have "\<exists>d'. ata_start_request pin pout (atas k a) (reqs k (req_next (reqs k r))) d = Some d'" if "req_next (reqs k r) \<noteq> NULL"
    using start_request [OF dr, of d] q(9) [OF r that] by blast
  then show ?case using assms(4,5)
    by (auto simp: ata_wait_def ata_finish_def on_mm_def run_mm_def kfree_halted Let_def CLI_def STI_def)
qed

section \<open>What a caller gets\<close>

text \<open>
  C3: A read from a disk shared by any number of threads. A thread calls \<open>ata_read_block\<close> and sleeps; the
  other threads, the drive and its interrupts do anything in any order; the thread goes on and its
  call returns. Then it returns 0, and its buffer holds the sector it asked for and not that of any
  other request, for a drive that follows the protocol of 48 bit addresses.
\<close>

theorem disk_read_correct:
  assumes "lba48_drive pin pout pinw base img ph rg" "disk_inv a img base ph S (k, d, live)"
    and "room sizeof_ata_request (mm k)" "on_stack S sp" "dst \<noteq> NULL" "dst \<notin> (\<lambda>r. req_buffer (reqs k r)) ` live"
    and "ata_read_block pin pout a blk dst sp (k, d) = Some (Inr req, k1, d1)"
    and "(\<lambda>c c'. disk_step pin pout pinw a ph S c c' \<and> req \<in> snd (snd c'))\<^sup>*\<^sup>* (k1, d1, insert req live) (k2, d2, live2)"
    and "on_stack S sp2" "ata_wait pin pout a req sp2 (k2, d2) = Some (Inl v, k3, d3)"
  shows "v = 0 \<and> dests k3 dst = sector img (take_bit 48 blk)"
proof -
  note s = submit_inv [OF assms(1-7)]
  have "disk_inv a img base ph S (k1, d1, insert req live)" using s(1) by simp
  from request_kept [OF assms(1,8) this] have k: "disk_inv a img base ph S (k2, d2, live2)" "req \<in> live2" "keeps {req} k1 k2" by simp_all
  have f: "blk_num (reqs k2 req) = blk" "req_buffer (reqs k2 req) = dst" using s(2) k(3) by (simp_all add: keeps_def)
  have r: "v = 0" "req_done (reqs k2 req) = 1" "dests k3 = dests k2" using woken_inv(3) [OF assms(1) k(1,2) assms(9,10)] by simp_all
  from k(1) obtain rs where q: "queue_inv a img (ph d2) live2 rs k2" by (rule disk_invE)
  have "req \<in> live2 - set rs" using queue_invD(7) [OF q, of req] r(2) k(2) by auto
  from queue_invD(8) [OF q this] show ?thesis using f r by simp
qed


section \<open>A concrete drive\<close>

text \<open>A drive at the ports of the primary bus whose byte at offset \<open>i\<close> is \<open>i mod 251\<close>.\<close>

type_synonym drive = "phase \<times> lba_regs"

definition drive_in :: "drive port_in" where
  "drive_in port d = (if port = 0x1F7 then (case fst d of Idle \<Rightarrow> 0x40 | Busy _ \<Rightarrow> 0x80 | Data _ _ \<Rightarrow> 0x48) else 0, d)"

definition drive_out :: "drive port_out" where
  "drive_out port v d =
     (if port = 0x1F7 \<and> v = CMD_READ_PIO_EXT \<and> fst d = Idle then (Busy (lba_of (snd d)), snd d)
      else if port \<in> {0x1F2, 0x1F3, 0x1F4, 0x1F5} then (fst d, (snd d)(port - 0x1F0 := (v, fst (snd d (port - 0x1F0)))))
      else d)"

definition drive_inw :: "drive port_inw" where
  "drive_inw port d =
     (case fst d of Data l i \<Rightarrow> (sector_word pattern l i, (if Suc i = 256 then Idle else Data l (Suc i), snd d)) | _ \<Rightarrow> (0, d))"

lemma drive_ok: "lba48_drive drive_in drive_out drive_inw 0x1F0 pattern fst snd"
  unfolding lba48_drive_def
  by (auto simp: drive_in_def drive_out_def drive_inw_def ata_regs status_fits_def split: phase.splits)

definition no_request :: ata_request where
  "no_request = \<lparr>blk_num = 0, req_buffer = NULL, req_done = 0, req_next = NULL\<rparr>"

definition disk_example :: ata_sys where
  "disk_example = kernel_st.extend (kernel_example\<lparr>mm := storage_heap\<rparr>)
     (ata_sys.fields (\<lambda>_. no_request) (\<lambda>_. \<lparr>ata_base = 0x1F0, ata_master = 0, slave = 0, ata_irq = 46, req_head = NULL, req_tail = NULL\<rparr>) (\<lambda>_. []))"

lemma disk_example_fields:
  "reqs disk_example = (\<lambda>_. no_request)" "req_head (atas disk_example a) = NULL" "ata_base (atas disk_example a) = 0x1F0" "mm disk_example = storage_heap"
  "curr_proc disk_example = 0x1000" "multitask_started disk_example" "main_thread disk_example = 0x100"
  by (simp_all add: disk_example_def kernel_st.defs ata_sys.defs kernel_example_def)

abbreviation (input) disk_stack :: "(ptr \<times> nat) set" where
  "disk_stack \<equiv> {(0x8000, 0x2000)}"

lemma disk_example_inv: "disk_inv a pattern 0x1F0 fst disk_stack (disk_example, (Idle, g), {})"
proof (rule disk_invI [where L = disk_stack])
  show "heap_live (mm disk_example) disk_stack" using storage_heap_ok [of disk_stack] by (auto simp: disk_example_fields heap_live_def)
  show "queue_inv a pattern (fst (Idle, g)) {} [] disk_example" by (rule queue_invI) (simp_all add: disk_example_fields)
qed (simp_all add: disk_example_fields)

lemma disk_example_ok: "threads_ok disk_example [0x2000, 0x1000] example_waits example_queues"
proof -
  have "get_queue q disk_example = get_queue q kernel_example" for q
    by (cases q) (simp_all add: disk_example_def kernel_st.defs)
  then have "same_places kernel_example disk_example"
    using kernel_example_halted storage_heap_fields(5) by (simp add: same_places_def disk_example_fields) (simp add: disk_example_def kernel_st.defs)
  then show ?thesis using threads_ok_same kernel_example_ok by blast
qed

lemma disk_example_room:
  "room sizeof_ata_request (mm disk_example)" "on_stack disk_stack 0x9000"
  by (simp_all add: disk_example_fields room_def storage_heap_fields sizeof_ata_request_def on_stack_def in_body_def frame_flags_def)

lemma disk_example_malloc: "\<exists>p m. kmalloc sizeof_ata_request (mm disk_example) = (p, m) \<and> p \<noteq> NULL \<and> \<not> halted m"
proof -
  have "stocked ((\<lambda>_. 0)(1 := 1)) storage_heap disk_stack"
    using storage_heap_ok [of disk_stack] unfolding stocked_def
    by (auto simp: storage_heap_fields storage_free_def intro!: exI [of _ storage_free])
  from kmalloc_stocked [OF this pool_for_sizes(2)] show ?thesis
    by (auto simp: disk_example_fields sizeof_ata_request_def NUM_POOLS_def stocked_def)
qed

text \<open>The running thread reads sector 7: it sleeps, the drive finds the sector and interrupts, and the thread goes on.\<close>

theorem disk_read_correct_witness:
  "\<exists>req k1 d1 k2 d2 k3 d3. ata_read_block drive_in drive_out 0x600 7 0x700 0x9000 (disk_example, Idle, \<lambda>_. (0, 0)) = Some (Inr req, k1, d1) \<and>
     (disk_step drive_in drive_out drive_inw 0x600 fst disk_stack)\<^sup>*\<^sup>* (k1, d1, {req}) (k2, d2, {req}) \<and>
     ata_wait drive_in drive_out 0x600 req 0x9000 (k2, d2) = Some (Inl 0, k3, d3) \<and> dests k3 0x700 = sector pattern 7"
proof -
  let ?g = "\<lambda>_. (0, 0) :: u8 \<times> u8" and ?step = "disk_step drive_in drive_out drive_inw 0x600 fst disk_stack"
  have dr: "lba48_drive drive_in drive_out drive_inw (ata_base (atas disk_example 0x600)) pattern fst snd"
    using drive_ok by (simp add: disk_example_fields)
  obtain p m where m: "kmalloc sizeof_ata_request (mm disk_example) = (p, m)" "p \<noteq> NULL" "\<not> halted m" using disk_example_malloc by blast
  obtain k1 d1 r' where k1: "ata_read_block drive_in drive_out 0x600 7 0x700 0x9000 (disk_example, Idle, ?g) = Some (Inr p, k1, d1)"
    "fst d1 = Busy 7" "req_head (atas k1 0x600) = p" "reqs k1 p = \<lparr>blk_num = 7, req_buffer = 0x700, req_done = 0, req_next = NULL\<rparr>"
    "threads_ok k1 r' (example_waits(Q_dev p := [0x1000])) (insert (Q_dev p) example_queues)"
    using submit_idle [OF dr _ _ m disk_example_ok, of "(Idle, ?g)" 7 "0x700" "0x9000"] by (auto simp: disk_example_fields)
  note i0 = disk_example_inv [of "0x600" ?g] and so = disk_example_room
  have i1: "disk_inv 0x600 pattern 0x1F0 fst disk_stack (k1, d1, {p})" using submit_inv(1) [OF drive_ok i0 so _ _ k1(1)] by simp
  then have "ata_base (atas k1 0x600) = 0x1F0" by (rule disk_invE)
  then have dr1: "lba48_drive drive_in drive_out drive_inw (ata_base (atas k1 0x600)) pattern fst snd" using drive_ok by simp
  let ?d = "(Data 7 0, snd d1)"
  obtain k2 d2 where k2: "ISR_ata_handler drive_in drive_inw 0x600 (k1, ?d) = Some (k2, d2)" "req_done (reqs k2 p) = 1" "\<not> halted (mm k2)"
    using interrupt_served [OF dr1 _ k1(3) m(2) _ k1(5), of ?d 7] k1(4) by auto
  have s1: "?step (k1, d1, {p}) (k1, ?d, {p})" by (rule disk_step.seek) (simp_all add: k1(2))
  have s2: "?step (k1, ?d, {p}) (k2, d2, {p})" by (rule disk_step.interrupt) (rule k2(1))
  have i2: "disk_inv 0x600 pattern 0x1F0 fst disk_stack (k2, d2, {p})"
    by (rule disk_step_inv [OF drive_ok s2 disk_step_inv [OF drive_ok s1 i1]])
  obtain k3 d3 where k3: "ata_wait drive_in drive_out 0x600 p 0x9000 (k2, d2) = Some (Inl 0, k3, d3)"
    using done_returns [OF drive_ok i2 _ k2(2,3)] by blast
  have run: "(\<lambda>c c'. ?step c c' \<and> p \<in> snd (snd c'))\<^sup>*\<^sup>* (k1, d1, insert p {}) (k2, d2, {p})"
    by (rule converse_rtranclp_into_rtranclp [OF _ r_into_rtranclp]) (use s1 s2 in auto)
  have "dests k3 0x700 = sector pattern 7"
    using disk_read_correct [OF drive_ok i0 so _ _ k1(1) run so(2) k3] by simp
  moreover have "?step\<^sup>*\<^sup>* (k1, d1, {p}) (k2, d2, {p})" using s1 s2 by (meson converse_rtranclp_into_rtranclp r_into_rtranclp)
  ultimately show ?thesis using k1(1) k3 by blast
qed


end
