(* ===== verification/Elf64.thy ===== *)
theory Elf64
  imports File_System User_Memory Process_Syscalls
begin

text \<open>
  The program loader (\<open>elf64.c\<close>): a program file is found in a directory, its header and program
  headers are read, every loadable segment is copied page by page through a bounce buffer into a new
  address space, and the rest of the segment is cleared. File system and address spaces are those of
  the other theories; the functions of inodes and files are those of ext2, the only driver there is.
\<close>

section \<open>Headers\<close>

record ELF_common_head =
  magic :: "u8 list"
  bitsize :: u8
  endian :: u8
  version :: u8
  abi :: u8
  padding :: u64
  exe_type :: u16
  isa :: u16
  elf_version :: u32

record ELF64_head =
  common :: ELF_common_head
  prog_entry_pos :: u64
  prog_table_pos :: u64
  sec_table_pos :: u64
  head_flags :: u32
  hdr_size :: u16
  prog_ent_size :: u16
  prog_ent_num :: u16
  sec_ent_size :: u16
  sec_ent_num :: u16
  sec_name_idx :: u16

record ELF64_prog_head =
  ph_type :: u32
  ph_flags :: u32
  file_offset :: u64
  load_addr :: u64
  undefined_addr :: u64
  file_size :: u64
  mem_size :: u64
  alignment :: u64

definition sizeof_ELF64_head :: nat where "sizeof_ELF64_head = 64"
definition sizeof_ELF64_prog_head :: nat where "sizeof_ELF64_prog_head = 56"

text \<open>The packed structures at the start of a buffer.\<close>

definition common_head :: "u8 list \<Rightarrow> ELF_common_head option" where
  "common_head bs = do {
     ma \<leftarrow> slice bs 0 4;
     bi \<leftarrow> byte bs 4;
     en \<leftarrow> byte bs 5;
     ve \<leftarrow> byte bs 6;
     ab \<leftarrow> byte bs 7;
     pa \<leftarrow> le64 bs 8;
     ty \<leftarrow> le16 bs 16;
     is \<leftarrow> le16 bs 18;
     ev \<leftarrow> le32 bs 20;
     Some \<lparr>magic = ma, bitsize = bi, endian = en, version = ve, abi = ab, padding = pa, exe_type = ty, isa = is, elf_version = ev\<rparr>
   }"

definition elf_head :: "u8 list \<Rightarrow> ELF64_head option" where
  "elf_head bs = do {
     c \<leftarrow> common_head bs;
     en \<leftarrow> le64 bs 24;
     pt \<leftarrow> le64 bs 32;
     st \<leftarrow> le64 bs 40;
     fl \<leftarrow> le32 bs 48;
     hs \<leftarrow> le16 bs 52;
     ps \<leftarrow> le16 bs 54;
     pn \<leftarrow> le16 bs 56;
     ss \<leftarrow> le16 bs 58;
     sn \<leftarrow> le16 bs 60;
     si \<leftarrow> le16 bs 62;
     Some \<lparr>common = c, prog_entry_pos = en, prog_table_pos = pt, sec_table_pos = st, head_flags = fl, hdr_size = hs,
           prog_ent_size = ps, prog_ent_num = pn, sec_ent_size = ss, sec_ent_num = sn, sec_name_idx = si\<rparr>
   }"

definition prog_head :: "u8 list \<Rightarrow> ELF64_prog_head option" where
  "prog_head bs = do {
     ty \<leftarrow> le32 bs 0;
     fl \<leftarrow> le32 bs 4;
     off \<leftarrow> le64 bs 8;
     la \<leftarrow> le64 bs 16;
     un \<leftarrow> le64 bs 24;
     fs \<leftarrow> le64 bs 32;
     ms \<leftarrow> le64 bs 40;
     al \<leftarrow> le64 bs 48;
     Some \<lparr>ph_type = ty, ph_flags = fl, file_offset = off, load_addr = la, undefined_addr = un, file_size = fs, mem_size = ms, alignment = al\<rparr>
   }"

section \<open>Opening the program\<close>

text \<open>The C string at the start of a buffer, which is what \<open>strcmp\<close> compares.\<close>

definition c_string :: "u8 list \<Rightarrow> u8 list" where
  "c_string bs = takeWhile (\<lambda>b. b \<noteq> 0) bs"

definition find_file_cb :: "u8 list \<Rightarrow> vnode option readdir_cb" where
  "find_file_cb target name inode result s =
     (if c_string name = c_string target then Some (1, Some inode, s) else Some (0, result, s))"

definition elf_open_file :: "ext2_driver \<Rightarrow> vnode \<Rightarrow> u8 list \<Rightarrow> kmem_st \<Rightarrow> (file_st option \<times> kmem_st) option" where
  "elf_open_file drv root filename s = do {
     (_, result, s) \<leftarrow> ext2_readdir (find_file_cb filename) drv root None s;
     (case result of
        None \<Rightarrow> Some (None, s)
      | Some inode \<Rightarrow> Some (ext2_open inode s))
   }"

text \<open>The header is \<open>None\<close> when it could not be read.\<close>

definition elf_read_header :: "ext2_driver \<Rightarrow> file_st \<Rightarrow> kmem_st \<Rightarrow> (int \<times> ELF64_head option \<times> file_st \<times> kmem_st) option" where
  "elf_read_header drv f s = do {
     (n, bs, fo, s) \<leftarrow> ext2_file_read drv (Some f) (int sizeof_ELF64_head) s;
     f \<leftarrow> fo;
     if n \<noteq> int sizeof_ELF64_head then Some (-1, None, f, s)
     else do {
       header \<leftarrow> elf_head bs;
       if magic (common header) ! 0 \<noteq> 0x7F \<or> magic (common header) ! 1 \<noteq> 0x45 \<or> magic (common header) ! 2 \<noteq> 0x4C \<or> magic (common header) ! 3 \<noteq> 0x46
       then Some (-1, Some header, f, s)
       else Some (0, Some header, f, s)
     }
   }"

section \<open>Loading\<close>

text \<open>The position a 64 bit file offset becomes as an argument of \<open>lseek\<close>, an \<open>int\<close>.\<close>

definition elf_seek :: "file_st \<Rightarrow> u64 \<Rightarrow> file_st option" where
  "elf_seek f pos = do {
     (_, f) \<leftarrow> ext2_file_lseek f (sint (ucast pos :: u32));
     Some f
   }"

text \<open>The copy loop. The result of a failure is the state after the bounce buffer has been released.\<close>

partial_function (option) copy_segment ::
    "ext2_driver \<Rightarrow> u64 \<Rightarrow> ptr \<Rightarrow> u64 \<Rightarrow> u64 \<Rightarrow> file_st \<Rightarrow> kmem_st \<Rightarrow> (int \<times> file_st \<times> kmem_st) option" where
  "copy_segment drv p4 bounce remaining dst f s =
     (if \<not> remaining > 0 then Some (0, f, s)
      else do {
        let chunk = (if remaining > PAGE_SIZE then PAGE_SIZE else remaining);
        (n, bs, fo, s) \<leftarrow> ext2_file_read drv (Some f) (uint chunk) s;
        f \<leftarrow> fo;
        if n \<noteq> uint chunk then Some (-1, f, kfree bounce s)
        else let (r, s) = MMU_copy_to_user_as p4 dst bounce (\<lambda>i. bs ! unat i) chunk s
             in if r < 0 then Some (-1, f, kfree bounce s)
                else copy_segment drv p4 bounce (remaining - chunk) (dst + chunk) f s
      })"

definition elf_load_segment :: "ext2_driver \<Rightarrow> file_st \<Rightarrow> ELF64_prog_head \<Rightarrow> u64 \<Rightarrow> kmem_st \<Rightarrow> (int \<times> file_st \<times> kmem_st) option" where
  "elf_load_segment drv f ph p4 s =
     (let (va, s) = MMU_alloc_at_as p4 (load_addr ph) (mem_size ph) s
      in if va = NULL then Some (-1, f, s)
         else do {
           f \<leftarrow> elf_seek f (file_offset ph);
           let (bounce, s) = (if file_size ph > 0 then kmalloc PAGE_SIZE s else (NULL, s));
           if file_size ph > 0 \<and> bounce = NULL then Some (-1, f, s)
           else do {
             (r, f, s) \<leftarrow> copy_segment drv p4 bounce (file_size ph) (load_addr ph) f s;
             if r < 0 then Some (-1, f, s)
             else let (r, s) = (if mem_size ph > file_size ph
                                then MMU_zero_user_as p4 (load_addr ph + file_size ph) (mem_size ph - file_size ph) s else (0, s))
                  in if r < 0 then Some (-1, f, kfree bounce s) else Some (0, f, kfree bounce s)
           }
         })"

text \<open>The remaining program headers, from the position of the next one.\<close>

primrec load_segments_from :: "ext2_driver \<Rightarrow> ELF64_head \<Rightarrow> u64 \<Rightarrow> nat \<Rightarrow> u64 \<Rightarrow> file_st \<Rightarrow> kmem_st \<Rightarrow> (int \<times> file_st \<times> kmem_st) option" where
  "load_segments_from drv header p4 0 current_ph_pos f s = Some (0, f, s)"
| "load_segments_from drv header p4 (Suc n) current_ph_pos f s = do {
     f \<leftarrow> elf_seek f current_ph_pos;
     (m, bs, fo, s) \<leftarrow> ext2_file_read drv (Some f) (int sizeof_ELF64_prog_head) s;
     f \<leftarrow> fo;
     if m \<noteq> int sizeof_ELF64_prog_head then Some (-1, f, s)
     else do {
       ph \<leftarrow> prog_head bs;
       (r, f, s) \<leftarrow> (if ph_type ph = 1 then elf_load_segment drv f ph p4 s else Some (0, f, s));
       if r < 0 then Some (-1, f, s)
       else load_segments_from drv header p4 n (current_ph_pos + ucast (prog_ent_size header)) f s
     }
   }"

definition elf_load_segments :: "ext2_driver \<Rightarrow> file_st \<Rightarrow> ELF64_head \<Rightarrow> u64 \<Rightarrow> kmem_st \<Rightarrow> (int \<times> file_st \<times> kmem_st) option" where
  "elf_load_segments drv f header p4 s =
     load_segments_from drv header p4 (unat (prog_ent_num header)) (prog_table_pos header) f s"

definition elf_alloc_user_stack :: "elf_image \<Rightarrow> u64 \<Rightarrow> kmem_st \<Rightarrow> int \<times> elf_image \<times> kmem_st" where
  "elf_alloc_user_stack img p4 s =
     (let (ustack, s) = MMU_alloc_at_as p4 VA_USTACK_BASE DEFAULT_STACK_BYTES s
      in if ustack = NULL then (-1, img, s)
         else let usp = (ustack + DEFAULT_STACK_BYTES) AND NOT 15
              in (0, img\<lparr>ustack_base := ustack, ustack_top := usp\<rparr>, s))"

definition no_image :: elf_image where
  "no_image = \<lparr>img_cr3 = 0, img_entry = 0, ustack_base = 0, ustack_top = 0\<rparr>"

text \<open>
  \<open>elf_load_program\<close>, and its part behind the opening of the file. The two exits release what has been acquired: \<open>out_destroy\<close> the
  address space, \<open>out_close\<close> the file. A stopped processor is \<open>None\<close>.
\<close>

definition out_close :: "int \<Rightarrow> elf_image \<Rightarrow> file_st \<Rightarrow> kmem_st \<Rightarrow> (int \<times> elf_image \<times> kmem_st) option" where
  "out_close ret img f s = (if halted s then None else Some (ret, img, snd (ext2_file_close (Some f) s)))"

definition out_destroy :: "u64 \<Rightarrow> elf_image \<Rightarrow> file_st \<Rightarrow> kmem_st \<Rightarrow> (int \<times> elf_image \<times> kmem_st) option" where
  "out_destroy user_cr3 img f s = out_close (-1) img f (MMU_destroy_userspace user_cr3 s)"

definition elf_load_opened :: "ext2_driver \<Rightarrow> file_st \<Rightarrow> elf_image \<Rightarrow> kmem_st \<Rightarrow> (int \<times> elf_image \<times> kmem_st) option" where
  "elf_load_opened drv f img s = do {
     (r, header, f, s) \<leftarrow> elf_read_header drv f s;
     if r < 0 then out_close (-1) img f s
     else do {
       header \<leftarrow> header;
       let (user_cr3, s) = MMU_create_user_p4 s;
       if user_cr3 = 0 then out_close (-1) img f s
       else do {
         (r, f, s) \<leftarrow> elf_load_segments drv f header user_cr3 s;
         if r < 0 then out_destroy user_cr3 img f s
         else let (r, img, s) = elf_alloc_user_stack img user_cr3 s
              in if r < 0 then out_destroy user_cr3 img f s
                 else out_close 0 (img\<lparr>img_cr3 := user_cr3, img_entry := prog_entry_pos header\<rparr>) f s
       }
     }
   }"

definition elf_load_program :: "ext2_driver \<Rightarrow> vnode option \<Rightarrow> u8 list \<Rightarrow> elf_image \<Rightarrow> kmem_st \<Rightarrow> (int \<times> elf_image \<times> kmem_st) option" where
  "elf_load_program drv root filename img s =
     (case root of
        None \<Rightarrow> Some (-1, img, s)
      | Some root \<Rightarrow> do {
          let img = no_image;
          (fo, s) \<leftarrow> elf_open_file drv root filename s;
          (case fo of
             None \<Rightarrow> Some (-1, img, s)
           | Some f \<Rightarrow> elf_load_opened drv f img s)
        })"

text \<open>
  The loader as the kernel calls it, with the inodes by address; and the start of a program from a
  directory, used for the first process.
\<close>

definition kernel_loader ::
    "ext2_driver \<Rightarrow> (ptr \<Rightarrow> vnode option) \<Rightarrow> ptr \<Rightarrow> u8 list \<Rightarrow> 'a kernel_st_scheme \<Rightarrow> (int \<times> elf_image \<times> 'a kernel_st_scheme) option" where
  "kernel_loader drv inodes root filename k = do {
     (r, img, m) \<leftarrow> elf_load_program drv (inodes root) filename no_image (mm k);
     if halted m then None else Some (r, img, k\<lparr>mm := m\<rparr>)
   }"

definition elf_load :: "ext2_driver \<Rightarrow> (ptr \<Rightarrow> vnode option) \<Rightarrow> ptr \<Rightarrow> u8 list \<Rightarrow> 'a kernel_st_scheme \<Rightarrow> 'a kernel_st_scheme option" where
  "elf_load drv inodes root filename k = do {
     (r, img, k) \<leftarrow> kernel_loader drv inodes root filename k;
     if r < 0 then Some k
     else do {
       (r, k) \<leftarrow> PROC_create_uthread (img_entry img) NULL (img_cr3 img) (ustack_base img) k;
       if r < 0 then run_mm (MMU_destroy_userspace (img_cr3 img)) k else Some k
     }
   }"

end
