(* ===== verification/Program_Loading.thy ===== *)
theory Program_Loading
  imports Elf64
begin

text \<open>
  What the loader makes of a file: it accepts exactly the files that start with a header, and a
  segment it has loaded has the bytes of the file followed by zeros as the content of its addresses
  in the new address space, and nothing else has changed there or in any other address space.
\<close>

section \<open>The file system does not touch address spaces\<close>

text \<open>The state of virtual memory, without the heap and the interrupt flag.\<close>

definition vm_of :: "kmem_st \<Rightarrow> vm_st" where
  "vm_of s = vm_st.truncate (s\<lparr>IF_flag := False\<rparr>)"

lemma vm_of_irq [simp]: "vm_of (CLI s) = vm_of s" "vm_of (STI s) = vm_of s" "vm_of (irq_restore b s) = vm_of s"
  by (simp_all add: vm_of_def CLI_def STI_def irq_restore_def vm_st.defs)

lemma vm_of_eq:
  assumes "vm_of s' = vm_of s"
  shows "mem s' = mem s" "CR3 s' = CR3 s" "kernel_va s' = kernel_va s" "halted s' = halted s" "vm_inv s' lvl F = vm_inv s lvl F"
  using assms by (simp_all add: vm_of_def vm_st.defs vm_inv_def avail_def pf_inv_def)

lemma kmalloc_vm_of:
  assumes "stocked c s L" "pool_for sz = Some i" "i < NUM_POOLS" "0 < c i"
  shows "vm_of (snd (kmalloc sz s)) = vm_of s"
proof (cases "sz = 0")
  case False
  obtain Fs where h: "heap_ok s Fs L" "c i \<le> length (Fs i)" using assms(1,3) by (auto simp: stocked_def)
  have av: "avail_blocks (pools (CLI s) ! i) \<noteq> 0" using h assms(3,4) by (auto simp: heap_ok_def CLI_def)
  have "best_pool (CLI s) (sz + sizeof_kmalloc_extra) = Some i" using best_pool_for [OF h(1)] assms(2) by simp
  then have "snd (kmalloc sz s) = irq_restore (are_interrupts_enabled s) (take_block i (pool_head (pools (CLI s) ! i)) sz (CLI s))"
    using False av by (simp add: kmalloc_def Let_def kmalloc_finish_def take_block_def pool_ptr_def sizeof_kmalloc_extra_def)
  moreover have "vm_of (take_block i a sz (CLI s)) = vm_of s" for a
    by (simp add: take_block_def vm_of_def CLI_def vm_st.defs)
  ultimately show ?thesis by simp
qed (simp add: kmalloc_def)

lemma kfree_vm_of:
  assumes "stocked c s L" "of_pool i p s" "i < NUM_POOLS"
  shows "vm_of (kfree p s) = vm_of s"
proof (cases "p = NULL")
  case False
  obtain Fs where "heap_lists s Fs L (unat (kernel_va s))" using assms(1) by (auto simp: stocked_def heap_ok_def)
  then have "pool_ptr s i \<noteq> NULL" using pool_index_ptr assms(3) by blast
  then have "kheap (CLI s) (p - sizeof_kmalloc_extra) \<noteq> NULL" using assms(2) by (simp add: of_pool_def CLI_def sizeof_kmalloc_extra_def)
  then show ?thesis
    using False by (simp add: kfree_def Let_def) (simp add: add_avail_def push_block_def vm_of_def CLI_def vm_st.defs)
qed (simp add: kfree_def)

text \<open>The disk again, with virtual memory as it is.\<close>

lemma transfer_vm_of: "buffers_in L ps d s \<Longrightarrow> ata_transfer img n s = Some (r, bs, s') \<Longrightarrow> vm_of s' = vm_of s"
proof -
  assume "buffers_in L ps d s" and t: "ata_transfer img n s = Some (r, bs, s')"
  then have st: "stocked ((\<lambda>_. 0)(5 := d, 1 := 1)) s (L \<union> buffer_blocks ps)" by (simp add: buffers_in_def)
  from kmalloc_stocked [OF st pool_for_sizes(2)] obtain p s1 c where
    k: "kmalloc 48 s = (p, s1)" "p \<noteq> NULL" "of_pool 1 p s1" "stocked c s1 (insert (p - 16, Kmalloc.block_size 1) (L \<union> buffer_blocks ps))"
    by (auto simp: NUM_POOLS_def)
  have "vm_of s1 = vm_of s" using kmalloc_vm_of [OF st pool_for_sizes(2)] k(1) by (simp add: NUM_POOLS_def)
  moreover have "of_pool 1 p (STI s1)" using k(3) by (simp add: of_pool_def STI_def pool_ptr_def)
  then have "vm_of (kfree p (STI s1)) = vm_of s1" using kfree_vm_of [of c "STI s1"] k(4) by (simp add: NUM_POOLS_def)
  ultimately show "vm_of s' = vm_of s" using t k(1,2) by (simp add: ata_transfer_def sizeof_ata_request_def)
qed

text \<open>The buffers are ready, the live blocks \<open>L\<close> are as in \<open>s0\<close>, and so is virtual memory.\<close>

definition kept :: "(ptr \<times> nat) set \<Rightarrow> kmem_st \<Rightarrow> ptr set \<Rightarrow> nat \<Rightarrow> kmem_st \<Rightarrow> bool" where
  "kept L s0 ps d s \<longleftrightarrow> buffers_in L ps d s \<and> live_same L s0 s \<and> vm_of s = vm_of s0"

interpretation vd: sector_device "ata_transfer img" "sector img" "kept L s0" for img L s0
proof unfold_locales
  show "\<exists>s'. ata_transfer img n s = Some (0, sector img n, s') \<and> kept L s0 ps d s'" if k: "kept L s0 ps d s" for ps d s n
  proof -
    have b: "buffers_in L ps d s" using k by (simp add: kept_def)
    obtain p s1 where 1: "kmalloc 48 s = (p, s1)" "p \<noteq> NULL" "buffers_in L ps d (kfree p (STI s1))" "live_same L s (kfree p (STI s1))"
      using buffers_in_request [OF b] by blast
    then have t: "ata_transfer img n s = Some (0, sector img n, kfree p (STI s1))" by (simp add: ata_transfer_def sizeof_ata_request_def)
    moreover have "vm_of (kfree p (STI s1)) = vm_of s" by (rule transfer_vm_of [OF b t])
    moreover have "live_same L s0 (kfree p (STI s1))" by (rule live_same_trans [OF _ 1(4)]) (use k in \<open>simp add: kept_def\<close>)
    ultimately show ?thesis using 1(3) k by (simp add: kept_def)
  qed
  show "length (sector img n) = 512" for n by (rule hd.disk_length)
  show "\<exists>p s'. kmalloc 1024 s = (p, s') \<and> p \<noteq> NULL \<and> p \<notin> ps \<and> kept L s0 (insert p ps) d s'" if k: "kept L s0 ps (Suc d) s" for ps d s
  proof -
    have b: "buffers_in L ps (Suc d) s" "live_same L s0 s" using k by (simp_all add: kept_def)
    have st: "stocked ((\<lambda>_. 0)(5 := Suc d, 1 := 1)) s (L \<union> buffer_blocks ps)" using b by (simp add: buffers_in_def)
    from buffers_in_take [OF b(1)] obtain p s1 where "kmalloc 1024 s = (p, s1)" "p \<noteq> NULL" "p \<notin> ps" "buffers_in L (insert p ps) d s1" "live_same L s s1"
      by blast
    then show ?thesis using k kmalloc_vm_of [OF st pool_for_sizes(1)] live_same_trans [OF b(2)] by (auto simp: NUM_POOLS_def kept_def)
  qed
  show "kept L s0 (ps - {p}) (Suc d) (kfree p s)" if k: "kept L s0 ps d s" "p \<in> ps" for ps d s p
  proof -
    have b: "buffers_in L ps d s" "live_same L s0 s" using k(1) by (simp_all add: kept_def)
    have "stocked ((\<lambda>_. 0)(5 := d, 1 := 1)) s (L \<union> buffer_blocks ps)" "of_pool 5 p s" using b(1) k(2) by (simp_all add: buffers_in_def)
    from kfree_vm_of [OF this] show ?thesis
      using buffers_in_give [OF b(1) k(2)] k(1) live_same_trans [OF b(2)] by (simp add: NUM_POOLS_def kept_def)
  qed
qed

interpretation vp: sector_device "partition_read_block (ata_device img n name) lba" "\<lambda>b. sector img (b + ucast lba)" "kept L s0" for img n name lba L s0
  by unfold_locales
    (use vd.partition_rd [of "ata_device img n name"] vd.disk_length vd.buffer_take vd.buffer_give in \<open>auto simp: ata_device_def\<close>)

lemma kept_refl: "buffers_in L ps d s \<Longrightarrow> kept L s ps d s"
  by (simp add: kept_def live_same_def)

lemma file_read_vm:
  assumes "mounted img lba drv" "buffers_in L ps (Suc (Suc d)) s" "f_inode f = Some inode" "100 \<le> length (i_priv inode)"
    "i_size inode \<le> 67383296" "len < 2 ^ 31"
  defines "a \<equiv> unat (f_offset f)"
  defines "n \<equiv> min len (unat (i_size inode) - a)"
  shows "\<exists>s'. ext2_file_read drv (Some f) (int len) s =
      Some (int n, file_bytes (volume img lba) (i_priv inode) a n, Some (f\<lparr>f_offset := of_nat (a + n)\<rparr>), s') \<and>
      kept L s ps (Suc (Suc d)) s'"
  unfolding a_def n_def using assms(1)
  by (rule mountedE) (unfold volume_eq, rule vp.file_read_ready [OF _ kept_refl [OF assms(2)] assms(3-6)])

section \<open>Writing into an address space\<close>

text \<open>Only the addresses from \<open>base + a\<close> up to \<open>base + b\<close> may have got new contents.\<close>

definition untouched :: "levels \<Rightarrow> u64 \<Rightarrow> u64 \<Rightarrow> nat \<Rightarrow> nat \<Rightarrow> phys \<Rightarrow> phys \<Rightarrow> bool" where
  "untouched lvl p4 base a b m m' \<longleftrightarrow>
     (\<forall>cr v. lvl (page_down cr) = Some 3 \<longrightarrow> (\<forall>i. a \<le> i \<longrightarrow> i < b \<longrightarrow> \<not> same_loc p4 (base + of_nat i) cr v) \<longrightarrow>
        content m' cr v = content m cr v)"

text \<open>These addresses have the contents given by \<open>g\<close>.\<close>

definition holds :: "u64 \<Rightarrow> u64 \<Rightarrow> nat \<Rightarrow> nat \<Rightarrow> (nat \<Rightarrow> u8) \<Rightarrow> phys \<Rightarrow> bool" where
  "holds p4 base a b g m \<longleftrightarrow> (\<forall>i. a \<le> i \<longrightarrow> i < b \<longrightarrow> content m p4 (base + of_nat i) = Some (g i))"

lemma untouched_refl: "untouched lvl p4 base a b m m"
  by (simp add: untouched_def)

lemma unat_of_nat64: "n < 2 ^ 48 \<Longrightarrow> unat (of_nat n :: u64) = n"
  by (simp add: unsigned_of_nat take_bit_nat_eq_self)

lemma apart:
  assumes "i < 2 ^ 48" "j < 2 ^ 48" "i \<noteq> j"
  shows "\<not> same_loc p4 (base + of_nat i) cr (base + of_nat j)"
proof
  assume "same_loc p4 (base + of_nat i) cr (base + of_nat j)"
  from same_loc_inj [OF this] have "(of_nat i :: u64) = of_nat j" using assms(1,2) by (simp add: unat_of_nat64)
  then have "unat (of_nat i :: u64) = unat (of_nat j :: u64)" by simp
  then show False using assms by (simp add: unat_of_nat64)
qed

lemma untouched_other:
  assumes "untouched lvl p4 base a b m m'" "lvl (page_down p4) = Some 3" "b \<le> 2 ^ 48" "j < 2 ^ 48" "j < a \<or> b \<le> j"
  shows "content m' p4 (base + of_nat j) = content m p4 (base + of_nat j)"
proof -
  have "\<not> same_loc p4 (base + of_nat i) p4 (base + of_nat j)" if "a \<le> i" "i < b" for i
    using apart [of i j] that assms(3-5) by auto
  then show ?thesis using assms(1,2) by (simp add: untouched_def)
qed

lemma untouched_join:
  assumes "untouched lvl p4 base a b m m1" "untouched lvl p4 base b c m1 m2" "a \<le> b" "b \<le> c"
  shows "untouched lvl p4 base a c m m2"
  unfolding untouched_def
proof (intro allI impI)
  fix cr v assume a: "lvl (page_down cr) = Some 3" "\<forall>i. a \<le> i \<longrightarrow> i < c \<longrightarrow> \<not> same_loc p4 (base + of_nat i) cr v"
  have "content m2 cr v = content m1 cr v" "content m1 cr v = content m cr v"
    using assms a unfolding untouched_def by auto
  then show "content m2 cr v = content m cr v" by simp
qed

lemma holds_join:
  assumes "holds p4 base a b g m1" "holds p4 base b c g m2" "untouched lvl p4 base b c m1 m2" "lvl (page_down p4) = Some 3" "c \<le> 2 ^ 48"
  shows "holds p4 base a c g m2"
  unfolding holds_def
proof (intro allI impI)
  fix i assume i: "a \<le> i" "i < c"
  show "content m2 p4 (base + of_nat i) = Some (g i)"
  proof (cases "i < b")
    case True
    then have "content m2 p4 (base + of_nat i) = content m1 p4 (base + of_nat i)" using untouched_other [OF assms(3-5)] i assms(5) by simp
    then show ?thesis using assms(1) i True by (simp add: holds_def)
  next
    case False
    then show ?thesis using assms(2) i by (simp add: holds_def)
  qed
qed

lemma holds_cong: "(\<And>i. a \<le> i \<Longrightarrow> i < b \<Longrightarrow> g i = h i) \<Longrightarrow> holds p4 base a b g m = holds p4 base a b h m"
  by (auto simp: holds_def)

text \<open>The loop of \<open>write_user_range_as\<close> in these terms.\<close>

definition write_done :: "levels \<Rightarrow> u64 \<Rightarrow> u64 \<Rightarrow> nat \<Rightarrow> nat \<Rightarrow> (nat \<Rightarrow> u8) \<Rightarrow> int \<Rightarrow> u64 set \<Rightarrow> phys \<Rightarrow> phys \<Rightarrow> bool" where
  "write_done lvl p4 base a b g r F m m' \<longleftrightarrow> untouched lvl p4 base a b m m' \<and>
     (if r = 0 then holds p4 base a b g m'
      else r = -1 \<and> (F = {} \<or> (\<exists>i. a \<le> i \<and> i < b \<and> content m p4 (base + of_nat i) = None)))"

lemma done_join:
  assumes "untouched lvl p4 base a b m m1" "holds p4 base a b g m1" "write_done lvl p4 base b c h r F m1 m2" "lvl (page_down p4) = Some 3"
    "a \<le> b" "b \<le> c" "c \<le> 2 ^ 48" "\<And>i. b \<le> i \<Longrightarrow> i < c \<Longrightarrow> h i = g i"
  shows "write_done lvl p4 base a c g r F m m2"
proof -
  have u: "untouched lvl p4 base b c m1 m2" using assms(3) by (simp add: write_done_def)
  have "holds p4 base a c g m2" if "r = 0"
    using holds_join [OF assms(2) _ u assms(4,7)] holds_cong [of b c h g] assms(3,8) that by (simp add: write_done_def)
  moreover have "content m1 p4 (base + of_nat i) = content m p4 (base + of_nat i)" if "b \<le> i" "i < c" for i
    by (rule untouched_other [OF assms(1,4)]) (use that assms(6,7) in simp_all)
  then have "r = -1 \<and> (F = {} \<or> (\<exists>i. a \<le> i \<and> i < c \<and> content m p4 (base + of_nat i) = None))" if "r \<noteq> 0"
    using assms(3,5) that unfolding write_done_def by (metis le_trans)
  ultimately show ?thesis using untouched_join [OF assms(1) u assms(5,6)] by (simp add: write_done_def)
qed

lemma loop_done:
  assumes "vm_inv s lvl F" "lvl (page_down p4) = Some 3" "a + unat len \<le> 2 ^ 48"
    "write_user_loop p4 (base + of_nat a) bytes len zero 0 s = (r, s')"
  shows "\<exists>F'. vm_inv s' lvl F' \<and> F' \<subseteq> F \<and> same_rest s s' \<and>
    write_done lvl p4 base a (a + unat len) (\<lambda>i. if zero then 0 else bytes (of_nat (i - a))) r F' (mem s) (mem s')"
proof -
  let ?dst = "base + of_nat a"
  have le: "unat len \<le> 2 ^ 48" using assms(3) by simp
  from write_user_loop_correct [OF assms(1,2) le assms(4)] obtain F' where
    w: "vm_inv s' lvl F'" "F' \<subseteq> F" "same_rest s s'" "outside_kept lvl p4 ?dst 0 len (mem s) (mem s')"
      "write_result p4 ?dst 0 len (\<lambda>i. if zero then 0 else bytes i) r F' (mem s) (mem s')" by auto
  have ix: "base + of_nat i = ?dst + of_nat (i - a)" "(of_nat (i - a) :: u64) < len" if "a \<le> i" "i < a + unat len" for i
  proof -
    show "base + of_nat i = ?dst + of_nat (i - a)" using that by simp
    have "unat (of_nat (i - a) :: u64) = i - a" by (rule unat_of_nat64) (use that assms(3) in simp)
    then show "(of_nat (i - a) :: u64) < len" unfolding unat_less_iff using that by linarith
  qed
  have xi: "?dst + i = base + of_nat (a + unat i)" "a + unat i < a + unat len" if "i < len" for i
    using that by (simp_all add: unat_less_iff)
  have "holds p4 base a (a + unat len) (\<lambda>i. if zero then 0 else bytes (of_nat (i - a))) (mem s')" if "r = 0"
    unfolding holds_def
  proof (intro allI impI)
    show "content (mem s') p4 (base + of_nat i) = Some (if zero then 0 else bytes (of_nat (i - a)))" if "a \<le> i" "i < a + unat len" for i
      unfolding ix(1) [OF that] using w(5) \<open>r = 0\<close> ix(2) [OF that] by (simp only: write_result_def if_True) simp
  qed
  moreover have "untouched lvl p4 base a (a + unat len) (mem s) (mem s')"
    using w(4) xi unfolding untouched_def outside_kept_def by (metis le_add1)
  moreover have "r = -1 \<and> (F' = {} \<or> (\<exists>i. a \<le> i \<and> i < a + unat len \<and> content (mem s) p4 (base + of_nat i) = None))" if "r \<noteq> 0"
    using w(5) that xi unfolding write_result_def by (metis (no_types, lifting) le_add1)
  ultimately have "write_done lvl p4 base a (a + unat len) (\<lambda>i. if zero then 0 else bytes (of_nat (i - a))) r F' (mem s) (mem s')"
    by (simp add: write_done_def)
  then show ?thesis using w(1-3) by blast
qed

lemma copy_done:
  assumes "vm_inv s lvl F" "lvl (page_down p4) = Some 3" "a + unat len \<le> 2 ^ 48" "src \<noteq> NULL"
    "MMU_copy_to_user_as p4 (base + of_nat a) src bytes len s = (r, s')"
  shows "\<exists>F'. vm_inv s' lvl F' \<and> F' \<subseteq> F \<and> same_rest s s' \<and>
    write_done lvl p4 base a (a + unat len) (\<lambda>i. bytes (of_nat (i - a))) r F' (mem s) (mem s')"
proof -
  obtain s1 where s1: "write_user_loop p4 (base + of_nat a) bytes len False 0 (CLI s) = (r, s1)" "s' = irq_restore (are_interrupts_enabled s) s1"
    using assms(4,5) by (auto simp: MMU_copy_to_user_as_def write_user_range_as_def split: prod.splits)
  have "vm_inv (CLI s) lvl F" using assms(1) by simp
  from loop_done [OF this assms(2,3) s1(1)] show ?thesis using same_rest_irq s1(2) by auto
qed

lemma zero_done:
  assumes "vm_inv s lvl F" "lvl (page_down p4) = Some 3" "a + unat len \<le> 2 ^ 48"
    "MMU_zero_user_as p4 (base + of_nat a) len s = (r, s')"
  shows "\<exists>F'. vm_inv s' lvl F' \<and> F' \<subseteq> F \<and> same_rest s s' \<and>
    write_done lvl p4 base a (a + unat len) (\<lambda>_. 0) r F' (mem s) (mem s')"
proof -
  obtain s1 where s1: "write_user_loop p4 (base + of_nat a) (\<lambda>_. 0) len True 0 (CLI s) = (r, s1)" "s' = irq_restore (are_interrupts_enabled s) s1"
    using assms(4) by (auto simp: MMU_zero_user_as_def write_user_range_as_def split: prod.splits)
  have "vm_inv (CLI s) lvl F" using assms(1) by simp
  from loop_done [OF this assms(2,3) s1(1)] show ?thesis using same_rest_irq s1(2) by auto
qed

lemma buffers_same_rest:
  assumes "same_rest s s'" "buffers_in L ps d s"
  shows "buffers_in L ps d s'" "live_same L s s'"
proof -
  note r = same_restD [OF assms(1)]
  have f: "pools s' = pools s" "kheap s' = kheap s" "pools_at s' = pools_at s" using r(6) by (cases s; cases s'; simp)+
  have "stocked c s' L = stocked c s L" for c L
    by (simp add: stocked_def heap_ok_def heap_lists_def header_ok_def pool_ptr_def f r(2,3))
  moreover have "of_pool i p s' = of_pool i p s" for i p by (simp add: of_pool_def pool_ptr_def f)
  ultimately show "buffers_in L ps d s'" using assms(2) by (simp add: buffers_in_def)
  show "live_same L s s'" by (simp add: live_same_def f)
qed

section \<open>Copying a segment\<close>

lemma file_bytes_nth: "i < n \<Longrightarrow> file_bytes V raw a n ! i = file_byte V raw (a + i)"
  by (simp add: file_bytes_def)

text \<open>The same open file, perhaps at another offset.\<close>

definition same_file :: "file_st \<Rightarrow> file_st \<Rightarrow> bool" where
  "same_file f f' \<longleftrightarrow> f_inode f' = f_inode f \<and> f_at f' = f_at f"

lemma same_fileD: "same_file f f' \<Longrightarrow> f_inode f' = f_inode f"
  by (simp add: same_file_def)

text \<open>One round of the loop that reads a piece of the file and copies it.\<close>

lemma copy_round:
  assumes "mounted img lba drv" "buffers_in L ps (Suc (Suc d)) s" "f_inode f = Some inode" "100 \<le> length (i_priv inode)" "i_size inode \<le> 67383296"
    "vm_inv s lvl F" "lvl (page_down p4) = Some 3" "bounce \<noteq> NULL" "n \<noteq> 0"
    "unat (f_offset f) + unat n \<le> unat (i_size inode)" "a + unat n \<le> 2 ^ 48"
  defines "off \<equiv> unat (f_offset f)" and "c \<equiv> (if n > PAGE_SIZE then PAGE_SIZE else n)" and "g \<equiv> \<lambda>i. file_byte (volume img lba) (i_priv inode) (unat (f_offset f) + (i - a))"
  shows "\<exists>r s' F' f'. copy_segment drv p4 bounce n (base + of_nat a) f s =
      (if r < 0 then Some (-1, f', kfree bounce s') else copy_segment drv p4 bounce (n - c) (base + of_nat (a + unat c)) f' s') \<and>
    f' = f\<lparr>f_offset := of_nat (off + unat c)\<rparr> \<and> vm_inv s' lvl F' \<and> F' \<subseteq> F \<and> buffers_in L ps (Suc (Suc d)) s' \<and> live_same L s s' \<and> CR3 s' = CR3 s \<and> kernel_va s' = kernel_va s \<and>
    write_done lvl p4 base a (a + unat c) g r F' (mem s) (mem s')"
proof -
  have c: "unat c \<le> unat n" "0 < unat c" "unat c \<le> 4096"
    using assms(9) by (auto simp: c_def unat_le_iff unat_less_iff unat_gt_0)
  let ?f = "f\<lparr>f_offset := of_nat (off + unat c)\<rparr>" and ?bs = "file_bytes (volume img lba) (i_priv inode) off (unat c)"
  have m: "min (unat c) (unat (i_size inode) - off) = unat c" using c assms(10) by (simp add: off_def)
  obtain s1 where s1: "ext2_file_read drv (Some f) (uint c) s = Some (uint c, ?bs, Some ?f, s1)" "kept L s ps (Suc (Suc d)) s1"
    using file_read_vm [OF assms(1-5), of "unat c"] c(3) m by (auto simp: off_def)
  have k: "buffers_in L ps (Suc (Suc d)) s1" "live_same L s s1" "vm_of s1 = vm_of s" using s1(2) by (simp_all add: kept_def)
  note v = vm_of_eq [OF k(3)]
  obtain r s2 where s2: "MMU_copy_to_user_as p4 (base + of_nat a) bounce (\<lambda>i. ?bs ! unat i) c s1 = (r, s2)" by fastforce
  have i1: "vm_inv s1 lvl F" "a + unat c \<le> 2 ^ 48" using v(5) assms(6,11) c(1) by simp_all
  from copy_done [OF i1(1) assms(7) i1(2) assms(8) s2] obtain F' where F': "vm_inv s2 lvl F'" "F' \<subseteq> F" "same_rest s1 s2"
    "write_done lvl p4 base a (a + unat c) (\<lambda>i. ?bs ! unat (of_nat (i - a) :: u64)) r F' (mem s) (mem s2)" using v(1) by auto
  have "?bs ! unat (of_nat (i - a) :: u64) = g i" if "a \<le> i" "i < a + unat c" for i
  proof -
    have "i - a < 2 ^ 48" "i - a < unat c" using that c(3) by auto
    then show ?thesis by (simp only: unat_of_nat64 file_bytes_nth g_def off_def)
  qed
  then have "holds p4 base a (a + unat c) (\<lambda>i. ?bs ! unat (of_nat (i - a) :: u64)) m = holds p4 base a (a + unat c) g m" for m
    by (rule holds_cong)
  then have w: "write_done lvl p4 base a (a + unat c) g r F' (mem s) (mem s2)" using F'(4) unfolding write_done_def by metis
  have "copy_segment drv p4 bounce n (base + of_nat a) f s =
      (if r < 0 then Some (-1, ?f, kfree bounce s2) else copy_segment drv p4 bounce (n - c) (base + of_nat (a + unat c)) ?f s2)"
    using assms(9) s1(1) s2 by (subst copy_segment.simps) (simp add: c_def [symmetric] Let_def word_gt_0 add.assoc)
  then show ?thesis using F'(1,2) w buffers_same_rest [OF F'(3) k(1)] live_same_trans [OF k(2)] same_restD(3,4) [OF F'(3)] v(2,3) by (intro exI conjI) simp_all
qed

lemma copy_segment_done:
  assumes "mounted img lba drv" "buffers_in L ps (Suc (Suc d)) s" "f_inode f = Some inode" "100 \<le> length (i_priv inode)" "i_size inode \<le> 67383296"
    "vm_inv s lvl F" "lvl (page_down p4) = Some 3" "bounce \<noteq> NULL"
    "unat (f_offset f) + unat n \<le> unat (i_size inode)" "a + unat n \<le> 2 ^ 48"
  shows "\<exists>r s' F' f'. copy_segment drv p4 bounce n (base + of_nat a) f s = Some (r, f', if r = 0 then s' else kfree bounce s') \<and>
    same_file f f' \<and> vm_inv s' lvl F' \<and> F' \<subseteq> F \<and> buffers_in L ps (Suc (Suc d)) s' \<and> live_same L s s' \<and> CR3 s' = CR3 s \<and> kernel_va s' = kernel_va s \<and>
    write_done lvl p4 base a (a + unat n) (\<lambda>i. file_byte (volume img lba) (i_priv inode) (unat (f_offset f) + (i - a))) r F' (mem s) (mem s')"
  using assms(2,3,6,9,10)
proof (induction "unat n" arbitrary: n a f s F rule: less_induct)
  case less
  let ?off = "unat (f_offset f)"
  let ?g = "\<lambda>i. file_byte (volume img lba) (i_priv inode) (?off + (i - a))"
  show ?case
  proof (cases "n = 0")
    case True
    then have "copy_segment drv p4 bounce n (base + of_nat a) f s = Some (0, f, s)" by (subst copy_segment.simps) simp
    then show ?thesis using less.prems True untouched_refl [of lvl p4 base a a] by (intro exI [of _ 0] exI [of _ s] exI [of _ F] exI [of _ f]) (simp add: write_done_def live_same_def holds_def same_file_def)
  next
    case False
    define c where "c = (if n > PAGE_SIZE then PAGE_SIZE else n)"
    have c: "unat c \<le> unat n" "0 < unat c" using False by (auto simp: c_def unat_le_iff unat_less_iff unat_gt_0)
    then have nc: "unat (n - c) = unat n - unat c" by (simp add: unat_sub word_le_nat_alt)
    from copy_round [OF assms(1) less.prems(1,2) assms(4,5) less.prems(3) assms(7,8) False less.prems(4,5), of base, folded c_def]
    obtain r s1 F1 f1 where 1: "copy_segment drv p4 bounce n (base + of_nat a) f s =
      (if r < 0 then Some (-1, f1, kfree bounce s1) else copy_segment drv p4 bounce (n - c) (base + of_nat (a + unat c)) f1 s1)"
      "f1 = f\<lparr>f_offset := of_nat (?off + unat c)\<rparr>" "vm_inv s1 lvl F1" "F1 \<subseteq> F" "buffers_in L ps (Suc (Suc d)) s1" "live_same L s s1" "CR3 s1 = CR3 s" "kernel_va s1 = kernel_va s"
      "write_done lvl p4 base a (a + unat c) ?g r F1 (mem s) (mem s1)" by blast
    show ?thesis
    proof (cases "r = 0")
      case False
      then have "r = -1" "F1 = {} \<or> (\<exists>i. a \<le> i \<and> i < a + unat n \<and> content (mem s) p4 (base + of_nat i) = None)"
        "untouched lvl p4 base a (a + unat n) (mem s) (mem s1)"
        using 1(9) c(1) by (auto simp: write_done_def untouched_def)
      then show ?thesis using 1 less.prems(2) by (intro exI [of _ "-1"] exI [of _ s1] exI [of _ F1] exI [of _ f1]) (simp add: write_done_def same_file_def)
    next
      case True
      have off: "unat (f_offset f1) = ?off + unat c" "f_inode f1 = Some inode"
        using 1(2) less.prems(2,4) c(1) assms(5) by (simp_all add: unat_word_ariths word_le_nat_alt)
      have w1: "untouched lvl p4 base a (a + unat c) (mem s) (mem s1)" "holds p4 base a (a + unat c) ?g (mem s1)"
        using 1(9) True by (simp_all add: write_done_def)
      have "\<exists>r s' F' f'. copy_segment drv p4 bounce (n - c) (base + of_nat (a + unat c)) f1 s1 = Some (r, f', if r = 0 then s' else kfree bounce s') \<and>
        same_file f1 f' \<and> vm_inv s' lvl F' \<and> F' \<subseteq> F1 \<and> buffers_in L ps (Suc (Suc d)) s' \<and> live_same L s1 s' \<and> CR3 s' = CR3 s1 \<and> kernel_va s' = kernel_va s1 \<and>
        write_done lvl p4 base (a + unat c) (a + unat c + unat (n - c)) (\<lambda>i. file_byte (volume img lba) (i_priv inode) (unat (f_offset f1) + (i - (a + unat c)))) r F' (mem s1) (mem s')"
        by (rule less.hyps) (use c nc 1(3,5) off less.prems(4,5) in simp_all)
      then obtain r2 s2 F2 f2 where 2: "copy_segment drv p4 bounce (n - c) (base + of_nat (a + unat c)) f1 s1 = Some (r2, f2, if r2 = 0 then s2 else kfree bounce s2)"
        "same_file f1 f2" "vm_inv s2 lvl F2" "F2 \<subseteq> F1" "buffers_in L ps (Suc (Suc d)) s2" "live_same L s1 s2" "CR3 s2 = CR3 s1" "kernel_va s2 = kernel_va s1"
        "write_done lvl p4 base (a + unat c) (a + unat n) (\<lambda>i. file_byte (volume img lba) (i_priv inode) (?off + unat c + (i - (a + unat c)))) r2 F2 (mem s1) (mem s2)"
        using nc c(1) off(1) by auto
      have "write_done lvl p4 base a (a + unat n) ?g r2 F2 (mem s) (mem s2)"
        by (rule done_join [OF w1 2(9) assms(7)]) (use c less.prems(5) in auto)
      then show ?thesis using 1(1,2,4,7,8) 2 True live_same_trans [OF 1(6) 2(6)] by (intro exI [of _ r2] exI [of _ s2] exI [of _ F2] exI [of _ f2]) (auto simp: same_file_def)
    qed
  qed
qed

end
