(* ===== verification/Reservation.thy ===== *)
theory Reservation
  imports Vm_Frame
begin

text \<open>
  Reserving ranges of an address space, in terms of the contents of addresses: the addresses of the
  range become readable as zeros, and no address that had a content before changes.
\<close>

section \<open>One page\<close>

lemma grows_content:
  assumes "vm_inv s lvl F" "grows s lvl F s' lvl' F'" "lvl (page_down cr) = Some 3"
  shows "content (mem s') cr v = content (mem s) cr v"
proof (cases "p1_entry (mem s) cr v")
  case None
  then have "content (mem s') cr v = None"
    using grows_walk(2) [OF assms(2,3) None] by (cases "p1_entry (mem s') cr v") (auto simp: content_entry)
  then show ?thesis using None by (simp add: content_entry)
next
  case (Some p)
  have p: "p1_entry (mem s') cr v = Some p" "mem s' p = mem s p" using grows_walk(1) [OF assms(2,3) Some] by simp_all
  have "get_byte (mem s') (pte_frame (mem s p) + (v AND (4096 - 1))) = get_byte (mem s) (pte_frame (mem s p) + (v AND (4096 - 1)))"
    if "pte_present (mem s p)"
  proof (rule get_byte_cong, rule growsD(6) [OF assms(2)])
    have "page_down (pte_frame (mem s p) + (v AND (4096 - 1))) = pte_frame (mem s p)" by (rule page_down_offset) simp
    then show "page_down ((pte_frame (mem s p) + (v AND (4096 - 1))) AND NOT 7) \<notin> dom lvl \<union> F"
      using leaf_frame(2) [OF assms(1,3) Some that] by simp
  qed
  then show ?thesis by (simp add: content_entry(1) [OF Some] content_entry(1) [OF p(1)] p(2))
qed

text \<open>A last-level entry that was empty is reserved.\<close>

lemma reserve_content:
  assumes "vm_inv s lvl F" "lvl (page_down p4) = Some 3" "p1_entry (mem s) p4 va = Some p" "\<not> pte_present (mem s p)"
    "\<not> pte_present e" "pte_flag e" "lvl (page_down cr) = Some 3"
  shows "content ((mem s)(p := e)) cr v = (if p1_entry (mem s) cr v = Some p then Some 0 else content (mem s) cr v)"
proof (cases "p1_entry (mem s) cr v")
  case None
  then show ?thesis using p1_entry_upd [OF assms(1-3,7)] by (simp add: content_entry)
next
  case (Some q)
  have w: "p1_entry ((mem s)(p := e)) cr v = Some q" using p1_entry_upd [OF assms(1-3,7)] Some by simp
  show ?thesis
  proof (cases "q = p")
    case True
    then show ?thesis using assms(5,6) Some by (simp add: content_entry(1) [OF w])
  next
    case False
    have "get_byte ((mem s)(p := e)) (pte_frame (mem s q) + (v AND (4096 - 1))) = get_byte (mem s) (pte_frame (mem s q) + (v AND (4096 - 1)))"
      if "pte_present (mem s q)"
    proof (rule get_byte_cong)
      have "page_down (pte_frame (mem s q) + (v AND (4096 - 1))) = pte_frame (mem s q)" by (rule page_down_offset) simp
      then have "page_down ((pte_frame (mem s q) + (v AND (4096 - 1))) AND NOT 7) \<notin> dom lvl"
        using leaf_frame(2) [OF assms(1,7) Some that] by simp
      moreover have "page_down p \<in> dom lvl" by (rule leaf_frame(1) [OF assms(1-3)])
      ultimately show "((mem s)(p := e)) ((pte_frame (mem s q) + (v AND (4096 - 1))) AND NOT 7) =
          mem s ((pte_frame (mem s q) + (v AND (4096 - 1))) AND NOT 7)" by (metis fun_upd_other)
    qed
    then show ?thesis using False by (simp add: content_entry(1) [OF w] content_entry(1) [OF Some] Some)
  qed
qed

section \<open>Several pages\<close>

text \<open>What reserving the pages of \<open>vas\<close> does to the contents. They had none before.\<close>

definition reserves :: "levels \<Rightarrow> u64 \<Rightarrow> u64 set \<Rightarrow> phys \<Rightarrow> phys \<Rightarrow> bool" where
  "reserves lvl p4 vas m m' \<longleftrightarrow>
     (\<forall>cr v. lvl (page_down cr) = Some 3 \<longrightarrow> content m cr v \<noteq> None \<or> (\<forall>va \<in> vas. \<not> concerns p4 va cr v) \<longrightarrow>
        content m' cr v = content m cr v) \<and>
     (\<forall>va \<in> vas. \<forall>v. same_page va v \<longrightarrow> content m p4 v = None \<and> content m' p4 v = Some 0)"

lemma reservesD:
  assumes "reserves lvl p4 vas m m'"
  shows "lvl (page_down cr) = Some 3 \<Longrightarrow> content m cr v = Some b \<Longrightarrow> content m' cr v = Some b"
    "va \<in> vas \<Longrightarrow> same_page va v \<Longrightarrow> content m' p4 v = Some 0"
    "va \<in> vas \<Longrightarrow> same_page va v \<Longrightarrow> content m p4 v = None"
  using assms unfolding reserves_def by (metis option.distinct(1))+

lemma reserves_trans:
  assumes "reserves lvl p4 A m m1" "reserves lvl' p4 B m1 m2" "lvl \<subseteq>\<^sub>m lvl'" "lvl (page_down p4) = Some 3"
  shows "reserves lvl p4 (A \<union> B) m m2"
  unfolding reserves_def
proof (intro conjI allI impI ballI)
  show "content m2 cr v = content m cr v"
    if "lvl (page_down cr) = Some 3" "content m cr v \<noteq> None \<or> (\<forall>va \<in> A \<union> B. \<not> concerns p4 va cr v)" for cr v
  proof -
    have r: "lvl' (page_down cr) = Some 3" by (rule map_le_Some [OF assms(3) that(1)])
    have 1: "content m1 cr v = content m cr v" using assms(1) that unfolding reserves_def by blast
    then have "content m1 cr v \<noteq> None \<or> (\<forall>va \<in> B. \<not> concerns p4 va cr v)" using that(2) by auto
    then show ?thesis using assms(2) r 1 unfolding reserves_def by metis
  qed
  show "content m2 p4 v = Some 0" if "va \<in> A \<union> B" "same_page va v" for va v
    using that reservesD(2) [OF assms(1)] reservesD [OF assms(2)] map_le_Some [OF assms(3,4)] by blast
  show "content m p4 v = None" if "va \<in> A \<union> B" "same_page va v" for va v
    using that reservesD(3) [OF assms(1)] reservesD(3) [OF assms(2)] reservesD(1) [OF assms(1,4), of v] by (cases "content m p4 v") auto
qed

lemma reserves_empty: "reserves lvl p4 {} m m"
  by (simp add: reserves_def)

lemma demand_page_reserves:
  assumes "vm_inv s lvl F" "lvl (page_down p4) = Some 3" "demand_page_in p4 va s = (r, s')"
  shows "\<exists>lvl' F'. vm_inv s' lvl' F' \<and> lvl \<subseteq>\<^sub>m lvl' \<and> F' \<subseteq> F \<and>
    (r = 0 \<and> content (mem s) p4 va = None \<and> reserves lvl p4 {va} (mem s) (mem s') \<or>
     r = -1 \<and> reserves lvl p4 {} (mem s) (mem s') \<and>
       (content (mem s) p4 va \<noteq> None \<or> F' = {} \<or> huge_at (mem s') 3 (page_down p4) va))"
  using assms
proof (cases rule: demand_page_in_cases)
  case (1 lvl' F' s1)
  have "content (mem s) p4 va \<noteq> None" if "reserved (mem s) p4 va \<or> translate (mem s) p4 va \<noteq> None"
    using that by (auto simp: content_def split: option.splits)
  then show ?thesis
    using growsD(1-3) [OF 1(1)] grows_content [OF assms(1) 1(1)] 1(3-5)
    by (intro exI [of _ lvl'] exI [of _ F']) (auto simp: reserves_def)
next
  case (2 lvl' F' s1 p)
  define e where "e = put_addr 0 (put_bit 0 False (put_bit 9 True (mem s1 p)))"
  have e: "\<not> pte_present e" "pte_flag e" by (simp_all add: e_def)
  note inv1 = growsD(1) [OF 2(1)] and sub = growsD(2) [OF 2(1)]
  have c: "content (mem s') cr v = (if p1_entry (mem s1) cr v = Some p then Some 0 else content (mem s) cr v)" if "lvl (page_down cr) = Some 3" for cr v
    using reserve_content [OF inv1 2(2,4,5) e map_le_Some [OF sub that]] grows_content [OF assms(1) 2(1) that]
    by (simp add: 2(7) e_def [symmetric])
  have old: "content (mem s) cr v = None" if "lvl (page_down cr) = Some 3" "p1_entry (mem s1) cr v = Some p" for cr v
    using grows_content [OF assms(1) 2(1) that(1), of v] 2(5,6) by (simp add: content_entry(1) [OF that(2)])
  have "reserves lvl p4 {va} (mem s) (mem s')"
    unfolding reserves_def
  proof (intro conjI allI impI ballI)
    show "content (mem s') cr v = content (mem s) cr v"
      if "lvl (page_down cr) = Some 3" "content (mem s) cr v \<noteq> None \<or> (\<forall>va \<in> {va}. \<not> concerns p4 va cr v)" for cr v
      using c [OF that(1)] old [OF that(1)] that(2) p1_entry_inj [OF inv1 2(2) map_le_Some [OF sub that(1)] 2(4)] by auto
    show "content (mem s') p4 v = Some 0" if "w \<in> {va}" "same_page w v" for w v
      using c [OF assms(2), of v] p1_entry_same_page [of va v] 2(4) that by simp
    show "content (mem s) p4 v = None" if "w \<in> {va}" "same_page w v" for w v
      using old [OF assms(2), of v] p1_entry_same_page [of va v] 2(4) that by simp
  qed
  moreover have "vm_inv s' lvl' F'" unfolding 2(7) by (rule vm_inv_leaf_upd [OF inv1 2(2,4)]) simp
  ultimately show ?thesis using 2(3) sub growsD(3) [OF 2(1)] old [OF assms(2) 2(4)] by blast
qed

lemma demand_pages_reserves:
  assumes "vm_inv s lvl F" "lvl (page_down p4) = Some 3" "demand_pages p4 vas s = (r, s')"
  shows "\<exists>lvl' F' done. vm_inv s' lvl' F' \<and> lvl \<subseteq>\<^sub>m lvl' \<and> F' \<subseteq> F \<and> reserves lvl p4 done (mem s) (mem s') \<and>
    (r = 0 \<and> done = set vas \<or> r = -1 \<and> done \<subseteq> set vas)"
  using assms
proof (induction vas arbitrary: s lvl F)
  case Nil
  then show ?case using reserves_empty by fastforce
next
  case (Cons va vas)
  obtain r1 s1 where d: "demand_page_in p4 va s = (r1, s1)" by fastforce
  from demand_page_reserves [OF Cons.prems(1,2) d] obtain lvl1 F1 where
    1: "vm_inv s1 lvl1 F1" "lvl \<subseteq>\<^sub>m lvl1" "F1 \<subseteq> F"
      "r1 = 0 \<and> reserves lvl p4 {va} (mem s) (mem s1) \<or> r1 = -1 \<and> reserves lvl p4 {} (mem s) (mem s1)" by blast
  show ?case
  proof (cases "r1 = 0")
    case False
    then have "r = -1" "s' = s1" "reserves lvl p4 {} (mem s) (mem s1)" using 1(4) Cons.prems(3) d by auto
    then show ?thesis using 1(1-3) by blast
  next
    case True
    then have rest: "demand_pages p4 vas s1 = (r, s')" using Cons.prems(3) d by simp
    obtain lvl' F' X where 2: "vm_inv s' lvl' F'" "lvl1 \<subseteq>\<^sub>m lvl'" "F' \<subseteq> F1" "reserves lvl1 p4 X (mem s1) (mem s')"
      "r = 0 \<and> X = set vas \<or> r = -1 \<and> X \<subseteq> set vas"
      using Cons.IH [OF 1(1) map_le_Some [OF 1(2) Cons.prems(2)] rest] by blast
    have "reserves lvl p4 ({va} \<union> X) (mem s) (mem s')" by (rule reserves_trans [OF _ 2(4) 1(2) Cons.prems(2)]) (use 1(4) True in simp)
    moreover have "lvl \<subseteq>\<^sub>m lvl'" using 1(2) 2(2) map_le_trans by blast
    ultimately show ?thesis using 1(3) 2 by (intro exI [of _ lvl'] exI [of _ F'] exI [of _ "{va} \<union> X"]) auto
  qed
qed

section \<open>A range\<close>

lemma va_index_page_down: "1 \<le> n \<Longrightarrow> va_index n (page_down v) = va_index n v"
proof -
  have o: "(4096::u64) - 1 = mask 12" by (simp add: mask_eq_exp_minus_1)
  show ?thesis unfolding va_index_def page_down_def o by (intro bit_word_eqI) (auto simp: bit_simps dest: bit_imp_le_length)
qed

lemma same_page_down: "page_down va = page_down v \<Longrightarrow> same_page va v"
  unfolding same_page_def using va_index_page_down by (metis atLeastAtMost_iff)

text \<open>The pages that \<open>reserve_pages_at\<close> asks for cover the range.\<close>

definition range_pages :: "u64 \<Rightarrow> u64 \<Rightarrow> u64 list" where
  "range_pages vaddr sz =
     page_run (vaddr AND PAGE_MASK) (sint (ucast ((((vaddr + sz + PAGE_SIZE - 1) AND PAGE_MASK) - (vaddr AND PAGE_MASK)) div PAGE_SIZE) :: u32))"

lemma range_covered:
  assumes "unat vaddr + unat sz + 4096 \<le> 2 ^ 64" "unat sz < 2 ^ 42" "i < unat sz"
  shows "\<exists>va \<in> set (range_pages vaddr sz). same_page va (vaddr + of_nat i)"
proof -
  define q where "q = unat vaddr div 4096"
  define n where "n = (unat vaddr + unat sz + 4095) div 4096 - q"
  let ?b = "vaddr AND PAGE_MASK" and ?e = "(vaddr + sz + PAGE_SIZE - 1) AND PAGE_MASK"
  have b: "unat ?b = q * 4096" by (simp add: cr3_mask unat_page_down q_def)
  have e0: "vaddr + sz + PAGE_SIZE - 1 = vaddr + sz + 4095" by simp
  have "unat (vaddr + sz + 4095) = unat vaddr + unat sz + 4095" using assms(1) by (simp add: unat_word_ariths)
  then have e: "unat ?e = (unat vaddr + unat sz + 4095) div 4096 * 4096" unfolding e0 cr3_mask unat_page_down by simp
  have le: "?b \<le> ?e" unfolding unat_le_iff b e q_def by (simp add: div_le_mono)
  have "unat ((?e - ?b) div PAGE_SIZE) = (unat ?e - unat ?b) div 4096" using le by (simp add: unat_div unat_sub)
  also have "\<dots> = n" unfolding b e n_def by (simp add: diff_mult_distrib [symmetric])
  finally have u: "unat ((?e - ?b) div PAGE_SIZE) = n" .
  have "unat vaddr < q * 4096 + 4096" using mod_less_divisor [of 4096 "unat vaddr"] div_mult_mod_eq [of "unat vaddr" 4096] unfolding q_def by linarith
  moreover have "n * 4096 = (unat vaddr + unat sz + 4095) div 4096 * 4096 - q * 4096" by (simp add: n_def diff_mult_distrib)
  ultimately have "n * 4096 \<le> unat sz + 8191" using div_times_less_eq_dividend [of "unat vaddr + unat sz + 4095" 4096] by linarith
  then have "n < 2 ^ 31" using assms(2) by simp
  then have num: "sint (ucast ((?e - ?b) div PAGE_SIZE) :: u32) = int n" using sint_ucast_small [of "(?e - ?b) div PAGE_SIZE"] unfolding u by blast
  define k where "k = (unat vaddr + i) div 4096 - q"
  have "(unat vaddr + i) div 4096 < (unat vaddr + unat sz + 4095) div 4096" "q \<le> (unat vaddr + i) div 4096"
    using assms(3) div_le_mono [of "unat vaddr + i + 4096" "unat vaddr + unat sz + 4095" 4096] unfolding q_def by (simp_all add: div_le_mono)
  then have k: "k < n" "q + k = (unat vaddr + i) div 4096" by (auto simp: k_def n_def)
  let ?p = "?b + of_nat k * PAGE_SIZE"
  have "?p \<in> set (range_pages vaddr sz)" using k(1) unfolding range_pages_def num page_run_def by simp
  moreover have "same_page ?p (vaddr + of_nat i)"
  proof (rule same_page_down, rule iffD2 [OF word_unat_eq_iff])
    have iv: "unat (vaddr + of_nat i) = unat vaddr + i"
      using assms by (simp add: unat_word_ariths unsigned_of_nat take_bit_nat_eq_self)
    have "(q + k) * 4096 \<le> unat vaddr + i" unfolding k(2) by simp
    then have kl: "q * 4096 + k * 4096 < 2 ^ 64" "k < 2 ^ 64" using assms by (simp_all add: algebra_simps)
    then have "unat (of_nat k * PAGE_SIZE) = k * 4096" by (simp add: unat_word_ariths unsigned_of_nat take_bit_nat_eq_self)
    then have "unat ?p = (q + k) * 4096" unfolding unat_plus_if' b using kl(1) by (simp add: add_mult_distrib)
    then show "unat (page_down ?p) = unat (page_down (vaddr + of_nat i))" unfolding unat_page_down iv k(2) by simp
  qed
  ultimately show ?thesis by blast
qed

lemma alloc_at_reserves:
  assumes "vm_inv s lvl F" "lvl (page_down p4) = Some 3" "MMU_alloc_at_as p4 vaddr sz s = (va, s')"
  shows "\<exists>lvl' F' X. vm_inv s' lvl' F' \<and> lvl \<subseteq>\<^sub>m lvl' \<and> F' \<subseteq> F \<and> same_rest s s' \<and> reserves lvl p4 X (mem s) (mem s') \<and>
    (va = vaddr AND PAGE_MASK \<and> X = set (range_pages vaddr sz) \<or> va = NULL \<and> X \<subseteq> set (range_pages vaddr sz))"
proof -
  obtain r s1 where d: "demand_pages p4 (range_pages vaddr sz) (CLI s) = (r, s1)" by fastforce
  then have s': "s' = irq_restore (are_interrupts_enabled s) s1" "va = (if r < 0 then NULL else vaddr AND PAGE_MASK)"
    using assms(3) by (auto simp: MMU_alloc_at_as_def reserve_pages_at_def range_pages_def Let_def split: if_splits)
  have "vm_inv (CLI s) lvl F" using assms(1) by simp
  from demand_pages_reserves [OF this assms(2) d] obtain lvl' F' X where
    1: "vm_inv s1 lvl' F'" "lvl \<subseteq>\<^sub>m lvl'" "F' \<subseteq> F" "reserves lvl p4 X (mem s) (mem s1)"
      "r = 0 \<and> X = set (range_pages vaddr sz) \<or> r = -1 \<and> X \<subseteq> set (range_pages vaddr sz)" by auto
  have "same_rest (CLI s) s1" using same_rest_demand_pages [of "CLI s" p4 "range_pages vaddr sz"] d by simp
  then have "same_rest s s'" using same_rest_irq s'(1) by blast
  moreover have "va = vaddr AND PAGE_MASK \<and> X = set (range_pages vaddr sz) \<or> va = NULL \<and> X \<subseteq> set (range_pages vaddr sz)"
    using 1(5) s'(2) by (elim disjE) simp_all
  moreover have "vm_inv s' lvl' F'" "mem s' = mem s1" using 1(1) s'(1) by simp_all
  ultimately show ?thesis using 1(2-4) by metis
qed



end
