(* ===== verification/Unmap.thy ===== *)
theory Unmap
  imports Reservation
begin

text \<open>
  Unmapping a page of the loaded address space: its frame and the tables that become empty go back to
  the frame allocator, and no other address loses or changes its content.
\<close>

section \<open>Giving back a frame\<close>

lemma pte_frame_low: "unat (pte_frame e) < 2 ^ 52"
proof -
  have "take_bit 52 (pte_frame e) = pte_frame e"
    by (rule bit_word_eqI) (auto simp: pfn_to_phys_def pte_addr_def bit_simps)
  then have "unat (pte_frame e) = unat (pte_frame e) mod 2 ^ 52" using unat_take_bit_mod [of 52 "pte_frame e"] by simp
  then show ?thesis by (metis mod_less_divisor zero_less_numeral zero_less_power)
qed

text \<open>A frame that is no table, not free and mapped nowhere.\<close>

definition unused :: "phys \<Rightarrow> levels \<Rightarrow> u64 set \<Rightarrow> u64 \<Rightarrow> bool" where
  "unused m lvl F f \<longleftrightarrow> page_aligned f \<and> unat f < 2 ^ 52 \<and> f \<notin> dom lvl \<union> F \<and>
     (\<forall>t i. lvl t = Some 0 \<longrightarrow> unat i < 512 \<longrightarrow> pte_present (m (entry_at t i)) \<longrightarrow> pte_frame (m (entry_at t i)) \<noteq> f)"

lemma release_frame:
  assumes "vm_inv s lvl F" "unused (mem s) lvl F f"
  shows "vm_inv (MMU_pf_free f s) lvl (insert f F)"
    "lvl (page_down cr) = Some 3 \<Longrightarrow> p1_entry (mem (MMU_pf_free f s)) cr v = p1_entry (mem s) cr v"
    "lvl (page_down cr) = Some 3 \<Longrightarrow> content (mem (MMU_pf_free f s)) cr v = content (mem s) cr v"
    "page_down a \<noteq> f \<Longrightarrow> mem (MMU_pf_free f s) a = mem s a"
proof -
  have u: "page_aligned f" "unat f < 2 ^ 52" "f \<notin> dom lvl" "f \<notin> F" using assms(2) by (auto simp: unused_def)
  have pf: "page_down f = f" using u(1) by (simp add: page_down_aligned)
  show m: "mem (MMU_pf_free f s) a = mem s a" if "page_down a \<noteq> f" for a
    using that pf by (auto simp: MMU_pf_free_def)
  have e: "mem (MMU_pf_free f s) (entry_at t i) = mem s (entry_at t i)" if "lvl t = Some k" "unat i < 512" for t k i
    by (rule m) (use that u(3) tables_aligned [OF vm_invD(4) [OF assms(1)]] in auto)
  have ok: "tables_ok (mem (MMU_pf_free f s)) lvl F" by (rule tables_cong [OF vm_invD(4) [OF assms(1)] order_refl e])
  have "tables_ok (mem (MMU_pf_free f s)) lvl (insert f F)"
  proof (rule tables_okI)
    show "pte_frame (mem (MMU_pf_free f s) (entry_at t i)) \<notin> dom lvl \<union> insert f F"
      if "lvl t = Some 0" "unat i < 512" "pte_present (mem (MMU_pf_free f s) (entry_at t i))" for t i
      using tables_leaf [OF ok that] assms(2) that e [OF that(1,2)] by (auto simp: unused_def)
  qed (use tables_aligned [OF ok] tables_child [OF ok] tables_parent [OF ok] tables_leaf_unique [OF ok] in blast)+
  then show "vm_inv (MMU_pf_free f s) lvl (insert f F)"
    using assms(1) u pf_free_avail [OF vm_invD(1) [OF assms(1)]] by (auto simp: vm_inv_def)
  assume r: "lvl (page_down cr) = Some 3"
  show p: "p1_entry (mem (MMU_pf_free f s)) cr v = p1_entry (mem s) cr v"
    unfolding p1_entry_def by (rule walk_cong [OF vm_invD(4) [OF assms(1)] e r])
  show "content (mem (MMU_pf_free f s)) cr v = content (mem s) cr v"
  proof (cases "p1_entry (mem s) cr v")
    case (Some q)
    then have w: "p1_entry (mem (MMU_pf_free f s)) cr v = Some q" using p by simp
    obtain t where t: "lvl t = Some 0" "q = entry_at t (va_index (Suc 0) v)" by (rule p1_entry_leaf [OF assms(1) r Some])
    have q: "mem (MMU_pf_free f s) q = mem s q" using e [OF t(1) unat_va_index] t(2) by simp
    have "get_byte (mem (MMU_pf_free f s)) (pte_frame (mem s q) + (v AND (4096 - 1))) = get_byte (mem s) (pte_frame (mem s q) + (v AND (4096 - 1)))"
      if "pte_present (mem s q)"
    proof (rule get_byte_cong, rule m)
      have "page_down (pte_frame (mem s q) + (v AND (4096 - 1))) = pte_frame (mem s q)" by (rule page_down_offset) simp
      then show "page_down ((pte_frame (mem s q) + (v AND (4096 - 1))) AND NOT 7) \<noteq> f"
        using assms(2) t that unat_va_index by (auto simp: unused_def)
    qed
    then show ?thesis by (simp add: content_entry(1) [OF w] content_entry(1) [OF Some] q)
  qed (use p in \<open>simp add: content_entry\<close>)
qed

lemma free_store:
  assumes "f \<noteq> e"
  shows "(MMU_pf_free f s)\<lparr>mem := (mem (MMU_pf_free f s))(e := 0)\<rparr> = MMU_pf_free f (s\<lparr>mem := (mem s)(e := 0)\<rparr>)"
proof -
  have "(mem s)(f := free_frames s, e := 0) = (mem s)(e := 0, f := free_frames s)" by (rule fun_upd_twist [OF assms])
  then show ?thesis by (simp add: MMU_pf_free_def)
qed

section \<open>Clearing a last-level entry\<close>

definition clear_page :: "ptr \<Rightarrow> 'a vm_st_scheme \<Rightarrow> 'a vm_st_scheme" where
  "clear_page p s =
     (let s = (if pte_present (mem s p) then MMU_pf_free (pte_frame (mem s p)) s else s) in s\<lparr>mem := (mem s)(p := 0)\<rparr>)"

lemma clear_page_ok:
  assumes "vm_inv s lvl F" "lvl (page_down p4) = Some 3" "p1_entry (mem s) p4 va = Some p"
  shows "\<exists>F'. vm_inv (clear_page p s) lvl F' \<and> F \<subseteq> F' \<and> (pte_present (mem s p) \<longrightarrow> pte_frame (mem s p) \<in> F')"
    "lvl (page_down cr) = Some 3 \<Longrightarrow> p1_entry (mem (clear_page p s)) cr v = p1_entry (mem s) cr v"
    "lvl (page_down cr) = Some 3 \<Longrightarrow> content (mem (clear_page p s)) cr v = (if p1_entry (mem s) cr v = Some p then None else content (mem s) cr v)"
    "page_down a \<in> dom lvl \<Longrightarrow> a \<noteq> p \<Longrightarrow> mem (clear_page p s) a = mem s a"
proof -
  let ?f = "pte_frame (mem s p)" and ?s = "s\<lparr>mem := (mem s)(p := 0)\<rparr>"
  obtain t where t: "lvl t = Some 0" "p = entry_at t (va_index (Suc 0) va)" "page_aligned t" by (rule p1_entry_leaf [OF assms])
  have i0: "vm_inv ?s lvl F" by (rule vm_inv_leaf_upd [OF assms]) simp
  note lf = leaf_frame [OF assms]
  have w: "p1_entry ((mem s)(p := 0)) cr v = p1_entry (mem s) cr v" if "lvl (page_down cr) = Some 3" for cr v
    by (rule p1_entry_upd [OF assms that])
  have c: "content ((mem s)(p := 0)) cr v = (if p1_entry (mem s) cr v = Some p then None else content (mem s) cr v)"
    if r: "lvl (page_down cr) = Some 3" for cr v
  proof (cases "p1_entry (mem s) cr v")
    case (Some q)
    have "get_byte ((mem s)(p := 0)) (pte_frame (mem s q) + (v AND (4096 - 1))) = get_byte (mem s) (pte_frame (mem s q) + (v AND (4096 - 1)))"
      if "pte_present (mem s q)"
    proof (rule get_byte_cong)
      have "page_down (pte_frame (mem s q) + (v AND (4096 - 1))) = pte_frame (mem s q)" by (rule page_down_offset) simp
      then have "page_down ((pte_frame (mem s q) + (v AND (4096 - 1))) AND NOT 7) \<notin> dom lvl" using leaf_frame(2) [OF assms(1) r Some that] by simp
      then show "((mem s)(p := 0)) ((pte_frame (mem s q) + (v AND (4096 - 1))) AND NOT 7) = mem s ((pte_frame (mem s q) + (v AND (4096 - 1))) AND NOT 7)"
        using lf(1) by (metis fun_upd_other)
    qed
    moreover have "p1_entry ((mem s)(p := 0)) cr v = Some q" using w [OF r] Some by simp
    ultimately show ?thesis using Some by (auto simp: content_entry)
  qed (use w [OF r] in \<open>simp add: content_entry\<close>)
  have un: "unused (mem ?s) lvl F ?f" if pr: "pte_present (mem s p)"
    unfolding unused_def
  proof (intro conjI allI impI)
    show "?f \<notin> dom lvl \<union> F" by (rule lf(2) [OF pr])
    show "unat ?f < 2 ^ 52" by (rule pte_frame_low)
    fix t' i assume a: "lvl t' = Some 0" "unat (i::u64) < 512" "pte_present (mem ?s (entry_at t' i))"
    have ne: "entry_at t' i \<noteq> p" using a(3) by auto
    then show "pte_frame (mem ?s (entry_at t' i)) \<noteq> ?f"
      using tables_leaf_unique [OF vm_invD(4) [OF assms(1)] a(1) t(1) a(2) unat_va_index] a(3) t(2) pr by auto
  qed simp
  have fp: "page_down p \<noteq> ?f" if "pte_present (mem s p)" using lf(1) lf(2) [OF that] by auto
  have eq: "clear_page p s = (if pte_present (mem s p) then MMU_pf_free ?f ?s else ?s)"
  proof (cases "pte_present (mem s p)")
    case True
    then have "?f \<noteq> p" using fp page_down_aligned [OF pte_frame_aligned] by metis
    then show ?thesis using True free_store [of ?f p s] by (simp add: clear_page_def Let_def)
  qed (simp add: clear_page_def)
  show "\<exists>F'. vm_inv (clear_page p s) lvl F' \<and> F \<subseteq> F' \<and> (pte_present (mem s p) \<longrightarrow> pte_frame (mem s p) \<in> F')"
    using i0 release_frame(1) [OF i0 un] eq by (cases "pte_present (mem s p)") auto
  show "p1_entry (mem (clear_page p s)) cr v = p1_entry (mem s) cr v" if "lvl (page_down cr) = Some 3"
    using release_frame(2) [OF i0 un that, of v] w [OF that, of v] eq by (cases "pte_present (mem s p)") simp_all
  show "content (mem (clear_page p s)) cr v = (if p1_entry (mem s) cr v = Some p then None else content (mem s) cr v)"
    if "lvl (page_down cr) = Some 3"
    using release_frame(3) [OF i0 un that, of v] c [OF that, of v] eq by (cases "pte_present (mem s p)") simp_all
  show "mem (clear_page p s) a = mem s a" if "page_down a \<in> dom lvl" "a \<noteq> p"
  proof (cases "pte_present (mem s p)")
    case True
    then have "page_down a \<noteq> ?f" using lf(2) [OF True] that(1) by (metis UnI1)
    then show ?thesis using release_frame(4) [OF i0 un [OF True], of a] that(2) eq True by simp
  qed (use eq that in simp)
qed

section \<open>Cutting off an empty table\<close>

text \<open>The table \<open>c\<close> hangs on the entry \<open>i\<close> of \<open>t\<close> only, and all its entries are zero.\<close>

definition hangs :: "phys \<Rightarrow> levels \<Rightarrow> u64 \<Rightarrow> nat \<Rightarrow> u64 \<Rightarrow> u64 \<Rightarrow> bool" where
  "hangs m lvl t n i c \<longleftrightarrow> lvl t = Some (Suc n) \<and> unat i < 512 \<and> leads (Suc (Suc n)) (m (entry_at t i)) \<and> pte_frame (m (entry_at t i)) = c"

definition sole :: "phys \<Rightarrow> levels \<Rightarrow> u64 \<Rightarrow> nat \<Rightarrow> u64 \<Rightarrow> u64 \<Rightarrow> bool" where
  "sole m lvl t n i c \<longleftrightarrow> (\<forall>t'. hangs m lvl t' n i c \<longrightarrow> t' = t)"

lemma sole_low:
  assumes "tables_ok m lvl F" "hangs m lvl t n i c" "n < 2 \<or> 32 \<le> unat i"
  shows "sole m lvl t n i c"
  unfolding sole_def using tables_parent [OF assms(1)] assms(2,3) unfolding hangs_def by metis

lemma hangs_level: "tables_ok m lvl F \<Longrightarrow> hangs m lvl t n i c \<Longrightarrow> lvl c = Some n"
  using tables_child unfolding hangs_def by blast

lemma walk_cut:
  assumes ok: "tables_ok m lvl F" and h: "hangs m lvl t n i c" "sole m lvl t n i c"
    and z: "\<And>j. unat j < 512 \<Longrightarrow> m (entry_at c j) = 0"
  shows "lvl t' = Some k \<Longrightarrow> t' \<noteq> c \<Longrightarrow>
    walk (m(entry_at t i := 0)) k t' v = walk m k t' v \<or>
    walk (m(entry_at t i := 0)) k t' v = None \<and> (case walk m k t' v of None \<Rightarrow> True | Some q \<Rightarrow> m q = 0)"
proof (induction k arbitrary: t')
  case (Suc k)
  let ?j = "va_index (Suc (Suc k)) v"
  let ?e = "entry_at t' ?j"
  have al: "page_aligned t'" "page_aligned t" using tables_aligned [OF ok] Suc.prems(1) h(1) by (auto simp: hangs_def)
  have ti: "unat i < 512" using h(1) by (simp add: hangs_def)
  show ?case
  proof (cases "?e = entry_at t i")
    case True
    then have tj: "t' = t" "?j = i" using entry_at_inj [OF al unat_va_index ti] by auto
    then have "k = n" using Suc.prems(1) h(1) by (simp add: hangs_def)
    then have "walk m (Suc k) t' v = walk m n c v" using h(1) tj by (simp add: hangs_def Let_def)
    moreover have "case walk m n c v of None \<Rightarrow> True | Some q \<Rightarrow> m q = 0"
      using z [OF unat_va_index] by (cases n) (simp_all add: Let_def leads_def)
    ultimately show ?thesis using True by (simp add: Let_def leads_def)
  next
    case False
    show ?thesis
    proof (cases "leads (Suc (Suc k)) (m ?e)")
      case True
      have c: "lvl (pte_frame (m ?e)) = Some k" by (rule tables_child [OF ok Suc.prems(1) unat_va_index True])
      have "pte_frame (m ?e) \<noteq> c"
      proof
        assume e: "pte_frame (m ?e) = c"
        have k: "k = n" using c e hangs_level [OF ok h(1)] by simp
        have "?j = i" using tables_parent [OF ok Suc.prems(1) _ unat_va_index ti True] h(1) e k by (auto simp: hangs_def)
        moreover from this have "hangs m lvl t' n i c" using Suc.prems(1) True e k ti by (simp add: hangs_def)
        ultimately show False using h(2) False by (auto simp: sole_def)
      qed
      from Suc.IH [OF c this] show ?thesis using False True by (simp add: Let_def)
    qed (use False in \<open>simp add: Let_def\<close>)
  qed
qed simp

lemma tables_cut:
  assumes ok: "tables_ok m lvl F" and h: "hangs m lvl t n i c" "sole m lvl t n i c"
  shows "tables_ok (m(entry_at t i := 0)) (lvl(c := None)) F"
proof -
  have ti: "unat i < 512" "page_aligned t" "lvl t = Some (Suc n)" using h(1) tables_aligned [OF ok] by (auto simp: hangs_def)
  have e: "(m(entry_at t i := 0)) (entry_at t' j) = (if t' = t \<and> j = i then 0 else m (entry_at t' j))"
    if "lvl t' = Some k" "unat j < 512" for t' k j
    using entry_at_inj [OF tables_aligned [OF ok that(1)] ti(2) that(2) ti(1)] by auto
  have child: "pte_frame (m (entry_at t' j)) \<noteq> c \<and> lvl (pte_frame (m (entry_at t' j))) = Some k"
    if a: "lvl t' = Some (Suc k)" "unat j < 512" "leads (Suc (Suc k)) (m (entry_at t' j))" "\<not> (t' = t \<and> j = i)" for t' k j
  proof -
    have l: "lvl (pte_frame (m (entry_at t' j))) = Some k" by (rule tables_child [OF ok a(1-3)])
    moreover have "pte_frame (m (entry_at t' j)) \<noteq> c"
    proof
      assume eq: "pte_frame (m (entry_at t' j)) = c"
      have k: "k = n" using l eq hangs_level [OF ok h(1)] by simp
      have "j = i" using tables_parent [OF ok a(1) _ a(2) ti(1) a(3)] h(1) eq k by (auto simp: hangs_def)
      moreover from this have "hangs m lvl t' n i c" using a eq k by (simp add: hangs_def)
      ultimately show False using h(2) a(4) by (auto simp: sole_def)
    qed
    ultimately show ?thesis by simp
  qed
  show ?thesis
  proof (rule tables_okI)
    show "page_aligned t'" if "(lvl(c := None)) t' = Some k" for t' k using tables_aligned [OF ok] that by (auto split: if_splits)
    show "(lvl(c := None)) (pte_frame ((m(entry_at t i := 0)) (entry_at t' j))) = Some k"
      if "(lvl(c := None)) t' = Some (Suc k)" "unat j < 512" "leads (Suc (Suc k)) ((m(entry_at t i := 0)) (entry_at t' j))" for t' k j
      using child [of t' k j] that e [of t' "Suc k" j] by (auto simp: leads_def split: if_splits)
    show "pte_frame ((m(entry_at t i := 0)) (entry_at t' j)) \<notin> dom (lvl(c := None)) \<union> F"
      if "(lvl(c := None)) t' = Some 0" "unat j < 512" "pte_present ((m(entry_at t i := 0)) (entry_at t' j))" for t' j
      using tables_leaf [OF ok, of t' j] that e [of t' 0 j] by (auto split: if_splits)
  next
    fix t' t'' k j j'
    assume a: "(lvl(c := None)) t' = Some (Suc k)" "(lvl(c := None)) t'' = Some (Suc k)" "unat j < 512" "unat j' < 512"
      "leads (Suc (Suc k)) ((m(entry_at t i := 0)) (entry_at t' j))" "leads (Suc (Suc k)) ((m(entry_at t i := 0)) (entry_at t'' j'))"
      "pte_frame ((m(entry_at t i := 0)) (entry_at t' j)) = pte_frame ((m(entry_at t i := 0)) (entry_at t'' j'))"
    have l: "lvl t' = Some (Suc k)" "lvl t'' = Some (Suc k)" using a(1,2) by (auto split: if_splits)
    show "j = j' \<and> (k < 2 \<or> 32 \<le> unat j \<longrightarrow> t' = t'')"
      using tables_parent [OF ok l a(3,4)] a(5-7) e [OF l(1) a(3)] e [OF l(2) a(4)] by (auto simp: leads_def split: if_splits)
  next
    fix t' t'' j j'
    assume a: "(lvl(c := None)) t' = Some 0" "(lvl(c := None)) t'' = Some 0" "unat j < 512" "unat j' < 512"
      "pte_present ((m(entry_at t i := 0)) (entry_at t' j))" "pte_present ((m(entry_at t i := 0)) (entry_at t'' j'))"
      "pte_frame ((m(entry_at t i := 0)) (entry_at t' j)) = pte_frame ((m(entry_at t i := 0)) (entry_at t'' j'))"
    have l: "lvl t' = Some 0" "lvl t'' = Some 0" using a(1,2) by (auto split: if_splits)
    show "t' = t'' \<and> j = j'"
      using tables_leaf_unique [OF ok l a(3,4)] a(5-7) e [OF l(1) a(3)] e [OF l(2) a(4)] by (auto split: if_splits)
  qed
qed

lemma cut_table:
  assumes "vm_inv s lvl F" "hangs (mem s) lvl t n i c" "n < 3" "sole (mem s) lvl t n i c" "page_table_empty c s"
  defines "s0 \<equiv> s\<lparr>mem := (mem s)(entry_at t i := 0)\<rparr>"
  shows "vm_inv s0 (lvl(c := None)) F" "unused (mem s0) (lvl(c := None)) F c"
    "lvl (page_down cr) = Some 3 \<Longrightarrow> content (mem s0) cr v = content (mem s) cr v"
proof -
  let ?e = "entry_at t i" and ?s = "s\<lparr>mem := (mem s)(entry_at t i := 0)\<rparr>" and ?l = "lvl(c := None)"
  note ok = vm_invD(4) [OF assms(1)]
  have t: "lvl t = Some (Suc n)" "unat i < 512" "page_aligned t" "lvl c = Some n" "page_aligned c"
    using assms(2) tables_aligned [OF ok] hangs_level [OF ok assms(2)] by (auto simp: hangs_def)
  have te: "page_down ?e = t" using t(2,3) by simp
  have low: "unat c < 2 ^ 52" using assms(2) pte_frame_low unfolding hangs_def by metis
  have z: "mem s (entry_at c j) = 0" if "unat j < 512" for j
  proof -
    have "mem s (entry_at c (of_nat (unat j))) = 0" using assms(5) that unfolding page_table_empty_def list_all_iff by (metis atLeastLessThan_iff le0 set_upt)
    then show ?thesis by simp
  qed
  have "avail ?s F" by (rule avail_store [OF vm_invD(1) [OF assms(1)]]) (use te t(1) vm_invD(3) [OF assms(1)] in auto)
  then show "vm_inv s0 (lvl(c := None)) F" using assms(1) tables_cut [OF ok assms(2) assms(4)] by (auto simp: vm_inv_def s0_def)
  have "pte_frame (mem ?s (entry_at t' j)) \<noteq> c" if a: "?l t' = Some 0" "unat j < 512" "pte_present (mem ?s (entry_at t' j))" for t' j
  proof -
    have "entry_at t' j \<noteq> ?e" using a(3) by auto
    then show ?thesis using tables_leaf [OF ok, of t' j] a t(4) by (auto split: if_splits)
  qed
  then show "unused (mem s0) (lvl(c := None)) F c" using t(4,5) low vm_invD(3) [OF assms(1)] by (auto simp: unused_def s0_def)
  assume r: "lvl (page_down cr) = Some 3"
  have rc: "page_down cr \<noteq> c" using r t(4) assms(3) by auto
  have w: "p1_entry (mem ?s) cr v = p1_entry (mem s) cr v \<or> p1_entry (mem ?s) cr v = None \<and> (case p1_entry (mem s) cr v of None \<Rightarrow> True | Some q \<Rightarrow> mem s q = 0)"
    using walk_cut [OF ok assms(2) assms(4) z r rc] by (simp add: p1_entry_def)
  show "content (mem s0) cr v = content (mem s) cr v"
  proof (cases "p1_entry (mem ?s) cr v")
    case None
    then show ?thesis using w by (auto simp: s0_def content_entry split: option.splits)
  next
    case (Some q)
    then have q: "p1_entry (mem s) cr v = Some q" using w by auto
    have ne: "page_down ((pte_frame (mem s q) + (v AND (4096 - 1))) AND NOT 7) \<noteq> t" if "pte_present (mem s q)"
    proof -
      have "page_down (pte_frame (mem s q) + (v AND (4096 - 1))) = pte_frame (mem s q)" by (rule page_down_offset) simp
      then show ?thesis using leaf_frame(2) [OF assms(1) r q that] t(1) by auto
    qed
    have "q \<noteq> ?e" using p1_entry_leaf [OF assms(1) r q] t entry_at_inj unat_va_index by (metis option.inject nat.distinct(1))
    moreover have "get_byte (mem ?s) (pte_frame (mem s q) + (v AND (4096 - 1))) = get_byte (mem s) (pte_frame (mem s q) + (v AND (4096 - 1)))"
      if "pte_present (mem s q)"
    proof (rule get_byte_cong)
      have "(pte_frame (mem s q) + (v AND (4096 - 1))) AND NOT 7 \<noteq> ?e" using ne [OF that] te by metis
      then show "mem ?s ((pte_frame (mem s q) + (v AND (4096 - 1))) AND NOT 7) = mem s ((pte_frame (mem s q) + (v AND (4096 - 1))) AND NOT 7)" by simp
    qed
    ultimately show ?thesis using content_entry(1) [OF Some] content_entry(1) [OF q] by (auto simp: s0_def)
  qed
qed

text \<open>A table is dropped when it is empty, which only the memory of the table and of its entry shows.\<close>

lemma drop_table:
  assumes "vm_inv s lvl F" "hangs (mem s) lvl t n i c" "n < 3" "page_table_empty c s \<Longrightarrow> sole (mem s) lvl t n i c"
  shows "\<exists>lvl' F'. vm_inv (drop_table_if_empty c (entry_at t i) s) lvl' F' \<and> F \<subseteq> F' \<and> (\<forall>x. x \<noteq> c \<longrightarrow> lvl' x = lvl x)"
    "lvl (page_down cr) = Some 3 \<Longrightarrow> content (mem (drop_table_if_empty c (entry_at t i) s)) cr v = content (mem s) cr v"
    "page_down a \<noteq> c \<Longrightarrow> a \<noteq> entry_at t i \<Longrightarrow> mem (drop_table_if_empty c (entry_at t i) s) a = mem s a"
proof -
  let ?e = "entry_at t i" and ?s = "s\<lparr>mem := (mem s)(entry_at t i := 0)\<rparr>" and ?l = "lvl(c := None)"
  note ok = vm_invD(4) [OF assms(1)]
  have t: "lvl t = Some (Suc n)" "unat i < 512" "page_aligned t" "lvl c = Some n" "page_aligned c"
    using assms(2) tables_aligned [OF ok] hangs_level [OF ok assms(2)] by (auto simp: hangs_def)
  have te: "page_down ?e = t" using t(2,3) by simp
  have tc: "t \<noteq> c" using t(1,4) by auto
  have cut: "vm_inv ?s ?l F" "unused (mem ?s) ?l F c" "lvl (page_down cr) = Some 3 \<Longrightarrow> content (mem ?s) cr v = content (mem s) cr v"
    if "page_table_empty c s" for cr v
    using cut_table [OF assms(1-3) assms(4) [OF that] that] by auto
  have "c \<noteq> ?e" using te tc page_down_aligned [OF t(5)] by auto
  then have eq: "drop_table_if_empty c ?e s = (if page_table_empty c s then MMU_pf_free c ?s else s)"
    using free_store [of c ?e s] by (simp add: drop_table_if_empty_def Let_def)
  have r': "?l (page_down cr) = Some 3" if "lvl (page_down cr) = Some 3" for cr using that t(4) assms(3) by auto
  show "\<exists>lvl' F'. vm_inv (drop_table_if_empty c ?e s) lvl' F' \<and> F \<subseteq> F' \<and> (\<forall>x. x \<noteq> c \<longrightarrow> lvl' x = lvl x)"
  proof (cases "page_table_empty c s")
    case True
    then show ?thesis using release_frame(1) [OF cut(1,2)] eq by (intro exI [of _ ?l] exI [of _ "insert c F"]) auto
  qed (use assms(1) eq in auto)
  show "content (mem (drop_table_if_empty c ?e s)) cr v = content (mem s) cr v" if "lvl (page_down cr) = Some 3"
  proof (cases "page_table_empty c s")
    case True
    then show ?thesis using release_frame(3) [OF cut(1,2) r' [OF that]] cut(3) [OF True that] eq by simp
  qed (use eq in simp)
  show "mem (drop_table_if_empty c ?e s) a = mem s a" if "page_down a \<noteq> c" "a \<noteq> ?e"
  proof (cases "page_table_empty c s")
    case True
    then show ?thesis using release_frame(4) [OF cut(1,2) that(1)] that(2) eq by simp
  qed (use eq in simp)
qed

section \<open>Unmapping a page\<close>

lemma free_tables_ok:
  assumes inv: "vm_inv s lvl F" and r: "lvl (page_down (CR3 s)) = Some 3" and p: "p1_entry (mem s) (CR3 s) va = Some p"
    and keep: "32 \<le> unat (va_index 4 va) \<or> (\<exists>v. va_index 4 v = va_index 4 va \<and> content (mem s) (CR3 s) v \<noteq> None)"
  shows "\<exists>lvl' F'. vm_inv (free_empty_tables va s) lvl' F' \<and> F \<subseteq> F' \<and> (\<forall>t. lvl t = Some 3 \<longrightarrow> lvl' t = Some 3) \<and>
    (\<forall>cr v. lvl (page_down cr) = Some 3 \<longrightarrow> content (mem (free_empty_tables va s)) cr v = content (mem s) cr v)"
proof -
  define t4 where "t4 = page_down (CR3 s)"
  define e4 where "e4 = entry_at t4 (va_index 4 va)"
  define t3 where "t3 = pte_frame (mem s e4)"
  define e3 where "e3 = entry_at t3 (va_index 3 va)"
  define t2 where "t2 = pte_frame (mem s e3)"
  define e2 where "e2 = entry_at t2 (va_index 2 va)"
  define t1 where "t1 = pte_frame (mem s e2)"
  note ok = vm_invD(4) [OF inv]
  have l: "leads 4 (mem s e4)" "leads 3 (mem s e3)" "leads 2 (mem s e2)"
    using p unfolding p1_entry_levels Let_def t4_def [symmetric] e4_def [symmetric] t3_def [symmetric] e3_def [symmetric] t2_def [symmetric] e2_def [symmetric]
    by (auto split: if_splits)
  have h4: "hangs (mem s) lvl t4 2 (va_index 4 va) t3" using r l(1) unat_va_index by (simp add: hangs_def t4_def e4_def t3_def eval_nat_numeral)
  note L3 = hangs_level [OF ok h4]
  have h3: "hangs (mem s) lvl t3 1 (va_index 3 va) t2" using L3 l(2) unat_va_index by (simp add: hangs_def e3_def t2_def eval_nat_numeral)
  note L2 = hangs_level [OF ok h3]
  have h2: "hangs (mem s) lvl t2 0 (va_index 2 va) t1" using L2 l(3) unat_va_index by (simp add: hangs_def e2_def t1_def eval_nat_numeral)
  note L1 = hangs_level [OF ok h2]
  have ne: "t4 \<noteq> t3" "t4 \<noteq> t2" "t4 \<noteq> t1" "t3 \<noteq> t2" "t3 \<noteq> t1" "t2 \<noteq> t1" using r L1 L2 L3 by (auto simp: t4_def)
  have pd: "page_down e4 = t4" "page_down e3 = t3" "page_down e2 = t2"
    using tables_aligned [OF ok] r L3 L2 unat_va_index by (simp_all add: e4_def e3_def e2_def t4_def)
  define s1 where "s1 = drop_table_if_empty t1 e2 s"
  define s2 where "s2 = drop_table_if_empty t2 e3 s1"
  define s3 where "s3 = drop_table_if_empty t3 e4 s2"
  have f: "free_empty_tables va s = (if pte_flag (mem s e4) \<and> pte_flag (mem s e3) \<and> pte_flag (mem s e2) then s3 else s)"
    using l unfolding free_empty_tables_def MMU_current_p4_def cr3_mask va_index_names Let_def t4_def [symmetric] e4_def [symmetric] t3_def [symmetric]
      e3_def [symmetric] t2_def [symmetric] e2_def [symmetric] t1_def [symmetric] s1_def [symmetric] s2_def [symmetric] s3_def [symmetric] leads_def by auto
  have so: "sole m l t n i c" if "vm_inv x l G" "hangs m l t n i c" "n < 2 \<or> 32 \<le> unat i" "m = mem x" for m l t n i c x G
    using sole_low [OF vm_invD(4) [OF that(1)]] that by blast
  note d1 = drop_table [OF inv h2 _ so [OF inv h2 _ refl], folded e2_def, folded s1_def]
  obtain lvl1 F1 where 1: "vm_inv s1 lvl1 F1" "F \<subseteq> F1" "\<And>x. x \<noteq> t1 \<Longrightarrow> lvl1 x = lvl x" using d1(1) by auto
  have m1: "mem s1 e3 = mem s e3" "mem s1 e4 = mem s e4" using d1(3) [of e3] d1(3) [of e4] ne pd by auto
  have h3': "hangs (mem s1) lvl1 t3 1 (va_index 3 va) t2" using h3 1(3) ne m1 by (simp add: hangs_def e3_def)
  note d2 = drop_table [OF 1(1) h3' _ so [OF 1(1) h3' _ refl], folded e3_def, folded s2_def]
  obtain lvl2 F2 where 2: "vm_inv s2 lvl2 F2" "F1 \<subseteq> F2" "\<And>x. x \<noteq> t2 \<Longrightarrow> lvl2 x = lvl1 x" using d2(1) by auto
  have m2: "mem s2 e4 = mem s e4" using d2(3) [of e4] m1 ne pd by auto
  have roots: "lvl1 t = Some 3" "lvl2 t = Some 3" "t \<noteq> t3" if "lvl t = Some 3" for t using that 1(3) 2(3) L1 L2 L3 by (metis option.inject num.distinct(1) zero_neq_numeral one_eq_numeral_iff numeral_eq_iff num.simps)+
  have c2: "content (mem s2) cr v = content (mem s) cr v" if "lvl (page_down cr) = Some 3" for cr v
    using d1(2) [OF _ _ that] d2(2) [OF _ _ roots(1) [OF that]] by simp
  have h4': "hangs (mem s2) lvl2 t4 2 (va_index 4 va) t3" using h4 roots(2) [of t4] m2 by (simp add: hangs_def e4_def eval_nat_numeral)
  have "sole (mem s2) lvl2 t4 2 (va_index 4 va) t3" if em: "page_table_empty t3 s2"
  proof (cases "32 \<le> unat (va_index 4 va)")
    case True
    then show ?thesis using so [OF 2(1) h4' _ refl] by blast
  next
    case False
    then obtain v where v: "va_index 4 v = va_index 4 va" "content (mem s2) (CR3 s) v \<noteq> None" using keep c2 r by auto
    then have "p1_entry (mem s2) (CR3 s) v \<noteq> None" using content_entry(2) by metis
    then have "leads 3 (mem s2 (entry_at t3 (va_index 3 v)))"
      using v(1) m2 unfolding p1_entry_levels Let_def t4_def [symmetric] by (auto simp: e4_def [symmetric] t3_def [symmetric] split: if_splits)
    moreover have "mem s2 (entry_at t3 (of_nat (unat (va_index 3 v)))) = 0"
      using em unat_va_index [of 3 v] unfolding page_table_empty_def list_all_iff by (metis atLeastLessThan_iff le0 set_upt)
    ultimately show ?thesis by (simp add: leads_def)
  qed
  note d3 = drop_table [OF 2(1) h4' _ this, folded e4_def, folded s3_def]
  obtain lvl3 F3 where 3: "vm_inv s3 lvl3 F3" "F2 \<subseteq> F3" "\<And>x. x \<noteq> t3 \<Longrightarrow> lvl3 x = lvl2 x" using d3(1) by auto
  have "content (mem s3) cr v = content (mem s) cr v" if "lvl (page_down cr) = Some 3" for cr v
    using d3(2) [OF _ _ roots(2) [OF that]] c2 [OF that] by simp
  moreover have "lvl3 t = Some 3" if "lvl t = Some 3" for t using 3(3) roots(2,3) [OF that] by simp
  moreover have "F \<subseteq> F3" using 1(2) 2(2) 3(2) by blast
  ultimately show ?thesis
    unfolding f using inv 3(1) by (cases "pte_flag (mem s e4) \<and> pte_flag (mem s e3) \<and> pte_flag (mem s e2)") (simp, blast, auto)
qed

lemma free_page_ok:
  assumes inv: "vm_inv s lvl F" and r: "lvl (page_down (CR3 s)) = Some 3"
    and keep: "32 \<le> unat (va_index 4 va) \<or> (\<exists>v. va_index 4 v = va_index 4 va \<and> \<not> same_page va v \<and> content (mem s) (CR3 s) v \<noteq> None)"
  shows "\<exists>lvl' F'. vm_inv (MMU_free_page va s) lvl' F' \<and> F \<subseteq> F' \<and> (\<forall>t. lvl t = Some 3 \<longrightarrow> lvl' t = Some 3) \<and>
    (\<forall>pa. translate (mem s) (CR3 s) va = Some pa \<longrightarrow> page_down pa \<in> F') \<and>
    (\<forall>v. same_page va v \<longrightarrow> content (mem (MMU_free_page va s)) (CR3 s) v = None) \<and>
    (\<forall>cr v. lvl (page_down cr) = Some 3 \<longrightarrow> \<not> concerns (CR3 s) va cr v \<longrightarrow> content (mem (MMU_free_page va s)) cr v = content (mem s) cr v)"
proof -
  have sp: "same_page (page_down va) va" by (rule same_page_down) (simp add: page_down_aligned)
  have pe: "p1_entry m cr (page_down va) = p1_entry m cr va" for m cr by (rule p1_entry_same_page [OF sp])
  show ?thesis
  proof (cases "p1_entry (mem s) (CR3 s) va")
    case None
    then have "MMU_free_page va s = s"
      using pe by (simp add: MMU_free_page_def travel_pagetable_def MMU_current_p4_def travel_walk_mode cr3_mask)
    moreover have "content (mem s) (CR3 s) v = None" if "same_page va v" for v
      using None p1_entry_same_page [OF that, of "mem s" "CR3 s"] content_entry(2) by metis
    ultimately show ?thesis using inv None by (auto simp: translate_def)
  next
    case (Some p)
    have "p \<noteq> INVALID_FRAME_ADDR" using walk_not_INVALID Some by (auto simp: p1_entry_def)
    then have f: "MMU_free_page va s = free_empty_tables (page_down va) (clear_page p s)"
      using pe Some by (simp add: MMU_free_page_def travel_pagetable_def MMU_current_p4_def travel_walk_mode cr3_mask clear_page_def Let_def)
    note c = clear_page_ok [OF inv r Some]
    obtain F1 where 1: "vm_inv (clear_page p s) lvl F1" "F \<subseteq> F1" "pte_present (mem s p) \<Longrightarrow> pte_frame (mem s p) \<in> F1" using c(1) by blast
    have cr: "CR3 (clear_page p s) = CR3 s" by (simp add: clear_page_def MMU_pf_free_def Let_def)
    have far: "content (mem (clear_page p s)) cr v = content (mem s) cr v" if "lvl (page_down cr) = Some 3" "\<not> concerns (CR3 s) va cr v" for cr v
      using c(3) [OF that(1)] p1_entry_inj [OF inv r that(1) Some] that(2) by metis
    have "32 \<le> unat (va_index 4 (page_down va)) \<or> (\<exists>v. va_index 4 v = va_index 4 (page_down va) \<and> content (mem (clear_page p s)) (CR3 s) v \<noteq> None)"
      using keep far [OF r] unfolding va_index_page_down [of 4 va, simplified] by (metis concerns_def)
    moreover have "p1_entry (mem (clear_page p s)) (CR3 (clear_page p s)) (page_down va) = Some p" using c(2) [OF r] pe Some cr by simp
    ultimately obtain lvl2 F2 where 2: "vm_inv (MMU_free_page va s) lvl2 F2" "F1 \<subseteq> F2" "\<And>t. lvl t = Some 3 \<Longrightarrow> lvl2 t = Some 3"
      "\<And>cr v. lvl (page_down cr) = Some 3 \<Longrightarrow> content (mem (MMU_free_page va s)) cr v = content (mem (clear_page p s)) cr v"
      using free_tables_ok [OF 1(1), of "page_down va" p] r unfolding f cr by blast
    have "content (mem (MMU_free_page va s)) (CR3 s) v = None" if "same_page va v" for v
      using 2(4) [OF r, of v] c(3) [OF r, of v] p1_entry_same_page [OF that, of "mem s" "CR3 s"] Some by simp
    moreover have "page_down pa \<in> F2" if "translate (mem s) (CR3 s) va = Some pa" for pa
    proof -
      have "pte_present (mem s p)" "pa = pte_frame (mem s p) + (va AND (4096 - 1))" using that Some by (auto simp: translate_def split: if_splits)
      then show ?thesis using page_down_offset [OF pte_frame_aligned, of "pte_addr (mem s p)" va] 1(3) 2(2) by auto
    qed
    ultimately show ?thesis using 1(2) 2 far by (intro exI [of _ lvl2] exI [of _ F2]) auto
  qed
qed

text \<open>
  C15: Unmapping a page of the loaded address space. The page tables stay well formed, the page has no
  content any more, its frame, if it had one, is free, and every page that is not concerned keeps its
  content in every address space. The page is in the user half, or another page of its slot of the
  top-level table is in use; without that the kernel would free a table that other address spaces share.
\<close>

theorem free_page_correct:
  assumes "vm_inv s lvl F" "lvl (page_down (CR3 s)) = Some 3"
    and "32 \<le> unat (va_index 4 va) \<or> (\<exists>v. va_index 4 v = va_index 4 va \<and> \<not> same_page va v \<and> content (mem s) (CR3 s) v \<noteq> None)"
  shows "let s' = MMU_free_page va s in \<exists>lvl' F'. vm_inv s' lvl' F' \<and> F \<subseteq> F' \<and> (\<forall>t. lvl t = Some 3 \<longrightarrow> lvl' t = Some 3) \<and>
    (\<forall>pa. translate (mem s) (CR3 s) va = Some pa \<longrightarrow> page_down pa \<in> F') \<and>
    (\<forall>v. same_page va v \<longrightarrow> content (mem s') (CR3 s) v = None) \<and>
    (\<forall>cr v. lvl (page_down cr) = Some 3 \<longrightarrow> \<not> concerns (CR3 s) va cr v \<longrightarrow> content (mem s') cr v = content (mem s) cr v)"
  unfolding Let_def by (rule free_page_ok [OF assms])

theorem free_page_correct_witness:
  "content (mem (MMU_free_page 0x100000000000 vm_example)) 0x115000 0x100000000000 = None"
proof -
  have "32 \<le> unat (va_index 4 0x100000000000)" by (simp add: va_index_def)
  moreover have "same_page 0x100000000000 0x100000000000" by (simp add: same_page_def)
  ultimately show ?thesis using free_page_correct [OF vm_example_inv(1), of "0x100000000000"] vm_example_inv(2) by (auto simp: Let_def)
qed

end
