(* ===== verification/Segments.thy ===== *)
theory Segments
  imports Program_Loading Unmap
begin

text \<open>
  A segment of a program in its address space: the bounce buffer is taken from the kernel heap and
  given back, the file's bytes are followed by zeros at the addresses of the segment, and every
  address that had a content keeps it.
\<close>

section \<open>The bounce buffer\<close>

lemma unat_va_index4: "unat (va_index 4 a) = unat a div 2 ^ 39 mod 512"
proof -
  have "(0x1FF::u64) = mask 9" by (simp add: mask_eq_exp_minus_1)
  then have "va_index 4 a = take_bit 9 (drop_bit 39 a)" by (simp add: va_index_def take_bit_eq_mask)
  then show ?thesis by (simp add: unat_take_bit_mod drop_bit_eq_div unat_div)
qed

lemma same_page_low:
  assumes "same_page a b" "unat a < 2 ^ 48" "unat b < 2 ^ 48"
  shows "page_down a = page_down b"
proof -
  have "same_page (page_down a) (page_down b)"
    using assms(1) va_index_page_down unfolding same_page_def by simp
  moreover have "page_down a AND (4096 - 1) = 0" "page_down b AND (4096 - 1) = 0" by (simp_all add: page_down_def and.assoc)
  ultimately have "same_loc 0 (0 + page_down a) 0 (0 + page_down b)" by (simp add: same_loc_def concerns_def)
  moreover have "unat (page_down a) < 2 ^ 48" "unat (page_down b) < 2 ^ 48"
    using assms(2,3) page_down_le [of a] page_down_le [of b] by (simp_all add: unat_le_iff)
  ultimately show ?thesis using same_loc_inj [of 0 0 "page_down a" 0 "page_down b"] by blast
qed

lemma pool_for_page: "pool_for 4096 = None"
  by (simp add: pool_for_def pool_sizes_def)

lemma buffers_in_irq: "buffers_in L ps d (CLI s) = buffers_in L ps d s" "buffers_in L ps d (irq_restore b s) = buffers_in L ps d s"
  by (simp_all add: buffers_in_def of_pool_def pool_ptr_def irq_restore_def) (simp_all add: CLI_def STI_def)

text \<open>Two pages at the end of the kernel heap, with the header of the block in their first words.\<close>

definition bounce_at :: "ptr \<Rightarrow> kmem_st \<Rightarrow> bool" where
  "bounce_at a s \<longleftrightarrow> kheap s a = NULL \<and> kheap s (a + 8) = 4096"

lemma heap_extended:
  assumes "heap_ok s Fs M" "same_rest (CLI s) t" "unat (kernel_va s) + 8192 < 2 ^ 63"
  defines "a \<equiv> kernel_va s"
  defines "u \<equiv> t\<lparr>kernel_va := a + 8192, kheap := (kheap t)(a := NULL, a + 8 := 4096)\<rparr>"
  shows "heap_ok u Fs (insert (a, 8192) M)" "live_same M s u" "(a, 8192) \<notin> M"
proof -
  have a: "0 < unat a" "heap_lists s Fs M (unat a)" using assms(1) by (simp_all add: heap_ok_def a_def)
  have vo: "vm_only s t" using vm_only_trans [OF vm_only_irq(1) same_rest_vm_only [OF assms(2)]] .
  have ht: "heap_lists t Fs M (unat a)" using a(2) by (simp add: heap_lists_vm_only [OF vo])
  note big = heap_lists_large [OF ht a(1), of 8192 4096]
  have v: "vm_only (t\<lparr>kheap := (kheap t)(a := NULL, a + 8 := 4096)\<rparr>) u" by (cases t) (simp add: u_def vm_only_def)
  have "unat (a + 8192) = unat a + 8192" using assms(3) by (simp add: a_def unat_word_ariths)
  moreover have "pools u = pools s" using vm_only_kmem(1) [OF vo] by (simp add: u_def)
  ultimately show "heap_ok u Fs (insert (a, 8192) M)"
    using big(1) assms(1,3) a(1) heap_lists_vm_only [OF v] by (simp add: heap_ok_def a_def u_def)
  show "live_same M s u" using big(2) assms(3) vm_only_kmem(3) [OF vo] by (simp add: live_same_def u_def a_def)
  show "(a, 8192) \<notin> M" using heap_listsD(10) [OF a(2), of "(a, 8192)"] by auto
qed

lemma bounce_take:
  assumes "buffers_in L ps d s" "vm_inv s lvl F" "lvl (page_down (CR3 s)) = Some 3" "room 4096 s" "kmalloc PAGE_SIZE s = (p, s')"
  defines "a \<equiv> kernel_va s"
  shows "\<exists>lvl' F' X. vm_inv s' lvl' F' \<and> lvl \<subseteq>\<^sub>m lvl' \<and> F' \<subseteq> F \<and> reserves lvl (CR3 s) X (mem s) (mem s') \<and> X \<subseteq> {a, a + 4096} \<and>
    CR3 s' = CR3 s \<and> live_same L s s' \<and>
    (p = NULL \<and> kernel_va s' = a \<and> buffers_in L ps d s' \<or>
     p = a + 16 \<and> p \<noteq> NULL \<and> kernel_va s' = a + 8192 \<and> (a, 8192) \<notin> L \<and> buffers_in (insert (a, 8192) L) ps d s' \<and> bounce_at a s' \<and> X = {a, a + 4096})"
proof -
  note st = assms(1) [unfolded buffers_in_def, THEN conjunct1]
  have bl: "L \<inter> buffer_blocks ps = {}" "\<forall>p \<in> ps. p \<noteq> NULL \<and> of_pool 5 p s" using assms(1) by (simp_all add: buffers_in_def)
  obtain Fs where h: "heap_ok s Fs (L \<union> buffer_blocks ps)" "\<forall>i < NUM_POOLS. ((\<lambda>_. 0)(5 := d, 1 := 1)) i \<le> length (Fs i)" "\<not> halted s"
    using st by (auto simp: stocked_def)
  obtain r t where d: "demand_pages (CR3 s) (page_run a 2) (CLI s) = (r, t)" by fastforce
  have pr: "page_run a 2 = [a, a + 4096]" by (simp add: page_run_def upt_rec numeral_eq_Suc)
  have inv: "vm_inv (CLI s) lvl F" using assms(2) by simp
  from demand_pages_reserves [OF inv assms(3) d] obtain lvl' F' X where
    1: "vm_inv t lvl' F'" "lvl \<subseteq>\<^sub>m lvl'" "F' \<subseteq> F" "reserves lvl (CR3 s) X (mem s) (mem t)"
      "r = 0 \<and> X = {a, a + 4096} \<or> r = -1 \<and> X \<subseteq> {a, a + 4096}" unfolding pr by auto
  have sr: "same_rest (CLI s) t" using same_rest_demand_pages [of "CLI s" "CR3 s" "page_run a 2"] d by simp
  note rest = same_restD [OF sr]
  have f: "CR3 t = CR3 s" "kernel_va t = a" "\<not> IF_flag t" "halted t = halted s" using rest by (simp_all add: CLI_def a_def)
  have bt: "buffers_in L ps d t" "live_same L s t" using buffers_same_rest [OF sr] assms(1) by (simp_all add: buffers_in_irq)
  have bp: "best_pool (CLI s) (4096 + sizeof_kmalloc_extra) = None" using best_pool_for [OF h(1)] pool_for_page by simp
  have ap: "MMU_alloc_pages 2 (CLI s) = (if r < 0 then (NULL, t) else (a, t\<lparr>kernel_va := a + 8192\<rparr>))"
    using d f(2) by (simp add: MMU_alloc_pages_def MMU_current_p4_def Let_def CLI_def a_def are_interrupts_enabled_def irq_restore_def)
  have a: "0 < unat a" "unat a + 8192 < 2 ^ 63" using h(1) assms(4) by (simp_all add: heap_ok_def a_def room_def)
  define u where "u = t\<lparr>kernel_va := a + 8192, kheap := (kheap t)(a := NULL, a + 8 := 4096)\<rparr>"
  have km: "kmalloc PAGE_SIZE s = (if r < 0 then (NULL, t) else (a + 16, irq_restore (are_interrupts_enabled s) u))"
    using bp ap a(1) by (auto simp: kmalloc_def Let_def kmalloc_finish_def sizeof_kmalloc_extra_def u_def)
  show ?thesis
  proof (cases "r < 0")
    case True
    then have "p = NULL" "s' = t" "X \<subseteq> {a, a + 4096}" using assms(5) km 1(5) by auto
    then show ?thesis using 1(1-4) f(1,2) bt by blast
  next
    case False
    then have ps: "p = a + 16" "s' = irq_restore (are_interrupts_enabled s) u" "X = {a, a + 4096}" using assms(5) km 1(5) by auto
    have ua: "unat (a + 16) = unat a + 16" "unat (a + 8192) = unat a + 8192" using a(2) by (simp_all add: unat_word_ariths)
    note x = heap_extended [OF h(1) sr, folded a_def, folded u_def, OF a(2)]
    have "stocked ((\<lambda>_. 0)(5 := d, 1 := 1)) u (insert (a, 8192) L \<union> buffer_blocks ps)"
      unfolding stocked_def using x(1) h(2,3) f(4) by (intro conjI exI [of _ Fs]) (simp_all add: u_def)
    moreover have "pools_at u = pools_at s" using vm_only_kmem [OF vm_only_trans [OF vm_only_irq(1) same_rest_vm_only [OF sr]]] by (simp add: u_def)
    then have "of_pool 5 q u" if "q \<in> ps" for q
      using of_pool_kept [OF st subset_refl x(2)] bl(2) that buffer_block_in by blast
    ultimately have "buffers_in (insert (a, 8192) L) ps d u" using bl x(3) by (simp add: buffers_in_def)
    moreover have "a + 8 \<noteq> a" by simp
    then have "bounce_at a s'" by (simp add: bounce_at_def ps(2) u_def irq_restore_def STI_def)
    moreover have "vm_inv s' lvl' F'" using 1(1) by (simp add: ps(2) u_def vm_inv_def avail_def pf_inv_def irq_restore_def STI_def)
    moreover have "live_same L s s'" using live_same_subset [OF x(2), of L] ps(2) by simp
    moreover have "mem s' = mem t" "CR3 s' = CR3 s" "kernel_va s' = a + 8192" using f(1) by (simp_all add: ps(2) u_def irq_restore_def STI_def)
    moreover have "p \<noteq> NULL" using ua(1) ps(1) by auto
    ultimately show ?thesis
      using 1(2-4) ps x(3) by (intro exI [of _ lvl'] exI [of _ F'] exI [of _ X]) (simp add: buffers_in_irq)
  qed
qed

lemma buffers_in_drop:
  assumes "buffers_in (insert r L) ps d s" "r \<notin> L"
  shows "buffers_in L ps d s"
proof -
  have "(insert r L \<union> buffer_blocks ps) - {r} = L \<union> buffer_blocks ps" using assms by (auto simp: buffers_in_def)
  moreover have "heap_ok s Fs (M - {r})" if "heap_ok s Fs M" for Fs M using that heap_lists_remove by (auto simp: heap_ok_def)
  ultimately have "stocked c s (L \<union> buffer_blocks ps)" if "stocked c s (insert r L \<union> buffer_blocks ps)" for c
    using that unfolding stocked_def by metis
  then show ?thesis using assms(1) by (auto simp: buffers_in_def)
qed

text \<open>A page of the kernel half that keeps the tables above two others in use.\<close>

definition keeper :: "u64 \<Rightarrow> u64 \<Rightarrow> kmem_st \<Rightarrow> bool" where
  "keeper a v s \<longleftrightarrow> va_index 4 v = va_index 4 a \<and> va_index 4 v = va_index 4 (a + 4096) \<and> \<not> same_page a v \<and> \<not> same_page (a + 4096) v \<and>
     content (mem s) (CR3 s) v \<noteq> None"

lemma free_two:
  assumes "vm_inv s lvl F" "lvl (page_down (CR3 s)) = Some 3" "keeper a v s"
  defines "s' \<equiv> MMU_free_page (a + 4096) (MMU_free_page a s)"
  shows "\<exists>lvl' F'. vm_inv s' lvl' F' \<and> F \<subseteq> F' \<and> (\<forall>t. lvl t = Some 3 \<longrightarrow> lvl' t = Some 3) \<and>
    (\<forall>cr w. lvl (page_down cr) = Some 3 \<longrightarrow> \<not> concerns (CR3 s) a cr w \<longrightarrow> \<not> concerns (CR3 s) (a + 4096) cr w \<longrightarrow>
       content (mem s') cr w = content (mem s) cr w)"
proof -
  note k = assms(3) [unfolded keeper_def]
  define s1 where "s1 = MMU_free_page a s"
  from free_page_ok [OF assms(1,2), of a] k obtain lvl1 F1 where
    1: "vm_inv s1 lvl1 F1" "F \<subseteq> F1" "\<And>t. lvl t = Some 3 \<Longrightarrow> lvl1 t = Some 3"
      "\<And>cr w. lvl (page_down cr) = Some 3 \<Longrightarrow> \<not> concerns (CR3 s) a cr w \<Longrightarrow> content (mem s1) cr w = content (mem s) cr w"
    unfolding s1_def by blast
  have c: "CR3 s1 = CR3 s" using same_restD(4) [OF same_rest_free_page] by (simp add: s1_def)
  have r: "lvl1 (page_down (CR3 s1)) = Some 3" using 1(3) [OF assms(2)] c by simp
  have "content (mem s1) (CR3 s1) v \<noteq> None" using 1(4) [OF assms(2), of v] k c by (simp add: concerns_def)
  then have "\<exists>v. va_index 4 v = va_index 4 (a + 4096) \<and> \<not> same_page (a + 4096) v \<and> content (mem s1) (CR3 s1) v \<noteq> None" using k by blast
  from free_page_ok [OF 1(1) r disjI2 [OF this], folded s1_def] obtain lvl2 F2 where
    2: "vm_inv s' lvl2 F2" "F1 \<subseteq> F2" "\<And>t. lvl1 t = Some 3 \<Longrightarrow> lvl2 t = Some 3"
      "\<And>cr w. lvl1 (page_down cr) = Some 3 \<Longrightarrow> \<not> concerns (CR3 s) (a + 4096) cr w \<Longrightarrow> content (mem s') cr w = content (mem s1) cr w"
    unfolding s'_def s1_def [symmetric] c by blast
  then show ?thesis using 1 by (intro exI [of _ lvl2] exI [of _ F2]) auto
qed

lemma bounce_give:
  assumes "buffers_in (insert (a, 8192) L) ps d s" "(a, 8192) \<notin> L" "bounce_at a s" "vm_inv s lvl F" "lvl (page_down (CR3 s)) = Some 3"
    "page_aligned a" "keeper a v s"
  defines "s' \<equiv> kfree (a + 16) s"
  shows "\<exists>lvl' F'. vm_inv s' lvl' F' \<and> F \<subseteq> F' \<and> (\<forall>t. lvl t = Some 3 \<longrightarrow> lvl' t = Some 3) \<and> buffers_in L ps d s' \<and> live_same L s s' \<and>
    CR3 s' = CR3 s \<and> kernel_va s' = kernel_va s \<and>
    (\<forall>cr w. lvl (page_down cr) = Some 3 \<longrightarrow> \<not> concerns (CR3 s) a cr w \<longrightarrow> \<not> concerns (CR3 s) (a + 4096) cr w \<longrightarrow>
       content (mem s') cr w = content (mem s) cr w)"
proof -
  obtain Fs where "heap_lists s Fs (insert (a, 8192) L \<union> buffer_blocks ps) (unat (kernel_va s))"
    using assms(1) by (auto simp: buffers_in_def stocked_def heap_ok_def)
  from heap_listsD(5) [OF this] heap_listsD(10) [OF this, of "(a, 8192)"] have "unat a + 8192 < 2 ^ 63" by simp
  then have "unat (a + 16) = unat a + 16" by (simp add: unat_word_ariths)
  then have nz: "a + 16 \<noteq> NULL" by auto
  have al: "a AND PAGE_MASK = a" using assms(6) by (simp add: cr3_mask page_down_aligned)
  have pr: "page_run a 2 = [a, a + 4096]" by (simp add: page_run_def upt_rec numeral_eq_Suc)
  define t where "t = MMU_free_page (a + 4096) (MMU_free_page a (CLI s))"
  have s': "s' = irq_restore (are_interrupts_enabled s) t"
    using nz assms(3) al pr by (simp add: s'_def kfree_def Let_def bounce_at_def sizeof_kmalloc_extra_def CLI_def MMU_free_pages_def t_def)
  have "same_rest (CLI s) t" unfolding t_def by (rule same_rest_trans [OF same_rest_free_page same_rest_free_page])
  then have sr: "same_rest s s'" unfolding s' by (rule same_rest_irq)
  have "keeper a v (CLI s) = keeper a v s" by (simp add: keeper_def CLI_def)
  then have inv: "vm_inv (CLI s) lvl F" "keeper a v (CLI s)" using assms(4,7) by simp_all
  from free_two [OF inv(1) _ inv(2)] assms(5) obtain lvl' F' where
    2: "vm_inv t lvl' F'" "F \<subseteq> F'" "\<And>t. lvl t = Some 3 \<Longrightarrow> lvl' t = Some 3"
      "\<And>cr w. lvl (page_down cr) = Some 3 \<Longrightarrow> \<not> concerns (CR3 s) a cr w \<Longrightarrow> \<not> concerns (CR3 s) (a + 4096) cr w \<Longrightarrow>
         content (mem t) cr w = content (mem s) cr w"
    unfolding t_def [symmetric] by (auto simp: CLI_def)
  have "vm_inv s' lvl' F'" "mem s' = mem t" using 2(1) s' by simp_all
  moreover have "buffers_in L ps d s'" "live_same L s s'"
    using buffers_same_rest [OF sr buffers_in_drop [OF assms(1,2)]] by simp_all
  ultimately show ?thesis using 2 same_restD(3,4) [OF sr] by (intro exI [of _ lvl'] exI [of _ F']) auto
qed

section \<open>Filling a segment\<close>

text \<open>What a segment's addresses hold once it is loaded.\<close>

definition segment_byte :: "(nat \<Rightarrow> u8) \<Rightarrow> ELF64_prog_head \<Rightarrow> nat \<Rightarrow> u8" where
  "segment_byte bytes ph i = (if i < unat (file_size ph) then bytes (unat (file_offset ph) + i) else 0)"

definition loaded :: "(nat \<Rightarrow> u8) \<Rightarrow> ELF64_prog_head \<Rightarrow> u64 \<Rightarrow> phys \<Rightarrow> bool" where
  "loaded bytes ph p4 m \<longleftrightarrow> holds p4 (load_addr ph) 0 (unat (mem_size ph)) (segment_byte bytes ph) m"

text \<open>A segment of a file of \<open>len\<close> bytes that lies in the user half of the address space.\<close>

definition segment_ok :: "u32 \<Rightarrow> ELF64_prog_head \<Rightarrow> bool" where
  "segment_ok len ph \<longleftrightarrow> 2 ^ 44 \<le> unat (load_addr ph) \<and> unat (load_addr ph) + unat (mem_size ph) + 4096 \<le> 2 ^ 47 \<and>
     unat (mem_size ph) < 2 ^ 42 \<and> file_size ph \<le> mem_size ph \<and> unat (file_offset ph) + unat (file_size ph) \<le> unat len"

text \<open>The part of \<open>elf_load_segment\<close> behind the allocation of the bounce buffer.\<close>

definition fill_segment :: "ext2_driver \<Rightarrow> file_st \<Rightarrow> ELF64_prog_head \<Rightarrow> u64 \<Rightarrow> ptr \<Rightarrow> kmem_st \<Rightarrow> (int \<times> file_st \<times> kmem_st) option" where
  "fill_segment drv f ph p4 bounce s = do {
     (r, f, s) \<leftarrow> copy_segment drv p4 bounce (file_size ph) (load_addr ph) f s;
     if r < 0 then Some (-1, f, s)
     else let (r, s) = (if mem_size ph > file_size ph
                        then MMU_zero_user_as p4 (load_addr ph + file_size ph) (mem_size ph - file_size ph) s else (0, s))
          in if r < 0 then Some (-1, f, kfree bounce s) else Some (0, f, kfree bounce s)
   }"

lemma load_segment_fill:
  "elf_load_segment drv f ph p4 s =
     (let (va, s) = MMU_alloc_at_as p4 (load_addr ph) (mem_size ph) s
      in if va = NULL then Some (-1, f, s)
         else do {
           f \<leftarrow> elf_seek f (file_offset ph);
           let (bounce, s) = (if file_size ph > 0 then kmalloc PAGE_SIZE s else (NULL, s));
           if file_size ph > 0 \<and> bounce = NULL then Some (-1, f, s) else fill_segment drv f ph p4 bounce s
         })"
  unfolding elf_load_segment_def fill_segment_def by (rule refl)

lemma copied:
  assumes "mounted img lba drv" "buffers_in L ps (Suc (Suc d)) s" "f_inode f = Some inode" "100 \<le> length (i_priv inode)" "i_size inode \<le> 67383296"
    "vm_inv s lvl F" "lvl (page_down p4) = Some 3" "segment_ok (i_size inode) ph" "f_offset f = file_offset ph"
    "bounce = NULL \<longrightarrow> file_size ph = 0"
  defines "g \<equiv> segment_byte (file_byte (volume img lba) (i_priv inode)) ph"
  shows "\<exists>r s' F' f'. copy_segment drv p4 bounce (file_size ph) (load_addr ph) f s = Some (r, f', if r = 0 then s' else kfree bounce s') \<and>
    same_file f f' \<and> vm_inv s' lvl F' \<and> F' \<subseteq> F \<and> buffers_in L ps (Suc (Suc d)) s' \<and> live_same L s s' \<and> CR3 s' = CR3 s \<and> kernel_va s' = kernel_va s \<and>
    write_done lvl p4 (load_addr ph) 0 (unat (file_size ph)) g r F' (mem s) (mem s')"
proof (cases "bounce = NULL")
  case True
  then have "file_size ph = 0" using assms(10) by simp
  moreover from this have "copy_segment drv p4 bounce (file_size ph) (load_addr ph) f s = Some (0, f, s)" by (subst copy_segment.simps) simp
  ultimately show ?thesis using assms(2,3,6) untouched_refl
    by (intro exI [of _ 0] exI [of _ s] exI [of _ F] exI [of _ f]) (simp add: write_done_def holds_def live_same_def same_file_def)
next
  case False
  note ok = assms(8) [unfolded segment_ok_def]
  have off: "unat (f_offset f) = unat (file_offset ph)" by (simp add: assms(9))
  have fs: "unat (file_size ph) \<le> unat (mem_size ph)" using ok by (simp add: unat_le_iff)
  have b: "unat (f_offset f) + unat (file_size ph) \<le> unat (i_size inode)" "0 + unat (file_size ph) \<le> 2 ^ 48" using ok off fs by simp_all
  have "holds p4 (load_addr ph) 0 (unat (file_size ph)) (\<lambda>i. file_byte (volume img lba) (i_priv inode) (unat (f_offset f) + (i - 0))) m =
      holds p4 (load_addr ph) 0 (unat (file_size ph)) g m" for m
    by (rule holds_cong) (simp add: g_def segment_byte_def off)
  then have "write_done lvl p4 (load_addr ph) 0 (unat (file_size ph)) (\<lambda>i. file_byte (volume img lba) (i_priv inode) (unat (f_offset f) + (i - 0))) r F' m m' =
      write_done lvl p4 (load_addr ph) 0 (unat (file_size ph)) g r F' m m'" for r F' m m'
    by (simp only: write_done_def)
  then show ?thesis
    using copy_segment_done [OF assms(1-7) False b, of "load_addr ph"] by (simp only: semiring_1_class.of_nat_0 add_0_right add_0_left)
qed

lemma seek_ok:
  assumes "f_inode f = Some inode" "unat pos \<le> unat (i_size inode)" "i_size inode \<le> 67383296"
  shows "elf_seek f pos = Some (f\<lparr>f_offset := pos\<rparr>)"
proof -
  have p: "unat pos < 2 ^ 31" using assms(2,3) by (simp add: unat_le_iff)
  then have s: "sint (ucast pos :: u32) = int (unat pos)" using sint_ucast_small by blast
  have "(of_int (int (unat pos)) :: u64) = pos" by simp
  moreover have "unat (ucast pos :: u32) = unat pos" using p by (simp add: unsigned_ucast_eq take_bit_nat_eq_self)
  then have "unat (of_int (int (unat pos)) :: u32) = unat pos" by simp
  ultimately show ?thesis using assms(1,2) unfolding elf_seek_def ext2_file_lseek_def s by (simp add: unat_less_iff)
qed

lemma filled:
  assumes "mounted img lba drv" "buffers_in L ps (Suc (Suc d)) s" "f_inode f = Some inode" "100 \<le> length (i_priv inode)" "i_size inode \<le> 67383296"
    "vm_inv s lvl F" "lvl (page_down p4) = Some 3" "segment_ok (i_size inode) ph" "f_offset f = file_offset ph"
    "bounce = NULL \<longrightarrow> file_size ph = 0"
  defines "bytes \<equiv> file_byte (volume img lba) (i_priv inode)"
  shows "\<exists>r s' F' f'. fill_segment drv f ph p4 bounce s = Some (r, f', kfree bounce s') \<and> (r = 0 \<or> r = -1) \<and>
    same_file f f' \<and> vm_inv s' lvl F' \<and> F' \<subseteq> F \<and> buffers_in L ps (Suc (Suc d)) s' \<and> live_same L s s' \<and> CR3 s' = CR3 s \<and> kernel_va s' = kernel_va s \<and>
    untouched lvl p4 (load_addr ph) 0 (unat (mem_size ph)) (mem s) (mem s') \<and> (r = 0 \<longrightarrow> loaded bytes ph p4 (mem s'))"
proof -
  let ?g = "segment_byte bytes ph" and ?base = "load_addr ph" and ?n = "unat (file_size ph)" and ?m = "unat (mem_size ph)"
  have le: "?n \<le> ?m" "?m \<le> 2 ^ 48" using assms(8) by (simp_all add: segment_ok_def unat_le_iff)
  obtain r s1 F1 f1 where 1: "copy_segment drv p4 bounce (file_size ph) ?base f s = Some (r, f1, if r = 0 then s1 else kfree bounce s1)"
    "same_file f f1" "vm_inv s1 lvl F1" "F1 \<subseteq> F" "buffers_in L ps (Suc (Suc d)) s1" "live_same L s s1" "CR3 s1 = CR3 s" "kernel_va s1 = kernel_va s"
    "write_done lvl p4 ?base 0 ?n ?g r F1 (mem s) (mem s1)"
    using copied [OF assms(1-10)] unfolding bytes_def by blast
  have u1: "untouched lvl p4 ?base 0 ?n (mem s) (mem s1)" using 1(9) by (simp add: write_done_def)
  show ?thesis
  proof (cases "r = 0")
    case False
    then have "r = -1" using 1(9) by (simp add: write_done_def)
    moreover have "untouched lvl p4 ?base 0 ?m (mem s) (mem s1)" using u1 le(1) unfolding untouched_def by auto
    ultimately show ?thesis using 1 by (intro exI [of _ "-1"] exI [of _ s1] exI [of _ F1] exI [of _ f1]) (simp add: fill_segment_def)
  next
    case True
    have h1: "holds p4 ?base 0 ?n ?g (mem s1)" using 1(9) True by (simp add: write_done_def)
    obtain r2 s2 where z: "(if mem_size ph > file_size ph then MMU_zero_user_as p4 (?base + file_size ph) (mem_size ph - file_size ph) s1 else (0, s1)) = (r2, s2)"
      by fastforce
    have "\<exists>F2. vm_inv s2 lvl F2 \<and> F2 \<subseteq> F1 \<and> same_rest s1 s2 \<and> write_done lvl p4 ?base ?n ?m (\<lambda>_. 0) r2 F2 (mem s1) (mem s2)"
    proof (cases "mem_size ph > file_size ph")
      case True
      have sub: "?n + unat (mem_size ph - file_size ph) = ?m" using True le(1) by (simp add: unat_sub less_imp_le)
      have z2: "MMU_zero_user_as p4 (?base + of_nat ?n) (mem_size ph - file_size ph) s1 = (r2, s2)" using z True by simp
      show ?thesis using zero_done [OF 1(3) assms(7) _ z2] sub le(2) by simp
    next
      case False
      then have "?n = ?m" using le(1) by (simp add: unat_less_iff)
      then show ?thesis using z False 1(3) untouched_refl by (intro exI [of _ F1]) (auto simp: write_done_def holds_def)
    qed
    then obtain F2 where 2: "vm_inv s2 lvl F2" "F2 \<subseteq> F1" "same_rest s1 s2" "write_done lvl p4 ?base ?n ?m (\<lambda>_. 0) r2 F2 (mem s1) (mem s2)" by blast
    have w: "write_done lvl p4 ?base 0 ?m ?g r2 F2 (mem s) (mem s2)"
      by (rule done_join [OF u1 h1 2(4) assms(7) _ le]) (simp_all add: segment_byte_def)
    have "fill_segment drv f ph p4 bounce s = Some (if r2 < 0 then -1 else 0, f1, kfree bounce s2)"
      using 1(1) True z by (simp add: fill_segment_def)
    moreover have "r2 = 0 \<or> r2 = -1" using w by (auto simp: write_done_def split: if_splits)
    ultimately show ?thesis
      using 1(2,4-8) 2(1,2) w buffers_same_rest [OF 2(3) 1(5)] live_same_trans [OF 1(6)] same_restD(3,4) [OF 2(3)]
      by (intro exI [of _ r2] exI [of _ s2] exI [of _ F2] exI [of _ f1]) (auto simp: write_done_def loaded_def)
  qed
qed

section \<open>Loading a segment\<close>

text \<open>
  What the loader needs to go on: the buffers of the file system, well-formed page tables with both
  roots, and a kernel heap with room for \<open>n\<close> more bounce buffers in the same slot of the top-level
  table as some page that is in use.
\<close>

definition heap_window :: "nat \<Rightarrow> kmem_st \<Rightarrow> bool" where
  "heap_window n s \<longleftrightarrow> page_aligned (kernel_va s) \<and> unat (kernel_va s) + n * 8192 + 12288 \<le> 2 ^ 42 \<and>
     (\<exists>v. unat v < unat (kernel_va s) \<and> unat v div 2 ^ 39 = (unat (kernel_va s) + n * 8192) div 2 ^ 39 \<and> content (mem s) (CR3 s) v \<noteq> None)"

definition loader_ok :: "(ptr \<times> nat) set \<Rightarrow> ptr set \<Rightarrow> nat \<Rightarrow> nat \<Rightarrow> u64 \<Rightarrow> kmem_st \<Rightarrow> levels \<Rightarrow> u64 set \<Rightarrow> bool" where
  "loader_ok L ps d n p4 s lvl F \<longleftrightarrow> buffers_in L ps (Suc (Suc d)) s \<and> vm_inv s lvl F \<and> lvl (page_down (CR3 s)) = Some 3 \<and>
     lvl (page_down p4) = Some 3 \<and> heap_window n s"

text \<open>
  Contents that are kept: those of the loaded address space and those of the user half of every
  other one, except for the places \<open>E\<close>.
\<close>

definition keeps :: "levels \<Rightarrow> u64 \<Rightarrow> (u64 \<Rightarrow> u64 \<Rightarrow> bool) \<Rightarrow> phys \<Rightarrow> phys \<Rightarrow> bool" where
  "keeps lvl cr0 E m m' \<longleftrightarrow> (\<forall>cr v b. lvl (page_down cr) = Some 3 \<longrightarrow> cr = cr0 \<or> 32 \<le> unat (va_index 4 v) \<longrightarrow> \<not> E cr v \<longrightarrow>
     content m cr v = Some b \<longrightarrow> content m' cr v = Some b)"

definition in_segment :: "u64 \<Rightarrow> ELF64_prog_head \<Rightarrow> u64 \<Rightarrow> u64 \<Rightarrow> bool" where
  "in_segment p4 ph cr v \<longleftrightarrow> (\<exists>i < unat (mem_size ph). same_loc p4 (load_addr ph + of_nat i) cr v)"

lemma kernel_index: "unat v < 2 ^ 42 \<Longrightarrow> unat (va_index 4 v) < 32"
  using div_le_mono [of "unat v" "2 ^ 42" "2 ^ 39"] by (simp add: unat_va_index4)

lemma user_index: "2 ^ 44 \<le> unat v \<Longrightarrow> unat v < 2 ^ 47 \<Longrightarrow> 32 \<le> unat (va_index 4 v)"
  using div_le_mono [of "2 ^ 44" "unat v" "2 ^ 39"] div_le_mono [of "unat v" "2 ^ 47 - 1" "2 ^ 39"] by (simp add: unat_va_index4)

lemma segment_index:
  assumes "segment_ok len ph" "i < unat (mem_size ph)"
  shows "32 \<le> unat (va_index 4 (load_addr ph + of_nat i))"
proof (rule user_index)
  have "unat (of_nat i :: u64) = i" using assms by (intro unat_of_nat64) (simp add: segment_ok_def)
  then have "unat (load_addr ph + of_nat i) = unat (load_addr ph) + i" using assms by (simp add: segment_ok_def unat_plus_if')
  then show "2 ^ 44 \<le> unat (load_addr ph + of_nat i)" "unat (load_addr ph + of_nat i) < 2 ^ 47" using assms by (simp_all add: segment_ok_def)
qed

lemma kernel_not_segment: "segment_ok len ph \<Longrightarrow> unat (va_index 4 v) < 32 \<Longrightarrow> \<not> in_segment p4 ph cr v"
  using segment_index by (fastforce simp: in_segment_def same_loc_def concerns_def same_page_def)

lemma between_div: "(x::nat) \<le> y \<Longrightarrow> y \<le> z \<Longrightarrow> x div k = z div k \<Longrightarrow> y div k = x div k"
  using div_le_mono by (metis antisym)

lemma window_keeper:
  assumes "page_aligned a" "unat a + 8192 + k + 4096 \<le> 2 ^ 42" "unat v < unat a" "unat v div 2 ^ 39 = (unat a + 8192 + k) div 2 ^ 39"
  shows "va_index 4 v = va_index 4 a" "va_index 4 v = va_index 4 (a + 4096)" "\<not> same_page a v" "\<not> same_page (a + 4096) v"
proof -
  have b: "unat (a + 4096) = unat a + 4096" using assms(2) by (simp add: unat_word_ariths)
  have "unat a div 2 ^ 39 = unat v div 2 ^ 39" "(unat a + 4096) div 2 ^ 39 = unat v div 2 ^ 39"
    by (rule between_div [OF _ _ assms(4)]; use assms(3) in simp)+
  then show "va_index 4 v = va_index 4 a" "va_index 4 v = va_index 4 (a + 4096)" by (simp_all add: word_unat_eq_iff unat_va_index4 b)
  have al: "page_down a = a" "page_down (a + 4096) = a + 4096" using assms(1,2) by (simp_all add: page_down_aligned page_aligned_def b)
  have no: "\<not> same_page c v" if c: "page_down c = c" "unat v < unat c" "unat c < 2 ^ 48" for c
  proof
    assume "same_page c v"
    from same_page_low [OF this c(3)] c have "unat c \<le> unat v" using page_down_le [of v] by (simp add: unat_le_iff)
    then show False using c(2) by simp
  qed
  show "\<not> same_page a v" "\<not> same_page (a + 4096) v" using no [OF al(1)] no [OF al(2)] assms(2,3) b by simp_all
qed

lemma window_step:
  assumes "heap_window (Suc n) s" "CR3 s' = CR3 s" "kernel_va s' = kernel_va s \<or> kernel_va s' = kernel_va s + 8192"
    "\<And>v. unat v < 2 ^ 42 \<Longrightarrow> content (mem s) (CR3 s) v \<noteq> None \<Longrightarrow> content (mem s') (CR3 s) v \<noteq> None"
  shows "heap_window n s'"
proof -
  let ?a = "kernel_va s"
  obtain v where v: "page_aligned ?a" "unat ?a + Suc n * 8192 + 12288 \<le> 2 ^ 42" "unat v < unat ?a"
    "unat v div 2 ^ 39 = (unat ?a + Suc n * 8192) div 2 ^ 39" "content (mem s) (CR3 s) v \<noteq> None"
    using assms(1) by (auto simp: heap_window_def)
  have c: "content (mem s') (CR3 s') v \<noteq> None" using assms(2,4) v(2,3,5) by simp
  have "unat (?a + 8192) = unat ?a + 8192" using v(2) by (simp add: unat_word_ariths)
  moreover from this have "page_aligned (?a + 8192)" using v(1) by (simp add: page_aligned_def)
  moreover have "(unat ?a + n * 8192) div 2 ^ 39 = unat v div 2 ^ 39" by (rule between_div [OF _ _ v(4)]) (use v(3) in simp_all)
  ultimately show ?thesis using v assms(3) c unfolding heap_window_def by (elim disjE) (auto intro!: exI [of _ v] simp: algebra_simps)
qed

lemma reserves_keeps: "reserves lvl p4 X m m' \<Longrightarrow> keeps lvl cr0 E m m'"
  using reservesD(1) unfolding keeps_def by blast

lemma untouched_keeps: "untouched lvl p4 (load_addr ph) 0 (unat (mem_size ph)) m m' \<Longrightarrow> keeps lvl cr0 (in_segment p4 ph) m m'"
  unfolding untouched_def keeps_def in_segment_def by (metis le0)

lemma keeps_trans:
  assumes "keeps lvl cr0 E m m1" "keeps lvl1 cr0 E m1 m2" "\<And>t. lvl t = Some 3 \<Longrightarrow> lvl1 t = Some 3"
  shows "keeps lvl cr0 E m m2"
  using assms unfolding keeps_def by blast

lemma keeps_window:
  assumes "keeps lvl (CR3 s) (in_segment p4 ph) (mem s) (mem s')" "segment_ok len ph" "lvl (page_down (CR3 s)) = Some 3" "unat v < 2 ^ 42"
    "content (mem s) (CR3 s) v \<noteq> None"
  shows "content (mem s') (CR3 s) v \<noteq> None"
  using assms(1,3,5) kernel_not_segment [OF assms(2) kernel_index [OF assms(4)]] unfolding keeps_def by blast

text \<open>Giving the bounce buffer back after the segment has been filled.\<close>

lemma bounce_done:
  assumes "buffers_in (insert (a, 8192) L) ps (Suc (Suc d)) s" "(a, 8192) \<notin> L" "bounce_at a s" "vm_inv s lvl F" "lvl (page_down (CR3 s)) = Some 3"
    "page_aligned a" "keeper a v s" "unat a + 4096 < 2 ^ 42"
    and fresh: "\<And>w. same_page a w \<or> same_page (a + 4096) w \<Longrightarrow> content m0 (CR3 s) w = None"
    and keeps: "keeps lvl0 (CR3 s) E m0 (mem s)" and roots: "\<And>t. lvl0 t = Some 3 \<Longrightarrow> lvl t = Some 3"
  defines "s' \<equiv> kfree (a + 16) s"
  shows "\<exists>lvl' F'. vm_inv s' lvl' F' \<and> F \<subseteq> F' \<and> (\<forall>t. lvl t = Some 3 \<longrightarrow> lvl' t = Some 3) \<and> buffers_in L ps (Suc (Suc d)) s' \<and> live_same L s s' \<and>
    CR3 s' = CR3 s \<and> kernel_va s' = kernel_va s \<and> keeps lvl0 (CR3 s) E m0 (mem s') \<and>
    (\<forall>cr w. lvl (page_down cr) = Some 3 \<longrightarrow> 32 \<le> unat (va_index 4 w) \<longrightarrow> content (mem s') cr w = content (mem s) cr w)"
proof -
  have b: "unat (a + 4096) = unat a + 4096" using assms(8) by (simp add: unat_word_ariths)
  have user: "\<not> concerns (CR3 s) a cr w \<and> \<not> concerns (CR3 s) (a + 4096) cr w" if "32 \<le> unat (va_index 4 w)" for cr w
    using that kernel_index [of a] kernel_index [of "a + 4096"] assms(8) b by (auto simp: concerns_def same_page_def)
  from bounce_give [OF assms(1-7)] obtain lvl' F' where
    g: "vm_inv s' lvl' F'" "F \<subseteq> F'" "\<And>t. lvl t = Some 3 \<Longrightarrow> lvl' t = Some 3" "buffers_in L ps (Suc (Suc d)) s'" "live_same L s s'"
      "CR3 s' = CR3 s" "kernel_va s' = kernel_va s"
      "\<And>cr w. lvl (page_down cr) = Some 3 \<Longrightarrow> \<not> concerns (CR3 s) a cr w \<Longrightarrow> \<not> concerns (CR3 s) (a + 4096) cr w \<Longrightarrow>
         content (mem s') cr w = content (mem s) cr w"
    unfolding s'_def by blast
  have "keeps lvl0 (CR3 s) E m0 (mem s')"
    unfolding keeps_def
  proof (intro allI impI)
    fix cr w b assume r: "lvl0 (page_down cr) = Some 3" and c: "cr = CR3 s \<or> 32 \<le> unat (va_index 4 w)" and e: "\<not> E cr w" and m: "content m0 cr w = Some b"
    have "\<not> concerns (CR3 s) a cr w \<and> \<not> concerns (CR3 s) (a + 4096) cr w"
      using c user fresh [of w] m by (auto simp: concerns_def)
    then show "content (mem s') cr w = Some b" using g(8) [OF roots [OF r]] keeps r c e m unfolding keeps_def by metis
  qed
  then show ?thesis using g user by (intro exI [of _ lvl'] exI [of _ F']) auto
qed

text \<open>The part of \<open>elf_load_segment\<close> behind the seek.\<close>

definition load_rest :: "ext2_driver \<Rightarrow> file_st \<Rightarrow> ELF64_prog_head \<Rightarrow> u64 \<Rightarrow> kmem_st \<Rightarrow> (int \<times> file_st \<times> kmem_st) option" where
  "load_rest drv f ph p4 s =
     (let (bounce, s) = (if file_size ph > 0 then kmalloc PAGE_SIZE s else (NULL, s))
      in if file_size ph > 0 \<and> bounce = NULL then Some (-1, f, s) else fill_segment drv f ph p4 bounce s)"

definition rest_done :: "(nat \<Rightarrow> u8) \<Rightarrow> file_st \<Rightarrow> (ptr \<times> nat) set \<Rightarrow> ptr set \<Rightarrow> nat \<Rightarrow> nat \<Rightarrow> u64 \<Rightarrow> ELF64_prog_head \<Rightarrow> kmem_st \<Rightarrow> levels \<Rightarrow> (int \<times> file_st \<times> kmem_st) option \<Rightarrow> bool" where
  "rest_done bytes f L ps d n p4 ph s lvl res \<longleftrightarrow> (\<exists>r f' s' lvl' F'. res = Some (r, f', s') \<and> (r = 0 \<or> r = -1) \<and> same_file f f' \<and>
     loader_ok L ps d n p4 s' lvl' F' \<and> (\<forall>t. lvl t = Some 3 \<longrightarrow> lvl' t = Some 3) \<and> live_same L s s' \<and> CR3 s' = CR3 s \<and>
     keeps lvl (CR3 s) (in_segment p4 ph) (mem s) (mem s') \<and> (r = 0 \<longrightarrow> loaded bytes ph p4 (mem s')))"

lemma rest_no_buffer:
  assumes "mounted img lba drv" "loader_ok L ps d (Suc n) p4 s lvl F" "f_inode f = Some inode" "100 \<le> length (i_priv inode)" "i_size inode \<le> 67383296"
    "segment_ok (i_size inode) ph" "f_offset f = file_offset ph" "file_size ph = 0"
  shows "rest_done (file_byte (volume img lba) (i_priv inode)) f L ps d n p4 ph s lvl (load_rest drv f ph p4 s)"
proof -
  note ok = assms(2) [unfolded loader_ok_def]
  obtain r s' F' f' where 1: "fill_segment drv f ph p4 NULL s = Some (r, f', kfree NULL s')" "r = 0 \<or> r = -1" "same_file f f'" "vm_inv s' lvl F'"
    "buffers_in L ps (Suc (Suc d)) s'" "live_same L s s'" "CR3 s' = CR3 s" "kernel_va s' = kernel_va s"
    "untouched lvl p4 (load_addr ph) 0 (unat (mem_size ph)) (mem s) (mem s')" "r = 0 \<longrightarrow> loaded (file_byte (volume img lba) (i_priv inode)) ph p4 (mem s')"
    using filled [OF assms(1) _ assms(3-5) _ _ assms(6,7), of L ps d s lvl F p4 NULL] ok assms(8) by blast
  have "load_rest drv f ph p4 s = Some (r, f', s')" using 1(1) assms(8) by (simp add: load_rest_def kfree_def)
  moreover note k = untouched_keeps [OF 1(9), of "CR3 s"]
  moreover have "heap_window n s'" by (rule window_step [of n s]) (use ok 1(7,8) keeps_window [OF k assms(6)] in auto)
  ultimately show ?thesis using 1 ok unfolding rest_done_def loader_ok_def by (intro exI [of _ r] exI [of _ f'] exI [of _ s'] exI [of _ lvl] exI [of _ F']) simp
qed

lemma rest_buffer:
  assumes "mounted img lba drv" "loader_ok L ps d (Suc n) p4 s lvl F" "f_inode f = Some inode" "100 \<le> length (i_priv inode)" "i_size inode \<le> 67383296"
    "segment_ok (i_size inode) ph" "f_offset f = file_offset ph" "file_size ph > 0"
  shows "rest_done (file_byte (volume img lba) (i_priv inode)) f L ps d n p4 ph s lvl (load_rest drv f ph p4 s)"
proof -
  let ?a = "kernel_va s" and ?bytes = "file_byte (volume img lba) (i_priv inode)"
  note ok = assms(2) [unfolded loader_ok_def]
  obtain v where w: "page_aligned ?a" "unat ?a + Suc n * 8192 + 12288 \<le> 2 ^ 42" "unat v < unat ?a"
    "unat v div 2 ^ 39 = (unat ?a + Suc n * 8192) div 2 ^ 39" "content (mem s) (CR3 s) v \<noteq> None"
    using ok by (auto simp: heap_window_def)
  obtain p s1 where k: "kmalloc PAGE_SIZE s = (p, s1)" by fastforce
  have room: "room 4096 s" using w(2) by (simp add: room_def)
  from bounce_take [OF _ _ _ room k] ok obtain lvl1 F1 X where
    1: "vm_inv s1 lvl1 F1" "lvl \<subseteq>\<^sub>m lvl1" "reserves lvl (CR3 s) X (mem s) (mem s1)" "CR3 s1 = CR3 s" "live_same L s s1"
      "p = NULL \<and> kernel_va s1 = ?a \<and> buffers_in L ps (Suc (Suc d)) s1 \<or>
       p = ?a + 16 \<and> p \<noteq> NULL \<and> kernel_va s1 = ?a + 8192 \<and> (?a, 8192) \<notin> L \<and> buffers_in (insert (?a, 8192) L) ps (Suc (Suc d)) s1 \<and> bounce_at ?a s1 \<and> X = {?a, ?a + 4096}"
    by metis
  have roots: "lvl1 t = Some 3" if "lvl t = Some 3" for t using map_le_Some [OF 1(2) that] .
  have k1: "keeps lvl (CR3 s) (in_segment p4 ph) (mem s) (mem s1)" by (rule reserves_keeps [OF 1(3)])
  show ?thesis
  proof (cases "p = NULL")
    case True
    have "?a + 16 \<noteq> NULL" using w(2) unat_0 by (auto simp: unat_word_ariths dest: arg_cong [of _ _ unat])
    then have p: "kernel_va s1 = ?a" "buffers_in L ps (Suc (Suc d)) s1" using 1(6) True by auto
    have "load_rest drv f ph p4 s = Some (-1, f, s1)" using k True assms(8) by (simp add: load_rest_def)
    moreover have "heap_window n s1" by (rule window_step [of n s]) (use ok 1(4) p(1) keeps_window [OF k1 assms(6)] in auto)
    ultimately show ?thesis
      using 1 ok p roots k1 assms(3) unfolding rest_done_def loader_ok_def by (intro exI [of _ "-1"] exI [of _ f] exI [of _ s1] exI [of _ lvl1] exI [of _ F1]) (simp add: same_file_def)
  next
    case False
    then have b: "p = ?a + 16" "kernel_va s1 = ?a + 8192" "(?a, 8192) \<notin> L" "buffers_in (insert (?a, 8192) L) ps (Suc (Suc d)) s1" "bounce_at ?a s1" "X = {?a, ?a + 4096}"
      using 1(6) by auto
    have r4: "lvl1 (page_down p4) = Some 3" "p = NULL \<longrightarrow> file_size ph = 0" using roots ok False by simp_all
    from filled [OF assms(1) b(4) assms(3-5) 1(1) r4(1) assms(6,7) r4(2), unfolded 1(4) b(2)]
    obtain r s2 F2 f' where 2: "fill_segment drv f ph p4 p s1 = Some (r, f', kfree p s2)" "r = 0 \<or> r = -1" "same_file f f'" "vm_inv s2 lvl1 F2"
      "buffers_in (insert (?a, 8192) L) ps (Suc (Suc d)) s2" "live_same (insert (?a, 8192) L) s1 s2" "CR3 s2 = CR3 s" "kernel_va s2 = ?a + 8192"
      "untouched lvl1 p4 (load_addr ph) 0 (unat (mem_size ph)) (mem s1) (mem s2)" "r = 0 \<longrightarrow> loaded ?bytes ph p4 (mem s2)"
      by blast
    have k2: "keeps lvl (CR3 s) (in_segment p4 ph) (mem s) (mem s2)" by (rule keeps_trans [OF k1 untouched_keeps [OF 2(9)] roots])
    have "unat (?a + 8) = unat ?a + 8" using w(2) by (simp add: unat_word_ariths)
    then have bat: "bounce_at ?a s2" using b(5) 2(6) by (simp add: bounce_at_def live_same_def span_def)
    have kv: "content (mem s2) (CR3 s) v \<noteq> None" by (rule keeps_window [OF k2 assms(6) _ _ w(5)]) (use ok w(2,3) in simp_all)
    then have kp: "keeper ?a v s2" using window_keeper [OF w(1) _ w(3), of "n * 8192"] w(2,4) 2(7) by (simp add: keeper_def)
    have fresh: "content (mem s) (CR3 s2) w = None" if "same_page ?a w \<or> same_page (?a + 4096) w" for w
      using reservesD(3) [OF 1(3)] b(6) that 2(7) by auto
    have rt: "lvl1 (page_down (CR3 s2)) = Some 3" "unat ?a + 4096 < 2 ^ 42" using ok roots 2(7) w(2) by simp_all
    note g = bounce_done [OF 2(5) b(3) bat 2(4) rt(1) w(1) kp rt(2) fresh k2 [folded 2(7)] roots, folded b(1), unfolded 2(7,8)]
    from g obtain lvl3 F3 where 3: "vm_inv (kfree p s2) lvl3 F3" "\<And>t. lvl1 t = Some 3 \<Longrightarrow> lvl3 t = Some 3" "buffers_in L ps (Suc (Suc d)) (kfree p s2)"
      "live_same L s2 (kfree p s2)" "CR3 (kfree p s2) = CR3 s" "kernel_va (kfree p s2) = ?a + 8192" "keeps lvl (CR3 s) (in_segment p4 ph) (mem s) (mem (kfree p s2))"
      "\<And>cr w. lvl1 (page_down cr) = Some 3 \<Longrightarrow> 32 \<le> unat (va_index 4 w) \<Longrightarrow> content (mem (kfree p s2)) cr w = content (mem s2) cr w"
      by blast
    have "loaded ?bytes ph p4 (mem (kfree p s2))" if "r = 0"
      using 2(10) that 3(8) segment_index [OF assms(6)] roots ok by (simp add: loaded_def holds_def)
    moreover have "load_rest drv f ph p4 s = Some (r, f', kfree p s2)" using k False 2(1) assms(8) by (simp add: load_rest_def)
    moreover have "heap_window n (kfree p s2)" by (rule window_step [of n s]) (use ok 3(5,6) keeps_window [OF 3(7) assms(6)] in auto)
    moreover have "live_same L s (kfree p s2)"
      using live_same_trans [OF 1(5) live_same_trans [OF live_same_subset [OF 2(6)] 3(4)]] by blast
    ultimately show ?thesis
      using 2(2,3) 3 roots ok unfolding rest_done_def loader_ok_def by (intro exI [of _ r] exI [of _ f'] exI [of _ "kfree p s2"] exI [of _ lvl3] exI [of _ F3]) simp
  qed
qed

lemma content_root: "page_down cr = page_down cr' \<Longrightarrow> content m cr v = content m cr' v"
  by (simp add: content_def translate_def reserved_def p1_entry_def)

text \<open>A place that had a content is in no page that has just been reserved.\<close>

lemma reserved_segment:
  assumes "reserves lvl p4 (set (range_pages (load_addr ph) (mem_size ph))) m m1" "segment_ok len ph" "content m cr v = Some b"
  shows "\<not> in_segment p4 ph cr v"
proof
  assume "in_segment p4 ph cr v"
  then obtain i where i: "i < unat (mem_size ph)" "same_loc p4 (load_addr ph + of_nat i) cr v" by (auto simp: in_segment_def)
  have "page_down cr = page_down p4" "same_page (load_addr ph + of_nat i) v"
    using i(2) segment_index [OF assms(2) i(1)] by (auto simp: same_loc_def concerns_def va_index_names)
  moreover obtain va where "va \<in> set (range_pages (load_addr ph) (mem_size ph))" "same_page va (load_addr ph + of_nat i)"
    using range_covered [OF _ _ i(1), of "load_addr ph"] assms(2) by (auto simp: segment_ok_def)
  ultimately have "content m cr v = None"
    using reservesD(3) [OF assms(1)] content_root [of cr p4 m v] by (auto simp: same_page_def)
  then show False using assms(3) by simp
qed

lemma keeps_fresh:
  assumes "reserves lvl p4 (set (range_pages (load_addr ph) (mem_size ph))) m m1" "segment_ok len ph" "keeps lvl1 cr0 (in_segment p4 ph) m1 m2"
    "\<And>t. lvl t = Some 3 \<Longrightarrow> lvl1 t = Some 3"
  shows "keeps lvl cr0 (\<lambda>_ _. False) m m2"
  unfolding keeps_def
proof (intro allI impI)
  fix cr v b assume r: "lvl (page_down cr) = Some 3" and c: "cr = cr0 \<or> 32 \<le> unat (va_index 4 v)" and m: "content m cr v = Some b"
  show "content m2 cr v = Some b"
    using assms(3,4) r c reserved_segment [OF assms(1,2) m] reservesD(1) [OF assms(1) r m] unfolding keeps_def by blast
qed

definition segment_done :: "(nat \<Rightarrow> u8) \<Rightarrow> file_st \<Rightarrow> (ptr \<times> nat) set \<Rightarrow> ptr set \<Rightarrow> nat \<Rightarrow> nat \<Rightarrow> u64 \<Rightarrow> (phys \<Rightarrow> bool) \<Rightarrow> kmem_st \<Rightarrow> levels \<Rightarrow> (int \<times> file_st \<times> kmem_st) option \<Rightarrow> bool" where
  "segment_done bytes f L ps d n p4 P s lvl res \<longleftrightarrow> (\<exists>r f' s' lvl' F'. res = Some (r, f', s') \<and> (r = 0 \<or> r = -1) \<and> same_file f f' \<and>
     loader_ok L ps d n p4 s' lvl' F' \<and> (\<forall>t. lvl t = Some 3 \<longrightarrow> lvl' t = Some 3) \<and> live_same L s s' \<and> CR3 s' = CR3 s \<and>
     keeps lvl (CR3 s) (\<lambda>_ _. False) (mem s) (mem s') \<and> (r = 0 \<longrightarrow> P (mem s')))"

lemma window_kept:
  assumes "heap_window n s" "CR3 s' = CR3 s" "kernel_va s' = kernel_va s"
    "\<And>v. content (mem s) (CR3 s) v \<noteq> None \<Longrightarrow> content (mem s') (CR3 s) v \<noteq> None"
  shows "heap_window n s'"
  using assms unfolding heap_window_def by metis

lemma load_segment_done:
  assumes "mounted img lba drv" "loader_ok L ps d (Suc n) p4 s lvl F" "f_inode f = Some inode" "100 \<le> length (i_priv inode)" "i_size inode \<le> 67383296"
    "segment_ok (i_size inode) ph"
  defines "bytes \<equiv> file_byte (volume img lba) (i_priv inode)"
  shows "segment_done bytes f L ps d n p4 (loaded bytes ph p4) s lvl (elf_load_segment drv f ph p4 s)"
proof -
  note ok = assms(2) [unfolded loader_ok_def] and seg = assms(6) [unfolded segment_ok_def]
  let ?X = "set (range_pages (load_addr ph) (mem_size ph))"
  obtain va s1 where al: "MMU_alloc_at_as p4 (load_addr ph) (mem_size ph) s = (va, s1)" by fastforce
  from alloc_at_reserves [OF _ _ al] ok obtain lvl1 F1 X where
    1: "vm_inv s1 lvl1 F1" "lvl \<subseteq>\<^sub>m lvl1" "same_rest s s1" "reserves lvl p4 X (mem s) (mem s1)" "va = load_addr ph AND PAGE_MASK \<and> X = ?X \<or> va = NULL" by blast
  have roots: "lvl1 t = Some 3" if "lvl t = Some 3" for t using map_le_Some [OF 1(2) that] .
  note rest = same_restD [OF 1(3)] and bu = buffers_same_rest [OF 1(3), of L ps "Suc (Suc d)"]
  have "content (mem s1) (CR3 s) v \<noteq> None" if "content (mem s) (CR3 s) v \<noteq> None" for v
    using reservesD(1) [OF 1(4), of "CR3 s" v] ok that by auto
  then have w: "heap_window (Suc n) s1" using window_kept [of "Suc n" s s1] ok rest(3,4) by simp
  show ?thesis
  proof (cases "va = NULL")
    case True
    have "heap_window n s1" by (rule window_step [OF w]) simp_all
    moreover have "elf_load_segment drv f ph p4 s = Some (-1, f, s1)" using al True by (simp add: load_segment_fill)
    ultimately show ?thesis
      using 1(1) ok roots bu rest(4) reserves_keeps [OF 1(4)] assms(3) unfolding segment_done_def loader_ok_def
      by (intro exI [of _ "-1"] exI [of _ f] exI [of _ s1] exI [of _ lvl1] exI [of _ F1]) (simp add: same_file_def)
  next
    case False
    then have X: "X = ?X" using 1(5) by simp
    have "elf_seek f (file_offset ph) = Some (f\<lparr>f_offset := file_offset ph\<rparr>)" by (rule seek_ok [OF assms(3) _ assms(5)]) (use seg in simp)
    then have e: "elf_load_segment drv f ph p4 s = load_rest drv (f\<lparr>f_offset := file_offset ph\<rparr>) ph p4 s1"
      using al False by (simp add: load_segment_fill load_rest_def)
    have l1: "loader_ok L ps d (Suc n) p4 s1 lvl1 F1" using 1(1) ok roots bu rest(4) w by (simp add: loader_ok_def)
    have fi: "f_inode (f\<lparr>f_offset := file_offset ph\<rparr>) = Some inode" "f_offset (f\<lparr>f_offset := file_offset ph\<rparr>) = file_offset ph" using assms(3) by simp_all
    have "rest_done bytes (f\<lparr>f_offset := file_offset ph\<rparr>) L ps d n p4 ph s1 lvl1 (elf_load_segment drv f ph p4 s)"
      unfolding e bytes_def using rest_buffer [OF assms(1) l1 fi(1) assms(4-6) fi(2)] rest_no_buffer [OF assms(1) l1 fi(1) assms(4-6) fi(2)]
      by (cases "file_size ph = 0") (simp_all add: word_neq_0_conv)
    then obtain r f' s' lvl' F' where 2: "elf_load_segment drv f ph p4 s = Some (r, f', s')" "r = 0 \<or> r = -1" "same_file f f'" "loader_ok L ps d n p4 s' lvl' F'"
      "\<And>t. lvl1 t = Some 3 \<Longrightarrow> lvl' t = Some 3" "live_same L s1 s'" "CR3 s' = CR3 s1" "keeps lvl1 (CR3 s1) (in_segment p4 ph) (mem s1) (mem s')" "r = 0 \<longrightarrow> loaded bytes ph p4 (mem s')"
      unfolding rest_done_def same_file_def by auto
    have "keeps lvl (CR3 s) (\<lambda>_ _. False) (mem s) (mem s')" by (rule keeps_fresh [OF 1(4) [unfolded X] assms(6) 2(8) [unfolded rest(4)] roots])
    moreover have "live_same L s s'" by (rule live_same_trans [OF _ 2(6)]) (use bu ok in simp)
    ultimately show ?thesis
      using 2 roots rest(4) unfolding segment_done_def by (intro exI [of _ r] exI [of _ f'] exI [of _ s'] exI [of _ lvl'] exI [of _ F']) simp
  qed
qed

end
