(* ===== verification/Program_Image.thy ===== *)
theory Program_Image
  imports Segments
begin

text \<open>
  The program as a whole: the loop over the program headers, the new address space, the user stack,
  and what \<open>elf_load_program\<close> promises when it succeeds.
\<close>

section \<open>All segments\<close>

lemma le64_in: "i + 7 < length bs \<Longrightarrow> \<exists>w. le64 bs i = Some w"
  using le32_in [of i bs] le32_in [of "i + 4" bs] by (auto simp: le64_def)

lemma prog_head_in: "56 \<le> length bs \<Longrightarrow> \<exists>ph. prog_head bs = Some ph"
  using le32_in [of 0 bs] le32_in [of 4 bs] le64_in [of 8 bs] le64_in [of 16 bs] le64_in [of 24 bs] le64_in [of 32 bs] le64_in [of 40 bs] le64_in [of 48 bs]
  by (auto simp: prog_head_def)

text \<open>The program header at a position of a file.\<close>

definition header_at :: "(nat \<Rightarrow> u8) \<Rightarrow> nat \<Rightarrow> ELF64_prog_head" where
  "header_at bytes pos = the (prog_head (map (\<lambda>i. bytes (pos + i)) [0..<56]))"

lemma prog_head_at: "prog_head (map (\<lambda>i. bytes (pos + i)) [0..<56]) = Some (header_at bytes pos)"
  using prog_head_in [of "map (\<lambda>i. bytes (pos + i)) [0..<56]"] by (auto simp: header_at_def)

text \<open>The \<open>n\<close> headers from \<open>pos\<close> on are in the file, and their loadable segments are.\<close>

definition headers_ok :: "(nat \<Rightarrow> u8) \<Rightarrow> u32 \<Rightarrow> nat \<Rightarrow> nat \<Rightarrow> nat \<Rightarrow> bool" where
  "headers_ok bytes len pos step n \<longleftrightarrow> (\<forall>k < n. pos + k * step + 56 \<le> unat len \<and>
     (ph_type (header_at bytes (pos + k * step)) = 1 \<longrightarrow> segment_ok len (header_at bytes (pos + k * step))))"

definition all_loaded :: "(nat \<Rightarrow> u8) \<Rightarrow> nat \<Rightarrow> nat \<Rightarrow> nat \<Rightarrow> u64 \<Rightarrow> phys \<Rightarrow> bool" where
  "all_loaded bytes pos step n p4 m \<longleftrightarrow>
     (\<forall>k < n. ph_type (header_at bytes (pos + k * step)) = 1 \<longrightarrow> loaded bytes (header_at bytes (pos + k * step)) p4 m)"

lemma loaded_keeps:
  assumes "loaded bytes ph p4 m" "keeps lvl cr0 (\<lambda>_ _. False) m m'" "lvl (page_down p4) = Some 3" "segment_ok len ph"
  shows "loaded bytes ph p4 m'"
  using assms segment_index [OF assms(4)] unfolding loaded_def holds_def keeps_def by blast

lemma segment_done_trans:
  assumes "segment_done bytes f L ps d n p4 P s lvl (Some (0, f1, s1))"
    and "\<And>lvl1 F1. loader_ok L ps d n p4 s1 lvl1 F1 \<Longrightarrow> same_file f f1 \<Longrightarrow> segment_done bytes f1 L ps d k p4 Q s1 lvl1 res"
    and "\<And>m' lvl1. P (mem s1) \<Longrightarrow> keeps lvl1 (CR3 s) (\<lambda>_ _. False) (mem s1) m' \<Longrightarrow> lvl1 (page_down p4) = Some 3 \<Longrightarrow> Q m' \<Longrightarrow> R m'"
  shows "segment_done bytes f L ps d k p4 R s lvl res"
proof -
  obtain lvl1 F1 where 1: "loader_ok L ps d n p4 s1 lvl1 F1" "\<And>t. lvl t = Some 3 \<Longrightarrow> lvl1 t = Some 3" "live_same L s s1" "CR3 s1 = CR3 s"
    "keeps lvl (CR3 s) (\<lambda>_ _. False) (mem s) (mem s1)" "P (mem s1)" "same_file f f1"
    using assms(1) by (auto simp: segment_done_def)
  from assms(2) [OF 1(1,7)] obtain r f' s' lvl' F' where 2: "res = Some (r, f', s')" "r = 0 \<or> r = -1" "same_file f1 f'" "loader_ok L ps d k p4 s' lvl' F'"
    "\<And>t. lvl1 t = Some 3 \<Longrightarrow> lvl' t = Some 3" "live_same L s1 s'" "CR3 s' = CR3 s" "keeps lvl1 (CR3 s) (\<lambda>_ _. False) (mem s1) (mem s')" "r = 0 \<longrightarrow> Q (mem s')"
    using 1(4) by (auto simp: segment_done_def)
  have "lvl1 (page_down p4) = Some 3" using 1(1) by (simp add: loader_ok_def)
  then have "r = 0 \<longrightarrow> R (mem s')" using assms(3) [OF 1(6) 2(8)] 2(9) by blast
  then show ?thesis
    using 2 1(2,7) live_same_trans [OF 1(3) 2(6)] keeps_trans [OF 1(5) 2(8) 1(2)] unfolding segment_done_def
    by (intro exI [of _ r] exI [of _ f'] exI [of _ s'] exI [of _ lvl'] exI [of _ F']) (simp add: same_file_def)
qed

lemma header_read:
  assumes "mounted img lba drv" "loader_ok L ps d n p4 s lvl F" "f_inode f = Some inode" "100 \<le> length (i_priv inode)" "i_size inode \<le> 67383296"
    "unat pos + 56 \<le> unat (i_size inode)"
  defines "bytes \<equiv> file_byte (volume img lba) (i_priv inode)"
  shows "\<exists>f1 f2 s1. elf_seek f pos = Some f1 \<and> ext2_file_read drv (Some f1) 56 s = Some (56, map (\<lambda>i. bytes (unat pos + i)) [0..<56], Some f2, s1) \<and>
    segment_done bytes f L ps d n p4 (\<lambda>_. True) s lvl (Some (0, f2, s1))"
proof -
  note ok = assms(2) [unfolded loader_ok_def]
  let ?f = "f\<lparr>f_offset := pos\<rparr>"
  have sk: "elf_seek f pos = Some ?f" by (rule seek_ok [OF assms(3) _ assms(5)]) (use assms(6) in simp)
  have fi: "f_inode ?f = Some inode" using assms(3) by simp
  have mn: "min 56 (unat (i_size inode) - unat (f_offset ?f)) = 56" using assms(6) by simp
  obtain s1 where 1: "ext2_file_read drv (Some ?f) (int 56) s = Some (int 56, file_bytes (volume img lba) (i_priv inode) (unat pos) 56, Some (?f\<lparr>f_offset := of_nat (unat pos + 56)\<rparr>), s1)"
    "kept L s ps (Suc (Suc d)) s1"
    using file_read_vm [OF assms(1) conjunct1 [OF ok] fi assms(4,5), of 56] unfolding mn by auto
  have k: "buffers_in L ps (Suc (Suc d)) s1" "live_same L s s1" "vm_of s1 = vm_of s" using 1(2) by (simp_all add: kept_def)
  note v = vm_of_eq [OF k(3)]
  have "loader_ok L ps d n p4 s1 lvl F" using ok k(1) v by (simp add: loader_ok_def heap_window_def)
  then have "segment_done bytes f L ps d n p4 (\<lambda>_. True) s lvl (Some (0, ?f\<lparr>f_offset := of_nat (unat pos + 56)\<rparr>, s1))"
    using k(2) v unfolding segment_done_def keeps_def same_file_def by (intro exI [of _ lvl] exI [of _ F] exI) auto
  moreover have "file_bytes (volume img lba) (i_priv inode) (unat pos) 56 = map (\<lambda>i. bytes (unat pos + i)) [0..<56]"
    by (rule nth_equalityI) (simp_all add: file_bytes_nth bytes_def)
  ultimately show ?thesis using sk 1(1) by auto
qed

lemma loader_less:
  assumes "loader_ok L ps d n p4 s lvl F" "k \<le> n"
  shows "loader_ok L ps d k p4 s lvl F"
proof -
  let ?a = "unat (kernel_va s)"
  note ok = assms(1) [unfolded loader_ok_def]
  obtain v where v: "?a + n * 8192 + 12288 \<le> 2 ^ 42" "unat v < ?a" "unat v div 2 ^ 39 = (?a + n * 8192) div 2 ^ 39" "content (mem s) (CR3 s) v \<noteq> None"
    using ok by (auto simp: heap_window_def)
  have le: "?a + k * 8192 \<le> ?a + n * 8192" using assms(2) by simp
  then have "(?a + k * 8192) div 2 ^ 39 = unat v div 2 ^ 39" by (intro between_div [OF _ _ v(3)]) (use v(2) in simp_all)
  moreover have "?a + k * 8192 + 12288 \<le> 2 ^ 42" using le v(1) by linarith
  ultimately have "heap_window k s" using ok v(2,4) unfolding heap_window_def by metis
  then show ?thesis using ok by (simp add: loader_ok_def)
qed

lemma segment_done_less:
  assumes "segment_done bytes f L ps d n p4 P s lvl (Some (r, f', s'))" "k \<le> n" "r = 0 \<Longrightarrow> P (mem s') \<Longrightarrow> Q (mem s')"
  shows "segment_done bytes f L ps d k p4 Q s lvl (Some (r, f', s'))"
  using assms loader_less [OF _ assms(2)] unfolding segment_done_def by blast

text \<open>One round of the loop, behind the reading of the header.\<close>

lemma load_header_done:
  assumes "mounted img lba drv" "loader_ok L ps d (Suc n) p4 s lvl F" "f_inode f = Some inode" "100 \<le> length (i_priv inode)" "i_size inode \<le> 67383296"
    "ph_type ph = 1 \<longrightarrow> segment_ok (i_size inode) ph"
  defines "bytes \<equiv> file_byte (volume img lba) (i_priv inode)"
  shows "segment_done bytes f L ps d n p4 (\<lambda>m. ph_type ph = 1 \<longrightarrow> loaded bytes ph p4 m) s lvl
    (if ph_type ph = 1 then elf_load_segment drv f ph p4 s else Some (0, f, s))"
proof (cases "ph_type ph = 1")
  case True
  then show ?thesis using load_segment_done [OF assms(1-5)] assms(6) by (simp add: bytes_def)
next
  case False
  have "loader_ok L ps d n p4 s lvl F" by (rule loader_less [OF assms(2)]) simp
  then show ?thesis using False by (auto simp: segment_done_def keeps_def live_same_def same_file_def)
qed

lemma headers_ok_Suc:
  fixes pos :: u64
  assumes "headers_ok bytes len (unat pos) step (Suc n)" "step < 2 ^ 16"
  shows "headers_ok bytes len (unat (pos + of_nat step)) step n"
    "all_loaded bytes (unat (pos + of_nat step)) step n p4 m \<Longrightarrow> (ph_type (header_at bytes (unat pos)) = 1 \<longrightarrow> loaded bytes (header_at bytes (unat pos)) p4 m) \<Longrightarrow>
     all_loaded bytes (unat pos) step (Suc n) p4 m"
proof -
  have nx: "unat (pos + of_nat step) = unat pos + step" if "0 < n"
  proof -
    have "unat pos + step + 56 \<le> unat len" using assms(1) that unfolding headers_ok_def by (auto dest: spec [of _ 1])
    moreover have "unat len < 2 ^ 32" using unsigned_less [where ?'a = nat, of len] by simp
    ultimately have "unat pos + step < 2 ^ 64" by simp
    moreover have "unat (of_nat step :: u64) = step" using assms(2) by (intro unat_of_nat64) simp
    ultimately show ?thesis by (simp add: unat_plus_if')
  qed
  have e: "unat pos + step + k * step = unat pos + Suc k * step" for k by simp
  show "headers_ok bytes len (unat (pos + of_nat step)) step n"
    using assms(1) nx e unfolding headers_ok_def by (metis Suc_mono gr_zeroI not_less_zero)
  show "all_loaded bytes (unat pos) step (Suc n) p4 m"
    if a: "all_loaded bytes (unat (pos + of_nat step)) step n p4 m" "ph_type (header_at bytes (unat pos)) = 1 \<longrightarrow> loaded bytes (header_at bytes (unat pos)) p4 m"
    unfolding all_loaded_def
  proof (intro allI impI)
    fix k assume k: "k < Suc n" "ph_type (header_at bytes (unat pos + k * step)) = 1"
    show "loaded bytes (header_at bytes (unat pos + k * step)) p4 m"
    proof (cases k)
      case (Suc j)
      then have "0 < n" "j < n" using k(1) by simp_all
      then show ?thesis using a(1) nx e [of j] k(2) Suc unfolding all_loaded_def by metis
    qed (use a(2) k(2) in simp)
  qed
qed

lemma load_segments_done:
  fixes header :: ELF64_head
  assumes "mounted img lba drv" "100 \<le> length (i_priv inode)" "i_size inode \<le> 67383296"
  defines "bytes \<equiv> file_byte (volume img lba) (i_priv inode)" and "step \<equiv> unat (prog_ent_size header)"
  assumes "loader_ok L ps d n p4 s lvl F" "f_inode f = Some inode" "headers_ok bytes (i_size inode) (unat pos) step n"
  shows "segment_done bytes f L ps d 0 p4 (all_loaded bytes (unat pos) step n p4) s lvl (load_segments_from drv header p4 n pos f s)"
  using assms(6-8)
proof (induction n arbitrary: pos f s lvl F)
  case 0
  then show ?case by (auto simp: segment_done_def all_loaded_def keeps_def live_same_def same_file_def)
next
  case (Suc n)
  let ?ph = "header_at bytes (unat pos)"
  have fit: "unat pos + 56 \<le> unat (i_size inode)" "ph_type ?ph = 1 \<longrightarrow> segment_ok (i_size inode) ?ph"
    using Suc.prems(3) unfolding headers_ok_def by (auto dest: spec [of _ 0])
  have step: "step < 2 ^ 16" "ucast (prog_ent_size header) = (of_nat step :: u64)" using unsigned_less [where ?'a = nat, of "prog_ent_size header"] by (simp_all add: step_def)
  from header_read [OF assms(1) Suc.prems(1,2) assms(2,3) fit(1), folded bytes_def] obtain f1 f2 s1 where
    1: "elf_seek f pos = Some f1" "ext2_file_read drv (Some f1) 56 s = Some (56, map (\<lambda>i. bytes (unat pos + i)) [0..<56], Some f2, s1)"
      "segment_done bytes f L ps d (Suc n) p4 (\<lambda>_. True) s lvl (Some (0, f2, s1))" by blast
  show ?case
  proof (rule segment_done_trans [OF 1(3)])
    fix lvl1 F1 assume l1: "loader_ok L ps d (Suc n) p4 s1 lvl1 F1" "same_file f f2"
    have i2: "f_inode f2 = Some inode" using same_fileD [OF l1(2)] Suc.prems(2) by simp
    from load_header_done [OF assms(1) l1(1) i2 assms(2,3) fit(2), folded bytes_def] obtain r f3 s3 where
      2: "(if ph_type ?ph = 1 then elf_load_segment drv f2 ?ph p4 s1 else Some (0, f2, s1)) = Some (r, f3, s3)" "r = 0 \<or> r = -1"
        "segment_done bytes f2 L ps d n p4 (\<lambda>m. ph_type ?ph = 1 \<longrightarrow> loaded bytes ?ph p4 m) s1 lvl1 (Some (r, f3, s3))"
      unfolding segment_done_def by blast
    have e: "load_segments_from drv header p4 (Suc n) pos f s = (if r < 0 then Some (-1, f3, s3) else load_segments_from drv header p4 n (pos + of_nat step) f3 s3)"
      using 1(1,2) 2(1) step(2) by (simp add: sizeof_ELF64_prog_head_def prog_head_at)
    show "segment_done bytes f2 L ps d 0 p4 (all_loaded bytes (unat pos) step (Suc n) p4) s1 lvl1 (load_segments_from drv header p4 (Suc n) pos f s)"
    proof (cases "r = 0")
      case False
      then have "r = -1" using 2(2) by simp
      then show ?thesis unfolding e using segment_done_less [OF 2(3), of 0] by simp
    next
      case True
      have "segment_done bytes f2 L ps d 0 p4 (all_loaded bytes (unat pos) step (Suc n) p4) s1 lvl1 (load_segments_from drv header p4 n (pos + of_nat step) f3 s3)"
      proof (rule segment_done_trans [OF 2(3) [unfolded True]])
        show "segment_done bytes f3 L ps d 0 p4 (all_loaded bytes (unat (pos + of_nat step)) step n p4) s3 lvl2 (load_segments_from drv header p4 n (pos + of_nat step) f3 s3)"
          if "loader_ok L ps d n p4 s3 lvl2 F2" "same_file f2 f3" for lvl2 F2
          by (rule Suc.IH [OF that(1) trans [OF same_fileD [OF that(2)] i2] headers_ok_Suc(1) [OF Suc.prems(3) step(1)]])
        show "all_loaded bytes (unat pos) step (Suc n) p4 m'"
          if "ph_type ?ph = 1 \<longrightarrow> loaded bytes ?ph p4 (mem s3)" "keeps lvl2 (CR3 s1) (\<lambda>_ _. False) (mem s3) m'" "lvl2 (page_down p4) = Some 3"
            "all_loaded bytes (unat (pos + of_nat step)) step n p4 m'" for m' lvl2
          using headers_ok_Suc(2) [OF Suc.prems(3) step(1) that(4)] that(1) loaded_keeps [OF _ that(2,3)] fit(2) by blast
      qed
      then show ?thesis unfolding e using True by simp
    qed
  qed
qed

end
