(* ===== verification/New_Space.thy ===== *)
theory New_Space
  imports Reservation
begin

text \<open>
  A new address space: its user half is empty, its kernel half is the kernel's, and no other address
  space changes.
\<close>

lemma content_outside:
  assumes "vm_inv s lvl F" "lvl (page_down cr) = Some 3" "\<And>a. page_down a \<notin> F \<Longrightarrow> m a = mem s a"
  shows "content m cr v = content (mem s) cr v"
proof -
  have e: "m (entry_at t i) = mem s (entry_at t i)" if "lvl t = Some k" "unat i < 512" for t k i
    by (rule assms(3)) (use that tables_aligned [OF vm_invD(4) [OF assms(1)]] vm_invD(3) [OF assms(1)] in auto)
  have p: "p1_entry m cr v = p1_entry (mem s) cr v"
    unfolding p1_entry_def by (rule walk_cong [OF vm_invD(4) [OF assms(1)] e assms(2)])
  show ?thesis
  proof (cases "p1_entry (mem s) cr v")
    case (Some q)
    obtain t where t: "lvl t = Some 0" "q = entry_at t (va_index (Suc 0) v)" by (rule p1_entry_leaf [OF assms(1,2) Some])
    have q: "m q = mem s q" using e [OF t(1) unat_va_index] t(2) by simp
    have "get_byte m (pte_frame (mem s q) + (v AND (4096 - 1))) = get_byte (mem s) (pte_frame (mem s q) + (v AND (4096 - 1)))" if "pte_present (mem s q)"
    proof (rule get_byte_cong, rule assms(3))
      have "page_down (pte_frame (mem s q) + (v AND (4096 - 1))) = pte_frame (mem s q)" by (rule page_down_offset) simp
      then show "page_down ((pte_frame (mem s q) + (v AND (4096 - 1))) AND NOT 7) \<notin> F" using leaf_frame(2) [OF assms(1,2) Some that] by simp
    qed
    then show ?thesis by (simp add: content_entry(1) [OF p [unfolded Some]] content_entry(1) [OF Some] q)
  qed (use p in \<open>simp add: content_entry\<close>)
qed

text \<open>The loop that copies the first \<open>n\<close> entries of a table.\<close>

definition copy_entries :: "u64 \<Rightarrow> u64 \<Rightarrow> nat \<Rightarrow> phys \<Rightarrow> phys" where
  "copy_entries dst src n m = fold (\<lambda>i m. m(entry_at dst (of_nat i) := m (entry_at src (of_nat i)))) [0..<n] m"

lemma copied_entries:
  assumes "page_aligned dst" "page_aligned src" "dst \<noteq> src"
  shows "n \<le> 512 \<Longrightarrow> (\<forall>j. unat j < 512 \<longrightarrow> copy_entries dst src n m (entry_at dst j) = (if unat j < n then m (entry_at src j) else m (entry_at dst j))) \<and>
    (\<forall>a. page_down a \<noteq> dst \<longrightarrow> copy_entries dst src n m a = m a)"
proof (induction n)
  case (Suc n)
  let ?c = "copy_entries dst src n m"
  have u: "unat (of_nat n :: u64) = n" using Suc.prems by (simp add: unsigned_of_nat take_bit_nat_eq_self)
  have c: "copy_entries dst src (Suc n) m = ?c(entry_at dst (of_nat n) := ?c (entry_at src (of_nat n)))" by (simp add: copy_entries_def)
  have src: "?c (entry_at src (of_nat n)) = m (entry_at src (of_nat n))" using Suc assms u by simp
  show ?case
  proof (intro conjI allI impI)
    fix j :: u64 assume j: "unat j < 512"
    have "entry_at dst j = entry_at dst (of_nat n) \<longleftrightarrow> j = of_nat n" using entry_at_inj [OF assms(1,1) j] u Suc.prems by simp
    moreover have "j = of_nat n \<longleftrightarrow> unat j = n" using u by (metis word_unat_eq_iff)
    ultimately show "copy_entries dst src (Suc n) m (entry_at dst j) = (if unat j < Suc n then m (entry_at src j) else m (entry_at dst j))"
      using Suc j src unfolding c by (auto simp: less_Suc_eq)
  next
    fix a assume a: "page_down a \<noteq> dst"
    have "page_down (entry_at dst (of_nat n)) = dst" using assms(1) u Suc.prems by simp
    then show "copy_entries dst src (Suc n) m a = m a" using Suc a unfolding c by auto
  qed
qed (simp add: copy_entries_def)

lemma create_user_p4_eq:
  "MMU_create_user_p4 s =
     (let (p4, s1) = MMU_pf_alloc s
      in if p4 = INVALID_FRAME_ADDR then (0, s1)
         else (p4, s1\<lparr>mem := copy_entries p4 (ptable_p4 (link s1)) 32 (zero_page p4 (mem s1))\<rparr>))"
proof -
  have "unat (PML4_INDEX VA_USER_BASE) = 32" by (simp add: va_index_names va_index_def VA_USER_BASE_def)
  then show ?thesis by (simp only: MMU_create_user_p4_def copy_entries_def Let_def)
qed

text \<open>Sharing the first 32 entries of a root in a new root keeps the tables well formed.\<close>

lemma tables_share:
  assumes ok: "tables_ok m lvl F" and k: "lvl K = Some 3" and new: "p4 \<in> F" "page_aligned p4" "dom lvl \<inter> F = {}"
    and same: "\<And>t k i. lvl t = Some k \<Longrightarrow> unat i < 512 \<Longrightarrow> m' (entry_at t i) = m (entry_at t i)"
    and p4: "\<And>i. unat i < 512 \<Longrightarrow> m' (entry_at p4 i) = (if unat i < 32 then m (entry_at K i) else 0)"
  shows "tables_ok m' (lvl(p4 \<mapsto> 3)) (F - {p4})"
proof -
  have n: "lvl p4 = None" using new by auto
  have rd: "\<exists>u. lvl u = Some k \<and> m' (entry_at t i) = m (entry_at u i) \<and> (u \<noteq> t \<longrightarrow> t = p4 \<and> k = 3 \<and> unat i < 32)"
    if "(lvl(p4 \<mapsto> 3)) t = Some k" "unat i < 512" "leads j (m' (entry_at t i)) \<or> k = 0" for t k i j
    using that same [of t k i] p4 [of i] k n by (cases "t = p4") (auto simp: leads_def split: if_splits)
  show ?thesis
  proof (rule tables_okI)
    show "page_aligned t" if "(lvl(p4 \<mapsto> 3)) t = Some n" for t n using that tables_aligned [OF ok] new(2) by (auto split: if_splits)
    show "(lvl(p4 \<mapsto> 3)) (pte_frame (m' (entry_at t i))) = Some n"
      if a: "(lvl(p4 \<mapsto> 3)) t = Some (Suc n)" "unat i < 512" "leads (Suc (Suc n)) (m' (entry_at t i))" for t n i
    proof -
      obtain u where u: "lvl u = Some (Suc n)" "m' (entry_at t i) = m (entry_at u i)" using rd [OF a(1,2)] a(3) by blast
      then have "lvl (pte_frame (m' (entry_at t i))) = Some n" using tables_child [OF ok u(1) a(2)] a(3) by simp
      then show ?thesis using \<open>lvl p4 = None\<close> by auto
    qed
    show "i = j \<and> (n < 2 \<or> 32 \<le> unat i \<longrightarrow> t = t')"
      if a: "(lvl(p4 \<mapsto> 3)) t = Some (Suc n)" "(lvl(p4 \<mapsto> 3)) t' = Some (Suc n)" "unat i < 512" "unat j < 512"
        "leads (Suc (Suc n)) (m' (entry_at t i))" "leads (Suc (Suc n)) (m' (entry_at t' j))" "pte_frame (m' (entry_at t i)) = pte_frame (m' (entry_at t' j))" for t t' n i j
    proof -
      obtain u u' where u: "lvl u = Some (Suc n)" "m' (entry_at t i) = m (entry_at u i)" "u \<noteq> t \<longrightarrow> t = p4 \<and> Suc n = 3 \<and> unat i < 32"
        "lvl u' = Some (Suc n)" "m' (entry_at t' j) = m (entry_at u' j)" "u' \<noteq> t' \<longrightarrow> t' = p4 \<and> Suc n = 3 \<and> unat j < 32"
        using rd [OF a(1,3)] rd [OF a(2,4)] a(5,6) by metis
      then have "i = j \<and> (n < 2 \<or> 32 \<le> unat i \<longrightarrow> u = u')" using tables_parent [OF ok u(1,4) a(3,4)] a(5-7) by simp
      then show ?thesis using u(3,6) by auto
    qed
    show "pte_frame (m' (entry_at t i)) \<notin> dom (lvl(p4 \<mapsto> 3)) \<union> (F - {p4})"
      if "(lvl(p4 \<mapsto> 3)) t = Some 0" "unat i < 512" "pte_present (m' (entry_at t i))" for t i
    proof -
      have t: "lvl t = Some 0" using that(1) by (auto split: if_splits)
      show ?thesis using tables_leaf [OF ok t that(2)] that(3) same [OF t that(2)] new(1) by auto
    qed
    show "t = t' \<and> i = j"
      if a: "(lvl(p4 \<mapsto> 3)) t = Some 0" "(lvl(p4 \<mapsto> 3)) t' = Some 0" "unat i < 512" "unat j < 512"
        "pte_present (m' (entry_at t i))" "pte_present (m' (entry_at t' j))" "pte_frame (m' (entry_at t i)) = pte_frame (m' (entry_at t' j))" for t t' i j
    proof -
      have t: "lvl t = Some 0" "lvl t' = Some 0" using a(1,2) by (auto split: if_splits)
      show ?thesis using tables_leaf_unique [OF ok t a(3,4)] a(5-7) same [OF t(1) a(3)] same [OF t(2) a(4)] by simp
    qed
  qed
qed

lemma create_user_p4_ok:
  assumes "vm_inv s lvl F" "lvl (ptable_p4 (link s)) = Some 3" "MMU_create_user_p4 s = (p4, s')"
  shows "\<exists>lvl' F'. vm_inv s' lvl' F' \<and> lvl \<subseteq>\<^sub>m lvl' \<and> F' \<subseteq> F \<and> same_rest s s' \<and>
    (\<forall>cr v. lvl (page_down cr) = Some 3 \<longrightarrow> content (mem s') cr v = content (mem s) cr v) \<and>
    (p4 = 0 \<and> F = {} \<or>
     p4 \<in> F \<and> lvl p4 = None \<and> lvl' (page_down p4) = Some 3 \<and> page_aligned p4 \<and>
     (\<forall>v. content (mem s') p4 v = (if unat (va_index 4 v) < 32 then content (mem s) (ptable_p4 (link s)) v else None)))"
proof -
  let ?K = "ptable_p4 (link s)"
  obtain f s1 where al: "MMU_pf_alloc s = (f, s1)" by fastforce
  note sr = same_rest_alloc [of s, unfolded al snd_conv]
  show ?thesis
  proof (cases "f = INVALID_FRAME_ADDR")
    case True
    then have "F = {}" "s1 = s" by (cases rule: pf.alloc_cases [OF vm_invD(1) [OF assms(1)] al]; simp)+
    moreover have "p4 = 0" "s' = s1" using assms(3) al True by (simp_all add: create_user_p4_eq)
    ultimately show ?thesis using assms(1) by (intro exI [of _ lvl] exI [of _ F]) simp
  next
    case False
    note z = zeroed_frame [OF assms(1) al False]
    have ln: "link s1 = link s" by (rule same_restD(7) [OF sr])
    have ka: "page_aligned ?K" "?K \<notin> F" using tables_aligned [OF vm_invD(4) [OF assms(1)] assms(2)] vm_invD(3) [OF assms(1)] assms(2) by auto
    have ne: "f \<noteq> ?K" "lvl f = None" using z(1) ka(2) vm_invD(3) [OF assms(1)] by auto
    define m where "m = copy_entries f ?K 32 (zero_page f (mem s))"
    have s': "p4 = f" "s' = s1\<lparr>mem := m\<rparr>" using assms(3) al False ln z(6) by (auto simp: create_user_p4_eq m_def)
    note c = copied_entries [OF z(2) ka(1) ne(1), of 32 "zero_page f (mem s)", folded m_def]
    have out: "m a = mem s a" if "page_down a \<noteq> f" for a using c that z(2) by (simp add: zero_page_eq)
    have p4: "m (entry_at f i) = (if unat i < 32 then mem s (entry_at ?K i) else 0)" if "unat i < 512" for i
      using c that z(2) ka(1) ne(1) by (auto simp: zero_page_eq)
    have same: "m (entry_at t i) = mem s (entry_at t i)" if "lvl t = Some k" "unat i < 512" for t k i
      by (rule out) (use that ne(2) tables_aligned [OF vm_invD(4) [OF assms(1)]] in auto)
    have ok: "tables_ok m (lvl(f \<mapsto> 3)) (F - {f})"
      by (rule tables_share [OF vm_invD(4) [OF assms(1)] assms(2) z(1,2) vm_invD(3) [OF assms(1)] same p4])
    have av: "avail s' (F - {f})" unfolding s'(2)
      by (rule avail_mem) (use pf.alloc_cases [OF vm_invD(1) [OF assms(1)] al] False out z(6) in auto)
    have inv: "vm_inv s' (lvl(f \<mapsto> 3)) (F - {f})" using ok av assms(1) s'(2) by (auto simp: vm_inv_def)
    have old: "content m cr v = content (mem s) cr v" if "lvl (page_down cr) = Some 3" for cr v
      by (rule content_outside [OF assms(1) that], rule out) (use z(1) in auto)
    have new: "content m f v = (if unat (va_index 4 v) < 32 then content m ?K v else None)" for v
    proof -
      have w: "p1_entry m f v = (if unat (va_index 4 v) < 32 then p1_entry m ?K v else None)"
        using p4 [OF unat_va_index, of 4 v] same [OF assms(2) unat_va_index, of 4 v] page_down_aligned [OF z(2)] page_down_aligned [OF ka(1)]
        by (simp add: p1_entry_def numeral_eq_Suc Let_def leads_def)
      show ?thesis using w by (simp add: content_def translate_def reserved_def)
    qed
    have "lvl \<subseteq>\<^sub>m lvl(f \<mapsto> 3)" using ne(2) by (auto simp: map_le_def)
    moreover have "same_rest s s'" unfolding s'(2) by (rule same_rest_mem [OF sr])
    ultimately show ?thesis
      using inv old new s' ne(2) z(1,2) assms(2) page_down_aligned [OF z(2)] page_down_aligned [OF ka(1)]
      by (intro exI [of _ "lvl(f \<mapsto> 3)"] exI [of _ "F - {f}"]) (auto simp: z(6))
  qed
qed

text \<open>
  C13: A new address space. Unless no frame is free, the new top-level table is well formed beside all the
  others: none of its user addresses has a content, its kernel addresses have the contents they have
  in the kernel's own tables, and the contents of all existing address spaces stay as they are.
\<close>

theorem create_user_p4_correct:
  assumes "vm_inv s lvl F" "lvl (ptable_p4 (link s)) = Some 3"
  shows "let (p4, s') = MMU_create_user_p4 s in
    \<exists>lvl' F'. vm_inv s' lvl' F' \<and> lvl \<subseteq>\<^sub>m lvl' \<and> F' \<subseteq> F \<and> same_rest s s' \<and>
      (\<forall>cr v. lvl (page_down cr) = Some 3 \<longrightarrow> content (mem s') cr v = content (mem s) cr v) \<and>
      (p4 = 0 \<and> F = {} \<or>
       p4 \<in> F \<and> lvl p4 = None \<and> lvl' (page_down p4) = Some 3 \<and> page_aligned p4 \<and>
       (\<forall>v. content (mem s') p4 v = (if unat (va_index 4 v) < 32 then content (mem s) (ptable_p4 (link s)) v else None)))"
proof -
  obtain p4 s' where d: "MMU_create_user_p4 s = (p4, s')" by fastforce
  show ?thesis unfolding d Let_def prod.case by (rule create_user_p4_ok [OF assms d])
qed

theorem create_user_p4_correct_witness:
  "case MMU_create_user_p4 vm_example of (p4, s') \<Rightarrow>
     content (mem s') p4 0x100000000000 = None \<and> content (mem s') 0x115000 0x100000000000 = Some 0"
proof -
  have l: "ptable_p4 (link vm_example) = 0x115000"
    by (simp add: vm_example_def pf_example_def link_example_def frames_st.defs vm_st.defs)
  have "vm_example_levels (ptable_p4 (link vm_example)) = Some 3" by (simp add: l vm_example_levels_def)
  note c = create_user_p4_correct [OF vm_example_inv(1) this, unfolded l]
  have "content vm_example_mem 0x115000 0x100000000000 = Some 0"
    using vm_example_page(1) vm_example_entries(4) [of 0] by (simp add: content_entry)
  moreover have "vm_example_free \<noteq> {}" by (auto simp: vm_example_free_def)
  ultimately show ?thesis using c vm_example_inv(2) by (auto simp: Let_def vm_example_index split: prod.splits)
qed

end
