(* ===== verification/Program_Start.thy ===== *)
theory Program_Start
  imports Program_Image New_Space
begin

text \<open>
  Loading an opened program file from its header to the finished image: which files are accepted,
  and what the new address space holds when the loader reports success.
\<close>

section \<open>The header\<close>

lemma common_head_in: "24 \<le> length bs \<Longrightarrow> \<exists>h. common_head bs = Some h \<and> magic h = take 4 bs"
  using le64_in [of 8 bs] le16_in [of 16 bs] le16_in [of 18 bs] le32_in [of 20 bs] by (auto simp: common_head_def slice_def)

lemma elf_head_in: "64 \<le> length bs \<Longrightarrow> \<exists>h. elf_head bs = Some h \<and> magic (common h) = take 4 bs"
  using common_head_in [of bs] le64_in [of 24 bs] le64_in [of 32 bs] le64_in [of 40 bs] le32_in [of 48 bs] le16_in [of 52 bs] le16_in [of 54 bs]
    le16_in [of 56 bs] le16_in [of 58 bs] le16_in [of 60 bs] le16_in [of 62 bs]
  by (auto simp: elf_head_def)

definition head_of :: "(nat \<Rightarrow> u8) \<Rightarrow> ELF64_head" where
  "head_of bytes = the (elf_head (map bytes [0..<64]))"

definition is_elf :: "(nat \<Rightarrow> u8) \<Rightarrow> u32 \<Rightarrow> bool" where
  "is_elf bytes len \<longleftrightarrow> 64 \<le> unat len \<and> map bytes [0..<4] = [0x7F, 0x45, 0x4C, 0x46]"

lemma head_at: "elf_head (map bytes [0..<64]) = Some (head_of bytes)" "magic (common (head_of bytes)) = map bytes [0..<4]"
proof -
  obtain h where h: "elf_head (map bytes [0..<64]) = Some h" "magic (common h) = take 4 (map bytes [0..<64])"
    using elf_head_in [of "map bytes [0..<64]"] by auto
  then show "elf_head (map bytes [0..<64]) = Some (head_of bytes)" by (simp add: head_of_def)
  then show "magic (common (head_of bytes)) = map bytes [0..<4]" using h by (simp add: take_map)
qed

lemma four_list: "length xs = 4 \<Longrightarrow> xs = [a, b, c, d] \<longleftrightarrow> xs ! 0 = a \<and> xs ! 1 = b \<and> xs ! 2 = c \<and> xs ! 3 = d"
  by (auto simp: list_eq_iff_nth_eq numeral_eq_Suc less_Suc_eq)

lemma read_header:
  assumes "mounted img lba drv" "buffers_in L ps (Suc (Suc d)) s" "f_inode f = Some inode" "100 \<le> length (i_priv inode)" "i_size inode \<le> 67383296"
    "f_offset f = 0"
  defines "bytes \<equiv> file_byte (volume img lba) (i_priv inode)"
  shows "\<exists>h f' s'. elf_read_header drv f s = Some (if is_elf bytes (i_size inode) then 0 else -1, h, f', s') \<and>
    (64 \<le> unat (i_size inode) \<longrightarrow> h = Some (head_of bytes)) \<and> same_file f f' \<and> kept L s ps (Suc (Suc d)) s'"
proof -
  define n where "n = min 64 (unat (i_size inode))"
  let ?f = "f\<lparr>f_offset := of_nat n\<rparr>"
  obtain s1 where 1: "ext2_file_read drv (Some f) (int 64) s = Some (int n, file_bytes (volume img lba) (i_priv inode) 0 n, Some ?f, s1)"
    "kept L s ps (Suc (Suc d)) s1"
    using file_read_vm [OF assms(1-5), of 64] assms(6) unfolding n_def by auto
  have sf: "same_file f ?f" by (simp add: same_file_def)
  show ?thesis
  proof (cases "64 \<le> unat (i_size inode)")
    case False
    then have "n \<noteq> 64" by (simp add: n_def)
    then have "elf_read_header drv f s = Some (-1, None, ?f, s1)" using 1(1) by (simp add: elf_read_header_def sizeof_ELF64_head_def)
    then show ?thesis using False sf 1(2) by (auto simp: is_elf_def)
  next
    case True
    then have n: "n = 64" by (simp add: n_def)
    have "file_bytes (volume img lba) (i_priv inode) 0 64 = map bytes [0..<64]" by (simp add: file_bytes_def bytes_def)
    then have rd: "ext2_file_read drv (Some f) 64 s = Some (64, map bytes [0..<64], Some ?f, s1)" using 1(1) unfolding n by simp
    let ?m = "magic (common (head_of bytes))"
    have "is_elf bytes (i_size inode) \<longleftrightarrow> ?m ! 0 = 0x7F \<and> ?m ! 1 = 0x45 \<and> ?m ! 2 = 0x4C \<and> ?m ! 3 = 0x46"
      using True four_list [of ?m] by (simp add: is_elf_def head_at(2))
    then have "elf_read_header drv f s = Some (if is_elf bytes (i_size inode) then 0 else -1, Some (head_of bytes), ?f, s1)"
      using rd by (simp add: elf_read_header_def sizeof_ELF64_head_def head_at(1))
    then show ?thesis using sf 1(2) by auto
  qed
qed

text \<open>
  C14: Reading the header of an opened program file returns. It reports success exactly for a file of
  at least 64 bytes that starts with the four magic bytes, and then hands out the header the file has.
\<close>

theorem elf_read_header_correct:
  assumes "mounted img lba drv" "buffers ps (Suc (Suc d)) s" "f_inode f = Some inode" "100 \<le> length (i_priv inode)" "i_size inode \<le> 67383296"
    "f_offset f = 0" "bytes = file_byte (volume img lba) (i_priv inode)"
  shows "\<exists>h f' s'. elf_read_header drv f s = Some (if is_elf bytes (i_size inode) then 0 else -1, h, f', s') \<and>
    (is_elf bytes (i_size inode) \<longrightarrow> h = Some (head_of bytes))"
proof -
  obtain L where "buffers_in L ps (Suc (Suc d)) s" using assms(2) by (auto simp: buffers_def)
  from read_header [OF assms(1) this assms(3-6), folded assms(7)] show ?thesis by (auto simp: is_elf_def)
qed

section \<open>The image\<close>

lemma kfree_pool_mem:
  assumes "kheap s (p - 16) \<noteq> NULL"
  shows "vm_of (kfree p s) = vm_of s"
  using assms
  by (cases "p = NULL") (simp_all add: kfree_def Let_def CLI_def sizeof_kmalloc_extra_def add_avail_def push_block_def vm_of_def irq_restore_def STI_def vm_st.defs)

lemma page_mask_stack: "VA_USTACK_BASE AND PAGE_MASK = VA_USTACK_BASE"
  by (simp add: VA_USTACK_BASE_def PAGE_MASK_def)

text \<open>The stack of a new program reads as zeros.\<close>

definition stack_ready :: "u64 \<Rightarrow> phys \<Rightarrow> bool" where
  "stack_ready p4 m \<longleftrightarrow> (\<forall>i < 8192. content m p4 (VA_USTACK_BASE + of_nat i) = Some 0)"

lemma user_stack_done:
  assumes "vm_inv s lvl F" "lvl (page_down p4) = Some 3" "elf_alloc_user_stack img p4 s = (r, img', s')"
  shows "\<exists>lvl' F'. vm_inv s' lvl' F' \<and> lvl \<subseteq>\<^sub>m lvl' \<and> same_rest s s' \<and> keeps lvl cr0 E (mem s) (mem s') \<and>
    (r = -1 \<and> img' = img \<or> r = 0 \<and> img' = img\<lparr>ustack_base := VA_USTACK_BASE, ustack_top := VA_USTACK_BASE + 8192\<rparr> \<and> stack_ready p4 (mem s'))"
proof -
  obtain va s1 where al: "MMU_alloc_at_as p4 VA_USTACK_BASE DEFAULT_STACK_BYTES s = (va, s1)" by fastforce
  from alloc_at_reserves [OF assms(1,2) al] obtain lvl' F' X where
    1: "vm_inv s1 lvl' F'" "lvl \<subseteq>\<^sub>m lvl'" "same_rest s s1" "reserves lvl p4 X (mem s) (mem s1)"
      "va = VA_USTACK_BASE AND PAGE_MASK \<and> X = set (range_pages VA_USTACK_BASE DEFAULT_STACK_BYTES) \<or> va = NULL" by blast
  have k: "keeps lvl cr0 E (mem s) (mem s1)" by (rule reserves_keeps [OF 1(4)])
  show ?thesis
  proof (cases "va = NULL")
    case True
    then have "r = -1" "img' = img" "s' = s1" using assms(3) al by (simp_all add: elf_alloc_user_stack_def)
    then show ?thesis using 1(1-3) k by blast
  next
    case False
    have sz: "unat DEFAULT_STACK_BYTES = 8192" by (simp add: DEFAULT_STACK_BYTES_def)
    have top: "(VA_USTACK_BASE + DEFAULT_STACK_BYTES) AND NOT 15 = VA_USTACK_BASE + 8192" by (simp add: VA_USTACK_BASE_def DEFAULT_STACK_BYTES_def)
    have X: "va = VA_USTACK_BASE" "X = set (range_pages VA_USTACK_BASE DEFAULT_STACK_BYTES)" using 1(5) False page_mask_stack by simp_all
    have "content (mem s1) p4 (VA_USTACK_BASE + of_nat i) = Some 0" if "i < 8192" for i
      using range_covered [of VA_USTACK_BASE DEFAULT_STACK_BYTES i] reservesD(2) [OF 1(4)] that X(2) sz by (auto simp: VA_USTACK_BASE_def)
    then have "stack_ready p4 (mem s1)" by (simp add: stack_ready_def)
    moreover have "r = 0" "img' = img\<lparr>ustack_base := VA_USTACK_BASE, ustack_top := VA_USTACK_BASE + 8192\<rparr>" "s' = s1"
      using assms(3) al False X(1) top by (simp_all add: elf_alloc_user_stack_def)
    ultimately show ?thesis using 1(1-3) k by blast
  qed
qed

text \<open>What holds of the state in which the loader finishes, and when it succeeds, of the image.\<close>

definition image_done ::
    "(nat \<Rightarrow> u8) \<Rightarrow> bool \<Rightarrow> file_st \<Rightarrow> (ptr \<times> nat) set \<Rightarrow> kmem_st \<Rightarrow> levels \<Rightarrow> (int \<times> elf_image \<times> kmem_st) option \<Rightarrow> bool" where
  "image_done bytes refused f L s lvl res \<longleftrightarrow> (\<exists>f' s' lvl' F'. vm_inv s' lvl' F' \<and> \<not> halted s' \<and> same_file f f' \<and> live_same L s s' \<and> CR3 s' = CR3 s \<and>
     keeps lvl (CR3 s) (\<lambda>_ _. False) (mem s) (mem s') \<and>
     (refused \<and> res = Some (-1, no_image, kfree (f_at f') s') \<or>
      (\<exists>p4. lvl p4 = None \<and> lvl' (page_down p4) = Some 3 \<and>
        (res = out_destroy p4 no_image f' s' \<or>
         res = Some (0, \<lparr>img_cr3 = p4, img_entry = prog_entry_pos (head_of bytes), ustack_base = VA_USTACK_BASE, ustack_top = VA_USTACK_BASE + 8192\<rparr>, kfree (f_at f') s') \<and>
         all_loaded bytes (unat (prog_table_pos (head_of bytes))) (unat (prog_ent_size (head_of bytes))) (unat (prog_ent_num (head_of bytes))) p4 (mem s') \<and>
         stack_ready p4 (mem s')))))"

lemma close_eq: "out_close r img f s = (if halted s then None else Some (r, img, kfree (f_at f) s))"
  by (simp add: out_close_def ext2_file_close_def)

lemma all_loaded_keeps:
  assumes "all_loaded bytes pos step n p4 m" "keeps lvl cr0 (\<lambda>_ _. False) m m'" "lvl (page_down p4) = Some 3" "headers_ok bytes len pos step n"
  shows "all_loaded bytes pos step n p4 m'"
  using assms loaded_keeps unfolding all_loaded_def headers_ok_def by blast

lemma buffers_running: "buffers_in L ps d s \<Longrightarrow> \<not> halted s"
  by (simp add: buffers_in_def stocked_def)

text \<open>From the loaded segments to the image.\<close>

lemma stack_and_close:
  assumes "segment_done bytes f L ps d 0 p4 (all_loaded bytes pos step n p4) s lvl res" "headers_ok bytes len pos step n"
    "pos = unat (prog_table_pos (head_of bytes))" "step = unat (prog_ent_size (head_of bytes))" "n = unat (prog_ent_num (head_of bytes))"
    and old: "same_file f0 f" "live_same L s0 s" "CR3 s = CR3 s0" "keeps lvl0 (CR3 s0) (\<lambda>_ _. False) (mem s0) (mem s)" "\<And>t. lvl0 t = Some 3 \<Longrightarrow> lvl t = Some 3" "lvl0 p4 = None"
  shows "image_done bytes refused f0 L s0 lvl0 (do {
      (r, f, s) \<leftarrow> res;
      if r < 0 then out_destroy p4 no_image f s
      else let (r, img, s) = elf_alloc_user_stack no_image p4 s
           in if r < 0 then out_destroy p4 img f s
              else out_close 0 (img\<lparr>img_cr3 := p4, img_entry := prog_entry_pos (head_of bytes)\<rparr>) f s
    })" (is "image_done _ _ _ _ _ _ ?all")
proof -
  from assms(1) obtain r f1 s1 lvl1 F1 where 1: "res = Some (r, f1, s1)" "r = 0 \<or> r = -1" "same_file f f1" "loader_ok L ps d 0 p4 s1 lvl1 F1"
    "\<And>t. lvl t = Some 3 \<Longrightarrow> lvl1 t = Some 3" "live_same L s s1" "CR3 s1 = CR3 s" "keeps lvl (CR3 s) (\<lambda>_ _. False) (mem s) (mem s1)"
    "r = 0 \<longrightarrow> all_loaded bytes pos step n p4 (mem s1)" by (auto simp: segment_done_def)
  note ok = 1(4) [unfolded loader_ok_def]
  have k1: "keeps lvl0 (CR3 s0) (\<lambda>_ _. False) (mem s0) (mem s1)" by (rule keeps_trans [OF old(4) 1(8) [unfolded old(3)] old(5)])
  have l1: "live_same L s0 s1" by (rule live_same_trans [OF old(2) 1(6)])
  have sf: "same_file f0 f1" using old(1) 1(3) by (simp add: same_file_def)
  show ?thesis
  proof (cases "r = 0")
    case False
    then have "?all = out_destroy p4 no_image f1 s1" using 1(1,2) by auto
    then show ?thesis using ok buffers_running k1 l1 sf 1(7) old(3,6) unfolding image_done_def by (intro exI [of _ f1] exI [of _ s1] exI [of _ lvl1] exI [of _ F1]) auto
  next
    case True
    obtain r2 img s2 where st: "elf_alloc_user_stack no_image p4 s1 = (r2, img, s2)" by (metis prod_cases3)
    from user_stack_done [OF _ _ st, of lvl1 F1] ok obtain lvl2 F2 where 2: "vm_inv s2 lvl2 F2" "lvl1 \<subseteq>\<^sub>m lvl2" "same_rest s1 s2"
      "keeps lvl1 (CR3 s0) (\<lambda>_ _. False) (mem s1) (mem s2)"
      "r2 = -1 \<and> img = no_image \<or> r2 = 0 \<and> img = no_image\<lparr>ustack_base := VA_USTACK_BASE, ustack_top := VA_USTACK_BASE + 8192\<rparr> \<and> stack_ready p4 (mem s2)" by metis
    have roots: "lvl1 t = Some 3" if "lvl0 t = Some 3" for t using 1(5) old(5) that by blast
    note b = buffers_same_rest [OF 2(3) conjunct1 [OF ok]]
    have c: "vm_inv s2 lvl2 F2" "\<not> halted s2" "live_same L s0 s2" "CR3 s2 = CR3 s0" "keeps lvl0 (CR3 s0) (\<lambda>_ _. False) (mem s0) (mem s2)" "lvl2 (page_down p4) = Some 3"
      "all_loaded bytes pos step n p4 (mem s2)"
      using 2(1) buffers_running [OF b(1)] live_same_trans [OF l1 b(2)] same_restD(4) [OF 2(3)] 1(7) old(3) keeps_trans [OF k1 2(4) roots] map_le_Some [OF 2(2)] ok
        all_loaded_keeps [OF _ 2(4) _ assms(2)] 1(9) True by simp_all
    have "?all = (if r2 < 0 then out_destroy p4 img f1 s2 else Some (0, img\<lparr>img_cr3 := p4, img_entry := prog_entry_pos (head_of bytes)\<rparr>, kfree (f_at f1) s2))"
      using 1(1) True st c(2) by (simp add: close_eq)
    then show ?thesis
      using c sf 2(5) old(6) assms(3-5) unfolding image_done_def
      by (intro exI [of _ f1] exI [of _ s2] exI [of _ lvl2] exI [of _ F2]) (auto simp: no_image_def)
  qed
qed

lemma opened_done:
  assumes "mounted img lba drv" "buffers_in L ps (Suc (Suc d)) s" "f_inode f = Some inode" "100 \<le> length (i_priv inode)" "i_size inode \<le> 67383296"
    "f_offset f = 0" "vm_inv s lvl F" "lvl (page_down (CR3 s)) = Some 3" "lvl (ptable_p4 (link s)) = Some 3"
  defines "bytes \<equiv> file_byte (volume img lba) (i_priv inode)"
  assumes "heap_window (unat (prog_ent_num (head_of bytes))) s"
    "headers_ok bytes (i_size inode) (unat (prog_table_pos (head_of bytes))) (unat (prog_ent_size (head_of bytes))) (unat (prog_ent_num (head_of bytes)))"
  shows "image_done bytes (\<not> is_elf bytes (i_size inode) \<or> F = {} \<or> 0 \<in> F) f L s lvl (elf_load_opened drv f no_image s)"
    "\<not> is_elf bytes (i_size inode) \<Longrightarrow> \<exists>s'. elf_load_opened drv f no_image s = Some (-1, no_image, s')"
proof -
  let ?h = "head_of bytes"
  from read_header [OF assms(1-6), folded bytes_def] obtain h f1 s1 where
    1: "elf_read_header drv f s = Some (if is_elf bytes (i_size inode) then 0 else -1, h, f1, s1)" "64 \<le> unat (i_size inode) \<longrightarrow> h = Some ?h" "same_file f f1"
      "kept L s ps (Suc (Suc d)) s1" by blast
  have k: "buffers_in L ps (Suc (Suc d)) s1" "live_same L s s1" "vm_of s1 = vm_of s" using 1(4) by (simp_all add: kept_def)
  note v = vm_of_eq [OF k(3)]
  have ln: "link s1 = link s" using k(3) by (simp add: vm_of_def vm_st.defs)
  have nh: "\<not> halted s1" by (rule buffers_running [OF k(1)])
  have bad: "elf_load_opened drv f no_image s = Some (-1, no_image, kfree (f_at f1) s1)" if "\<not> is_elf bytes (i_size inode)"
    using 1(1) that nh by (simp add: elf_load_opened_def close_eq)
  then show "\<exists>s'. elf_load_opened drv f no_image s = Some (-1, no_image, s')" if "\<not> is_elf bytes (i_size inode)" using that by blast
  obtain p4 s2 where cr: "MMU_create_user_p4 s1 = (p4, s2)" by fastforce
  have "vm_inv s1 lvl F" "lvl (ptable_p4 (link s1)) = Some 3" using assms(7,9) v(5) ln by simp_all
  from create_user_p4_ok [OF this cr, unfolded v(1)] obtain lvl2 F2 where
    2: "vm_inv s2 lvl2 F2" "lvl \<subseteq>\<^sub>m lvl2" "same_rest s1 s2" "\<And>cr v. lvl (page_down cr) = Some 3 \<Longrightarrow> content (mem s2) cr v = content (mem s) cr v"
      "p4 \<noteq> 0 \<Longrightarrow> lvl p4 = None \<and> lvl2 (page_down p4) = Some 3" "p4 = 0 \<Longrightarrow> F = {} \<or> 0 \<in> F" by metis
  note b = buffers_same_rest [OF 2(3) k(1)] and r2 = same_restD [OF 2(3)]
  have l2: "live_same L s s2" by (rule live_same_trans [OF k(2) b(2)])
  have k2: "keeps lvl (CR3 s) (\<lambda>_ _. False) (mem s) (mem s2)" using 2(4) by (simp add: keeps_def)
  have c2: "CR3 s2 = CR3 s" "\<not> halted s2" using r2(4) v(2) buffers_running [OF b(1)] by simp_all
  show "image_done bytes (\<not> is_elf bytes (i_size inode) \<or> F = {} \<or> 0 \<in> F) f L s lvl (elf_load_opened drv f no_image s)"
  proof (cases "is_elf bytes (i_size inode)")
    case False
    then show ?thesis using bad v assms(7) nh 1(3) k(2) unfolding image_done_def keeps_def by (intro exI [of _ f1] exI [of _ s1] exI [of _ lvl] exI [of _ F]) simp
  next
    case True
    then have h: "h = Some ?h" using 1(2) by (simp add: is_elf_def)
    show ?thesis
    proof (cases "p4 = 0")
      case True
      then have "elf_load_opened drv f no_image s = Some (-1, no_image, kfree (f_at f1) s2)"
        using 1(1) h cr c2(2) \<open>is_elf bytes (i_size inode)\<close> by (simp add: elf_load_opened_def close_eq)
      then show ?thesis using 2(1) 2(6) [OF True] c2 l2 k2 1(3) unfolding image_done_def by (intro exI [of _ f1] exI [of _ s2] exI [of _ lvl2] exI [of _ F2]) simp
    next
      case False
      have "heap_window n s2" if "heap_window n s" for n
        using window_kept [OF that c2(1)] r2(3) v(3) 2(4) [OF assms(8)] by simp
      then have lo: "loader_ok L ps d (unat (prog_ent_num ?h)) p4 s2 lvl2 F2"
        using b(1) 2(1) 2(5) [OF False] map_le_Some [OF 2(2) assms(8)] c2(1) assms(11) by (simp add: loader_ok_def)
      have fi: "f_inode f1 = Some inode" using same_fileD [OF 1(3)] assms(3) by simp
      note sd = load_segments_done [OF assms(1,4,5) lo [unfolded bytes_def] fi assms(12) [unfolded bytes_def], folded bytes_def]
      have e: "elf_load_opened drv f no_image s = do {
          (r, f, s) \<leftarrow> load_segments_from drv ?h p4 (unat (prog_ent_num ?h)) (prog_table_pos ?h) f1 s2;
          if r < 0 then out_destroy p4 no_image f s
          else let (r, img, s) = elf_alloc_user_stack no_image p4 s
               in if r < 0 then out_destroy p4 img f s
                  else out_close 0 (img\<lparr>img_cr3 := p4, img_entry := prog_entry_pos ?h\<rparr>) f s
        }"
        using 1(1) h cr False True by (simp add: elf_load_opened_def elf_load_segments_def)
      show ?thesis unfolding e
        by (rule stack_and_close [OF sd assms(12) refl refl refl 1(3) l2 c2(1) k2]) (use 2(5) [OF False] map_le_Some [OF 2(2)] in auto)
    qed
  qed
qed


section \<open>A concrete program\<close>

text \<open>A file with one loadable segment: four bytes of the file and four zeros at \<open>0x100000400000\<close>.\<close>

definition program_file :: "u8 list" where
  "program_file =
     [0x7F, 0x45, 0x4C, 0x46, 2, 1, 1, 0,  0, 0, 0, 0, 0, 0, 0, 0,  2, 0, 62, 0, 1, 0, 0, 0,
      0, 0, 0x40, 0, 0, 0x10, 0, 0,  64, 0, 0, 0, 0, 0, 0, 0,  0, 0, 0, 0, 0, 0, 0, 0,
      0, 0, 0, 0, 64, 0, 56, 0,  1, 0, 0, 0, 0, 0, 0, 0,
      1, 0, 0, 0, 5, 0, 0, 0,  120, 0, 0, 0, 0, 0, 0, 0,  0, 0, 0x40, 0, 0, 0x10, 0, 0,  0, 0, 0x40, 0, 0, 0x10, 0, 0,
      4, 0, 0, 0, 0, 0, 0, 0,  8, 0, 0, 0, 0, 0, 0, 0,  0, 0x10, 0, 0, 0, 0, 0, 0,
      0xEB, 0xFE, 0x90, 0x90]"

text \<open>The disk holds the file in block 5 of the volume that starts at sector 2048.\<close>

definition program_disk :: "nat \<Rightarrow> u8" where
  "program_disk i = (if 1053696 \<le> i \<and> i < 1053696 + 124 then program_file ! (i - 1053696) else 0)"

definition program_driver :: ext2_driver where
  "program_driver = example_driver\<lparr>drv_dev := (ata_device program_disk 30720 ''disk'')\<lparr>read_block := partition_read_block (ata_device program_disk 30720 ''disk'') 2048\<rparr>\<rparr>"

definition program_inode :: vnode where
  "program_inode = example_inode\<lparr>i_size := 124\<rparr>"

abbreviation program_bytes :: "nat \<Rightarrow> u8" where
  "program_bytes \<equiv> file_byte (volume program_disk 2048) (i_priv program_inode)"

lemma program_mounted: "mounted program_disk 2048 program_driver"
  unfolding mounted_def
  by (intro exI [of _ 30720] exI [of _ "''disk''"]) (simp add: kilo_driver_def program_driver_def example_driver_def ata_device_def)

lemma program_inode_fields: "i_priv program_inode = i_priv example_inode" "i_size program_inode = 124" "length (i_priv program_inode) = 128"
  using example_inode_fields by (simp_all add: program_inode_def)

lemma program_bytes_at: "i < 124 \<Longrightarrow> program_bytes i = program_file ! i"
  by (simp add: file_byte_def program_inode_fields block_map_def example_inode_fields volume_block_def volume_def sector_def nth_append program_disk_def)

lemma program_bytes_map: "i + n \<le> 124 \<Longrightarrow> map (\<lambda>j. program_bytes (i + j)) [0..<n] = take n (drop i program_file)"
  by (rule nth_equalityI) (simp_all add: program_bytes_at, simp_all add: program_file_def)

lemma program_head: "prog_table_pos (head_of program_bytes) = 64" "prog_ent_size (head_of program_bytes) = 56" "prog_ent_num (head_of program_bytes) = 1"
    "prog_entry_pos (head_of program_bytes) = 0x100000400000"
  unfolding head_of_def using program_bytes_map [of 0 64]
  by (simp_all add: program_file_def elf_head_def common_head_def le64_def le32_def le16_def slice_def)

lemma program_segment: "header_at program_bytes 64 = \<lparr>ph_type = 1, ph_flags = 5, file_offset = 120, load_addr = 0x100000400000,
    undefined_addr = 0x100000400000, file_size = 4, mem_size = 8, alignment = 0x1000\<rparr>"
  unfolding header_at_def using program_bytes_map [of 64 56]
  by (simp add: program_file_def prog_head_def le64_def le32_def le16_def)

lemma program_is_elf: "is_elf program_bytes 124"
  using program_bytes_map [of 0 4] by (simp add: is_elf_def program_file_def)

lemma program_headers_ok: "headers_ok program_bytes 124 64 56 1"
  by (simp add: headers_ok_def program_segment segment_ok_def)

theorem elf_read_header_witness:
  "\<exists>h f' s'. elf_read_header program_driver \<lparr>f_at = 0x300, f_inode = Some program_inode, f_offset = 0\<rparr> storage_heap = Some (0, Some h, f', s') \<and>
    prog_entry_pos h = 0x100000400000 \<and> prog_ent_num h = 1"
  using elf_read_header_correct [OF program_mounted storage_buffers, of "\<lparr>f_at = 0x300, f_inode = Some program_inode, f_offset = 0\<rparr>" program_inode]
    program_is_elf program_head(3,4) by (fastforce simp: program_inode_fields(2,3))

text \<open>The tables of the example address space with the first page of the kernel heap in use.\<close>

definition loader_mem :: phys where
  "loader_mem = (grown (grown (grown vm_example_mem 0x115000 2 0x119000 (fill_p4 True 0x119000 0))
       0x119000 0 0x11A000 (fill_low True 0x11A000 0)) 0x11A000 0 0x11B000 (fill_low True 0x11B000 0))
     (entry_at 0x11B000 0 := put_bit 9 True 0)"

definition loader_levels :: levels where
  "loader_levels = vm_example_levels(0x119000 \<mapsto> 2, 0x11A000 \<mapsto> 1, 0x11B000 \<mapsto> 0)"

lemma loader_fills [simp]:
  "leads n (fill_p4 True 0x119000 0)" "leads n (fill_low True 0x11A000 0)" "leads n (fill_low True 0x11B000 0)"
  "pte_frame (fill_p4 True 0x119000 0) = 0x119000" "pte_frame (fill_low True 0x11A000 0) = 0x11A000" "pte_frame (fill_low True 0x11B000 0) = 0x11B000"
proof -
  have "\<not> pte_big 0" by (simp add: pte_big_def)
  then show "leads n (fill_p4 True 0x119000 0)" "leads n (fill_low True 0x11A000 0)" "leads n (fill_low True 0x11B000 0)"
    by (simp_all add: leads_def fill_p4_def fill_low_def)
  show "pte_frame (fill_p4 True 0x119000 0) = 0x119000" "pte_frame (fill_low True 0x11A000 0) = 0x11A000" "pte_frame (fill_low True 0x11B000 0) = 0x11B000"
    using frame_round_trip by (simp_all add: fill_p4_def fill_low_def page_aligned_def)
qed

lemma loader_tables: "tables_ok loader_mem loader_levels vm_example_free"
proof -
  let ?F = "vm_example_free \<union> {0x119000, 0x11A000, 0x11B000}"
  have low: "f \<notin> vm_example_free" if "0x110000 \<le> unat f" for f using vm_example_frames(2) [of f] that by fastforce
  have d0: "dom vm_example_levels \<inter> ?F = {}"
    using low by (auto simp: vm_example_levels_def split: if_splits)
  have c1: "can_grow vm_example_mem vm_example_levels ?F 0x115000 2 2 0x119000 (fill_p4 True 0x119000 0)"
    using d0 vm_example_tables vm_example_entries(1) [of 2] by (simp add: can_grow_def vm_example_levels_def page_aligned_def)
  note t1 = grown_tables_ok [OF c1]
  have c2: "can_grow (grown vm_example_mem 0x115000 2 0x119000 (fill_p4 True 0x119000 0)) (vm_example_levels(0x119000 \<mapsto> 2)) (?F - {0x119000})
      0x119000 1 0 0x11A000 (fill_low True 0x11A000 0)"
    using t1 d0 grown_new_entries [OF c1, of 0] by (auto simp: can_grow_def page_aligned_def)
  note t2 = grown_tables_ok [OF c2]
  have c3: "can_grow (grown (grown vm_example_mem 0x115000 2 0x119000 (fill_p4 True 0x119000 0)) 0x119000 0 0x11A000 (fill_low True 0x11A000 0))
      (vm_example_levels(0x119000 \<mapsto> 2, 0x11A000 \<mapsto> 1)) (?F - {0x119000} - {0x11A000}) 0x11A000 0 0 0x11B000 (fill_low True 0x11B000 0)"
    using t2 d0 grown_new_entries [OF c2, of 0] by (auto simp: can_grow_def page_aligned_def)
  have "?F - {0x119000} - {0x11A000} - {0x11B000} = vm_example_free"
    using low [of "0x119000"] low [of "0x11A000"] low [of "0x11B000"] by auto
  with grown_tables_ok [OF c3] have "tables_ok (grown (grown (grown vm_example_mem 0x115000 2 0x119000 (fill_p4 True 0x119000 0))
       0x119000 0 0x11A000 (fill_low True 0x11A000 0)) 0x11A000 0 0x11B000 (fill_low True 0x11B000 0)) loader_levels vm_example_free"
    by (simp add: loader_levels_def)
  then show ?thesis unfolding loader_mem_def
    by (rule tables_leaf_upd) (simp_all add: loader_levels_def)
qed

lemma loader_page: "content loader_mem 0x115000 VA_KHEAP_BASE = Some 0"
proof -
  have "loader_mem (entry_at 0x115000 2) = fill_p4 True 0x119000 0" "loader_mem (entry_at 0x119000 0) = fill_low True 0x11A000 0"
    "loader_mem (entry_at 0x11A000 0) = fill_low True 0x11B000 0" "loader_mem (entry_at 0x11B000 0) = put_bit 9 True 0"
    by (simp_all add: loader_mem_def grown_def zero_page_eq entry_at_inj page_aligned_def page_down_entry)
  moreover have "va_index 4 VA_KHEAP_BASE = 2" "va_index 3 VA_KHEAP_BASE = 0" "va_index 2 VA_KHEAP_BASE = 0" "va_index (Suc 0) VA_KHEAP_BASE = 0"
    by (simp_all add: va_index_def VA_KHEAP_BASE_def)
  moreover have "page_down 0x115000 = (0x115000 :: u64)" using vm_example_aligned by (simp add: page_down_aligned)
  ultimately have "p1_entry loader_mem 0x115000 VA_KHEAP_BASE = Some (entry_at 0x11B000 0)" "loader_mem (entry_at 0x11B000 0) = put_bit 9 True 0"
    by (simp_all add: p1_entry_levels Let_def)
  then show ?thesis by (simp add: content_def translate_def reserved_def)
qed

definition loader_start :: kmem_st where
  "loader_start = storage_heap\<lparr>mem := loader_mem\<rparr>"

text \<open>The state behind the allocation of the open file, and the file.\<close>

definition loader_state :: kmem_st where
  "loader_state = snd (kmalloc sizeof_file loader_start)"

definition loader_file :: file_st where
  "loader_file = \<lparr>f_at = fst (kmalloc sizeof_file loader_start), f_inode = Some program_inode, f_offset = 0\<rparr>"

lemma loader_start_inv: "vm_inv loader_start loader_levels vm_example_free"
proof -
  have low: "f \<notin> vm_example_free" if "0x110000 \<le> unat f" for f using vm_example_frames(2) [of f] that by fastforce
  have "avail vm_example vm_example_free" using vm_example_inv(1) by (simp add: vm_inv_def)
  then have "avail storage_heap vm_example_free"
    by (simp add: avail_def pf_inv_def storage_heap_def kmem_example_def vm_st.defs kmem_st.defs)
  then have "avail loader_start vm_example_free" unfolding loader_start_def
  proof (rule avail_mem)
    show "loader_mem a = mem storage_heap a" if a: "page_down a \<in> vm_example_free" for a
    proof -
      have n: "page_down a \<noteq> f" if "0x110000 \<le> unat f" for f using low [OF that] a by blast
      have "page_down (entry_at t i) = t" if "page_aligned t" "unat i < 512" for t i using page_down_entry that by blast
      then have "a \<noteq> entry_at t i" if "0x110000 \<le> unat t" "page_aligned t" "unat i < 512" for t i using n [OF that(1)] that(2,3) by blast
      then show ?thesis
        using n [of "0x119000"] n [of "0x11A000"] n [of "0x11B000"]
        by (simp add: loader_mem_def grown_def zero_page_eq page_aligned_def storage_heap_def kmem_example_def vm_st.defs kmem_st.defs)
    qed
  qed
  moreover have "dom loader_levels \<inter> vm_example_free = {}"
    using low by (auto simp: loader_levels_def vm_example_levels_def split: if_splits)
  moreover have "unat f < 2 ^ 52" if "f \<in> vm_example_free" for f using vm_example_frames(2) [OF that] by simp
  ultimately show ?thesis using loader_tables by (simp add: vm_inv_def loader_start_def)
qed

lemma loader_stocked: "stocked ((\<lambda>_. 0)(5 := Suc (Suc 0), 1 := 2)) loader_start {}"
  using storage_heap_ok [of "{}"] unfolding stocked_def loader_start_def
  by (auto simp: storage_heap_fields storage_free_def heap_ok_def heap_lists_def intro!: exI [of _ storage_free])

lemma loader_ready:
  "vm_inv loader_state loader_levels vm_example_free" "CR3 loader_state = 0x115000" "mem loader_state = loader_mem" "kernel_va loader_state = 0x10000003000"
  "link loader_state = link_example" "buffers_in {(f_at loader_file - 16, 64)} {} (Suc (Suc 0)) loader_state" "kheap loader_state (f_at loader_file - 16) \<noteq> NULL"
proof -
  have pf: "pool_for sizeof_file = Some 1" "(1::nat) < NUM_POOLS" by (simp_all add: pool_for_def pool_sizes_def sizeof_file_def NUM_POOLS_def)
  have bs: "Kmalloc.block_size 1 = 64" by (simp add: Kmalloc.block_size_def pool_sizes_def)
  from kmalloc_stocked [OF loader_stocked pf] bs obtain p s' where k: "kmalloc sizeof_file loader_start = (p, s')"
    "stocked (((\<lambda>_. 0)(5 := Suc (Suc 0), 1 := 2))(1 := 1)) s' {(p - 16, 64)}" "of_pool 1 p s'" "pools_at s' = pools_at loader_start"
    by (auto simp: sizeof_file_def)
  have e: "loader_state = s'" "f_at loader_file = p" using k(1) by (simp_all add: loader_state_def loader_file_def)
  have v: "vm_of loader_state = vm_of loader_start" unfolding loader_state_def using kmalloc_vm_of [OF loader_stocked pf] by simp
  note v' = vm_of_eq [OF v]
  show "vm_inv loader_state loader_levels vm_example_free" using loader_start_inv v'(5) by simp
  show "CR3 loader_state = 0x115000" "mem loader_state = loader_mem" "kernel_va loader_state = 0x10000003000" 
    using v'(1-3) by (simp_all add: loader_start_def storage_heap_fields) (simp add: storage_heap_def kmem_example_def vm_st.defs kmem_st.defs)
  show "link loader_state = link_example"
    using v by (simp add: vm_of_def loader_start_def storage_heap_def kmem_example_def vm_st.defs kmem_st.defs)
      (simp add: vm_example_def frames_st.defs pf_example_def vm_st.defs intr_example_def)
  show "buffers_in {(f_at loader_file - 16, 64)} {} (Suc (Suc 0)) loader_state" using k(2) unfolding e
    by (simp add: buffers_in_def buffer_blocks_def fun_upd_twist)
  show "kheap loader_state (f_at loader_file - 16) \<noteq> NULL" using k(3,4) unfolding e
    by (simp add: of_pool_def pool_ptr_def loader_start_def storage_heap_fields)
qed


end
