(* ===== verification/Spec2Isabelle.thy ===== *)
theory Spec2Isabelle
  imports User_Memory Syscalls Process_Tree Md5 Disk_Queue Program_Start
begin

text \<open>Root of the development.\<close>

end
